(* ===== verification/Prelude.thy ===== *)
theory Prelude
  imports Main "HOL-Library.Word"
begin

text \<open>
  Shared ground of the development: the machine types of \<^verbatim>\<open>kernel/types.h\<close>, the result
  type of kernel operations, little-endian access to byte-addressed storage (block data
  and physical memory), and the generic lemmas on words, lists and bits that the component
  theories use through the collections \<open>kernel_simps\<close> and \<open>frame_simps\<close>.
\<close>

unbundle bit_operations_syntax

named_theorems kernel_simps "defining equations of the kernel's constants and macros"
named_theorems frame_simps "fields that an operation leaves unchanged"

section \<open>Machine types (kernel/types.h)\<close>

type_synonym uchar = "8 word"
type_synonym ushort = "16 word"
type_synonym uint = "32 word"
type_synonym uint64 = "64 word"

section \<open>Results of kernel operations\<close>

text \<open>
  A channel of \<^verbatim>\<open>sleep()\<close>/\<^verbatim>\<open>wakeup()\<close> is the address of some kernel object; each kind of
  object that the code sleeps on is a constructor.
\<close>

datatype chan =
    Chan_log
  | Chan_buf_lock nat
  | Chan_inode_lock nat
  | Chan_proc nat
  | Chan_nread uint64
  | Chan_nwrite uint64
  | Chan_ticks
  | Chan_cons_r
  | Chan_uart_tx_r
  | Chan_disk_free
  | Chan_buf nat

text \<open>
  An operation either returns a value (\<open>Inr\<close>), or stops: \<open>Panic msg\<close> is a call of
  \<^verbatim>\<open>panic(msg)\<close>, which never returns, \<open>Sleeps ch\<close> says that the calling process goes to
  sleep on \<open>ch\<close> and cannot go on unless another process acts, \<open>Fuel\<close> that the step
  bound of a loop whose end depends on memory contents has run out, \<open>Undef what\<close> that
  the C code leaves the bounds of an array, after which nothing is known, and \<open>Hangs\<close> that
  it spins forever.
\<close>

datatype kerror = Panic string | Sleeps chan | Fuel | Undef string | Hangs

type_synonym 'a res = "kerror + 'a"

definition rbind :: "'a res \<Rightarrow> ('a \<Rightarrow> 'b res) \<Rightarrow> 'b res" where
  "rbind m f = (case m of Inl e \<Rightarrow> Inl e | Inr x \<Rightarrow> f x)"

lemma rbind_simps [simp]:
  "rbind (Inl e) f = Inl e"
  "rbind (Inr x) f = f x"
  by (simp_all add: rbind_def)

lemma rbind_cong [fundef_cong]:
  "m = m' \<Longrightarrow> (\<And>x. m' = Inr x \<Longrightarrow> f x = f' x) \<Longrightarrow> rbind m f = rbind m' f'"
  by (cases m') auto

lemma rbind_eq_Inr: "rbind m f = Inr y \<longleftrightarrow> (\<exists>x. m = Inr x \<and> f x = Inr y)"
  by (cases m) auto

lemma rbind_InrE [elim]:
  assumes "rbind m f = Inr y"
  obtains x where "m = Inr x" "f x = Inr y"
  using assms by (auto simp: rbind_eq_Inr)

lemma rbind_assoc: "rbind (rbind m f) g = rbind m (\<lambda>x. rbind (f x) g)"
  by (cases m) auto

text \<open>
  A loop that sleeps in the middle keeps what it has done so far: \<open>Wait ch k\<close> says that the
  process sleeps on \<open>ch\<close> having handled \<open>k\<close> items, and goes on from there when it is woken.
\<close>

datatype outcome = Ret int | Wait chan nat

definition or_sleep :: "(outcome \<times> 's) res \<Rightarrow> (int \<times> 's) res" where
  "or_sleep r = rbind r (\<lambda>(x, s). case x of Ret v \<Rightarrow> Inr (v, s) | Wait ch _ \<Rightarrow> Inl (Sleeps ch))"

text \<open>A counting loop whose body may stop.\<close>

primrec rfold :: "('a \<Rightarrow> 's \<Rightarrow> 's res) \<Rightarrow> 'a list \<Rightarrow> 's \<Rightarrow> 's res" where
  "rfold f [] s = Inr s"
| "rfold f (x # xs) s = rbind (f x s) (rfold f xs)"

lemma rfold_append: "rfold f (xs @ ys) s = rbind (rfold f xs s) (rfold f ys)"
  by (induction xs arbitrary: s) (auto simp: rbind_def split: sum.split)

text \<open>The invariant rule for such a loop: every round succeeds and re-establishes \<open>I\<close>.\<close>

lemma rfold_invariant:
  assumes "I 0 s" "\<And>k s. k < length xs \<Longrightarrow> I k s \<Longrightarrow> \<exists>s'. f (xs ! k) s = Inr s' \<and> I (Suc k) s'"
  shows "\<exists>s'. rfold f xs s = Inr s' \<and> I (length xs) s'"
  using assms
proof (induction xs arbitrary: s I)
  case Nil
  then show ?case by simp
next
  case (Cons x xs)
  obtain s1 where s1: "f x s = Inr s1" "I (Suc 0) s1" using Cons.prems(2) [of 0] Cons.prems(1) by auto
  have "\<exists>s'. rfold f xs s1 = Inr s' \<and> I (Suc (length xs)) s'"
    using s1(2) Cons.prems(2) by (intro Cons.IH [of "\<lambda>k. I (Suc k)"]) fastforce+
  with s1 show ?case by simp
qed

section \<open>Little-endian numbers\<close>

fun of_le :: "uchar list \<Rightarrow> nat" where
  "of_le [] = 0"
| "of_le (b # bs) = unat b + 256 * of_le bs"

fun to_le :: "nat \<Rightarrow> nat \<Rightarrow> uchar list" where
  "to_le 0 v = []"
| "to_le (Suc k) v = word_of_nat v # to_le k (v div 256)"

lemma unat_uchar_less [simp]: "unat (b::uchar) < 256"
  using unsigned_less [of b] by simp

lemma length_to_le [simp]: "length (to_le k v) = k"
  by (induction k arbitrary: v) auto

lemma of_le_to_le: "of_le (to_le k v) = v mod 256 ^ k"
proof (induction k arbitrary: v)
  case 0
  then show ?case by simp
next
  case (Suc k)
  then show ?case by (simp add: unat_of_nat mod_mult2_eq)
qed

lemma to_le_of_le: "to_le (length bs) (of_le bs) = bs"
proof (induction bs)
  case Nil
  then show ?case by simp
next
  case (Cons b bs)
  have "(unat b + 256 * of_le bs) div 256 = of_le bs"
    using unat_uchar_less [of b] by simp
  moreover have "word_of_nat (unat b + 256 * of_le bs) = b"
  proof -
    have z: "(256 :: uchar) = 0" by simp
    have "(256 :: uchar) * word_of_nat (of_le bs) = 0" by (subst z) simp
    then show ?thesis by simp
  qed
  ultimately show ?case using Cons by simp
qed

lemma of_le_less: "of_le bs < 256 ^ length bs"
proof (induction bs)
  case Nil
  then show ?case by simp
next
  case (Cons b bs)
  then have "of_le bs + 1 \<le> 256 ^ length bs" by simp
  then have "256 * of_le bs + 256 \<le> 256 * 256 ^ length bs" by simp
  then have "unat b + 256 * of_le bs < 256 * 256 ^ length bs"
    using unat_uchar_less [of b] by linarith
  then show ?case by simp
qed

section \<open>Storage addressed by bytes\<close>

text \<open>
  \<open>f :: nat \<Rightarrow> uchar\<close> is the data of one disk block (\<^verbatim>\<open>uchar data[BSIZE]\<close>), and
  \<open>f :: uint64 \<Rightarrow> uchar\<close> is physical memory. \<open>load_bytes\<close> and \<open>store_bytes\<close> are the
  accesses of C through a pointer to a larger object.
\<close>

definition load_bytes :: "('i::semiring_1 \<Rightarrow> uchar) \<Rightarrow> 'i \<Rightarrow> nat \<Rightarrow> uchar list" where
  "load_bytes f a n = map (\<lambda>i. f (a + of_nat i)) [0..<n]"

fun store_bytes :: "('i::semiring_1 \<Rightarrow> uchar) \<Rightarrow> 'i \<Rightarrow> uchar list \<Rightarrow> ('i \<Rightarrow> uchar)" where
  "store_bytes f a [] = f"
| "store_bytes f a (b # bs) = store_bytes (f(a := b)) (a + 1) bs"

lemma length_load_bytes [simp]: "length (load_bytes f a n) = n"
  by (simp add: load_bytes_def)

lemma nth_load_bytes [simp]: "i < n \<Longrightarrow> load_bytes f a n ! i = f (a + of_nat i)"
  by (simp add: load_bytes_def)

lemma store_bytes_nat:
  "store_bytes f (a::nat) bs x = (if a \<le> x \<and> x < a + length bs then bs ! (x - a) else f x)"
proof (induction bs arbitrary: f a)
  case Nil
  then show ?case by auto
next
  case (Cons b bs)
  show ?case
  proof (cases "x = a")
    case True
    then show ?thesis unfolding store_bytes.simps Cons.IH by auto
  next
    case False
    then show ?thesis unfolding store_bytes.simps Cons.IH by (auto simp: nth_Cons')
  qed
qed

lemma unat_diff_Suc:
  fixes x a :: "'a::len word"
  assumes "x \<noteq> a"
  shows "unat (x - a) = Suc (unat (x - (a + 1)))"
proof -
  have "x - a \<noteq> 0" using assms by simp
  then have "unat (x - a) = Suc (unat (x - a - 1))"
    by (metis Suc_pred' unat_eq_zero unat_minus_one bot_nat_0.not_eq_extremum)
  then show ?thesis by (simp add: algebra_simps)
qed

lemma store_bytes_word:
  fixes a x :: "'w::len word"
  assumes "length bs < 2 ^ LENGTH('w)"
  shows "store_bytes f a bs x = (if unat (x - a) < length bs then bs ! unat (x - a) else f x)"
  using assms
proof (induction bs arbitrary: f a)
  case Nil
  then show ?case by simp
next
  case (Cons b bs)
  show ?case
  proof (cases "x = a")
    case True
    have "a - (a + 1) = (-1 :: 'w word)" by simp
    then have "unat (a - (a + 1)) \<ge> length bs"
      using Cons.prems by (simp add: unsigned_minus_1_eq_mask mask_eq_exp_minus_1)
    with True Cons show ?thesis by simp
  next
    case False
    with Cons show ?thesis by (simp add: unat_diff_Suc)
  qed
qed

lemma load_store_bytes_nat:
  "load_bytes (store_bytes f (a::nat) bs) a (length bs) = bs"
  by (rule nth_equalityI) (auto simp: store_bytes_nat)

lemma load_store_bytes_nat_disj:
  "b + n \<le> a \<or> a + length bs \<le> b \<Longrightarrow>
   load_bytes (store_bytes f (a::nat) bs) b n = load_bytes f b n"
  by (rule nth_equalityI) (auto simp: store_bytes_nat)

lemma unat_of_nat_small: "i < 2 ^ LENGTH('w) \<Longrightarrow> unat (word_of_nat i :: 'w::len word) = i"
  by (simp add: unat_of_nat)

lemma unat_uint_less: "unat (n::uint) < 2 ^ 32"
  using unsigned_less [of n] by simp

lemma unat_uint64_less: "unat (a::uint64) < 2 ^ 64"
  using unsigned_less [of a] by simp

lemma take_bit_unat_uint64 [simp]: "take_bit 64 (unat (a::uint64)) = unat a"
  by (rule take_bit_nat_eq_self [OF unat_uint64_less])

lemma unat_ucast_uint [simp]: "unat (ucast (n::uint) :: uint64) = unat n"
proof -
  have "unat n < 2 ^ 64" using unat_uint_less [of n] by simp
  then show ?thesis by (simp add: unsigned_ucast_eq take_bit_nat_eq_self)
qed

lemma word_of_nat_unat_uint: "(word_of_nat (unat (n::uint)) :: uint64) = ucast n"
  using unat_uint_less [of n] by (simp add: word_unat_eq_iff unat_of_nat)

lemma load_store_bytes_word:
  fixes a :: "'w::len word"
  assumes "length bs < 2 ^ LENGTH('w)"
  shows "load_bytes (store_bytes f a bs) a (length bs) = bs"
  using assms by (intro nth_equalityI) (auto simp: store_bytes_word unat_of_nat_small)

lemma unat_diff_add_of_nat:
  fixes a b :: "'w::len word"
  assumes "i < unat (a - b)"
  shows "unat (b + of_nat i - a) = unat (b - a) + i"
proof -
  have ne: "a \<noteq> b" using assms by auto
  have sum: "unat (a - b) + unat (b - a) = 2 ^ LENGTH('w)"
  proof -
    have arith: "(if y \<le> x then x - y else x + N - y) + (if x \<le> y then y - x else y + N - x) = N"
      if "x < N" "y < N" "x \<noteq> y" for x y N :: nat
      using that by auto
    have "unat a < 2 ^ LENGTH('w)" "unat b < 2 ^ LENGTH('w)" by (rule unsigned_less)+
    moreover have "unat a \<noteq> unat b" using ne by (simp add: word_unat_eq_iff)
    ultimately show ?thesis unfolding unat_sub_if' by (rule arith)
  qed
  then have lt: "unat (b - a) + i < 2 ^ LENGTH('w)" using assms by linarith
  have "b + of_nat i - a = (b - a) + of_nat i" by simp
  also have "unat \<dots> = unat (b - a) + i"
    using lt by (simp add: unat_word_ariths unat_of_nat mod_add_right_eq)
  finally show ?thesis .
qed

lemma load_store_bytes_word_disj:
  fixes a b :: "'w::len word"
  assumes "length bs < 2 ^ LENGTH('w)" "n \<le> unat (a - b)" "length bs \<le> unat (b - a)"
  shows "load_bytes (store_bytes f a bs) b n = load_bytes f b n"
  using assms by (intro nth_equalityI) (auto simp: store_bytes_word unat_diff_add_of_nat)

subsection \<open>Objects of 2, 4 and 8 bytes\<close>

definition get16 :: "('i::semiring_1 \<Rightarrow> uchar) \<Rightarrow> 'i \<Rightarrow> ushort" where
  "get16 f a = word_of_nat (of_le (load_bytes f a 2))"

definition get32 :: "('i::semiring_1 \<Rightarrow> uchar) \<Rightarrow> 'i \<Rightarrow> uint" where
  "get32 f a = word_of_nat (of_le (load_bytes f a 4))"

definition get64 :: "('i::semiring_1 \<Rightarrow> uchar) \<Rightarrow> 'i \<Rightarrow> uint64" where
  "get64 f a = word_of_nat (of_le (load_bytes f a 8))"

definition set16 :: "('i::semiring_1 \<Rightarrow> uchar) \<Rightarrow> 'i \<Rightarrow> ushort \<Rightarrow> ('i \<Rightarrow> uchar)" where
  "set16 f a v = store_bytes f a (to_le 2 (unat v))"

definition set32 :: "('i::semiring_1 \<Rightarrow> uchar) \<Rightarrow> 'i \<Rightarrow> uint \<Rightarrow> ('i \<Rightarrow> uchar)" where
  "set32 f a v = store_bytes f a (to_le 4 (unat v))"

definition set64 :: "('i::semiring_1 \<Rightarrow> uchar) \<Rightarrow> 'i \<Rightarrow> uint64 \<Rightarrow> ('i \<Rightarrow> uchar)" where
  "set64 f a v = store_bytes f a (to_le 8 (unat v))"

lemma word_of_nat_of_le_to_le:
  "256 ^ k = (2::nat) ^ LENGTH('w::len) \<Longrightarrow> word_of_nat (of_le (to_le k (unat (v::'w word)))) = v"
  by (simp add: of_le_to_le)

lemma get_set_nat [simp]:
  fixes a :: nat
  shows "get16 (set16 f a v) a = v" "get32 (set32 f a w) a = w" "get64 (set64 f a x) a = x"
  using load_store_bytes_nat [of f a "to_le 2 (unat v)"]
    load_store_bytes_nat [of f a "to_le 4 (unat w)"] load_store_bytes_nat [of f a "to_le 8 (unat x)"]
  by (simp_all add: get16_def set16_def get32_def set32_def get64_def set64_def
      word_of_nat_of_le_to_le)

lemma get_set_word [simp]:
  fixes a :: uint64
  shows "get16 (set16 f a v) a = v" "get32 (set32 f a w) a = w" "get64 (set64 f a x) a = x"
  using load_store_bytes_word [of "to_le 2 (unat v)" f a]
    load_store_bytes_word [of "to_le 4 (unat w)" f a]
    load_store_bytes_word [of "to_le 8 (unat x)" f a]
  by (simp_all add: get16_def set16_def get32_def set32_def get64_def set64_def
      word_of_nat_of_le_to_le)

lemma get_set_nat_disj:
  fixes a b :: nat
  shows "b + 2 \<le> a \<or> a + k \<le> b \<Longrightarrow> length bs = k \<Longrightarrow> get16 (store_bytes f a bs) b = get16 f b"
    "b + 4 \<le> a \<or> a + k \<le> b \<Longrightarrow> length bs = k \<Longrightarrow> get32 (store_bytes f a bs) b = get32 f b"
    "b + 8 \<le> a \<or> a + k \<le> b \<Longrightarrow> length bs = k \<Longrightarrow> get64 (store_bytes f a bs) b = get64 f b"
  by (auto simp: get16_def get32_def get64_def load_store_bytes_nat_disj)

lemma get_set_disj:
  fixes a b :: nat
  shows "b + 2 \<le> a \<or> a + 2 \<le> b \<Longrightarrow> get16 (set16 f a v) b = get16 f b"
    "b + 2 \<le> a \<or> a + 4 \<le> b \<Longrightarrow> get16 (set32 f a w) b = get16 f b"
    "b + 4 \<le> a \<or> a + 2 \<le> b \<Longrightarrow> get32 (set16 f a v) b = get32 f b"
    "b + 4 \<le> a \<or> a + 4 \<le> b \<Longrightarrow> get32 (set32 f a w) b = get32 f b"
  by (simp_all add: set16_def set32_def get_set_nat_disj [where k = 2] get_set_nat_disj [where k = 4])

lemma get64_set64_word_disj:
  fixes a b :: uint64
  assumes "8 \<le> unat (a - b)" "8 \<le> unat (b - a)"
  shows "get64 (set64 f a v) b = get64 f b"
  using assms by (simp add: get64_def set64_def load_store_bytes_word_disj)

end
