(* ===== verification/Layout.thy ===== *)
theory Layout
  imports Prelude
begin

text \<open>
  The constants and macros of \<^verbatim>\<open>kernel/param.h\<close>, \<^verbatim>\<open>kernel/memlayout.h\<close>, \<^verbatim>\<open>kernel/riscv.h\<close>
  and \<^verbatim>\<open>kernel/fs.h\<close>, with the arithmetic facts about page rounding, page-table entries and
  the three page-table indices of a virtual address.
\<close>

section \<open>Parameters\<close>

definition NPROC :: nat where [simp]: "NPROC = 64"
definition NCPU :: nat where [simp]: "NCPU = 8"
definition NOFILE :: nat where [simp]: "NOFILE = 16"
definition NFILE :: nat where [simp]: "NFILE = 100"
definition NINODE :: nat where [simp]: "NINODE = 50"
definition NDEV :: nat where [simp]: "NDEV = 10"
definition ROOTDEV :: uint where [simp]: "ROOTDEV = 1"
definition MAXARG :: nat where [simp]: "MAXARG = 32"
definition MAXOPBLOCKS :: nat where [simp]: "MAXOPBLOCKS = 10"
definition LOGSIZE :: nat where [simp]: "LOGSIZE = MAXOPBLOCKS * 3"
definition NBUF :: nat where [simp]: "NBUF = MAXOPBLOCKS * 3"
definition MAXPATH :: nat where [simp]: "MAXPATH = 128"

section \<open>Pages and physical memory\<close>

definition PGSIZE :: uint64 where [simp]: "PGSIZE = 4096"
definition PGROUNDUP :: "uint64 \<Rightarrow> uint64" where
  "PGROUNDUP sz = (sz + PGSIZE - 1) AND NOT (PGSIZE - 1)"
definition PGROUNDDOWN :: "uint64 \<Rightarrow> uint64" where
  "PGROUNDDOWN a = a AND NOT (PGSIZE - 1)"

definition KERNBASE :: uint64 where [simp]: "KERNBASE = 0x80000000"
definition PHYSTOP :: uint64 where [simp]: "PHYSTOP = KERNBASE + 128 * 1024 * 1024"
definition MAXVA :: uint64 where [simp]: "MAXVA = push_bit (9 + 9 + 9 + 12 - 1) 1"
definition TRAMPOLINE :: uint64 where [simp]: "TRAMPOLINE = MAXVA - PGSIZE"
definition KSTACK :: "nat \<Rightarrow> uint64" where
  "KSTACK p = TRAMPOLINE - (of_nat p + 1) * 2 * PGSIZE"
definition TRAPFRAME :: uint64 where [simp]: "TRAPFRAME = TRAMPOLINE - PGSIZE"

lemma and_not_4095: "a AND - 4096 = push_bit 12 (drop_bit 12 (a :: uint64))"
proof -
  have m: "(- 4096 :: uint64) = NOT (mask 12)" by (simp add: mask_eq_exp_minus_1)
  show ?thesis unfolding m
    by (rule bit_word_eqI) (auto simp: bit_simps)
qed

lemma unat_push_drop_12: "unat (push_bit 12 (drop_bit 12 (a :: uint64))) = unat a div 4096 * 4096"
proof -
  have "unat a < 2 ^ 64" by (rule unat_uint64_less)
  then have lt: "unat a div 4096 * 4096 < 2 ^ 64" by linarith
  have "unat (push_bit 12 (drop_bit 12 a)) = take_bit 64 (push_bit 12 (drop_bit 12 (unat a)))"
    by (simp add: unsigned_push_bit_eq unsigned_drop_bit_eq)
  also have "\<dots> = unat a div 4096 * 4096"
    using lt by (simp add: push_bit_eq_mult drop_bit_eq_div take_bit_nat_eq_self)
  finally show ?thesis .
qed

lemma unat_PGROUNDDOWN: "unat (PGROUNDDOWN a) = unat a div 4096 * 4096"
  by (simp add: PGROUNDDOWN_def and_not_4095 unat_push_drop_12)

lemma unat_PGROUNDUP:
  assumes "unat sz + 4095 < 2 ^ 64"
  shows "unat (PGROUNDUP sz) = (unat sz + 4095) div 4096 * 4096"
proof -
  have "unat (sz + 4095) = unat sz + 4095"
    using assms unat_add_lem [of sz 4095] by simp
  then show ?thesis by (simp add: PGROUNDUP_def and_not_4095 unat_push_drop_12 add.commute)
qed

definition page_aligned :: "uint64 \<Rightarrow> bool" where
  "page_aligned a \<longleftrightarrow> a mod PGSIZE = 0"

lemma page_aligned_iff: "page_aligned a \<longleftrightarrow> unat a mod 4096 = 0"
  by (simp add: page_aligned_def word_unat_eq_iff unat_mod)

lemma page_aligned_PGROUNDDOWN [simp]: "page_aligned (PGROUNDDOWN a)"
  by (simp add: page_aligned_iff unat_PGROUNDDOWN)

lemma page_aligned_PGROUNDUP [simp]: "page_aligned (PGROUNDUP a)"
  by (simp add: page_aligned_iff PGROUNDUP_def and_not_4095 unat_push_drop_12)

lemma page_aligned_diff:
  assumes "page_aligned a" "page_aligned b" "a \<noteq> b"
  shows "4096 \<le> unat (a - b)" "unat (a - b) + 4096 \<le> 2 ^ 64"
proof -
  have "unat (a - b) mod 4096 = 0"
  proof -
    obtain k l where k: "unat a = 4096 * k" and l: "unat b = 4096 * l"
      using assms(1,2) by (auto simp: page_aligned_iff mod_eq_0_iff_dvd elim!: dvdE)
    have "unat a + 2 ^ 64 - unat b = 4096 * (k + 2 ^ 52) - 4096 * l" using k l by simp
    then show ?thesis
      using k l by (simp add: unat_sub_if' flip: diff_mult_distrib2)
  qed
  moreover have "unat (a - b) \<noteq> 0" using assms(3) by (simp add: unat_eq_zero)
  moreover have "unat (a - b) < 2 ^ 64" by (rule unat_uint64_less)
  ultimately obtain q where q: "unat (a - b) = 4096 * q" "q \<noteq> 0" "4096 * q < 2 ^ 64"
    by (auto simp: mod_eq_0_iff_dvd elim!: dvdE)
  from q show "4096 \<le> unat (a - b)" by simp
  from q(3) have "q < 2 ^ 52" by simp
  then show "unat (a - b) + 4096 \<le> 2 ^ 64" using q(1) by simp
qed

section \<open>Page-table entries\<close>

definition PTE_V :: uint64 where [simp]: "PTE_V = 1"
definition PTE_R :: uint64 where [simp]: "PTE_R = 2"
definition PTE_W :: uint64 where [simp]: "PTE_W = 4"
definition PTE_X :: uint64 where [simp]: "PTE_X = 8"
definition PTE_U :: uint64 where [simp]: "PTE_U = 16"

definition PA2PTE :: "uint64 \<Rightarrow> uint64" where
  "PA2PTE pa = push_bit 10 (drop_bit 12 pa)"
definition PTE2PA :: "uint64 \<Rightarrow> uint64" where
  "PTE2PA pte = push_bit 12 (drop_bit 10 pte)"
definition PTE_FLAGS :: "uint64 \<Rightarrow> uint64" where
  "PTE_FLAGS pte = pte AND 0x3FF"
definition PXSHIFT :: "nat \<Rightarrow> nat" where
  "PXSHIFT level = 12 + 9 * level"
definition PX :: "nat \<Rightarrow> uint64 \<Rightarrow> uint64" where
  "PX level va = drop_bit (PXSHIFT level) va AND 0x1FF"

lemma mask_10: "(0x3FF :: uint64) = mask 10" and mask_9: "(0x1FF :: uint64) = mask 9"
  by (simp_all add: mask_eq_exp_minus_1)

lemma unat_PX: "unat (PX level va) = unat va div 2 ^ (12 + 9 * level) mod 512"
proof -
  have "PX level va = take_bit 9 (drop_bit (12 + 9 * level) va)"
    by (simp only: PX_def mask_9 PXSHIFT_def take_bit_eq_mask)
  then have "unat (PX level va) = take_bit 9 (drop_bit (12 + 9 * level) (unat va))"
    by (simp only: unsigned_take_bit_eq unsigned_drop_bit_eq) simp
  then show ?thesis by (simp add: take_bit_nat_def drop_bit_nat_def)
qed

lemma unat_PX_less: "unat (PX level va) < 512"
  by (simp add: unat_PX)

text \<open>The index fields and the offset determine a virtual address below \<^verbatim>\<open>MAXVA\<close>.\<close>

lemma va_decompose:
  assumes "va < MAXVA"
  shows "unat va = unat (PX 2 va) * 1073741824 + unat (PX 1 va) * 2097152 + unat (PX 0 va) * 4096
    + unat va mod 4096"
proof -
  have lt: "unat va < 2 ^ 38" using assms by (simp add: word_less_nat_alt)
  have e: "v = v div 1073741824 mod 512 * 1073741824 + v div 2097152 mod 512 * 2097152
      + v div 4096 mod 512 * 4096 + v mod 4096" if "v < 2 ^ 38" for v :: nat
  proof -
    define a b c where "a = v div 4096" and "b = a div 512" and "c = b div 512"
    have d: "v div 2097152 = b" "v div 1073741824 = c"
      by (simp_all add: a_def b_def c_def flip: div_mult2_eq)
    have "c < 512" using that by (simp add: a_def b_def c_def flip: div_mult2_eq)
    then have "c mod 512 = c" by simp
    moreover have "v = a * 4096 + v mod 4096" "a = b * 512 + a mod 512" "b = c * 512 + b mod 512"
      by (simp_all add: a_def b_def c_def)
    ultimately show ?thesis unfolding d a_def [symmetric] by linarith
  qed
  have "unat (PX 2 va) = unat va div 1073741824 mod 512" "unat (PX 1 va) = unat va div 2097152 mod 512"
    "unat (PX 0 va) = unat va div 4096 mod 512"
    by (simp_all only: unat_PX) simp_all
  then show ?thesis using e [OF lt] by (simp only:)
qed

lemma bit_flags_high: "unat (fl::uint64) < 1024 \<Longrightarrow> 10 \<le> n \<Longrightarrow> \<not> bit fl n"
proof -
  assume lt: "unat fl < 1024" and n: "10 \<le> n"
  have "take_bit 10 (unat fl) = unat fl" using lt by (simp add: take_bit_nat_eq_self_iff)
  then have "take_bit 10 fl = fl" by (simp add: word_unat_eq_iff unsigned_take_bit_eq)
  then have "bit fl n = bit (take_bit 10 fl) n" by simp
  with n show ?thesis by (simp add: bit_take_bit_iff)
qed

lemma bit_page_aligned_low: "page_aligned pa \<Longrightarrow> n < 12 \<Longrightarrow> \<not> bit pa n"
proof -
  assume a: "page_aligned pa" and n: "n < 12"
  have "take_bit 12 pa = 0" using a by (simp add: page_aligned_def take_bit_eq_mod)
  then have "bit (take_bit 12 pa) n = False" by simp
  with n show ?thesis by (simp add: bit_take_bit_iff)
qed

lemma PTE2PA_PA2PTE:
  assumes "page_aligned pa" "unat fl < 1024"
  shows "PTE2PA (PA2PTE pa OR fl) = pa"
proof (rule bit_word_eqI)
  fix n assume n: "n < LENGTH(64)"
  show "bit (PTE2PA (PA2PTE pa OR fl)) n = bit pa n"
  proof (cases "n < 12")
    case True
    with assms show ?thesis by (simp add: PTE2PA_def bit_simps bit_page_aligned_low)
  next
    case False
    have "\<not> bit fl (n - 2)" using assms(2) False by (intro bit_flags_high) auto
    with n False show ?thesis by (auto simp: PTE2PA_def PA2PTE_def bit_simps)
  qed
qed

lemma PTE_FLAGS_PA2PTE:
  assumes "unat fl < 1024"
  shows "PTE_FLAGS (PA2PTE pa OR fl) = fl"
  unfolding PTE_FLAGS_def mask_10
proof (rule bit_word_eqI)
  fix n assume "n < LENGTH(64)"
  show "bit ((PA2PTE pa OR fl) AND mask 10) n = bit fl n"
    using assms bit_flags_high [of fl n]
    by (cases "10 \<le> n") (auto simp: PA2PTE_def bit_simps not_less)
qed

lemma page_aligned_PTE2PA [simp]: "page_aligned (PTE2PA pte)"
proof -
  have "take_bit 12 (PTE2PA pte) = 0"
    unfolding PTE2PA_def by (rule bit_word_eqI) (auto simp: bit_simps)
  then show ?thesis by (simp add: page_aligned_def take_bit_eq_mod)
qed

section \<open>On-disk layout (kernel/fs.h)\<close>

definition ROOTINO :: uint where [simp]: "ROOTINO = 1"
definition BSIZE :: nat where [simp]: "BSIZE = 1024"
definition FSMAGIC :: uint where [simp]: "FSMAGIC = 0x10203040"
definition NDIRECT :: nat where [simp]: "NDIRECT = 12"
definition NINDIRECT :: nat where [simp]: "NINDIRECT = BSIZE div 4"
definition MAXFILE :: nat where [simp]: "MAXFILE = NDIRECT + NINDIRECT"
definition IPB :: nat where [simp]: "IPB = BSIZE div 64"
definition BPB :: nat where [simp]: "BPB = BSIZE * 8"
definition DIRSIZ :: nat where [simp]: "DIRSIZ = 14"

end
