(* ===== verification/Kstring.thy ===== *)
theory Kstring
  imports Prelude
begin

text \<open>
  The string and memory routines of \<^verbatim>\<open>kernel/string.c\<close>. Memory is a function from addresses to bytes. A pointer to
  \<^verbatim>\<open>const char\<close> that is only read is its \<^emph>\<open>view\<close>: the function \<open>i \<mapsto> p[i]\<close>. A destination
  array is a function that is returned updated.
\<close>

section \<open>Memory routines\<close>

subsection \<open>memset\<close>

function memset_from :: "('i::semiring_1 \<Rightarrow> uchar) \<Rightarrow> 'i \<Rightarrow> uchar \<Rightarrow> nat \<Rightarrow> nat \<Rightarrow> ('i \<Rightarrow> uchar)" where
  "memset_from m dst c i n =
     (if i < n then memset_from (m(dst + of_nat i := c)) dst c (Suc i) n else m)"
  by pat_completeness auto
termination
  by (relation "measure (\<lambda>(m, dst, c, i, n). n - i)") auto

declare memset_from.simps [simp del]

definition memset :: "('i::semiring_1 \<Rightarrow> uchar) \<Rightarrow> 'i \<Rightarrow> uchar \<Rightarrow> nat \<Rightarrow> ('i \<Rightarrow> uchar)" where
  "memset m dst c n = memset_from m dst c 0 n"

lemma memset_from_apply:
  "memset_from m dst c i n x = (if \<exists>k. i \<le> k \<and> k < n \<and> x = dst + of_nat k then c else m x)"
proof (induction m dst c i n rule: memset_from.induct)
  case (1 m dst c i n)
  show ?case
  proof (cases "i < n")
    case True
    have E: "(\<exists>k. i \<le> k \<and> k < n \<and> x = dst + of_nat k) \<longleftrightarrow>
        x = dst + of_nat i \<or> (\<exists>k. Suc i \<le> k \<and> k < n \<and> x = dst + of_nat k)"
      using True by (metis Suc_le_eq le_eq_less_or_eq)
    have "memset_from m dst c i n x = memset_from (m(dst + of_nat i := c)) dst c (Suc i) n x"
      using True by (simp add: memset_from.simps [of m dst c i n])
    also have "\<dots> = (if \<exists>k. Suc i \<le> k \<and> k < n \<and> x = dst + of_nat k then c
        else (m(dst + of_nat i := c)) x)"
      by (rule "1.IH" [OF True])
    finally show ?thesis by (simp only: E fun_upd_apply split: if_split) blast
  next
    case False
    then show ?thesis by (subst memset_from.simps) auto
  qed
qed

lemma memset_apply: "memset m dst c n x = (if \<exists>k<n. x = dst + of_nat k then c else m x)"
  by (simp add: memset_def memset_from_apply)

lemma memset_nat: "memset m (dst::nat) c n x = (if dst \<le> x \<and> x < dst + n then c else m x)"
proof -
  have "(\<exists>k<n. x = dst + k) \<longleftrightarrow> dst \<le> x \<and> x < dst + n"
    by (auto intro: exI [of _ "x - dst"])
  then show ?thesis by (simp add: memset_apply)
qed

lemma memset_word:
  fixes dst :: "'w::len word"
  assumes "n \<le> 2 ^ LENGTH('w)"
  shows "memset m dst c n x = (if unat (x - dst) < n then c else m x)"
proof -
  have "(\<exists>k<n. x = dst + word_of_nat k) \<longleftrightarrow> unat (x - dst) < n"
  proof
    assume "\<exists>k<n. x = dst + word_of_nat k"
    then show "unat (x - dst) < n" using assms by (auto simp: unat_of_nat_small)
  next
    assume "unat (x - dst) < n"
    then show "\<exists>k<n. x = dst + word_of_nat k" by (intro exI [of _ "unat (x - dst)"]) simp
  qed
  then show ?thesis by (simp add: memset_apply)
qed

subsection \<open>memmove\<close>

text \<open>\<^verbatim>\<open>while(n-- > 0) *d++ = *s++;\<close>\<close>

fun copy_up :: "(uint64 \<Rightarrow> uchar) \<Rightarrow> uint64 \<Rightarrow> uint64 \<Rightarrow> nat \<Rightarrow> (uint64 \<Rightarrow> uchar)" where
  "copy_up m d s 0 = m"
| "copy_up m d s (Suc n) = copy_up (m(d := m s)) (d + 1) (s + 1) n"

text \<open>\<^verbatim>\<open>while(n-- > 0) *--d = *--s;\<close>\<close>

fun copy_down :: "(uint64 \<Rightarrow> uchar) \<Rightarrow> uint64 \<Rightarrow> uint64 \<Rightarrow> nat \<Rightarrow> (uint64 \<Rightarrow> uchar)" where
  "copy_down m d s 0 = m"
| "copy_down m d s (Suc n) = copy_down (m(d - 1 := m (s - 1))) (d - 1) (s - 1) n"

definition memmove :: "(uint64 \<Rightarrow> uchar) \<Rightarrow> uint64 \<Rightarrow> uint64 \<Rightarrow> uint \<Rightarrow> (uint64 \<Rightarrow> uchar)" where
  "memmove m dst src n =
     (if n = 0 then m
      else if src < dst \<and> src + ucast n > dst
      then copy_down m (dst + ucast n) (src + ucast n) (unat n)
      else copy_up m dst src (unat n))"

definition memcpy :: "(uint64 \<Rightarrow> uchar) \<Rightarrow> uint64 \<Rightarrow> uint64 \<Rightarrow> uint \<Rightarrow> (uint64 \<Rightarrow> uchar)" where
  "memcpy m dst src n = memmove m dst src n"

text \<open>What a move must do: every destination byte gets the \<^emph>\<open>original\<close> source byte.\<close>

definition moved :: "(uint64 \<Rightarrow> uchar) \<Rightarrow> uint64 \<Rightarrow> uint64 \<Rightarrow> nat \<Rightarrow> (uint64 \<Rightarrow> uchar)" where
  "moved m dst src n = (\<lambda>x. if unat (x - dst) < n then m (src + (x - dst)) else m x)"

lemma word_no_wrap_add:
  fixes a :: uint64
  assumes "unat a + n \<le> 2 ^ 64" "i < n"
  shows "unat (a + of_nat i) = unat a + i"
proof -
  have "i < 2 ^ 64" using assms by simp
  then show ?thesis using assms by (simp add: unat_word_ariths unat_of_nat_small)
qed

lemma copy_up_moved:
  assumes "unat d + n \<le> 2 ^ 64" "unat s + n \<le> 2 ^ 64" "d \<le> s \<or> unat s + n \<le> unat d"
  shows "copy_up m d s n = moved m d s n"
  using assms
proof (induction m d s n rule: copy_up.induct)
  case (1 m d s)
  then show ?case by (simp add: moved_def)
next
  case (2 m d s n)
  show ?case
  proof (cases n)
    case 0
    then show ?thesis by (auto simp: moved_def fun_eq_iff unat_eq_zero)
  next
    case (Suc n')
    have d1: "unat (d + 1) = Suc (unat d)" and s1: "unat (s + 1) = Suc (unat s)"
      using "2.prems" Suc word_no_wrap_add [of d "Suc n" 1] word_no_wrap_add [of s "Suc n" 1] by auto
    have IH: "copy_up (m(d := m s)) (d + 1) (s + 1) n = moved (m(d := m s)) (d + 1) (s + 1) n"
      using "2.prems" d1 s1 by (intro "2.IH") (auto simp: word_le_nat_alt)
    show ?thesis
    proof
      fix x
      show "copy_up m d s (Suc n) x = moved m d s (Suc n) x"
      proof (cases "x = d")
        case True
        have "unat (d - (d + 1)) = 2 ^ 64 - 1"
          by (simp add: unsigned_minus_1_eq_mask mask_eq_exp_minus_1)
        then have "\<not> unat (d - (d + 1)) < n" using "2.prems" by simp
        with True show ?thesis using IH by (simp add: moved_def)
      next
        case False
        then have u: "unat (x - d) = Suc (unat (x - (d + 1)))" by (rule unat_diff_Suc)
        have e: "s + 1 + (x - (d + 1)) = s + (x - d)" by simp
        have "s + (x - d) \<noteq> d" if lt: "unat (x - (d + 1)) < n"
        proof
          assume eq: "s + (x - d) = d"
          have "unat (s + (x - d)) = unat s + unat (x - d)"
            using word_no_wrap_add [of s "Suc n" "unat (x - d)"] "2.prems"(2) lt u by simp
          then have "unat d = unat s + unat (x - d)" unfolding eq .
          with "2.prems"(3) lt u show False by (auto simp: word_le_nat_alt)
        qed
        with IH u e False show ?thesis by (simp add: moved_def)
      qed
    qed
  qed
qed

lemma copy_down_moved:
  assumes "unat d + n \<le> 2 ^ 64" "unat s + n \<le> 2 ^ 64" "s \<le> d \<or> unat d + n \<le> unat s"
  shows "copy_down m (d + of_nat n) (s + of_nat n) n = moved m d s n"
  using assms
proof (induction n arbitrary: m)
  case 0
  then show ?case by (simp add: moved_def)
next
  case (Suc n)
  let ?m = "m(d + of_nat n := m (s + of_nat n))"
  have step: "copy_down m (d + of_nat (Suc n)) (s + of_nat (Suc n)) (Suc n) =
      copy_down ?m (d + of_nat n) (s + of_nat n) n"
    by (simp add: algebra_simps)
  have IH: "copy_down ?m (d + of_nat n) (s + of_nat n) n = moved ?m d s n"
    using Suc.prems by (intro Suc.IH) auto
  have dn: "unat (d + of_nat n) = unat d + n"
    using word_no_wrap_add [of d "Suc n" n] Suc.prems by simp
  have "moved ?m d s n x = moved m d s (Suc n) x" for x
  proof (cases "unat (x - d) < n")
    case True
    have "unat (s + (x - d)) = unat s + unat (x - d)"
      using word_no_wrap_add [of s "Suc n" "unat (x - d)"] Suc.prems True by simp
    then have "s + (x - d) \<noteq> d + of_nat n"
      using Suc.prems(3) dn True by (auto simp: word_le_nat_alt word_unat_eq_iff)
    with True show ?thesis by (simp add: moved_def)
  next
    case False
    show ?thesis
    proof (cases "x = d + of_nat n")
      case True
      then have "unat (x - d) = n" using Suc.prems by (simp add: unat_of_nat_small)
      with True show ?thesis by (simp add: moved_def)
    next
      case ne: False
      have "x = d + of_nat (unat (x - d))" by simp
      with ne have "unat (x - d) \<noteq> n" by metis
      with False ne show ?thesis by (simp add: moved_def)
    qed
  qed
  with step IH show ?case by (simp add: fun_eq_iff)
qed

lemma memmove_moved:
  assumes "unat dst + unat n \<le> 2 ^ 64" "unat src + unat n < 2 ^ 64"
  shows "memmove m dst src n = moved m dst src (unat n)"
proof (cases "n = 0")
  case True
  then show ?thesis by (simp add: memmove_def moved_def)
next
  case False
  have src: "unat (src + ucast n) = unat src + unat n"
    using assms unat_add_lem [of src "ucast n"] by simp
  have uc: "(ucast n :: uint64) = of_nat (unat n)" by (simp only: word_of_nat_unat_uint)
  show ?thesis
  proof (cases "src < dst \<and> dst < src + ucast n")
    case True
    then have "copy_down m (dst + of_nat (unat n)) (src + of_nat (unat n)) (unat n) =
        moved m dst src (unat n)"
      using assms by (intro copy_down_moved) auto
    then show ?thesis unfolding memmove_def uc using True False by (simp only: uc if_True if_False simp_thms)
  next
    case no: False
    then have "dst \<le> src \<or> unat src + unat n \<le> unat dst"
      using src by (auto simp: word_le_nat_alt word_less_nat_alt not_less)
    then have "copy_up m dst src (unat n) = moved m dst src (unat n)"
      using assms by (intro copy_up_moved) auto
    with no False show ?thesis by (auto simp: memmove_def)
  qed
qed

lemma moved_load_store:
  assumes "n < 2 ^ 64"
  shows "moved m dst src n = store_bytes m dst (load_bytes m src n)"
  using assms by (auto simp: moved_def store_bytes_word fun_eq_iff)

section \<open>Comparisons and C strings\<close>

text \<open>The bytes of the C string at a pointer, cut at \<open>n\<close>: those before the first NUL.\<close>

definition cstr :: "(nat \<Rightarrow> uchar) \<Rightarrow> nat \<Rightarrow> uchar list" where
  "cstr p n = takeWhile (\<lambda>c. c \<noteq> 0) (map p [0..<n])"

lemma cstr_0 [simp]: "cstr p 0 = []"
  by (simp add: cstr_def)

lemma cstr_Suc: "cstr p (Suc n) = (if p 0 = 0 then [] else p 0 # cstr (\<lambda>i. p (Suc i)) n)"
  by (simp add: cstr_def upt_conv_Cons map_Suc_upt [symmetric] comp_def del: upt_Suc)

lemma length_cstr_le: "length (cstr p n) \<le> n"
  using length_takeWhile_le [of "\<lambda>c. c \<noteq> 0" "map p [0..<n]"] by (simp add: cstr_def)

lemma cstr_cong: "(\<And>i. i < n \<Longrightarrow> p i = q i) \<Longrightarrow> cstr p n = cstr q n"
  by (auto simp: cstr_def intro!: arg_cong [where f = "takeWhile _"])

lemma cstr_no_nul: "c \<in> set (cstr p n) \<Longrightarrow> c \<noteq> 0"
  by (auto simp: cstr_def dest: set_takeWhileD)

fun memcmp :: "(nat \<Rightarrow> uchar) \<Rightarrow> (nat \<Rightarrow> uchar) \<Rightarrow> nat \<Rightarrow> int" where
  "memcmp s1 s2 0 = 0"
| "memcmp s1 s2 (Suc n) =
     (if s1 0 \<noteq> s2 0 then int (unat (s1 0)) - int (unat (s2 0))
      else memcmp (\<lambda>i. s1 (Suc i)) (\<lambda>i. s2 (Suc i)) n)"

lemma memcmp_0_iff: "memcmp s1 s2 n = 0 \<longleftrightarrow> (\<forall>i<n. s1 i = s2 i)"
proof (induction s1 s2 n rule: memcmp.induct)
  case (1 s1 s2)
  then show ?case by simp
next
  case (2 s1 s2 n)
  then show ?case by (auto simp: word_uint_eq_iff All_less_Suc2)
qed

fun strncmp :: "(nat \<Rightarrow> uchar) \<Rightarrow> (nat \<Rightarrow> uchar) \<Rightarrow> nat \<Rightarrow> int" where
  "strncmp p q 0 = 0"
| "strncmp p q (Suc n) =
     (if p 0 \<noteq> 0 \<and> p 0 = q 0 then strncmp (\<lambda>i. p (Suc i)) (\<lambda>i. q (Suc i)) n
      else int (unat (p 0)) - int (unat (q 0)))"

lemma strncmp_0_iff: "strncmp p q n = 0 \<longleftrightarrow> cstr p n = cstr q n"
proof (induction p q n rule: strncmp.induct)
  case (1 p q)
  then show ?case by simp
next
  case (2 p q n)
  then show ?case by (auto simp: cstr_Suc word_uint_eq_iff)
qed

subsection \<open>strncpy\<close>

text \<open>\<^verbatim>\<open>while(n-- > 0 && (*s++ = *t++) != 0) ;\<close> gives the array, the index and what is left of n.\<close>

fun strncpy_copy :: "(nat \<Rightarrow> uchar) \<Rightarrow> (nat \<Rightarrow> uchar) \<Rightarrow> nat \<Rightarrow> nat \<Rightarrow> (nat \<Rightarrow> uchar) \<times> nat \<times> nat" where
  "strncpy_copy s t i 0 = (s, i, 0)"
| "strncpy_copy s t i (Suc n) =
     (if t i \<noteq> 0 then strncpy_copy (s(i := t i)) t (Suc i) n else (s(i := t i), Suc i, n))"

text \<open>\<^verbatim>\<open>while(n-- > 0) *s++ = 0;\<close>\<close>

fun strncpy_pad :: "(nat \<Rightarrow> uchar) \<Rightarrow> nat \<Rightarrow> nat \<Rightarrow> (nat \<Rightarrow> uchar)" where
  "strncpy_pad s i 0 = s"
| "strncpy_pad s i (Suc n) = strncpy_pad (s(i := 0)) (Suc i) n"

definition strncpy :: "(nat \<Rightarrow> uchar) \<Rightarrow> (nat \<Rightarrow> uchar) \<Rightarrow> nat \<Rightarrow> (nat \<Rightarrow> uchar)" where
  "strncpy s t n = (case strncpy_copy s t 0 n of (s, i, n) \<Rightarrow> strncpy_pad s i n)"

lemma strncpy_pad_apply: "strncpy_pad s i n x = (if i \<le> x \<and> x < i + n then 0 else s x)"
  by (induction n arbitrary: s i) auto

lemma strncpy_copy_pad_apply:
  "(case strncpy_copy s t i n of (s, i, n) \<Rightarrow> strncpy_pad s i n) x =
   (if i \<le> x \<and> x < i + n then (if \<exists>k. i \<le> k \<and> k \<le> x \<and> t k = 0 then 0 else t x) else s x)"
proof (induction n arbitrary: s i)
  case 0
  then show ?case by auto
next
  case (Suc n)
  have ex: "(\<exists>k. i \<le> k \<and> k \<le> x \<and> t k = 0) \<longleftrightarrow> (\<exists>k. Suc i \<le> k \<and> k \<le> x \<and> t k = 0)" if "t i \<noteq> 0"
    using that by (metis Suc_leD Suc_leI le_eq_less_or_eq)
  show ?case
  proof (cases "t i = 0")
    case True
    then show ?thesis by (auto simp: strncpy_pad_apply)
  next
    case False
    have "(case strncpy_copy s t i (Suc n) of (s, i, n) \<Rightarrow> strncpy_pad s i n) x =
        (if Suc i \<le> x \<and> x < Suc i + n then (if \<exists>k. Suc i \<le> k \<and> k \<le> x \<and> t k = 0 then 0 else t x)
         else (s(i := t i)) x)"
      using False Suc.IH [of "s(i := t i)" "Suc i"] by (simp del: fun_upd_apply)
    also have "\<dots> = (if i \<le> x \<and> x < i + Suc n
        then (if \<exists>k. i \<le> k \<and> k \<le> x \<and> t k = 0 then 0 else t x) else s x)"
      unfolding ex [OF False] using False by auto
    finally show ?thesis .
  qed
qed

lemma strncpy_apply:
  "strncpy s t n x = (if x < n then (if \<exists>k\<le>x. t k = 0 then 0 else t x) else s x)"
  using strncpy_copy_pad_apply [of s t 0 n x] by (simp add: strncpy_def)

lemma cstr_nul_cong:
  assumes "\<And>x. x < n \<Longrightarrow> \<forall>k<x. q k \<noteq> 0 \<Longrightarrow> p x = q x"
  shows "cstr p n = cstr q n"
  using assms
proof (induction n arbitrary: p q)
  case 0
  then show ?case by simp
next
  case (Suc n)
  have 0: "p 0 = q 0" using Suc.prems [of 0] by simp
  have "cstr (\<lambda>i. p (Suc i)) n = cstr (\<lambda>i. q (Suc i)) n" if "q 0 \<noteq> 0"
    using Suc.prems that by (intro Suc.IH) (auto simp: All_less_Suc2)
  with 0 show ?case by (simp add: cstr_Suc)
qed

lemma cstr_strncpy: "cstr (strncpy s t n) n = cstr t n"
  by (rule cstr_nul_cong) (auto simp: strncpy_apply order_le_less)

subsection \<open>safestrcpy\<close>

text \<open>\<^verbatim>\<open>while(--n > 0 && (*s++ = *t++) != 0) ; *s = 0;\<close>\<close>

fun safestrcpy_copy :: "(nat \<Rightarrow> uchar) \<Rightarrow> (nat \<Rightarrow> uchar) \<Rightarrow> nat \<Rightarrow> nat \<Rightarrow> (nat \<Rightarrow> uchar)" where
  "safestrcpy_copy s t i n =
     (let n = n - 1 in
      if n > 0 then
        (if t i \<noteq> 0 then safestrcpy_copy (s(i := t i)) t (Suc i) n
         else (s(i := t i))(Suc i := 0))
      else s(i := 0))"

declare safestrcpy_copy.simps [simp del]

definition safestrcpy :: "(nat \<Rightarrow> uchar) \<Rightarrow> (nat \<Rightarrow> uchar) \<Rightarrow> int \<Rightarrow> (nat \<Rightarrow> uchar)" where
  "safestrcpy s t n = (if n \<le> 0 then s else safestrcpy_copy s t 0 (nat n))"

lemma safestrcpy_copy_frame:
  "x < i \<or> i + n < x \<or> (x = i + n \<and> 0 < n) \<Longrightarrow> safestrcpy_copy s t i n x = s x"
proof (induction n arbitrary: s i)
  case 0
  then show ?case by (subst safestrcpy_copy.simps) auto
next
  case (Suc n)
  then show ?case by (subst safestrcpy_copy.simps) (auto simp: Let_def)
qed

lemma safestrcpy_copy_nul:
  "0 < n \<Longrightarrow> \<exists>k. i \<le> k \<and> k < i + n \<and> safestrcpy_copy s t i n k = 0"
proof (induction n arbitrary: s i)
  case 0
  then show ?case by simp
next
  case (Suc n)
  show ?case
  proof (cases "0 < n \<and> t i \<noteq> 0")
    case True
    then obtain k where "Suc i \<le> k" "k < Suc i + n" "safestrcpy_copy (s(i := t i)) t (Suc i) n k = 0"
      using Suc.IH [of "Suc i" "s(i := t i)"] by (auto simp del: fun_upd_apply)
    with True show ?thesis
      by (intro exI [of _ k]) (simp add: safestrcpy_copy.simps [of s t i "Suc n"])
  next
    case False
    then show ?thesis
      by (intro exI [of _ i]) (auto simp: safestrcpy_copy.simps [of s t i "Suc n"])
  qed
qed

lemma safestrcpy_copy_prefix:
  "x < i + n - 1 \<Longrightarrow> i \<le> x \<Longrightarrow> \<forall>k. i \<le> k \<and> k < x \<longrightarrow> t k \<noteq> 0 \<Longrightarrow> safestrcpy_copy s t i n x = t x"
proof (induction n arbitrary: s i)
  case 0
  then show ?case by simp
next
  case (Suc n)
  show ?case
  proof (cases "x = i")
    case True
    have "safestrcpy_copy (s(i := t i)) t (Suc i) n i = t i"
      by (simp add: safestrcpy_copy_frame)
    with True Suc.prems show ?thesis
      by (simp add: safestrcpy_copy.simps [of s t i "Suc n"])
  next
    case False
    then have "t i \<noteq> 0" "Suc i \<le> x" "0 < n" using Suc.prems by auto
    with Suc.prems False show ?thesis
      using Suc.IH [of "Suc i" "s(i := t i)"]
      by (simp add: safestrcpy_copy.simps [of s t i "Suc n"] del: fun_upd_apply)
  qed
qed

subsection \<open>strlen\<close>

partial_function (option) strlen_from :: "(nat \<Rightarrow> uchar) \<Rightarrow> nat \<Rightarrow> nat option" where
  "strlen_from s n = (if s n = 0 then Some n else strlen_from s (Suc n))"

definition strlen :: "(nat \<Rightarrow> uchar) \<Rightarrow> nat option" where
  "strlen s = strlen_from s 0"

lemma strlen_from_Some:
  "s (n + k) = 0 \<Longrightarrow> \<forall>j<k. s (n + j) \<noteq> 0 \<Longrightarrow> strlen_from s n = Some (n + k)"
proof (induction k arbitrary: n)
  case 0
  then show ?case by (subst strlen_from.simps) simp
next
  case (Suc k)
  have "s n \<noteq> 0" using Suc.prems(2) by (auto dest: spec [of _ 0])
  moreover have "strlen_from s (Suc n) = Some (Suc n + k)"
    using Suc.prems by (intro Suc.IH) auto
  ultimately show ?case by (subst strlen_from.simps) simp
qed

lemma strlen_eqI: "s k = 0 \<Longrightarrow> \<forall>j<k. s j \<noteq> 0 \<Longrightarrow> strlen s = Some k"
  using strlen_from_Some [of s 0 k] by (simp add: strlen_def)

lemma strlen_terminates: "s m = 0 \<Longrightarrow> \<exists>k\<le>m. strlen s = Some k \<and> s k = 0 \<and> (\<forall>j<k. s j \<noteq> 0)"
proof -
  assume m: "s m = 0"
  let ?k = "LEAST k. s k = 0"
  have "s ?k = 0" "?k \<le> m" "\<forall>j<?k. s j \<noteq> 0"
    using m by (auto intro: LeastI Least_le dest: not_less_Least)
  then show ?thesis using strlen_eqI by blast
qed

section \<open>Properties\<close>

lemma cstr_stop:
  assumes "p k = 0" "k < n" "n \<le> m"
  shows "cstr p m = cstr p n"
proof -
  have "[0..<m] = [0..<n] @ [n..<m]" using assms(3) by (metis le_add_diff_inverse upt_add_eq_append zero_le)
  moreover have "p k \<in> set (map p [0..<n])" using assms(2) by simp
  ultimately show ?thesis using assms(1) by (simp add: cstr_def takeWhile_append1 del: set_map)
qed

lemma cstr_snoc: "p n = 0 \<Longrightarrow> cstr p (Suc n) = cstr p n"
  by (simp add: cstr_def takeWhile_tail)

lemma cstr_safestrcpy_copy:
  assumes "0 < n"
  shows "cstr (safestrcpy_copy s t 0 n) n = cstr t (n - 1)"
proof -
  let ?r = "safestrcpy_copy s t 0 n"
  have pre: "?r x = t x" if "x < n - 1" "\<forall>k<x. t k \<noteq> 0" for x
    using safestrcpy_copy_prefix [of x 0 n t s] that by simp
  have c: "cstr ?r (n - 1) = cstr t (n - 1)"
    using pre by (intro cstr_nul_cong) blast
  obtain k where k: "k < n" "?r k = 0" using safestrcpy_copy_nul [OF assms, of 0 s t] by auto
  have "cstr ?r n = cstr ?r (n - 1)"
  proof (cases "\<exists>k<n - 1. ?r k = 0")
    case True
    then show ?thesis by (auto intro: cstr_stop)
  next
    case False
    with k have "?r (n - 1) = 0" by (metis One_nat_def Suc_pred assms less_SucE)
    with assms cstr_snoc [of ?r "n - 1"] show ?thesis by simp
  qed
  with c show ?thesis by simp
qed

text \<open>C1: \<^verbatim>\<open>memmove\<close> is overlap-safe: whatever way the two ranges overlap, every byte of
  the destination range gets the byte the source range held before the call, and no other byte
  changes. The ranges must not run past the end of the address space.\<close>

theorem memmove_overlap_safe:
  assumes "unat dst + unat n \<le> 2 ^ 64" "unat src + unat n < 2 ^ 64"
  shows "memmove m dst src n x = (if unat (x - dst) < unat n then m (src + (x - dst)) else m x)"
  using memmove_moved [OF assms, of m] by (simp add: moved_def)

theorem memmove_overlap_safe_witness:
  "map (memmove (\<lambda>a. ucast a) 102 100 4) [100, 101, 102, 103, 104, 105, 106] =
     [100, 101, 100, 101, 102, 103, 106]"
  by (simp add: memmove_overlap_safe unsigned_ucast_eq unsigned_minus_1_eq_mask mask_eq_exp_minus_1)

text \<open>\<^verbatim>\<open>strncmp\<close> returns zero exactly when the two C strings, each cut at \<open>n\<close> bytes,
  are equal; bytes after the terminator play no role.\<close>

lemma strncmp_equality: "strncmp p q n = 0 \<longleftrightarrow> cstr p n = cstr q n"
  by (rule strncmp_0_iff)

text \<open>C2: for a positive size, \<^verbatim>\<open>safestrcpy\<close> leaves in the first \<open>n\<close> bytes of the
  destination a terminated string, the source cut at \<open>n - 1\<close> bytes, and writes nothing
  beyond them; for a size that is not positive it writes nothing at all.\<close>

theorem safestrcpy_truncates:
  "if 0 < n
   then cstr (safestrcpy s t n) (nat n) = cstr t (nat n - 1) \<and>
     length (cstr (safestrcpy s t n) (nat n)) < nat n \<and>
     (\<forall>x. nat n \<le> x \<longrightarrow> safestrcpy s t n x = s x)
   else safestrcpy s t n = s"
  using cstr_safestrcpy_copy [of "nat n" s t] length_cstr_le [of t "nat n - 1"]
    safestrcpy_copy_frame [of _ 0 "nat n" s t]
  by (auto simp: safestrcpy_def order_le_less)

theorem safestrcpy_truncates_witness:
  "cstr (safestrcpy (\<lambda>_. 9) (\<lambda>i. if i < 5 then 65 else 0) 4) 4 = [65, 65, 65]
   \<and> safestrcpy (\<lambda>_. 9) (\<lambda>i. if i < 5 then 65 else 0) 4 4 = 9"
  using safestrcpy_truncates [of 4 "\<lambda>_. 9" "\<lambda>i. if i < 5 then 65 else 0"]
  by (simp add: cstr_def upt_rec)

text \<open>\<^verbatim>\<open>strlen\<close> returns on every terminated string, and what it returns is the
  number of bytes before the first terminator.\<close>

lemma strlen_returns:
  assumes "s m = 0"
  shows "\<exists>k\<le>m. strlen s = Some k \<and> s k = 0 \<and> (\<forall>j<k. s j \<noteq> 0)"
  using assms by (rule strlen_terminates)

lemma strlen_returns_example:
  "\<exists>k\<le>3. strlen (\<lambda>i. if i = 3 then 0 else 7) = Some k"
  using strlen_returns [of "\<lambda>i. if i = 3 then 0 else 7" 3] by auto

end
