(* ===== verification/Kalloc.thy ===== *)
theory Kalloc
  imports Layout Kstring
begin

text \<open>
  The physical page allocator of \<^verbatim>\<open>kernel/kalloc.c\<close>. The free list is threaded through the
  free pages themselves: the first eight bytes of a free page hold the address of the next
  one (\<^verbatim>\<open>struct run\<close>), so it lives in the memory of the model. The linker symbol \<^verbatim>\<open>end\<close> is
  the field \<open>kend\<close>, which no operation writes.
\<close>

record kmem =
  mem :: "uint64 \<Rightarrow> uchar"
  freelist :: uint64
  kend :: uint64

definition run_next :: "(uint64 \<Rightarrow> uchar) \<Rightarrow> uint64 \<Rightarrow> uint64" where
  "run_next m r = get64 m r"

definition kfree :: "uint64 \<Rightarrow> 'z kmem_scheme \<Rightarrow> 'z kmem_scheme res" where
  "kfree pa s =
     (if pa mod PGSIZE \<noteq> 0 \<or> pa < kend s \<or> pa \<ge> PHYSTOP then Inl (Panic ''kfree'')
      else
        let m = memset (mem s) pa 1 (unat PGSIZE);
            m = set64 m pa (freelist s)
        in Inr (s\<lparr>mem := m, freelist := pa\<rparr>))"

definition kalloc :: "'z kmem_scheme \<Rightarrow> uint64 \<times> 'z kmem_scheme" where
  "kalloc s =
     (let r = freelist s;
          s = (if r \<noteq> 0 then s\<lparr>freelist := run_next (mem s) r\<rparr> else s);
          s = (if r \<noteq> 0 then s\<lparr>mem := memset (mem s) r 5 (unat PGSIZE)\<rparr> else s)
      in (r, s))"

function freerange_from :: "uint64 \<Rightarrow> uint64 \<Rightarrow> 'z kmem_scheme \<Rightarrow> 'z kmem_scheme res" where
  "freerange_from p pa_end s =
     (if p + PGSIZE \<le> pa_end then rbind (kfree p s) (\<lambda>s. freerange_from (p + PGSIZE) pa_end s)
      else Inr s)"
  by pat_completeness auto
termination
proof (relation "measure (\<lambda>(p, pa_end, s). 2 ^ 64 - unat p)", goal_cases)
  case 1
  then show ?case by simp
next
  case (2 p pa_end s s')
  then have "p < PHYSTOP" by (auto simp: kfree_def Let_def split: if_splits)
  then have "unat p < 2281701376" by (simp add: word_less_nat_alt)
  then have "unat (p + 4096) = unat p + 4096" using unat_add_lem [of p 4096] by simp
  with \<open>unat p < 2281701376\<close> show ?case by simp
qed

declare freerange_from.simps [simp del]

definition freerange :: "uint64 \<Rightarrow> uint64 \<Rightarrow> 'z kmem_scheme \<Rightarrow> 'z kmem_scheme res" where
  "freerange pa_start pa_end s = freerange_from (PGROUNDUP pa_start) pa_end s"

definition kinit :: "'z kmem_scheme \<Rightarrow> 'z kmem_scheme res" where
  "kinit s = freerange (kend s) PHYSTOP s"

section \<open>The free list\<close>

text \<open>\<open>run_list m p as\<close>: following the links from \<open>p\<close> visits exactly the pages \<open>as\<close>.\<close>

fun run_list :: "(uint64 \<Rightarrow> uchar) \<Rightarrow> uint64 \<Rightarrow> uint64 list \<Rightarrow> bool" where
  "run_list m p [] \<longleftrightarrow> p = 0"
| "run_list m p (a # as) \<longleftrightarrow> p = a \<and> a \<noteq> 0 \<and> run_list m (run_next m a) as"

definition ram_page :: "uint64 \<Rightarrow> uint64 \<Rightarrow> bool" where
  "ram_page e a \<longleftrightarrow> page_aligned a \<and> e \<le> a \<and> a < PHYSTOP"

definition free_pages :: "'z kmem_scheme \<Rightarrow> uint64 list \<Rightarrow> bool" where
  "free_pages s fl \<longleftrightarrow>
     0 < kend s \<and> distinct fl \<and> (\<forall>a\<in>set fl. ram_page (kend s) a) \<and> run_list (mem s) (freelist s) fl"

text \<open>An update of memory within one page does not disturb the list of the other pages.\<close>

definition same_outside :: "uint64 \<Rightarrow> (uint64 \<Rightarrow> uchar) \<Rightarrow> (uint64 \<Rightarrow> uchar) \<Rightarrow> bool" where
  "same_outside pa m m' \<longleftrightarrow> (\<forall>x. 4096 \<le> unat (x - pa) \<longrightarrow> m' x = m x)"

lemma same_outside_refl [simp]: "same_outside pa m m"
  by (simp add: same_outside_def)

lemma same_outside_trans:
  "same_outside pa m m' \<Longrightarrow> same_outside pa m' m'' \<Longrightarrow> same_outside pa m m''"
  by (simp add: same_outside_def)

lemma same_outside_memset [simp]: "same_outside pa m (memset m pa c 4096)"
  by (simp add: same_outside_def memset_word)

lemma page_offset_diff:
  assumes "page_aligned a" "page_aligned pa" "a \<noteq> pa" "i < 4096"
  shows "4096 \<le> unat (a + of_nat i - pa)"
proof -
  have "i < unat (pa - a)" using page_aligned_diff (1) [of pa a] assms by auto
  then have "unat (a + of_nat i - pa) = unat (a - pa) + i" by (rule unat_diff_add_of_nat)
  with page_aligned_diff (1) [of a pa] assms show ?thesis by simp
qed

lemma same_outside_store:
  assumes "i + length bs \<le> 4096"
  shows "same_outside pa m (store_bytes m (pa + of_nat i) bs)"
  unfolding same_outside_def
proof (intro allI impI)
  fix x assume x: "4096 \<le> unat (x - pa)"
  have "\<not> unat (x - (pa + of_nat i)) < length bs"
  proof
    assume lt: "unat (x - (pa + of_nat i)) < length bs"
    have "x - pa = (x - (pa + of_nat i)) + of_nat i" by simp
    also have "unat \<dots> = unat (x - (pa + of_nat i)) + i"
      using lt assms unat_add_lem [of "x - (pa + of_nat i)" "of_nat i"]
      by (simp add: unat_of_nat_small)
    finally show False using lt assms x by simp
  qed
  then show "store_bytes m (pa + of_nat i) bs x = m x"
    using assms by (simp add: store_bytes_word)
qed

lemma same_outside_set64 [simp]: "same_outside pa m (set64 m pa v)"
  using same_outside_store [of 0 "to_le 8 (unat v)" pa m] by (simp add: set64_def)

lemma same_outside_load:
  assumes "same_outside pa m m'" "page_aligned a" "page_aligned pa" "a \<noteq> pa" "i + n \<le> 4096"
  shows "load_bytes m' (a + of_nat i) n = load_bytes m (a + of_nat i) n"
proof (rule nth_equalityI)
  fix k assume "k < length (load_bytes m' (a + of_nat i) n)"
  then have k: "k < n" by simp
  have "a + of_nat i + of_nat k = a + of_nat (i + k)" by (simp add: add.assoc)
  moreover have "4096 \<le> unat (a + of_nat (i + k) - pa)"
    using assms k by (intro page_offset_diff) auto
  ultimately show "load_bytes m' (a + of_nat i) n ! k = load_bytes m (a + of_nat i) n ! k"
    using assms(1) k by (simp only: nth_load_bytes same_outside_def)
qed simp

lemma same_outside_run_next:
  "same_outside pa m m' \<Longrightarrow> page_aligned a \<Longrightarrow> page_aligned pa \<Longrightarrow> a \<noteq> pa \<Longrightarrow>
   run_next m' a = run_next m a"
  using same_outside_load [of pa m m' a 0 8] by (simp add: run_next_def get64_def)

lemma run_list_same_outside:
  assumes "same_outside pa m m'" "page_aligned pa" "\<forall>a\<in>set as. page_aligned a" "pa \<notin> set as"
  shows "run_list m' p as = run_list m p as"
  using assms
proof (induction as arbitrary: p)
  case Nil
  then show ?case by simp
next
  case (Cons a as)
  then have "run_next m' a = run_next m a" by (auto intro: same_outside_run_next)
  with Cons show ?case by auto
qed

lemma run_list_unique: "run_list m p as \<Longrightarrow> run_list m p bs \<Longrightarrow> as = bs"
proof (induction as arbitrary: p bs)
  case Nil
  then show ?case by (cases bs) auto
next
  case (Cons a as)
  then show ?case by (cases bs) auto
qed

lemma free_pages_unique: "free_pages s fl \<Longrightarrow> free_pages s fl' \<Longrightarrow> fl = fl'"
  by (auto simp: free_pages_def intro: run_list_unique)

lemma ram_page_aligned [simp]: "ram_page e a \<Longrightarrow> page_aligned a"
  by (simp add: ram_page_def)

text \<open>The list survives any update of memory inside a page that is not on it.\<close>

lemma free_pages_frame:
  assumes "free_pages s fl" "page_aligned pa" "pa \<notin> set fl" "same_outside pa (mem s) m"
  shows "free_pages (s\<lparr>mem := m\<rparr>) fl"
  using assms run_list_same_outside [of pa "mem s" m fl "freelist s"]
  by (auto simp: free_pages_def ram_page_def)

section \<open>kfree pushes, kalloc pops\<close>

lemma kfree_ok:
  assumes "free_pages s fl" "ram_page (kend s) pa" "pa \<notin> set fl"
  obtains s' where "kfree pa s = Inr s'" "free_pages s' (pa # fl)"
    "same_outside pa (mem s) (mem s')" "kend s' = kend s" "kmem.more s' = kmem.more s"
proof
  let ?m = "set64 (memset (mem s) pa 1 4096) pa (freelist s)"
  let ?s = "s\<lparr>mem := ?m, freelist := pa\<rparr>"
  show "kfree pa s = Inr ?s"
    using assms(2) by (auto simp: kfree_def ram_page_def page_aligned_def Let_def)
  have so: "same_outside pa (mem s) ?m"
    by (rule same_outside_trans [OF same_outside_memset same_outside_set64])
  then show "same_outside pa (mem s) (mem ?s)" by simp
  have "run_list ?m (freelist s) fl"
    using assms so by (subst run_list_same_outside) (auto simp: free_pages_def ram_page_def)
  moreover have "pa \<noteq> 0" using assms by (auto simp: free_pages_def ram_page_def)
  ultimately show "free_pages ?s (pa # fl)"
    using assms by (simp add: free_pages_def run_next_def)
qed simp_all

lemma kalloc_Nil: "free_pages s [] \<Longrightarrow> kalloc s = (0, s)"
  by (simp add: free_pages_def kalloc_def)

lemma kalloc_Cons:
  assumes "free_pages s (a # fl)"
  obtains s' where "kalloc s = (a, s')" "free_pages s' fl" "same_outside a (mem s) (mem s')"
    "\<forall>x. unat (x - a) < 4096 \<longrightarrow> mem s' x = 5" "kend s' = kend s" "kmem.more s' = kmem.more s"
proof
  let ?m = "memset (mem s) a 5 4096"
  let ?s = "s\<lparr>freelist := run_next (mem s) a, mem := ?m\<rparr>"
  show "kalloc s = (a, ?s)"
    using assms by (auto simp: kalloc_def free_pages_def Let_def)
  show "same_outside a (mem s) (mem ?s)" by simp
  show "\<forall>x. unat (x - a) < 4096 \<longrightarrow> mem ?s x = 5" by (simp add: memset_word)
  have "run_list ?m (run_next (mem s) a) fl"
    using assms by (subst run_list_same_outside) (auto simp: free_pages_def)
  then show "free_pages ?s fl" using assms by (auto simp: free_pages_def)
qed simp_all

section \<open>kinit hands every page to the allocator\<close>

definition page_run :: "uint64 \<Rightarrow> nat \<Rightarrow> uint64 list" where
  "page_run p n = map (\<lambda>i. p + of_nat i * PGSIZE) [0..<n]"

lemma page_run_0 [simp]: "page_run p 0 = []"
  by (simp add: page_run_def)

lemma page_run_Suc: "page_run p (Suc n) = p # page_run (p + PGSIZE) n"
  by (simp add: page_run_def upt_conv_Cons map_Suc_upt [symmetric] comp_def algebra_simps
      del: upt_Suc)

lemma unat_page_step:
  fixes p :: uint64
  assumes "unat p + i * 4096 < 2 ^ 64"
  shows "unat (p + of_nat i * 4096) = unat p + i * 4096"
proof -
  have "i * 4096 < 2 ^ 64" using assms by simp
  then have "unat (of_nat i * 4096 :: uint64) = i * 4096"
    by (simp add: unat_word_ariths unat_of_nat_small)
  then show ?thesis using assms unat_add_lem [of p "of_nat i * 4096"] by simp
qed

lemma freerange_from_pages:
  assumes "free_pages s fl" "page_aligned p" "kend s \<le> p" "unat pa_end \<le> unat PHYSTOP"
    and "unat p + n * 4096 \<le> unat pa_end" "unat pa_end < unat p + n * 4096 + 4096"
    and "set (page_run p n) \<inter> set fl = {}"
  shows "\<exists>s'. freerange_from p pa_end s = Inr s' \<and> free_pages s' (rev (page_run p n) @ fl)"
  using assms
proof (induction n arbitrary: p s fl)
  case 0
  have "unat (p + 4096) = unat p + 4096"
    using 0 unat_add_lem [of p 4096] by simp
  then have "\<not> p + PGSIZE \<le> pa_end" using 0 by (simp add: word_le_nat_alt)
  then have "freerange_from p pa_end s = Inr s" by (simp add: freerange_from.simps [of p])
  with 0 show ?case by simp
next
  case (Suc n)
  have p4: "unat (p + 4096) = unat p + 4096"
    using Suc.prems unat_add_lem [of p 4096] by simp
  have rp: "ram_page (kend s) p"
    using Suc.prems by (simp add: ram_page_def word_less_nat_alt)
  have notin: "p \<notin> set fl" using Suc.prems by (auto simp: page_run_Suc)
  obtain s1 where s1: "kfree p s = Inr s1" "free_pages s1 (p # fl)" "kend s1 = kend s"
    using kfree_ok [OF Suc.prems(1) rp notin] by metis
  have "p \<notin> set (page_run (p + 4096) n)"
  proof
    assume "p \<in> set (page_run (p + 4096) n)"
    then obtain i where i: "i < n" "p = p + of_nat (Suc i) * 4096"
      by (auto simp: page_run_def algebra_simps)
    have "unat (p + of_nat (Suc i) * 4096) = unat p + Suc i * 4096"
      using i Suc.prems by (intro unat_page_step) simp
    with i show False by simp
  qed
  then have "\<exists>s'. freerange_from (p + 4096) pa_end s1 = Inr s' \<and>
      free_pages s' (rev (page_run (p + 4096) n) @ (p # fl))"
    using Suc.prems p4 s1
    by (intro Suc.IH) (auto simp: page_run_Suc page_aligned_iff word_le_nat_alt)
  moreover have "p + PGSIZE \<le> pa_end" using Suc.prems p4 by (simp add: word_le_nat_alt)
  ultimately show ?case using s1 by (simp add: freerange_from.simps [of p] page_run_Suc)
qed

lemma kinit_pages:
  assumes "0 < kend s" "kend s \<le> PHYSTOP" "freelist s = 0"
  shows "\<exists>s'. kinit s = Inr s' \<and>
    free_pages s' (rev (page_run (PGROUNDUP (kend s)) ((unat PHYSTOP - unat (PGROUNDUP (kend s))) div 4096)))"
proof -
  have k: "unat (kend s) \<le> 2281701376" using assms(2) by (simp add: word_le_nat_alt)
  then have up: "unat (PGROUNDUP (kend s)) = (unat (kend s) + 4095) div 4096 * 4096"
    by (intro unat_PGROUNDUP) simp
  have le: "kend s \<le> PGROUNDUP (kend s)" using up by (simp add: word_le_nat_alt)
  have "(unat (kend s) + 4095) div 4096 \<le> (2281701376 + 4095) div 4096"
    using k by (intro div_le_mono) simp
  then have ub: "unat (PGROUNDUP (kend s)) \<le> 2281701376" using up by simp
  have "free_pages s []" using assms by (simp add: free_pages_def)
  then have "\<exists>s'. freerange_from (PGROUNDUP (kend s)) PHYSTOP s = Inr s' \<and>
      free_pages s' (rev (page_run (PGROUNDUP (kend s))
        ((unat PHYSTOP - unat (PGROUNDUP (kend s))) div 4096)) @ [])"
    using le ub by (intro freerange_from_pages) auto
  then show ?thesis by (simp add: kinit_def freerange_def)
qed

section \<open>The allocator's contract\<close>

text \<open>
  What the rest of the kernel relies on: an allocation removes one page from a pool, or
  finds the pool empty; a page handed back that is not in the pool enters it.
\<close>

locale page_allocator =
  fixes alloc :: "'s \<Rightarrow> 'p \<times> 's"
    and null :: 'p
    and free :: "'p \<Rightarrow> 's \<Rightarrow> 's res"
    and inv :: "'s \<Rightarrow> bool"
    and pool :: "'s \<Rightarrow> 'p set"
    and valid :: "'s \<Rightarrow> 'p \<Rightarrow> bool"
  assumes alloc_null: "inv s \<Longrightarrow> alloc s = (null, s') \<Longrightarrow> pool s = {} \<and> s' = s"
    and alloc_page: "inv s \<Longrightarrow> alloc s = (p, s') \<Longrightarrow> p \<noteq> null \<Longrightarrow>
      p \<in> pool s \<and> pool s' = pool s - {p} \<and> inv s' \<and> valid s' p"
    and free_page: "inv s \<Longrightarrow> valid s p \<Longrightarrow> p \<notin> pool s \<Longrightarrow>
      \<exists>s'. free p s = Inr s' \<and> inv s' \<and> pool s' = insert p (pool s)"
begin

primrec alloc_run :: "nat \<Rightarrow> 's \<Rightarrow> 'p list \<times> 's" where
  "alloc_run 0 s = ([], s)"
| "alloc_run (Suc n) s =
     (case alloc s of (p, s') \<Rightarrow> if p = null then ([], s')
      else case alloc_run n s' of (ps, s'') \<Rightarrow> (p # ps, s''))"

lemma alloc_run_distinct:
  "inv s \<Longrightarrow> alloc_run n s = (ps, s') \<Longrightarrow>
   distinct ps \<and> set ps \<subseteq> pool s \<and> pool s' = pool s - set ps \<and> inv s' \<and> length ps \<le> n"
proof (induction n arbitrary: s ps s')
  case 0
  then show ?case by simp
next
  case (Suc n)
  obtain p s1 where a: "alloc s = (p, s1)" by fastforce
  show ?case
  proof (cases "p = null")
    case True
    with Suc a alloc_null [of s s1] show ?thesis by auto
  next
    case False
    obtain qs s2 where r: "alloc_run n s1 = (qs, s2)" by fastforce
    have "p \<in> pool s \<and> pool s1 = pool s - {p} \<and> inv s1"
      using alloc_page [OF Suc.prems(1) a False] by blast
    with Suc.IH [OF _ r] Suc.prems a False r show ?thesis by auto
  qed
qed

lemma alloc_fails_iff_empty: "inv s \<Longrightarrow> fst (alloc s) = null \<longleftrightarrow> pool s = {}"
  using alloc_null alloc_page by (metis empty_iff fst_conv prod.exhaust_sel)

lemma free_alloc_roundtrip:
  assumes "inv s" "alloc s = (p, s')" "p \<noteq> null"
  shows "\<exists>s''. free p s' = Inr s'' \<and> inv s'' \<and> pool s'' = pool s"
proof -
  have *: "p \<in> pool s" "pool s' = pool s - {p}" "inv s'" "valid s' p"
    using alloc_page [OF assms] by auto
  then obtain s'' where "free p s' = Inr s''" "inv s''" "pool s'' = insert p (pool s')"
    using free_page by blast
  with * show ?thesis by auto
qed

end

definition kmem_inv :: "'z kmem_scheme \<Rightarrow> bool" where
  "kmem_inv s \<longleftrightarrow> (\<exists>fl. free_pages s fl)"

definition kmem_pool :: "'z kmem_scheme \<Rightarrow> uint64 set" where
  "kmem_pool s = {a. \<exists>fl. free_pages s fl \<and> a \<in> set fl}"

lemma kmem_pool_eq: "free_pages s fl \<Longrightarrow> kmem_pool s = set fl"
  using free_pages_unique by (auto simp: kmem_pool_def)

interpretation kpages: page_allocator kalloc 0 kfree kmem_inv kmem_pool "\<lambda>s. ram_page (kend s)"
proof
  fix s s' :: "'z kmem_scheme"
  assume "kmem_inv s" and a: "kalloc s = (0, s')"
  then obtain fl where fl: "free_pages s fl" by (auto simp: kmem_inv_def)
  show "kmem_pool s = {} \<and> s' = s"
  proof (cases fl)
    case Nil
    with fl a kalloc_Nil [of s] kmem_pool_eq [OF fl] show ?thesis by simp
  next
    case (Cons b bs)
    with fl have "b \<noteq> 0" by (simp add: free_pages_def)
    with fl a Cons show ?thesis by (metis kalloc_Cons fst_conv)
  qed
next
  fix s s' :: "'z kmem_scheme" and p
  assume "kmem_inv s" and a: "kalloc s = (p, s')" and "p \<noteq> 0"
  then obtain b bs where fl: "free_pages s (b # bs)"
    by (metis kmem_inv_def kalloc_Nil fst_conv neq_Nil_conv)
  then obtain s1 where "kalloc s = (b, s1)" "free_pages s1 bs" "kend s1 = kend s"
    by (rule kalloc_Cons)
  moreover have "distinct (b # bs)" "ram_page (kend s) b" using fl by (auto simp: free_pages_def)
  ultimately show "p \<in> kmem_pool s \<and> kmem_pool s' = kmem_pool s - {p} \<and> kmem_inv s' \<and> ram_page (kend s') p"
    using a fl by (auto simp: kmem_pool_eq kmem_inv_def)
next
  fix s :: "'z kmem_scheme" and p
  assume "kmem_inv s" and v: "ram_page (kend s) p" and n: "p \<notin> kmem_pool s"
  then obtain fl where fl: "free_pages s fl" by (auto simp: kmem_inv_def)
  with n have "p \<notin> set fl" by (simp add: kmem_pool_eq)
  then obtain s' where "kfree p s = Inr s'" "free_pages s' (p # fl)"
    using kfree_ok [OF fl v] by metis
  then show "\<exists>s'. kfree p s = Inr s' \<and> kmem_inv s' \<and> kmem_pool s' = insert p (kmem_pool s)"
    using fl by (auto simp: kmem_inv_def kmem_pool_eq)
qed

section \<open>Properties\<close>

text \<open>C3: after \<^verbatim>\<open>kinit\<close> the free list holds every whole page between the end of the
  kernel, rounded up, and \<^verbatim>\<open>PHYSTOP\<close>, each exactly once, the highest page first.\<close>

theorem kinit_frees_all_pages:
  assumes "0 < kend s" "kend s \<le> PHYSTOP" "freelist s = 0"
  shows "\<exists>s'. kinit s = Inr s' \<and>
    free_pages s' (rev (page_run (PGROUNDUP (kend s)) ((unat PHYSTOP - unat (PGROUNDUP (kend s))) div 4096)))"
  using assms by (rule kinit_pages)

theorem kinit_frees_all_pages_witness:
  "\<exists>s'. kinit \<lparr>mem = \<lambda>_. 0, freelist = 0, kend = 0x87FFD001\<rparr> = Inr s' \<and>
     free_pages s' [0x87FFF000, 0x87FFE000]"
  using kinit_frees_all_pages [of "\<lparr>mem = \<lambda>_. 0, freelist = 0, kend = 0x87FFD001\<rparr>"]
  by (simp add: page_run_def PGROUNDUP_def upt_rec)

text \<open>C4: the pages a sequence of successful \<^verbatim>\<open>kalloc\<close> calls returns are pairwise
  different, were all on the free list, and are exactly what has left it.\<close>

theorem kalloc_never_twice:
  assumes "kmem_inv s" "kpages.alloc_run n s = (ps, s')"
  shows "distinct ps \<and> set ps \<subseteq> kmem_pool s \<and> kmem_pool s' = kmem_pool s - set ps \<and>
    kmem_inv s' \<and> length ps \<le> n"
  using assms by (rule kpages.alloc_run_distinct)

theorem kalloc_never_twice_witness:
  "let s = \<lparr>mem = \<lambda>_. 0, freelist = 0x87FFF000, kend = 0x87FFE000\<rparr>;
       (ps, s') = kpages.alloc_run 2 s
   in 0x87FFF000 \<in> kmem_pool s \<and> distinct ps \<and> kmem_pool s' = kmem_pool s - set ps"
proof -
  define s where "s = \<lparr>mem = \<lambda>_. 0, freelist = 0x87FFF000, kend = 0x87FFE000\<rparr>"
  have fp: "free_pages s [0x87FFF000]"
    by (simp add: s_def free_pages_def ram_page_def page_aligned_def run_next_def get64_def
        load_bytes_def upt_rec)
  then have "kmem_inv s" by (auto simp: kmem_inv_def)
  with kmem_pool_eq [OF fp] show ?thesis
    unfolding s_def [symmetric] using kalloc_never_twice [of s 2] by (auto split: prod.splits)
qed

text \<open>\<^verbatim>\<open>kfree\<close> of a page frame that is not on the free list never panics, and the
  next \<^verbatim>\<open>kalloc\<close> returns that very page, every byte of it filled with 5, leaving the free
  list as it was and every byte outside the page untouched.\<close>

lemma kfree_kalloc_lifo:
  assumes "free_pages s fl" "ram_page (kend s) pa" "pa \<notin> set fl"
  shows "\<exists>s1 s2. kfree pa s = Inr s1 \<and> kalloc s1 = (pa, s2) \<and> free_pages s2 fl \<and>
    (\<forall>x. mem s2 x = (if unat (x - pa) < 4096 then 5 else mem s x))"
proof -
  obtain s1 where 1: "kfree pa s = Inr s1" "free_pages s1 (pa # fl)"
      "same_outside pa (mem s) (mem s1)"
    using kfree_ok [OF assms] by metis
  obtain s2 where 2: "kalloc s1 = (pa, s2)" "free_pages s2 fl" "same_outside pa (mem s1) (mem s2)"
      "\<forall>x. unat (x - pa) < 4096 \<longrightarrow> mem s2 x = 5"
    using kalloc_Cons [OF 1(2)] by metis
  have "same_outside pa (mem s) (mem s2)" using 1(3) 2(3) by (rule same_outside_trans)
  then have "mem s2 x = (if unat (x - pa) < 4096 then 5 else mem s x)" for x
    using 2(4) by (simp add: same_outside_def)
  with 1 2 show ?thesis by blast
qed

lemma kfree_kalloc_lifo_example:
  "\<exists>s1 s2. kfree 0x87FFF000 \<lparr>mem = \<lambda>_. 0, freelist = 0, kend = 0x80000000\<rparr> = Inr s1 \<and>
     kalloc s1 = (0x87FFF000, s2) \<and> free_pages s2 [] \<and> mem s2 0x87FFF123 = 5 \<and> mem s2 0x80000123 = 0"
  using kfree_kalloc_lifo [of "\<lparr>mem = \<lambda>_. 0, freelist = 0, kend = 0x80000000\<rparr>" "[]" "0x87FFF000"]
  by (auto simp: free_pages_def ram_page_def page_aligned_def)

end
