(* ===== verification/Ptable.thy ===== *)
theory Ptable
  imports Kalloc
begin

text \<open>
  The process table (\<^verbatim>\<open>kernel/proc.h\<close>) and the part of \<^verbatim>\<open>kernel/proc.c\<close> that every other
  component needs: the current process, \<^verbatim>\<open>wakeup()\<close>, and the sleep locks of
  \<^verbatim>\<open>kernel/sleeplock.c\<close>. Pointers to processes, files and inodes are indices of the tables
  that hold them, with \<open>None\<close> for a null pointer. The section between \<^verbatim>\<open>acquire()\<close> and
  \<^verbatim>\<open>release()\<close> of one spin lock is one step of the model (theory \<open>Spinlock\<close> shows that the
  spin locks exclude each other).
\<close>

datatype procstate = UNUSED | USED | SLEEPING | RUNNABLE | RUNNING | ZOMBIE

record kcontext =
  ctx_ra :: uint64
  ctx_sp :: uint64
  ctx_s :: "uint64 list"

record proc =
  p_state :: procstate
  p_chan :: "chan option"
  p_killed :: bool
  p_xstate :: int
  p_pid :: int
  p_parent :: "nat option"
  p_kstack :: uint64
  p_sz :: uint64
  p_pagetable :: uint64
  p_trapframe :: uint64
  p_context :: kcontext
  p_ofile :: "nat option list"
  p_cwd :: "nat option"
  p_name :: "nat \<Rightarrow> uchar"

record kproc = kmem +
  procs :: "proc list"
  cpu_proc :: "nat option"
  nextpid :: int
  initproc :: "nat option"
  kernel_pagetable :: uint64

definition myproc :: "'z kproc_scheme \<Rightarrow> proc" where
  "myproc s = procs s ! the (cpu_proc s)"

definition upd_proc :: "nat \<Rightarrow> (proc \<Rightarrow> proc) \<Rightarrow> 'z kproc_scheme \<Rightarrow> 'z kproc_scheme" where
  "upd_proc i f s = s\<lparr>procs := (procs s)[i := f (procs s ! i)]\<rparr>"

section \<open>wakeup\<close>

definition wake_proc :: "chan \<Rightarrow> nat option \<Rightarrow> nat \<Rightarrow> proc \<Rightarrow> proc" where
  "wake_proc ch me i p =
     (if Some i \<noteq> me \<and> p_state p = SLEEPING \<and> p_chan p = Some ch then p\<lparr>p_state := RUNNABLE\<rparr> else p)"

definition wakeup :: "chan \<Rightarrow> 'z kproc_scheme \<Rightarrow> 'z kproc_scheme" where
  "wakeup ch s =
     s\<lparr>procs := map (\<lambda>i. wake_proc ch (cpu_proc s) i (procs s ! i)) [0..<length (procs s)]\<rparr>"

lemma wake_proc_frame [frame_simps]:
  "p_chan (wake_proc ch me i p) = p_chan p" "p_killed (wake_proc ch me i p) = p_killed p"
  "p_pid (wake_proc ch me i p) = p_pid p" "p_parent (wake_proc ch me i p) = p_parent p"
  "p_xstate (wake_proc ch me i p) = p_xstate p"
  "p_sz (wake_proc ch me i p) = p_sz p" "p_pagetable (wake_proc ch me i p) = p_pagetable p"
  "p_trapframe (wake_proc ch me i p) = p_trapframe p" "p_ofile (wake_proc ch me i p) = p_ofile p"
  "p_cwd (wake_proc ch me i p) = p_cwd p" "p_kstack (wake_proc ch me i p) = p_kstack p"
  by (simp_all add: wake_proc_def)

lemma wakeup_frame [simp]:
  "mem (wakeup ch s) = mem s" "freelist (wakeup ch s) = freelist s" "kend (wakeup ch s) = kend s"
  "cpu_proc (wakeup ch s) = cpu_proc s" "nextpid (wakeup ch s) = nextpid s"
  "initproc (wakeup ch s) = initproc s" "kernel_pagetable (wakeup ch s) = kernel_pagetable s" "kproc.more (wakeup ch s) = kproc.more s"
  "length (procs (wakeup ch s)) = length (procs s)"
  by (simp_all add: wakeup_def)

lemma nth_procs_wakeup:
  "i < length (procs s) \<Longrightarrow> procs (wakeup ch s) ! i = wake_proc ch (cpu_proc s) i (procs s ! i)"
  by (simp add: wakeup_def)

definition cur_ok :: "'z kproc_scheme \<Rightarrow> bool" where
  "cur_ok s \<longleftrightarrow> (\<exists>i. cpu_proc s = Some i \<and> i < length (procs s))"

lemma myproc_wakeup [simp]: "cur_ok s \<Longrightarrow> myproc (wakeup ch s) = myproc s"
  by (auto simp: cur_ok_def myproc_def nth_procs_wakeup wake_proc_def)

lemma cur_ok_wakeup [simp]: "cur_ok (wakeup ch s) = cur_ok s"
  by (simp add: cur_ok_def)

lemma wakeup_wakes:
  assumes "i < length (procs s)" "cpu_proc s \<noteq> Some i" "p_state (procs s ! i) = SLEEPING"
    "p_chan (procs s ! i) = Some ch"
  shows "p_state (procs (wakeup ch s) ! i) = RUNNABLE"
  using assms by (auto simp: nth_procs_wakeup wake_proc_def)

section \<open>Sleep locks\<close>

record sleeplock =
  sl_locked :: bool
  sl_pid :: int

definition initsleeplock :: sleeplock where
  "initsleeplock = \<lparr>sl_locked = False, sl_pid = 0\<rparr>"

text \<open>
  The lock is a field of a buffer or an inode: the operations take its value and the channel
  that stands for its address, and the caller stores the result back.
\<close>

definition acquiresleep :: "chan \<Rightarrow> sleeplock \<Rightarrow> 'z kproc_scheme \<Rightarrow> sleeplock res" where
  "acquiresleep ch lk s =
     (if sl_locked lk then Inl (Sleeps ch)
      else Inr (lk\<lparr>sl_locked := True, sl_pid := p_pid (myproc s)\<rparr>))"

definition releasesleep :: "chan \<Rightarrow> sleeplock \<Rightarrow> 'z kproc_scheme \<Rightarrow> sleeplock \<times> 'z kproc_scheme" where
  "releasesleep ch lk s = (lk\<lparr>sl_locked := False, sl_pid := 0\<rparr>, wakeup ch s)"

definition holdingsleep :: "sleeplock \<Rightarrow> 'z kproc_scheme \<Rightarrow> bool" where
  "holdingsleep lk s \<longleftrightarrow> sl_locked lk \<and> sl_pid lk = p_pid (myproc s)"

lemma acquiresleep_holding:
  "acquiresleep ch lk s = Inr lk' \<Longrightarrow> holdingsleep lk' s \<and> \<not> sl_locked lk"
  by (auto simp: acquiresleep_def holdingsleep_def split: if_splits)

end
