(* ===== verification/Bio.thy ===== *)
theory Bio
  imports Ptable
begin

text \<open>
  The buffer cache of \<^verbatim>\<open>kernel/bio.c\<close>: thirty buffers on a doubly linked ring in order of
  last use. A buffer is an index below \<open>NBUF\<close>, the list head \<^verbatim>\<open>bcache.head\<close> is the index
  \<open>NBUF\<close>, and the link fields are the functions \<open>bnext\<close> and \<open>bprev\<close>. The disk behind it
  is its contents and the history of the writes it has completed, oldest first.
\<close>

type_synonym block = "nat \<Rightarrow> uchar"

record buf =
  b_valid :: bool
  b_disk :: bool
  b_dev :: uint
  b_blockno :: uint
  b_lock :: sleeplock
  b_refcnt :: uint
  b_data :: block

record kbio = kproc +
  bufs :: "buf list"
  bnext :: "nat \<Rightarrow> nat"
  bprev :: "nat \<Rightarrow> nat"
  disk :: "uint \<Rightarrow> block"
  disk_writes :: "(uint \<times> block) list"

definition bhead :: nat where [simp]: "bhead = NBUF"

definition upd_buf :: "nat \<Rightarrow> (buf \<Rightarrow> buf) \<Rightarrow> 'z kbio_scheme \<Rightarrow> 'z kbio_scheme" where
  "upd_buf i f s = s\<lparr>bufs := (bufs s)[i := f (bufs s ! i)]\<rparr>"

section \<open>Operations\<close>

definition binit_one :: "nat \<Rightarrow> 'z kbio_scheme \<Rightarrow> 'z kbio_scheme" where
  "binit_one b s =
     (let s = s\<lparr>bnext := (bnext s)(b := bnext s bhead)\<rparr>;
          s = s\<lparr>bprev := (bprev s)(b := bhead)\<rparr>;
          s = upd_buf b (\<lambda>bf. bf\<lparr>b_lock := initsleeplock\<rparr>) s;
          s = s\<lparr>bprev := (bprev s)(bnext s bhead := b)\<rparr>
      in s\<lparr>bnext := (bnext s)(bhead := b)\<rparr>)"

definition binit :: "'z kbio_scheme \<Rightarrow> 'z kbio_scheme" where
  "binit s =
     (let s = s\<lparr>bprev := (bprev s)(bhead := bhead)\<rparr>;
          s = s\<lparr>bnext := (bnext s)(bhead := bhead)\<rparr>
      in fold binit_one [0..<NBUF] s)"

text \<open>
  A request to the disk, from the buffer's side: the device owns the buffer until the
  request has completed.
\<close>

definition disk_rw :: "nat \<Rightarrow> bool \<Rightarrow> 'z kbio_scheme \<Rightarrow> 'z kbio_scheme" where
  "disk_rw b write s =
     (let s = upd_buf b (\<lambda>bf. bf\<lparr>b_disk := True\<rparr>) s;
          n = b_blockno (bufs s ! b);
          s = (if write
               then s\<lparr>disk := (disk s)(n := b_data (bufs s ! b)),
                      disk_writes := disk_writes s @ [(n, b_data (bufs s ! b))]\<rparr>
               else upd_buf b (\<lambda>bf. bf\<lparr>b_data := disk s n\<rparr>) s)
      in upd_buf b (\<lambda>bf. bf\<lparr>b_disk := False\<rparr>) s)"

text \<open>The two loops of \<^verbatim>\<open>bget\<close> follow the links until they are back at the head.\<close>

fun bget_cached :: "nat \<Rightarrow> uint \<Rightarrow> uint \<Rightarrow> nat \<Rightarrow> 'z kbio_scheme \<Rightarrow> nat option res" where
  "bget_cached 0 d n b s = Inl Fuel"
| "bget_cached (Suc fuel) d n b s =
     (if b = bhead then Inr None
      else if b_dev (bufs s ! b) = d \<and> b_blockno (bufs s ! b) = n then Inr (Some b)
      else bget_cached fuel d n (bnext s b) s)"

fun bget_unused :: "nat \<Rightarrow> nat \<Rightarrow> 'z kbio_scheme \<Rightarrow> nat option res" where
  "bget_unused 0 b s = Inl Fuel"
| "bget_unused (Suc fuel) b s =
     (if b = bhead then Inr None
      else if b_refcnt (bufs s ! b) = 0 then Inr (Some b)
      else bget_unused fuel (bprev s b) s)"

definition lock_buf :: "nat \<Rightarrow> 'z kbio_scheme \<Rightarrow> 'z kbio_scheme res" where
  "lock_buf b s =
     rbind (acquiresleep (Chan_buf_lock b) (b_lock (bufs s ! b)) s)
       (\<lambda>lk. Inr (upd_buf b (\<lambda>bf. bf\<lparr>b_lock := lk\<rparr>) s))"

definition bget :: "uint \<Rightarrow> uint \<Rightarrow> 'z kbio_scheme \<Rightarrow> (nat \<times> 'z kbio_scheme) res" where
  "bget d n s =
     rbind (bget_cached (Suc NBUF) d n (bnext s bhead) s) (\<lambda>hit. case hit of
       Some b \<Rightarrow>
         rbind (lock_buf b (upd_buf b (\<lambda>bf. bf\<lparr>b_refcnt := b_refcnt bf + 1\<rparr>) s)) (\<lambda>s. Inr (b, s))
     | None \<Rightarrow>
         rbind (bget_unused (Suc NBUF) (bprev s bhead) s) (\<lambda>free. case free of
           Some b \<Rightarrow>
             rbind (lock_buf b (upd_buf b
                 (\<lambda>bf. bf\<lparr>b_dev := d, b_blockno := n, b_valid := False, b_refcnt := 1\<rparr>) s)) (\<lambda>s. Inr (b, s))
         | None \<Rightarrow> Inl (Panic ''bget: no buffers'')))"

definition bread :: "uint \<Rightarrow> uint \<Rightarrow> 'z kbio_scheme \<Rightarrow> (nat \<times> 'z kbio_scheme) res" where
  "bread d n s =
     rbind (bget d n s) (\<lambda>(b, s).
       if \<not> b_valid (bufs s ! b)
       then Inr (b, upd_buf b (\<lambda>bf. bf\<lparr>b_valid := True\<rparr>) (disk_rw b False s))
       else Inr (b, s))"

definition bwrite :: "nat \<Rightarrow> 'z kbio_scheme \<Rightarrow> 'z kbio_scheme res" where
  "bwrite b s =
     (if \<not> holdingsleep (b_lock (bufs s ! b)) s then Inl (Panic ''bwrite'')
      else Inr (disk_rw b True s))"

definition unlock_buf :: "nat \<Rightarrow> 'z kbio_scheme \<Rightarrow> 'z kbio_scheme" where
  "unlock_buf b s =
     (case releasesleep (Chan_buf_lock b) (b_lock (bufs s ! b)) s of
        (lk, s) \<Rightarrow> upd_buf b (\<lambda>bf. bf\<lparr>b_lock := lk\<rparr>) s)"

text \<open>Unlink a buffer and put it at the front: the pointer assignments of \<^verbatim>\<open>brelse\<close>, in order.\<close>

definition move_to_front :: "nat \<Rightarrow> 'z kbio_scheme \<Rightarrow> 'z kbio_scheme" where
  "move_to_front b s =
     (let s = s\<lparr>bprev := (bprev s)(bnext s b := bprev s b)\<rparr>;
          s = s\<lparr>bnext := (bnext s)(bprev s b := bnext s b)\<rparr>;
          s = s\<lparr>bnext := (bnext s)(b := bnext s bhead)\<rparr>;
          s = s\<lparr>bprev := (bprev s)(b := bhead)\<rparr>;
          s = s\<lparr>bprev := (bprev s)(bnext s bhead := b)\<rparr>
      in s\<lparr>bnext := (bnext s)(bhead := b)\<rparr>)"

definition brelse :: "nat \<Rightarrow> 'z kbio_scheme \<Rightarrow> 'z kbio_scheme res" where
  "brelse b s =
     (if \<not> holdingsleep (b_lock (bufs s ! b)) s then Inl (Panic ''brelse'')
      else
        let s = unlock_buf b s;
            s = upd_buf b (\<lambda>bf. bf\<lparr>b_refcnt := b_refcnt bf - 1\<rparr>) s
        in Inr (if b_refcnt (bufs s ! b) = 0 then move_to_front b s else s))"

definition bpin :: "nat \<Rightarrow> 'z kbio_scheme \<Rightarrow> 'z kbio_scheme" where
  "bpin b s = upd_buf b (\<lambda>bf. bf\<lparr>b_refcnt := b_refcnt bf + 1\<rparr>) s"

definition bunpin :: "nat \<Rightarrow> 'z kbio_scheme \<Rightarrow> 'z kbio_scheme" where
  "bunpin b s = upd_buf b (\<lambda>bf. bf\<lparr>b_refcnt := b_refcnt bf - 1\<rparr>) s"

section \<open>The ring of buffers\<close>

text \<open>\<open>links nx pv a xs b\<close>: from \<open>a\<close> the links lead through \<open>xs\<close> to \<open>b\<close>, and back.\<close>

fun links :: "('n \<Rightarrow> 'n) \<Rightarrow> ('n \<Rightarrow> 'n) \<Rightarrow> 'n \<Rightarrow> 'n list \<Rightarrow> 'n \<Rightarrow> bool" where
  "links nx pv a [] b \<longleftrightarrow> nx a = b \<and> pv b = a"
| "links nx pv a (x # xs) b \<longleftrightarrow> nx a = x \<and> pv x = a \<and> links nx pv x xs b"

lemma links_append:
  "links nx pv a (xs @ y # ys) b \<longleftrightarrow> links nx pv a xs y \<and> links nx pv y ys b"
  by (induction xs arbitrary: a) auto

lemma links_last: "links nx pv a xs b \<Longrightarrow> pv b = last (a # xs)"
  by (induction xs arbitrary: a) auto

lemma links_frame:
  assumes "links nx pv a xs b" "\<And>x. x = a \<or> x \<in> set xs \<Longrightarrow> nx' x = nx x"
    "\<And>x. x = b \<or> x \<in> set xs \<Longrightarrow> pv' x = pv x"
  shows "links nx' pv' a xs b"
  using assms by (induction xs arbitrary: a) auto

lemma links_redirect:
  assumes "links nx pv a xs b" "a \<notin> set xs" "distinct xs" "c \<notin> set xs"
  shows "links (nx(pv b := c)) (pv(c := pv b)) a xs c"
  using assms
proof (induction xs arbitrary: a)
  case Nil
  then show ?case by auto
next
  case (Cons x xs)
  have "pv b \<noteq> a"
    using links_last [of nx pv x xs b] Cons.prems by (auto split: if_splits)
  with Cons show ?case by auto
qed

lemma links_unlink:
  assumes "links nx pv h (ys @ b # zs) h" "distinct (h # ys @ b # zs)"
  shows "links (nx(pv b := nx b)) (pv(nx b := pv b)) h (ys @ zs) h"
proof -
  have ys: "links nx pv h ys b" and zs: "links nx pv b zs h"
    using assms(1) by (auto simp: links_append)
  have last: "pv b = last (h # ys)" using ys by (rule links_last)
  show ?thesis
  proof (cases zs)
    case Nil
    then have h: "nx b = h" using zs by simp
    have "links (nx(pv b := h)) (pv(h := pv b)) h ys h"
      using ys assms(2) by (intro links_redirect) auto
    then show ?thesis by (simp only: h Nil append_Nil2)
  next
    case (Cons z zs')
    with zs have z: "nx b = z" "links nx pv z zs' h" by auto
    have "links (nx(pv b := z)) (pv(z := pv b)) h ys z"
      using ys assms(2) Cons by (intro links_redirect) auto
    moreover have "links (nx(pv b := z)) (pv(z := pv b)) z zs' h"
    proof (rule links_frame [OF z(2)])
      have "last (h # ys) \<in> set (h # ys)" by (rule last_in_set) simp
      then have "pv b \<in> insert h (set ys)" using last by simp
      then show "(nx(pv b := z)) x = nx x" if "x = z \<or> x \<in> set zs'" for x
        using that assms(2) Cons by auto
      show "(pv(z := pv b)) x = pv x" if "x = h \<or> x \<in> set zs'" for x
        using that assms(2) Cons by auto
    qed
    ultimately show ?thesis by (simp only: z(1) Cons links_append)
  qed
qed

lemma links_push:
  assumes "links nx pv h xs h" "b \<notin> set xs" "b \<noteq> h" "h \<notin> set xs" "distinct xs"
  shows "links (nx(b := nx h, h := b)) (pv(b := h, nx h := b)) h (b # xs) h"
proof (cases xs)
  case Nil
  then have "nx h = h" using assms(1) by simp
  with assms(3) Nil show ?thesis by simp
next
  case (Cons x xs')
  then have x: "nx h = x" "pv x = h" "links nx pv x xs' h" using assms(1) by auto
  have "links (nx(b := x, h := b)) (pv(b := h, x := b)) x xs' h"
    using x(3) by (rule links_frame) (use assms Cons in auto)
  moreover have "b \<noteq> x" "x \<noteq> h" using assms Cons by auto
  ultimately show ?thesis using assms(3) by (simp add: x(1) Cons)
qed

definition ring :: "'z kbio_scheme \<Rightarrow> nat list \<Rightarrow> bool" where
  "ring s xs \<longleftrightarrow> distinct xs \<and> set xs = {..<NBUF} \<and> links (bnext s) (bprev s) bhead xs bhead"

lemma ring_cong: "bnext s' = bnext s \<Longrightarrow> bprev s' = bprev s \<Longrightarrow> ring s' xs = ring s xs"
  by (simp add: ring_def)

lemma bget_cached_find:
  assumes "links (bnext s) (bprev s) a xs bhead" "bhead \<notin> set xs" "length xs < fuel"
  shows "bget_cached fuel d n (bnext s a) s =
    Inr (find (\<lambda>b. b_dev (bufs s ! b) = d \<and> b_blockno (bufs s ! b) = n) xs)"
  using assms
proof (induction xs arbitrary: a fuel)
  case Nil
  then show ?case by (cases fuel) auto
next
  case (Cons x xs)
  obtain f where f: "fuel = Suc f" using Cons.prems(3) by (cases fuel) auto
  have "bnext s a = x" "links (bnext s) (bprev s) x xs bhead" "x \<noteq> bhead" "bhead \<notin> set xs"
    "length xs < f"
    using Cons.prems f by simp_all
  with Cons.IH [of x f] f show ?case by (simp del: bhead_def)
qed

lemma bget_unused_find:
  assumes "links (bnext s) (bprev s) bhead xs b" "bhead \<notin> set xs" "length xs < fuel"
  shows "bget_unused fuel (bprev s b) s =
    Inr (find (\<lambda>b. b_refcnt (bufs s ! b) = 0) (rev xs))"
  using assms
proof (induction xs arbitrary: b fuel rule: rev_induct)
  case Nil
  then show ?case by (cases fuel) auto
next
  case (snoc x xs)
  obtain f where f: "fuel = Suc f" using snoc.prems(3) by (cases fuel) auto
  have "bprev s b = x" "links (bnext s) (bprev s) bhead xs x" "x \<noteq> bhead" "bhead \<notin> set xs"
    "length xs < f"
    using snoc.prems f by (simp_all add: links_append)
  with snoc.IH [of x f] f show ?case by (simp del: bhead_def)
qed

lemma ring_length: "ring s xs \<Longrightarrow> length xs = NBUF \<and> bhead \<notin> set xs"
  using distinct_card [of xs] by (simp add: ring_def)

lemma ring_move_to_front:
  assumes "ring s (ys @ b # zs)"
  shows "ring (move_to_front b s) (b # ys @ zs)"
proof -
  let ?nx = "bnext s" and ?pv = "bprev s"
  have "distinct (ys @ b # zs)" and lk: "links ?nx ?pv bhead (ys @ b # zs) bhead"
    and dom: "set (ys @ b # zs) = {..<NBUF}"
    using assms unfolding ring_def by blast+
  then have d: "distinct (bhead # ys @ b # zs)" using ring_length [OF assms] by simp
  have l: "links (?nx(?pv b := ?nx b)) (?pv(?nx b := ?pv b)) bhead (ys @ zs) bhead"
    using lk d by (rule links_unlink)
  let ?nx1 = "?nx(?pv b := ?nx b)" and ?pv1 = "?pv(?nx b := ?pv b)"
  have b: "links ?nx ?pv b zs bhead" using lk unfolding links_append by blast
  have nb: "?nx b \<noteq> b"
  proof (cases zs)
    case Nil
    with b d show ?thesis by simp
  next
    case (Cons z zs')
    then have "?nx b = z" using b by simp
    with d Cons show ?thesis by simp
  qed
  have "links (?nx1(b := ?nx1 bhead, bhead := b)) (?pv1(b := bhead, ?nx1 bhead := b)) bhead
      (b # ys @ zs) bhead"
    by (rule links_push [OF l]) (use d in auto)
  moreover have "bnext (move_to_front b s) = ?nx1(b := ?nx1 bhead, bhead := b)"
    using d by (simp add: move_to_front_def Let_def nb)
  moreover have "bprev (move_to_front b s) = ?pv1(b := bhead, ?nx1 bhead := b)"
    using d by (simp add: move_to_front_def Let_def nb)
  ultimately have "links (bnext (move_to_front b s)) (bprev (move_to_front b s)) bhead
      (b # ys @ zs) bhead"
    by (simp only:)
  moreover have "distinct (b # ys @ zs)" "set (b # ys @ zs) = {..<NBUF}"
    using d dom by auto
  ultimately show ?thesis unfolding ring_def by blast
qed

section \<open>The state of the cache\<close>

text \<open>
  The file system lives on one disk, device \<^verbatim>\<open>ROOTDEV\<close>. \<open>bcache_ok H P s\<close> describes the
  cache while one process works on it: it has locked the buffers in \<open>H\<close>, and the blocks in
  \<open>P\<close> are pinned by the log. A buffer that is neither locked nor pinned has no references and
  agrees with the disk; no block is in two buffers.
\<close>

definition cached :: "'z kbio_scheme \<Rightarrow> uint \<Rightarrow> nat \<Rightarrow> bool" where
  "cached s n i \<longleftrightarrow> i < NBUF \<and> b_dev (bufs s ! i) = ROOTDEV \<and> b_blockno (bufs s ! i) = n"

definition buf_ok :: "bool \<Rightarrow> uint set \<Rightarrow> int \<Rightarrow> (uint \<Rightarrow> block) \<Rightarrow> buf \<Rightarrow> bool" where
  "buf_ok h P pid dk b \<longleftrightarrow>
     (b_dev b = 0 \<or> b_dev b = ROOTDEV) \<and> sl_locked (b_lock b) = h \<and>
     (h \<longrightarrow> sl_pid (b_lock b) = pid \<and> b_dev b = ROOTDEV) \<and>
     b_refcnt b = (if h then 1 else 0) + (if b_dev b = ROOTDEV \<and> b_blockno b \<in> P then 1 else 0) \<and>
     (b_dev b = ROOTDEV \<longrightarrow> b_valid b) \<and>
     (b_dev b = ROOTDEV \<and> \<not> h \<and> b_blockno b \<notin> P \<longrightarrow> b_data b = dk (b_blockno b))"

definition bcache_ok :: "nat set \<Rightarrow> uint set \<Rightarrow> 'z kbio_scheme \<Rightarrow> bool" where
  "bcache_ok H P s \<longleftrightarrow>
     length (bufs s) = NBUF \<and> (\<exists>xs. ring s xs) \<and> H \<subseteq> {..<NBUF} \<and> finite P \<and>
     (\<forall>i<NBUF. buf_ok (i \<in> H) P (p_pid (myproc s)) (disk s) (bufs s ! i)) \<and>
     (\<forall>n i j. cached s n i \<longrightarrow> cached s n j \<longrightarrow> i = j) \<and>
     (\<forall>n\<in>P. \<exists>i. cached s n i)"

text \<open>The contents of a block as the file system sees them.\<close>

definition bview :: "'z kbio_scheme \<Rightarrow> uint \<Rightarrow> block" where
  "bview s n =
     (case find (\<lambda>b. b_dev b = ROOTDEV \<and> b_blockno b = n) (bufs s) of
        Some b \<Rightarrow> b_data b | None \<Rightarrow> disk s n)"

text \<open>What the operations of the cache leave alone.\<close>

definition kframe :: "'z kbio_scheme \<Rightarrow> 'z kbio_scheme \<Rightarrow> bool" where
  "kframe s s' \<longleftrightarrow>
     mem s' = mem s \<and> freelist s' = freelist s \<and> kend s' = kend s \<and> cpu_proc s' = cpu_proc s \<and>
     nextpid s' = nextpid s \<and> initproc s' = initproc s \<and> length (procs s') = length (procs s) \<and>
     kbio.more s' = kbio.more s \<and> (cur_ok s \<longrightarrow> cur_ok s' \<and> myproc s' = myproc s)"

definition bframe :: "'z kbio_scheme \<Rightarrow> 'z kbio_scheme \<Rightarrow> bool" where
  "bframe s s' \<longleftrightarrow> kframe s s' \<and> disk s' = disk s \<and> disk_writes s' = disk_writes s"

lemma kframe_refl [simp]: "kframe s s"
  by (simp add: kframe_def)

lemma kframe_trans [trans]: "kframe s s' \<Longrightarrow> kframe s' s'' \<Longrightarrow> kframe s s''"
  by (simp add: kframe_def)

lemma kframe_cur: "kframe s s' \<Longrightarrow> cur_ok s \<Longrightarrow> cur_ok s' \<and> myproc s' = myproc s"
  by (simp add: kframe_def)

lemma bframe_kframe: "bframe s s' \<Longrightarrow> kframe s s'"
  by (simp add: bframe_def)

lemma bframe_refl [simp]: "bframe s s"
  by (simp add: bframe_def)

lemma bframe_trans [trans]: "bframe s s' \<Longrightarrow> bframe s' s'' \<Longrightarrow> bframe s s''"
  unfolding bframe_def using kframe_trans by metis

lemma find_update_same:
  assumes "i < length xs" "P b' = P (xs ! i)" "g b' = g (xs ! i)"
  shows "map_option g (find P (xs[i := b'])) = map_option g (find P xs)"
  using assms
proof (induction xs arbitrary: i)
  case Nil
  then show ?case by simp
next
  case (Cons x xs)
  then show ?case by (cases i) auto
qed

lemma bview_alt:
  "bview s n = (case map_option b_data (find (\<lambda>b. b_dev b = ROOTDEV \<and> b_blockno b = n) (bufs s)) of
     Some x \<Rightarrow> x | None \<Rightarrow> disk s n)"
  by (simp add: bview_def split: option.split)

lemma bview_upd_same:
  assumes "i < length (bufs s)" "bufs s' = (bufs s)[i := b']" "disk s' = disk s"
    "b_dev b' = b_dev (bufs s ! i)" "b_blockno b' = b_blockno (bufs s ! i)"
    "b_data b' = b_data (bufs s ! i)"
  shows "bview s' = bview s"
proof
  fix n
  have "map_option b_data (find (\<lambda>b. b_dev b = ROOTDEV \<and> b_blockno b = n) ((bufs s)[i := b'])) =
      map_option b_data (find (\<lambda>b. b_dev b = ROOTDEV \<and> b_blockno b = n) (bufs s))"
    using assms by (intro find_update_same) auto
  then show "bview s' n = bview s n" by (simp only: bview_alt assms(2,3))
qed

lemma bcache_ok_buf: "bcache_ok H P s \<Longrightarrow> i < NBUF \<Longrightarrow>
    buf_ok (i \<in> H) P (p_pid (myproc s)) (disk s) (bufs s ! i)"
  by (simp add: bcache_ok_def)

lemma bcache_ok_length: "bcache_ok H P s \<Longrightarrow> length (bufs s) = NBUF"
  by (simp add: bcache_ok_def)

lemma cached_unique: "bcache_ok H P s \<Longrightarrow> cached s n i \<Longrightarrow> cached s n j \<Longrightarrow> i = j"
  by (simp add: bcache_ok_def)

lemma bview_cached:
  assumes "bcache_ok H P s" "cached s n i"
  shows "bview s n = b_data (bufs s ! i)"
proof -
  let ?P = "\<lambda>b. b_dev b = ROOTDEV \<and> b_blockno b = n"
  have len: "length (bufs s) = NBUF" using assms(1) by (rule bcache_ok_length)
  have i: "i < length (bufs s)" "?P (bufs s ! i)" using assms(2) len by (auto simp: cached_def)
  then have "find ?P (bufs s) \<noteq> None" by (auto simp: find_None_iff in_set_conv_nth)
  then obtain b where "find ?P (bufs s) = Some b" by blast
  then obtain j where j: "j < length (bufs s)" "b = bufs s ! j" "?P b" "find ?P (bufs s) = Some b"
    by (auto simp: find_Some_iff)
  then have "cached s n j" using len by (simp add: cached_def)
  then have "j = i" using assms cached_unique by blast
  with j show ?thesis by (simp add: bview_def)
qed

lemma bview_uncached:
  assumes "length (bufs s) = NBUF" "\<And>i. \<not> cached s n i"
  shows "bview s n = disk s n"
proof -
  have "find (\<lambda>b. b_dev b = ROOTDEV \<and> b_blockno b = n) (bufs s) = None"
    using assms unfolding find_None_iff in_set_conv_nth cached_def by metis
  then show ?thesis by (simp only: bview_def option.case)
qed

lemma bview_cong:
  assumes "bcache_ok H' P' s'" "bcache_ok H P s" "cached s' = cached s"
    "\<And>j. b_data (bufs s' ! j) = b_data (bufs s ! j)"
    "\<And>n. (\<And>j. \<not> cached s n j) \<Longrightarrow> disk s' n = disk s n"
  shows "bview s' = bview s"
proof
  fix m
  show "bview s' m = bview s m"
  proof (cases "\<exists>j. cached s m j")
    case True
    then obtain j where "cached s m j" by blast
    then show ?thesis using bview_cached [OF assms(1), of m j] bview_cached [OF assms(2)] assms(3,4) by simp
  next
    case False
    then show ?thesis
      using bview_uncached [OF bcache_ok_length [OF assms(1)], of m]
        bview_uncached [OF bcache_ok_length [OF assms(2)], of m] assms(3,5) by simp
  qed
qed

lemma bcache_ok_upd:
  assumes "bcache_ok H P s" "i < NBUF" "bufs s' = (bufs s)[i := b']" "ring s' xs"
    "p_pid (myproc s') = p_pid (myproc s)" "disk s' = disk s"
    and H: "H' \<subseteq> {..<NBUF}" "\<And>j. j \<noteq> i \<Longrightarrow> j \<in> H' \<longleftrightarrow> j \<in> H"
    and b: "buf_ok (i \<in> H') P' (p_pid (myproc s)) (disk s) b'"
    and P: "finite P'" "\<And>n. n \<noteq> b_blockno b' \<Longrightarrow> n \<in> P' \<longleftrightarrow> n \<in> P"
      "\<And>n. n \<in> P \<Longrightarrow> cached s n i \<Longrightarrow> b_dev b' = ROOTDEV \<and> b_blockno b' = n"
    and u: "\<And>j. j \<noteq> i \<Longrightarrow> b_dev b' = ROOTDEV \<Longrightarrow> \<not> cached s (b_blockno b') j"
    and d: "b_dev b' \<noteq> ROOTDEV \<Longrightarrow> P' = P"
  shows "bcache_ok H' P' s'"
proof -
  have len: "length (bufs s) = NBUF" using assms(1) by (rule bcache_ok_length)
  have nth: "bufs s' ! j = (if j = i then b' else bufs s ! j)" for j
    using assms(2,3) len by (simp add: nth_list_update)
  have c: "cached s' n j \<longleftrightarrow> (if j = i then b_dev b' = ROOTDEV \<and> b_blockno b' = n else cached s n j)" for n j
    using assms(2) by (auto simp: cached_def nth)
  have "buf_ok (j \<in> H') P' (p_pid (myproc s')) (disk s') (bufs s' ! j)" if j: "j < NBUF" for j
  proof (cases "j = i")
    case True
    then show ?thesis using b assms(5,6) by (simp add: nth)
  next
    case False
    have o: "buf_ok (j \<in> H) P (p_pid (myproc s)) (disk s) (bufs s ! j)"
      using assms(1) j by (rule bcache_ok_buf)
    have "b_dev (bufs s ! j) = ROOTDEV \<Longrightarrow> b_blockno (bufs s ! j) \<in> P' \<longleftrightarrow> b_blockno (bufs s ! j) \<in> P"
      using False j u [OF False] P(2) d unfolding cached_def by metis
    with o False H(2) assms(5,6) show ?thesis
      unfolding buf_ok_def nth by auto
  qed
  moreover have "j = k" if "cached s' n j" "cached s' n k" for n j k
    using that u cached_unique [OF assms(1)] unfolding c by (metis (full_types))
  moreover have "\<exists>j. cached s' n j" if "n \<in> P'" for n
  proof (cases "b_dev b' = ROOTDEV \<and> n = b_blockno b'")
    case True
    then show ?thesis unfolding c by metis
  next
    case False
    then have "n \<in> P" using that P(2) d by blast
    then obtain j where "cached s n j" using assms(1) unfolding bcache_ok_def by blast
    with False \<open>n \<in> P\<close> P(3) show ?thesis unfolding c by metis
  qed
  ultimately show ?thesis
    using H(1) P(1) assms(3,4) len unfolding bcache_ok_def by auto
qed

text \<open>As long as fewer than \<open>NBUF\<close> buffers are locked or pinned, one of them is free.\<close>

lemma refcnt_0_iff:
  "buf_ok h P pid dk b \<Longrightarrow> b_refcnt b = 0 \<longleftrightarrow> \<not> h \<and> (b_dev b = ROOTDEV \<longrightarrow> b_blockno b \<notin> P)"
  by (auto simp: buf_ok_def)

lemma free_buffer_exists:
  assumes "bcache_ok H P s" "card P + card H < NBUF"
  shows "\<exists>i<NBUF. b_refcnt (bufs s ! i) = 0"
proof (rule ccontr)
  assume none: "\<not> ?thesis"
  define Q where "Q = {i. i < NBUF \<and> b_dev (bufs s ! i) = ROOTDEV \<and> b_blockno (bufs s ! i) \<in> P}"
  have "{..<NBUF} \<subseteq> H \<union> Q"
  proof
    fix i assume "i \<in> {..<NBUF}"
    then have "i < NBUF" by simp
    with none refcnt_0_iff [OF bcache_ok_buf [OF assms(1)]] show "i \<in> H \<union> Q"
      unfolding Q_def by blast
  qed
  moreover have "finite H" "finite Q" "finite P"
    using assms(1) finite_subset [of H "{..<NBUF}"] by (auto simp: bcache_ok_def Q_def)
  ultimately have "card {..<NBUF} \<le> card H + card Q"
    by (meson card_Un_le card_mono finite_UnI le_trans)
  moreover have "card Q \<le> card P"
  proof (rule card_inj_on_le)
    show "inj_on (\<lambda>i. b_blockno (bufs s ! i)) Q"
      using cached_unique [OF assms(1)] unfolding inj_on_def Q_def cached_def by blast
    show "(\<lambda>i. b_blockno (bufs s ! i)) ` Q \<subseteq> P" by (auto simp: Q_def)
    show "finite P" by fact
  qed
  ultimately show False using assms(2) by simp
qed

section \<open>The operations on the cache\<close>

text \<open>\<^verbatim>\<open>bget\<close> finds a cached block, or else the least recently used free buffer.\<close>

lemma bget_cached_hit:
  assumes "bcache_ok H P s" "cached s n i"
  shows "bget_cached (Suc NBUF) ROOTDEV n (bnext s bhead) s = Inr (Some i)"
proof -
  obtain xs where xs: "ring s xs" using assms(1) by (auto simp: bcache_ok_def)
  let ?Q = "\<lambda>b. b_dev (bufs s ! b) = ROOTDEV \<and> b_blockno (bufs s ! b) = n"
  have "bget_cached (Suc NBUF) ROOTDEV n (bnext s bhead) s = Inr (find ?Q xs)"
    using xs ring_length [OF xs] by (intro bget_cached_find) (simp_all add: ring_def)
  moreover have "find ?Q xs = Some i"
  proof -
    have "i \<in> set xs" "?Q i" using assms(2) xs by (auto simp: cached_def ring_def)
    then have "find ?Q xs \<noteq> None" by (auto simp: find_None_iff)
    then obtain j where j: "find ?Q xs = Some j" by blast
    then have "j \<in> set xs" "?Q j" by (auto simp: find_Some_iff)
    then have "cached s n j" using xs by (simp add: cached_def ring_def)
    with j show ?thesis using cached_unique [OF assms(1,2)] by blast
  qed
  ultimately show ?thesis by (simp only:)
qed

lemma bget_cached_miss:
  assumes "ring s xs" "\<And>i. \<not> cached s n i"
  shows "bget_cached (Suc NBUF) ROOTDEV n (bnext s bhead) s = Inr None"
proof -
  let ?Q = "\<lambda>b. b_dev (bufs s ! b) = ROOTDEV \<and> b_blockno (bufs s ! b) = n"
  have "bget_cached (Suc NBUF) ROOTDEV n (bnext s bhead) s = Inr (find ?Q xs)"
    using assms(1) ring_length [OF assms(1)] by (intro bget_cached_find) (simp_all add: ring_def)
  moreover have "find ?Q xs = None"
    using assms unfolding find_None_iff ring_def cached_def by blast
  ultimately show ?thesis by (simp only:)
qed

lemma bget_unused_lru:
  assumes "ring s xs"
  shows "bget_unused (Suc NBUF) (bprev s bhead) s =
    Inr (find (\<lambda>b. b_refcnt (bufs s ! b) = 0) (rev xs))"
  using assms ring_length [OF assms] by (intro bget_unused_find) (simp_all add: ring_def)

text \<open>What the caller of \<^verbatim>\<open>bread\<close> gets.\<close>

definition bread_post :: "nat set \<Rightarrow> uint set \<Rightarrow> uint \<Rightarrow> 'z kbio_scheme \<Rightarrow> nat \<Rightarrow> 'z kbio_scheme \<Rightarrow> bool" where
  "bread_post H P n s i s' \<longleftrightarrow>
     i \<notin> H \<and> cached s' n i \<and> b_data (bufs s' ! i) = bview s n \<and> bcache_ok (insert i H) P s' \<and>
     bview s' = bview s \<and> bframe s s' \<and> (\<forall>j. j \<noteq> i \<longrightarrow> bufs s' ! j = bufs s ! j)"

lemma kbio_myproc [simp]:
  "myproc (s\<lparr>bufs := x\<rparr>) = myproc s" "cur_ok (s\<lparr>bufs := x\<rparr>) = cur_ok s"
  "myproc (s\<lparr>bnext := f\<rparr>) = myproc s" "cur_ok (s\<lparr>bnext := f\<rparr>) = cur_ok s"
  "myproc (s\<lparr>bprev := f\<rparr>) = myproc s" "cur_ok (s\<lparr>bprev := f\<rparr>) = cur_ok s"
  "myproc (s\<lparr>disk := d\<rparr>) = myproc s" "cur_ok (s\<lparr>disk := d\<rparr>) = cur_ok s"
  "myproc (s\<lparr>disk_writes := w\<rparr>) = myproc s" "cur_ok (s\<lparr>disk_writes := w\<rparr>) = cur_ok s"
  by (simp_all add: myproc_def cur_ok_def)

lemma sleeplock_set [simp]: "lk\<lparr>sl_locked := x, sl_pid := y\<rparr> = \<lparr>sl_locked = x, sl_pid = y\<rparr>"
  by (cases lk) simp

lemma upd_buf_simps [simp]:
  "bufs (upd_buf i f s) = (bufs s)[i := f (bufs s ! i)]"
  "bnext (upd_buf i f s) = bnext s" "bprev (upd_buf i f s) = bprev s"
  "disk (upd_buf i f s) = disk s" "disk_writes (upd_buf i f s) = disk_writes s"
  "procs (upd_buf i f s) = procs s" "cpu_proc (upd_buf i f s) = cpu_proc s"
  "mem (upd_buf i f s) = mem s" "freelist (upd_buf i f s) = freelist s" "kend (upd_buf i f s) = kend s"
  "nextpid (upd_buf i f s) = nextpid s" "initproc (upd_buf i f s) = initproc s"
  "kbio.more (upd_buf i f s) = kbio.more s"
  "myproc (upd_buf i f s) = myproc s" "cur_ok (upd_buf i f s) = cur_ok s"
  by (simp_all add: upd_buf_def myproc_def cur_ok_def)

lemma bframe_upd_buf [simp]: "bframe s (upd_buf i f s)"
  by (simp add: bframe_def kframe_def)

lemma ring_upd_buf [simp]: "ring (upd_buf i f s) xs = ring s xs"
  by (rule ring_cong) simp_all

lemma upd_buf_twice: "i < length (bufs s) \<Longrightarrow> upd_buf i f (upd_buf i g s) = upd_buf i (f \<circ> g) s"
  by (simp add: upd_buf_def)

lemma bread_hit:
  assumes "bcache_ok H P s" "cached s n i" "i \<notin> H"
  shows "bread ROOTDEV n s = Inr (i, upd_buf i (\<lambda>bf. bf\<lparr>b_refcnt := b_refcnt bf + 1,
    b_lock := \<lparr>sl_locked = True, sl_pid = p_pid (myproc s)\<rparr>\<rparr>) s)"
proof -
  have len: "i < length (bufs s)" using assms by (simp add: bcache_ok_def cached_def)
  have "buf_ok False P (p_pid (myproc s)) (disk s) (bufs s ! i)"
    using bcache_ok_buf [OF assms(1), of i] assms by (simp add: cached_def)
  then have b: "\<not> sl_locked (b_lock (bufs s ! i))" "b_valid (bufs s ! i)"
    using assms(2) by (auto simp: buf_ok_def cached_def)
  show ?thesis
    unfolding bread_def bget_def bget_cached_hit [OF assms(1,2)]
    using len b
    by (simp add: lock_buf_def acquiresleep_def upd_buf_def)
qed

lemma bread_miss:
  assumes "length (bufs s) = NBUF" "ring s xs" "\<And>i. \<not> cached s n i"
    "find (\<lambda>b. b_refcnt (bufs s ! b) = 0) (rev xs) = Some i" "\<not> sl_locked (b_lock (bufs s ! i))"
  shows "bread ROOTDEV n s = Inr (i, upd_buf i (\<lambda>bf. bf\<lparr>b_dev := ROOTDEV, b_blockno := n,
    b_refcnt := 1, b_lock := \<lparr>sl_locked = True, sl_pid = p_pid (myproc s)\<rparr>, b_data := disk s n,
    b_disk := False, b_valid := True\<rparr>) s)"
proof -
  have "i \<in> set xs" using assms(4) by (metis find_Some_iff length_rev nth_mem set_rev)
  then have len: "i < length (bufs s)" using assms(1,2) by (auto simp: ring_def)
  show ?thesis
    unfolding bread_def bget_def bget_cached_miss [OF assms(2,3)] bget_unused_lru [OF assms(2)] assms(4)
    using len assms(5)
    by (simp add: lock_buf_def acquiresleep_def upd_buf_def disk_rw_def Let_def)
qed

lemma bread_ok_hit:
  assumes ok: "bcache_ok H P s" and i: "cached s n i" "i \<notin> H"
  shows "\<exists>s'. bread ROOTDEV n s = Inr (i, s') \<and> bread_post H P n s i s'"
proof -
  obtain xs where xs: "ring s xs" using ok by (auto simp: bcache_ok_def)
  let ?f = "\<lambda>bf. bf\<lparr>b_refcnt := b_refcnt bf + 1,
    b_lock := \<lparr>sl_locked = True, sl_pid = p_pid (myproc s)\<rparr>\<rparr>"
  let ?s = "upd_buf i ?f s"
  have k: "i < NBUF" "b_dev (bufs s ! i) = ROOTDEV" "b_blockno (bufs s ! i) = n"
    using i by (simp_all add: cached_def)
  have b: "buf_ok False P (p_pid (myproc s)) (disk s) (bufs s ! i)"
    using bcache_ok_buf [OF ok, of i] i k by simp
  have len: "length (bufs s) = NBUF" using ok by (rule bcache_ok_length)
  have "bcache_ok (insert i H) P ?s"
  proof (rule bcache_ok_upd [OF ok k(1), where b' = "?f (bufs s ! i)" and xs = xs])
    show "buf_ok (i \<in> insert i H) P (p_pid (myproc s)) (disk s) (?f (bufs s ! i))"
      using b k by (simp add: buf_ok_def)
    show "insert i H \<subseteq> {..<NBUF}" "finite P" using ok k by (simp_all add: bcache_ok_def)
    show "\<not> cached s (b_blockno (?f (bufs s ! i))) j" if "j \<noteq> i" for j
      using cached_unique [OF ok i(1)] that k by auto
  qed (use xs k in \<open>simp_all add: cached_def\<close>)
  moreover have "bview ?s = bview s"
    by (rule bview_upd_same [where b' = "?f (bufs s ! i)" and i = i]) (use k len in simp_all)
  moreover have "cached ?s n i" "b_data (bufs ?s ! i) = bview s n"
    using k len bview_cached [OF ok i(1)] by (simp_all add: cached_def)
  ultimately have "bread_post H P n s i ?s" using i by (simp add: bread_post_def)
  then show ?thesis using bread_hit [OF ok i] by blast
qed

text \<open>Replacing a clean buffer by the disk's copy of a block that is not cached changes no view.\<close>

lemma bview_replace:
  assumes ok: "bcache_ok H P s" "bcache_ok H' P' s'" and i: "i < NBUF" "i \<notin> H"
    and s': "bufs s' = (bufs s)[i := b']" "disk s' = disk s"
    and b: "b_dev b' = ROOTDEV" "b_blockno b' = n" "b_data b' = disk s n" "\<And>j. \<not> cached s n j"
    and nP: "b_dev (bufs s ! i) = ROOTDEV \<Longrightarrow> b_blockno (bufs s ! i) \<notin> P"
  shows "bview s' = bview s"
proof
  fix m
  have len: "length (bufs s) = NBUF" "length (bufs s') = NBUF"
    using ok by (simp_all add: bcache_ok_length)
  have nth: "bufs s' ! j = (if j = i then b' else bufs s ! j)" for j
    using i s' len by (simp add: nth_list_update)
  have c: "cached s' m j \<longleftrightarrow> (if j = i then m = n else cached s m j)" for j
    using i b by (auto simp: cached_def nth)
  consider (new) "m = n" | (other) j where "m \<noteq> n" "j \<noteq> i" "cached s m j"
    | (gone) "m \<noteq> n" "cached s m i" "\<And>j. \<not> cached s' m j"
    | (none) "m \<noteq> n" "\<And>j. \<not> cached s m j" "\<And>j. \<not> cached s' m j"
    using c cached_unique [OF ok(1)] by metis
  then show "bview s' m = bview s m"
  proof cases
    case new
    then show ?thesis
      using bview_cached [OF ok(2), of m i] c [of i] b bview_uncached [OF len(1) b(4)] by (simp add: nth)
  next
    case (other j)
    then show ?thesis
      using c [of j] bview_cached [OF ok(2), of m j] bview_cached [OF ok(1), of m j] by (simp add: nth)
  next
    case gone
    have "b_data (bufs s ! i) = disk s m"
      using bcache_ok_buf [OF ok(1) i(1)] i(2) nP gone(2) by (auto simp: buf_ok_def cached_def)
    then show ?thesis
      using bview_cached [OF ok(1) gone(2)] bview_uncached [OF len(2) gone(3)] s' by simp
  next
    case none
    then show ?thesis
      using bview_uncached [OF len(1)] bview_uncached [OF len(2)] s' by simp
  qed
qed

lemma bread_ok_miss:
  assumes ok: "bcache_ok H P s" and room: "card P + card H < NBUF" and nc: "\<And>i. \<not> cached s n i"
  shows "\<exists>i s'. bread ROOTDEV n s = Inr (i, s') \<and> bread_post H P n s i s'"
proof -
  obtain xs where xs: "ring s xs" using ok by (auto simp: bcache_ok_def)
  have len: "length (bufs s) = NBUF" using ok by (rule bcache_ok_length)
  have set: "set (rev xs) = {..<NBUF}" using xs by (simp add: ring_def)
  then have "find (\<lambda>b. b_refcnt (bufs s ! b) = 0) (rev xs) \<noteq> None"
    using free_buffer_exists [OF ok room] unfolding find_None_iff by blast
  then obtain i where i: "find (\<lambda>b. b_refcnt (bufs s ! b) = 0) (rev xs) = Some i" by blast
  then have "i \<in> set (rev xs)" and r0: "b_refcnt (bufs s ! i) = 0"
    unfolding find_Some_iff by (metis nth_mem)+
  then have iN: "i < NBUF" using set by simp
  have b: "buf_ok (i \<in> H) P (p_pid (myproc s)) (disk s) (bufs s ! i)"
    using bcache_ok_buf [OF ok iN] .
  with r0 have nH: "i \<notin> H" and nP: "b_dev (bufs s ! i) = ROOTDEV \<Longrightarrow> b_blockno (bufs s ! i) \<notin> P"
    using refcnt_0_iff by blast+
  have unl: "\<not> sl_locked (b_lock (bufs s ! i))" using b nH by (simp add: buf_ok_def)
  have nP': "n \<notin> P" using ok nc unfolding bcache_ok_def by blast
  let ?f = "\<lambda>bf. bf\<lparr>b_dev := ROOTDEV, b_blockno := n,
    b_refcnt := 1, b_lock := \<lparr>sl_locked = True, sl_pid = p_pid (myproc s)\<rparr>, b_data := disk s n,
    b_disk := False, b_valid := True\<rparr>"
  let ?s = "upd_buf i ?f s"
  have okx: "bcache_ok (insert i H) P ?s"
  proof (rule bcache_ok_upd [OF ok iN, where b' = "?f (bufs s ! i)" and xs = xs])
    show "buf_ok (i \<in> insert i H) P (p_pid (myproc s)) (disk s) (?f (bufs s ! i))"
      using nP' by (simp add: buf_ok_def)
    show "insert i H \<subseteq> {..<NBUF}" "finite P" using ok iN by (simp_all add: bcache_ok_def)
    show "b_dev (?f (bufs s ! i)) = ROOTDEV \<and> b_blockno (?f (bufs s ! i)) = m"
      if "m \<in> P" "cached s m i" for m
      using that nP by (simp add: cached_def)
  qed (use xs nc in simp_all)
  have "bview ?s = bview s"
    by (rule bview_replace [OF ok okx iN nH, where b' = "?f (bufs s ! i)" and n = n])
      (use nc nP in simp_all)
  moreover have "cached ?s n i" "b_data (bufs ?s ! i) = bview s n"
    using iN len bview_uncached [OF len nc] by (simp_all add: cached_def)
  ultimately have "bread_post H P n s i ?s" using nH okx by (simp add: bread_post_def)
  then show ?thesis using bread_miss [OF len xs nc i unl] by blast
qed

text \<open>
  The cache serves a block that the caller has not locked itself: no panic, no sleep, and the
  buffer holds what the file system sees in the block.
\<close>

lemma bread_ok:
  assumes "bcache_ok H P s" "card P + card H < NBUF" "\<And>i. cached s n i \<Longrightarrow> i \<notin> H"
  shows "\<exists>i s'. bread ROOTDEV n s = Inr (i, s') \<and> bread_post H P n s i s'"
  using assms bread_ok_hit bread_ok_miss by metis

text \<open>Releasing, changing, pinning and writing a buffer.\<close>

definition bstep :: "nat set \<Rightarrow> uint set \<Rightarrow> nat \<Rightarrow> 'z kbio_scheme \<Rightarrow> 'z kbio_scheme \<Rightarrow> bool" where
  "bstep H P i s s' \<longleftrightarrow>
     bcache_ok H P s' \<and> bview s' = bview s \<and> bframe s s' \<and> cached s' = cached s \<and>
     (\<forall>j. j \<noteq> i \<longrightarrow> bufs s' ! j = bufs s ! j) \<and> b_data (bufs s' ! i) = b_data (bufs s ! i)"

lemma kbio_wakeup [simp]:
  "bufs (wakeup ch s) = bufs s" "bnext (wakeup ch s) = bnext s" "bprev (wakeup ch s) = bprev s"
  "disk (wakeup ch s) = disk s" "disk_writes (wakeup ch s) = disk_writes s"
  "kbio.more (wakeup ch s) = kbio.more s"
  by (simp_all add: wakeup_def)

lemma move_to_front_simps [simp]:
  "bufs (move_to_front i s) = bufs s" "disk (move_to_front i s) = disk s"
  "disk_writes (move_to_front i s) = disk_writes s" "kbio.more (move_to_front i s) = kbio.more s"
  "procs (move_to_front i s) = procs s" "cpu_proc (move_to_front i s) = cpu_proc s"
  "mem (move_to_front i s) = mem s" "freelist (move_to_front i s) = freelist s"
  "kend (move_to_front i s) = kend s" "nextpid (move_to_front i s) = nextpid s"
  "initproc (move_to_front i s) = initproc s"
  "myproc (move_to_front i s) = myproc s" "cur_ok (move_to_front i s) = cur_ok s"
  by (simp_all add: move_to_front_def Let_def)

lemma ring_wakeup [simp]: "ring (wakeup ch s) xs = ring s xs"
  by (rule ring_cong) simp_all

lemma bframe_move_to_front [simp]: "bframe s (move_to_front i s') = bframe s s'"
  by (simp add: bframe_def kframe_def)

lemma bframe_upd_buf_right: "bframe s (upd_buf i f s') = bframe s s'"
  by (simp add: bframe_def kframe_def)

lemma bframe_wakeup [simp]: "bframe s (wakeup ch s)"
  by (simp add: bframe_def kframe_def)

lemma bframe_if: "bframe s a \<Longrightarrow> bframe s b \<Longrightarrow> bframe s (if c then a else b)"
  by simp

lemma ring_if:
  "\<exists>xs. ring a xs \<Longrightarrow> \<exists>xs. ring b xs \<Longrightarrow> \<exists>xs. ring (if c then a else b) xs"
  by simp

lemma ring_moved:
  assumes "ring s xs" "i < NBUF"
  shows "\<exists>xs'. ring (move_to_front i s) xs'"
proof -
  have "i \<in> set xs" using assms by (simp add: ring_def)
  then obtain ys zs where "xs = ys @ i # zs" by (meson split_list)
  with assms ring_move_to_front [of s ys i zs] show ?thesis by blast
qed

lemma cached_upd_same:
  assumes "i < NBUF" "length (bufs s) = NBUF" "bufs s' = (bufs s)[i := b']"
    "b_dev b' = b_dev (bufs s ! i)" "b_blockno b' = b_blockno (bufs s ! i)"
  shows "cached s' = cached s"
  using assms by (auto simp: cached_def fun_eq_iff nth_list_update)

text \<open>A step that only changes one buffer, and neither its key nor its data.\<close>

lemma bstepI:
  assumes ok: "bcache_ok H P s" and i: "i < NBUF" and s': "bufs s' = (bufs s)[i := b']"
    and ring: "ring s' xs" and fr: "bframe s s'" "cur_ok s"
    and H: "H' \<subseteq> {..<NBUF}" "\<And>j. j \<noteq> i \<Longrightarrow> j \<in> H' \<longleftrightarrow> j \<in> H"
    and P: "finite P'" "\<And>n. n \<noteq> b_blockno b' \<Longrightarrow> n \<in> P' \<longleftrightarrow> n \<in> P"
    and b: "buf_ok (i \<in> H') P' (p_pid (myproc s)) (disk s) b'"
    and same: "b_dev b' = b_dev (bufs s ! i)" "b_blockno b' = b_blockno (bufs s ! i)"
      "b_data b' = b_data (bufs s ! i)" and root: "b_dev b' = ROOTDEV"
  shows "bstep H' P' i s s'"
proof -
  have len: "length (bufs s) = NBUF" using ok by (rule bcache_ok_length)
  have c: "cached s (b_blockno b') i" using same root i by (simp add: cached_def)
  have "bcache_ok H' P' s'"
  proof (rule bcache_ok_upd [OF ok i s' ring])
    show "p_pid (myproc s') = p_pid (myproc s)" "disk s' = disk s"
      using fr by (simp_all add: bframe_def kframe_def)
    show "b_dev b' = ROOTDEV \<and> b_blockno b' = n" if "cached s n i" for n
      using that same by (simp add: cached_def)
    show "\<not> cached s (b_blockno b') j" if "j \<noteq> i" for j
      using cached_unique [OF ok c] that by blast
    show "P' = P" if "b_dev b' \<noteq> ROOTDEV" using that root by simp
  qed (use H P b in simp_all)
  moreover have "bview s' = bview s"
    by (rule bview_upd_same [OF _ s']) (use same i len fr in \<open>simp_all add: bframe_def\<close>)
  moreover have "cached s' = cached s" using i len s' same(1,2) by (rule cached_upd_same)
  ultimately show ?thesis using fr s' same i len by (simp add: bstep_def nth_list_update)
qed

lemma brelse_ok:
  assumes ok: "bcache_ok H P s" and i: "i \<in> H" and cur: "cur_ok s"
    and clean: "b_blockno (bufs s ! i) \<in> P \<or> b_data (bufs s ! i) = disk s (b_blockno (bufs s ! i))"
  shows "\<exists>s'. brelse i s = Inr s' \<and> bstep (H - {i}) P i s s'"
proof -
  have iN: "i < NBUF" using ok i by (auto simp: bcache_ok_def)
  have len: "length (bufs s) = NBUF" using ok by (rule bcache_ok_length)
  obtain xs where xs: "ring s xs" using ok by (auto simp: bcache_ok_def)
  have b: "buf_ok True P (p_pid (myproc s)) (disk s) (bufs s ! i)"
    using bcache_ok_buf [OF ok iN] i by simp
  let ?g = "\<lambda>bf. bf\<lparr>b_lock := \<lparr>sl_locked = False, sl_pid = 0\<rparr>, b_refcnt := b_refcnt bf - 1\<rparr>"
  let ?s = "upd_buf i (\<lambda>bf. bf\<lparr>b_refcnt := b_refcnt bf - 1\<rparr>) (unlock_buf i s)"
  let ?t = "if b_refcnt (bufs ?s ! i) = 0 then move_to_front i ?s else ?s"
  have s: "bufs ?s = (bufs s)[i := ?g (bufs s ! i)]"
    using iN len by (simp add: unlock_buf_def releasesleep_def)
  have rel: "brelse i s = Inr ?t"
    using b by (simp add: brelse_def holdingsleep_def buf_ok_def Let_def)
  have ring: "ring ?s xs" using xs by (simp add: unlock_buf_def releasesleep_def)
  have "bframe s ?s"
    unfolding unlock_buf_def releasesleep_def prod.case bframe_upd_buf_right by (rule bframe_wakeup)
  then have fr: "bframe s ?t" by (intro bframe_if) simp_all
  have "\<exists>ys. ring ?t ys"
    by (rule ring_if [OF ring_moved [OF ring iN]]) (rule exI [of _ xs], rule ring)
  then obtain ys where ys: "ring ?t ys" by (rule exE)
  have t: "bufs ?t = (bufs s)[i := ?g (bufs s ! i)]"
    unfolding if_distrib [of bufs] move_to_front_simps if_cancel by (rule s)
  have "bstep (H - {i}) P i s ?t"
  proof (rule bstepI [OF ok iN t ys fr cur])
    show "H - {i} \<subseteq> {..<NBUF}" "finite P" using ok by (auto simp: bcache_ok_def)
    show "buf_ok (i \<in> H - {i}) P (p_pid (myproc s)) (disk s) (?g (bufs s ! i))"
      using b clean by (auto simp: buf_ok_def)
    show "b_dev (?g (bufs s ! i)) = ROOTDEV" using b by (simp add: buf_ok_def)
  qed simp_all
  then show ?thesis unfolding rel by (intro exI [of _ ?t] conjI refl)
qed

text \<open>The code writes through \<^verbatim>\<open>bp->data\<close> while it holds the buffer's lock.\<close>

definition bmod :: "nat \<Rightarrow> (block \<Rightarrow> block) \<Rightarrow> 'z kbio_scheme \<Rightarrow> 'z kbio_scheme" where
  "bmod i g s = upd_buf i (\<lambda>bf. bf\<lparr>b_data := g (b_data bf)\<rparr>) s"

lemma bmod_ok:
  assumes ok: "bcache_ok H P s" and i: "i \<in> H" and n: "n = b_blockno (bufs s ! i)"
  shows "bcache_ok H P (bmod i g s) \<and> bview (bmod i g s) = (bview s)(n := g (b_data (bufs s ! i))) \<and>
    bframe s (bmod i g s) \<and> cached (bmod i g s) = cached s \<and>
    b_data (bufs (bmod i g s) ! i) = g (b_data (bufs s ! i)) \<and>
    (\<forall>j. j \<noteq> i \<longrightarrow> bufs (bmod i g s) ! j = bufs s ! j)"
proof -
  have iN: "i < NBUF" using ok i by (auto simp: bcache_ok_def)
  have len: "length (bufs s) = NBUF" using ok by (rule bcache_ok_length)
  obtain xs where xs: "ring s xs" using ok by (auto simp: bcache_ok_def)
  let ?g = "\<lambda>bf. bf\<lparr>b_data := g (b_data bf)\<rparr>" and ?s = "bmod i g s"
  have s': "bufs ?s = (bufs s)[i := ?g (bufs s ! i)]" by (simp add: bmod_def)
  have b: "buf_ok True P (p_pid (myproc s)) (disk s) (bufs s ! i)"
    using bcache_ok_buf [OF ok iN] i by simp
  then have ci: "cached s n i" using n iN by (simp add: buf_ok_def cached_def)
  have c: "cached ?s = cached s" by (rule cached_upd_same [OF iN len s']) simp_all
  have okx: "bcache_ok H P ?s"
  proof (rule bcache_ok_upd [OF ok iN s', where xs = xs])
    show "buf_ok (i \<in> H) P (p_pid (myproc s)) (disk s) (?g (bufs s ! i))"
      using b i by (simp add: buf_ok_def)
    show "H \<subseteq> {..<NBUF}" "finite P" using ok by (simp_all add: bcache_ok_def)
    show "\<not> cached s (b_blockno (?g (bufs s ! i))) j" if "j \<noteq> i" for j
      using cached_unique [OF ok ci] that n by auto
  qed (use xs ci in \<open>simp_all add: bmod_def cached_def\<close>)
  have "bview ?s m = ((bview s)(n := g (b_data (bufs s ! i)))) m" for m
  proof (cases "\<exists>j. cached s m j")
    case True
    then obtain j where j: "cached s m j" by blast
    have mn: "m = n \<longleftrightarrow> j = i" using cached_unique [OF ok ci] j ci unfolding cached_def by metis
    have "cached ?s m j" using j c by simp
    then have "bview ?s m = b_data (bufs ?s ! j)" by (rule bview_cached [OF okx])
    with bview_cached [OF ok j] mn iN len show ?thesis unfolding s' by (simp add: nth_list_update)
  next
    case False
    then have "bview ?s m = disk s m" "bview s m = disk s m" "m \<noteq> n"
      using bview_uncached [of ?s m] bview_uncached [of s m] c ci len by (auto simp: bmod_def)
    then show ?thesis by simp
  qed
  then have "bview ?s = (bview s)(n := g (b_data (bufs s ! i)))" by (rule ext)
  with okx c s' iN len show ?thesis by (simp add: bmod_def)
qed

lemma bpin_ok:
  assumes ok: "bcache_ok H P s" and i: "i \<in> H" and cur: "cur_ok s"
    and n: "n = b_blockno (bufs s ! i)" "n \<notin> P"
  shows "bstep H (insert n P) i s (bpin i s)"
proof -
  have iN: "i < NBUF" using ok i by (auto simp: bcache_ok_def)
  obtain xs where xs: "ring s xs" using ok by (auto simp: bcache_ok_def)
  have b: "buf_ok True P (p_pid (myproc s)) (disk s) (bufs s ! i)"
    using bcache_ok_buf [OF ok iN] i by simp
  let ?b = "(bufs s ! i)\<lparr>b_refcnt := b_refcnt (bufs s ! i) + 1\<rparr>"
  show ?thesis
  proof (rule bstepI [OF ok iN, where b' = ?b and xs = xs])
    show "H \<subseteq> {..<NBUF}" "finite (insert n P)" using ok by (auto simp: bcache_ok_def)
    show "buf_ok (i \<in> H) (insert n P) (p_pid (myproc s)) (disk s) ?b"
      using b n i by (auto simp: buf_ok_def)
    show "b_dev ?b = ROOTDEV" using b by (simp add: buf_ok_def)
  qed (use cur xs n in \<open>simp_all add: bpin_def\<close>)
qed

lemma bunpin_ok:
  assumes ok: "bcache_ok H P s" and i: "i \<in> H" and cur: "cur_ok s"
    and n: "n = b_blockno (bufs s ! i)" "n \<in> P"
  shows "bstep H (P - {n}) i s (bunpin i s)"
proof -
  have iN: "i < NBUF" using ok i by (auto simp: bcache_ok_def)
  obtain xs where xs: "ring s xs" using ok by (auto simp: bcache_ok_def)
  have b: "buf_ok True P (p_pid (myproc s)) (disk s) (bufs s ! i)"
    using bcache_ok_buf [OF ok iN] i by simp
  let ?b = "(bufs s ! i)\<lparr>b_refcnt := b_refcnt (bufs s ! i) - 1\<rparr>"
  show ?thesis
  proof (rule bstepI [OF ok iN, where b' = ?b and xs = xs])
    show "H \<subseteq> {..<NBUF}" "finite (P - {n})" using ok by (auto simp: bcache_ok_def)
    show "buf_ok (i \<in> H) (P - {n}) (p_pid (myproc s)) (disk s) ?b"
      using b n i by (auto simp: buf_ok_def)
    show "b_dev ?b = ROOTDEV" using b by (simp add: buf_ok_def)
  qed (use cur xs n in \<open>simp_all add: bunpin_def\<close>)
qed

definition bwrite_post :: "nat set \<Rightarrow> uint set \<Rightarrow> nat \<Rightarrow> 'z kbio_scheme \<Rightarrow> 'z kbio_scheme \<Rightarrow> bool" where
  "bwrite_post H P i s s' \<longleftrightarrow>
     bcache_ok H P s' \<and> bview s' = bview s \<and> kframe s s' \<and> cached s' = cached s \<and>
     disk s' = (disk s)(b_blockno (bufs s ! i) := b_data (bufs s ! i)) \<and>
     disk_writes s' = disk_writes s @ [(b_blockno (bufs s ! i), b_data (bufs s ! i))] \<and>
     (\<forall>j. j \<noteq> i \<longrightarrow> bufs s' ! j = bufs s ! j) \<and> b_data (bufs s' ! i) = b_data (bufs s ! i)"

lemma bwrite_ok:
  assumes ok: "bcache_ok H P s" and i: "i \<in> H"
  shows "\<exists>s'. bwrite i s = Inr s' \<and> bwrite_post H P i s s'"
proof -
  have iN: "i < NBUF" using ok i by (auto simp: bcache_ok_def)
  have len: "length (bufs s) = NBUF" using ok by (rule bcache_ok_length)
  have b: "buf_ok True P (p_pid (myproc s)) (disk s) (bufs s ! i)"
    using bcache_ok_buf [OF ok iN] i by simp
  let ?n = "b_blockno (bufs s ! i)" and ?d = "b_data (bufs s ! i)"
  let ?b = "(bufs s ! i)\<lparr>b_disk := False\<rparr>"
  define s' where "s' = s\<lparr>bufs := (bufs s)[i := ?b], disk := (disk s)(?n := ?d),
    disk_writes := disk_writes s @ [(?n, ?d)]\<rparr>"
  have w: "bwrite i s = Inr s'"
    using b iN len by (simp add: bwrite_def holdingsleep_def buf_ok_def disk_rw_def Let_def s'_def upd_buf_def)
  have bufs': "bufs s' = (bufs s)[i := ?b]" by (simp add: s'_def)
  have nth: "bufs s' ! j = (if j = i then ?b else bufs s ! j)" for j
    using iN len by (simp add: bufs' nth_list_update)
  have c: "cached s' = cached s" by (rule cached_upd_same [OF iN len bufs']) simp_all
  have ci: "cached s ?n i" using b iN by (simp add: cached_def buf_ok_def)
  have kf: "kframe s s'" by (simp add: kframe_def s'_def)
  have pid: "myproc s' = myproc s" by (simp add: s'_def)
  have "buf_ok (j \<in> H) P (p_pid (myproc s')) (disk s') (bufs s' ! j)" if j: "j < NBUF" for j
  proof (cases "j = i")
    case True
    with b i show ?thesis by (simp add: nth pid buf_ok_def)
  next
    case False
    then have "b_dev (bufs s ! j) = ROOTDEV \<Longrightarrow> b_blockno (bufs s ! j) \<noteq> ?n"
      using cached_unique [OF ok ci] j unfolding cached_def by metis
    with False bcache_ok_buf [OF ok j] show ?thesis
      by (simp add: nth pid buf_ok_def s'_def)
  qed
  moreover have "ring s' = ring s" by (rule ext, rule ring_cong) (simp_all add: s'_def)
  ultimately have okx: "bcache_ok H P s'"
    using ok len unfolding bcache_ok_def c bufs' length_list_update by (simp only:) blast
  have "bview s' = bview s"
    by (rule bview_cong [OF okx ok c]) (use nth ci in \<open>auto simp: s'_def\<close>)
  then have "bwrite_post H P i s s'"
    using okx kf c nth unfolding bwrite_post_def by (simp add: s'_def)
  with w show ?thesis by blast
qed

text \<open>\<^verbatim>\<open>binit\<close> builds the ring; the statically allocated buffers start out zero.\<close>

lemma binit_one_ring:
  assumes "links (bnext s) (bprev s) bhead xs bhead" "b \<notin> set xs" "b \<noteq> bhead" "bhead \<notin> set xs"
    "distinct xs"
  shows "links (bnext (binit_one b s)) (bprev (binit_one b s)) bhead (b # xs) bhead"
proof -
  have "bnext (binit_one b s) = (bnext s)(b := bnext s bhead, bhead := b)"
    "bprev (binit_one b s) = (bprev s)(b := bhead, bnext s bhead := b)"
    using assms(3) by (simp_all add: binit_one_def Let_def)
  with links_push [OF assms(1,2,3,4,5)] show ?thesis by (simp only:)
qed

lemma binit_one_bufs:
  "bufs (binit_one b s) = (bufs s)[b := (bufs s ! b)\<lparr>b_lock := initsleeplock\<rparr>]"
  "disk (binit_one b s) = disk s" "procs (binit_one b s) = procs s" "cpu_proc (binit_one b s) = cpu_proc s"
  by (simp_all add: binit_one_def Let_def)

lemma binit_ring:
  "n \<le> NBUF \<Longrightarrow> bnext s bhead = bhead \<Longrightarrow> bprev s bhead = bhead \<Longrightarrow>
   links (bnext (fold binit_one [0..<n] s)) (bprev (fold binit_one [0..<n] s)) bhead (rev [0..<n]) bhead"
proof (induction n)
  case 0
  then show ?case by simp
next
  case (Suc n)
  then show ?case
    using binit_one_ring [of "fold binit_one [0..<n] s" "rev [0..<n]" n] by simp
qed

lemma binit_bufs:
  assumes "n \<le> length (bufs s)"
  shows "length (bufs (fold binit_one [0..<n] s)) = length (bufs s) \<and>
    (\<forall>i<length (bufs s). bufs (fold binit_one [0..<n] s) ! i =
      (if i < n then (bufs s ! i)\<lparr>b_lock := initsleeplock\<rparr> else bufs s ! i)) \<and>
    disk (fold binit_one [0..<n] s) = disk s \<and> procs (fold binit_one [0..<n] s) = procs s \<and>
    cpu_proc (fold binit_one [0..<n] s) = cpu_proc s"
  using assms
proof (induction n)
  case 0
  then show ?case by simp
next
  case (Suc n)
  then show ?case by (auto simp: binit_one_bufs nth_list_update less_Suc_eq)
qed

lemma binit_ok:
  assumes "length (bufs s) = NBUF" "\<And>i. i < NBUF \<Longrightarrow> b_dev (bufs s ! i) = 0 \<and> b_refcnt (bufs s ! i) = 0"
  shows "bcache_ok {} {} (binit s) \<and> ring (binit s) (rev [0..<NBUF])"
proof -
  let ?s = "s\<lparr>bprev := (bprev s)(bhead := bhead), bnext := (bnext s)(bhead := bhead)\<rparr>"
  have s: "binit s = fold binit_one [0..<NBUF] ?s" by (simp add: binit_def del: upt_Suc)
  have ring: "ring (binit s) (rev [0..<NBUF])"
    unfolding s ring_def using binit_ring [of NBUF ?s] by (simp add: atLeast0LessThan del: upt_Suc)
  have b: "length (bufs (binit s)) = NBUF" "bufs (binit s) ! i = (bufs s ! i)\<lparr>b_lock := initsleeplock\<rparr>"
    if "i < NBUF" for i
    using binit_bufs [of NBUF ?s] assms(1) that unfolding s by (auto simp del: upt_Suc)
  have nc: "\<not> cached (binit s) n i" for n i
    using b(2) [of i] assms(2) [of i] by (auto simp: cached_def)
  have "buf_ok False {} (p_pid (myproc (binit s))) (disk (binit s)) (bufs (binit s) ! i)" if "i < NBUF" for i
    using b(2) [OF that] assms(2) [OF that] by (simp add: buf_ok_def initsleeplock_def)
  then show ?thesis using ring b(1) [of 0] nc by (auto simp: bcache_ok_def)
qed

section \<open>Rules for the clients of the cache\<close>

text \<open>\<open>holds s i n d\<close>: buffer \<open>i\<close> is block \<open>n\<close> with contents \<open>d\<close>.\<close>

definition holds :: "'z kbio_scheme \<Rightarrow> nat \<Rightarrow> uint \<Rightarrow> block \<Rightarrow> bool" where
  "holds s i n d \<longleftrightarrow> cached s n i \<and> b_data (bufs s ! i) = d"

lemma holds_blockno: "holds s i n d \<Longrightarrow> b_blockno (bufs s ! i) = n"
  by (simp add: holds_def cached_def)

lemma holds_data: "holds s i n d \<Longrightarrow> b_data (bufs s ! i) = d"
  by (simp add: holds_def)

lemma holds_less: "holds s i n d \<Longrightarrow> i < NBUF"
  by (simp add: holds_def cached_def)

lemma holds_same: "bufs s' ! j = bufs s ! j \<Longrightarrow> holds s' j n d = holds s j n d"
  by (simp add: holds_def cached_def)

lemma bread_rule:
  assumes ok: "bcache_ok H P s" and room: "n \<in> P \<or> card P + card H < NBUF"
    and other: "\<And>i. i \<in> H \<Longrightarrow> b_blockno (bufs s ! i) \<noteq> n"
  obtains i s' where "bread ROOTDEV n s = Inr (i, s')" "i \<notin> H" "bcache_ok (insert i H) P s'"
    "bview s' = bview s" "bframe s s'" "holds s' i n (bview s n)"
    "\<And>j m d. j \<in> H \<Longrightarrow> holds s' j m d = holds s j m d"
proof -
  have free: "cached s n i \<Longrightarrow> i \<notin> H" for i using other by (auto simp: cached_def)
  have "\<exists>i s'. bread ROOTDEV n s = Inr (i, s') \<and> bread_post H P n s i s'"
  proof (cases "n \<in> P")
    case True
    then obtain i where "cached s n i" using ok unfolding bcache_ok_def by blast
    with free bread_ok_hit [OF ok] show ?thesis by blast
  next
    case False
    with room bread_ok [OF ok _ free] show ?thesis by blast
  qed
  then obtain i s' where r: "bread ROOTDEV n s = Inr (i, s')" and p: "bread_post H P n s i s'" by blast
  show thesis
  proof (rule that [OF r])
    show "holds s' j m d = holds s j m d" if "j \<in> H" for j m d
      using p that by (intro holds_same) (auto simp: bread_post_def)
  qed (use p in \<open>simp_all add: bread_post_def holds_def\<close>)
qed

lemma bstep_holds: "bstep H P i s s' \<Longrightarrow> holds s' j n d = holds s j n d"
  unfolding bstep_def holds_def by metis

lemma brelse_rule:
  assumes "bcache_ok H P s" "i \<in> H" "cur_ok s" "holds s i n d" "n \<in> P \<or> d = disk s n"
  obtains s' where "brelse i s = Inr s'" "bcache_ok (H - {i}) P s'" "bview s' = bview s" "bframe s s'"
    "\<And>j m d. holds s' j m d = holds s j m d"
proof -
  have "b_blockno (bufs s ! i) \<in> P \<or> b_data (bufs s ! i) = disk s (b_blockno (bufs s ! i))"
    using assms(4,5) by (simp add: holds_blockno holds_data)
  then obtain s' where s': "brelse i s = Inr s'" "bstep (H - {i}) P i s s'"
    using brelse_ok [OF assms(1,2,3)] by blast
  show thesis
    by (rule that [OF s'(1)]) (use s'(2) bstep_holds [OF s'(2)] in \<open>simp_all add: bstep_def\<close>)
qed

lemma bmod_rule:
  assumes "bcache_ok H P s" "i \<in> H" "holds s i n d"
  shows "bcache_ok H P (bmod i g s)" "bview (bmod i g s) = (bview s)(n := g d)"
    "bframe s (bmod i g s)" "holds (bmod i g s) i n (g d)"
    "\<And>j m d. j \<noteq> i \<Longrightarrow> holds (bmod i g s) j m d = holds s j m d"
  using bmod_ok [OF assms(1,2), of n g] holds_blockno [OF assms(3)] holds_data [OF assms(3)] assms(3)
  by (auto simp: holds_def intro!: holds_same)

lemma bwrite_rule:
  assumes "bcache_ok H P s" "i \<in> H" "holds s i n d"
  obtains s' where "bwrite i s = Inr s'" "bcache_ok H P s'" "bview s' = bview s" "kframe s s'"
    "disk s' = (disk s)(n := d)" "disk_writes s' = disk_writes s @ [(n, d)]"
    "\<And>j m d. holds s' j m d = holds s j m d"
proof -
  obtain s' where s': "bwrite i s = Inr s'" "bwrite_post H P i s s'"
    using bwrite_ok [OF assms(1,2)] by blast
  have "holds s' j m d = holds s j m d" for j m d
    using s'(2) unfolding bwrite_post_def holds_def by metis
  then show thesis
    using that [OF s'(1)] s'(2) holds_blockno [OF assms(3)] holds_data [OF assms(3)]
    by (simp add: bwrite_post_def)
qed

text \<open>A block that is neither locked nor pinned is the same on disk.\<close>

lemma bview_clean:
  assumes "bcache_ok H P s" "n \<notin> P" "\<And>i. i \<in> H \<Longrightarrow> b_blockno (bufs s ! i) \<noteq> n"
  shows "bview s n = disk s n"
proof (cases "\<exists>i. cached s n i")
  case True
  then obtain i where i: "cached s n i" by blast
  then have "i < NBUF" "i \<notin> H" using assms(3) by (auto simp: cached_def)
  with bcache_ok_buf [OF assms(1)] i assms(2) have "b_data (bufs s ! i) = disk s n"
    by (simp add: buf_ok_def cached_def)
  with bview_cached [OF assms(1) i] show ?thesis by simp
next
  case False
  with bview_uncached [OF bcache_ok_length [OF assms(1)]] show ?thesis by blast
qed

lemma bview_clean0: "bcache_ok {} P s \<Longrightarrow> n \<notin> P \<Longrightarrow> bview s n = disk s n"
  using bview_clean [of "{}" P s n] by simp

section \<open>The cache at boot\<close>

text \<open>A machine state as the C runtime leaves it, all zero, with one process running.\<close>

definition blank_proc :: proc where
  "blank_proc = \<lparr>p_state = UNUSED, p_chan = None, p_killed = False, p_xstate = 0, p_pid = 0, p_parent = None,
     p_kstack = 0, p_sz = 0, p_pagetable = 0, p_trapframe = 0,
     p_context = \<lparr>ctx_ra = 0, ctx_sp = 0, ctx_s = replicate 12 0\<rparr>, p_ofile = replicate NOFILE None,
     p_cwd = None, p_name = (\<lambda>_. 0)\<rparr>"

definition blank_buf :: buf where
  "blank_buf = \<lparr>b_valid = False, b_disk = False, b_dev = 0, b_blockno = 0,
     b_lock = \<lparr>sl_locked = False, sl_pid = 0\<rparr>, b_refcnt = 0, b_data = (\<lambda>_. 0)\<rparr>"

definition boot_kbio :: kbio where
  "boot_kbio = \<lparr>mem = (\<lambda>_. 0), freelist = 0, kend = 0x80022000, procs = replicate NPROC blank_proc,
     cpu_proc = Some 0, nextpid = 1, initproc = None, kernel_pagetable = 0, bufs = replicate NBUF blank_buf,
     bnext = (\<lambda>_. 0), bprev = (\<lambda>_. 0), disk = (\<lambda>n i. if n < 32 then 0 else ucast n), disk_writes = []\<rparr>"

lemma binit_nth:
  assumes "i < NBUF" "length (bufs s) = NBUF"
  shows "bufs (binit s) ! i = (bufs s ! i)\<lparr>b_lock := initsleeplock\<rparr>"
  using binit_bufs [of NBUF "s\<lparr>bprev := (bprev s)(bhead := bhead), bnext := (bnext s)(bhead := bhead)\<rparr>"] assms
  by (simp add: binit_def del: upt_Suc)

text \<open>Any larger state that starts like this one.\<close>

definition boots :: "'z kbio_scheme \<Rightarrow> bool" where
  "boots s \<longleftrightarrow> kbio.truncate s = boot_kbio"

lemma boots_boot [simp]: "boots boot_kbio"
  by (simp add: boots_def boot_kbio_def kbio.truncate_def)

lemma boots_fields:
  assumes "boots s"
  shows "bufs s = replicate NBUF blank_buf" "procs s = replicate NPROC blank_proc" "cpu_proc s = Some 0"
    "disk s = disk boot_kbio" "disk_writes s = []" "mem s = (\<lambda>_. 0)" "freelist s = 0"
  using assms by (simp_all add: boots_def boot_kbio_def kbio.truncate_def)

lemma bcache_ok_boot: "boots s \<Longrightarrow> bcache_ok {} {} (binit s)"
  using binit_ok [of s] boots_fields(1) [of s] by (simp add: blank_buf_def)

lemma ring_boot: "boots s \<Longrightarrow> ring (binit s) (rev [0..<NBUF])"
  using binit_ok [of s] boots_fields(1) [of s] by (simp add: blank_buf_def)

lemma bufs_boot: "boots s \<Longrightarrow> i < NBUF \<Longrightarrow> bufs (binit s) ! i = blank_buf"
  using binit_nth [of i s] boots_fields(1) [of s] by (simp add: blank_buf_def initsleeplock_def)

lemma length_bufs_boot: "boots s \<Longrightarrow> length (bufs (binit s)) = NBUF"
  by (drule bcache_ok_boot) (rule bcache_ok_length)

lemma binit_frame:
  assumes "NBUF \<le> length (bufs s)"
  shows "disk (binit s) = disk s" "procs (binit s) = procs s" "cpu_proc (binit s) = cpu_proc s"
  using binit_bufs [of NBUF "s\<lparr>bprev := (bprev s)(bhead := bhead), bnext := (bnext s)(bhead := bhead)\<rparr>"] assms
  by (simp_all add: binit_def del: upt_Suc)

lemma myproc_boot: "boots s \<Longrightarrow> myproc (binit s) = blank_proc" "boots s \<Longrightarrow> cur_ok (binit s)"
  using boots_fields [of s] binit_frame [of s] by (simp_all add: myproc_def cur_ok_def)

section \<open>What the cache promises\<close>

text \<open>After \<^verbatim>\<open>binit\<close>, on buffers that hold no block, the cache is well-formed and its list has
  every buffer exactly once, the last one initialised first in line for use.\<close>

lemma binit_well_formed:
  assumes "length (bufs s) = NBUF" "\<And>i. i < NBUF \<Longrightarrow> b_dev (bufs s ! i) = 0 \<and> b_refcnt (bufs s ! i) = 0"
  shows "bcache_ok {} {} (binit s) \<and> ring (binit s) (rev [0..<NBUF])"
  using assms by (rule binit_ok)

lemma binit_well_formed_example:
  "bcache_ok {} {} (binit boot_kbio) \<and> ring (binit boot_kbio) (rev [0..<NBUF])"
  using binit_well_formed [of boot_kbio] by (simp add: boot_kbio_def blank_buf_def)

text \<open>C5: \<^verbatim>\<open>bread\<close> always finds a buffer while fewer than \<^verbatim>\<open>NBUF\<close> blocks are pinned or held. It
  returns the block's current contents (the newest cached version, else the disk's) in a buffer
  locked by the caller, changes no block, and keeps the cache well-formed.\<close>

theorem bread_coherent:
  assumes "bcache_ok H P s" "card P + card H < NBUF" "\<And>i. cached s n i \<Longrightarrow> i \<notin> H"
  shows "\<exists>i s'. bread ROOTDEV n s = Inr (i, s') \<and> i \<notin> H \<and> b_blockno (bufs s' ! i) = n \<and>
    holdingsleep (b_lock (bufs s' ! i)) s' \<and> b_data (bufs s' ! i) = bview s n \<and>
    bcache_ok (insert i H) P s' \<and> bview s' = bview s \<and> disk s' = disk s"
proof -
  obtain i s' where r: "bread ROOTDEV n s = Inr (i, s')" "bread_post H P n s i s'"
    using bread_ok [OF assms] by blast
  then have p: "bcache_ok (insert i H) P s'" "cached s' n i" by (simp_all add: bread_post_def)
  then have "buf_ok True P (p_pid (myproc s')) (disk s') (bufs s' ! i)"
    using bcache_ok_buf [OF p(1), of i] by (simp add: cached_def)
  then have "holdingsleep (b_lock (bufs s' ! i)) s'" by (simp add: buf_ok_def holdingsleep_def)
  with r show ?thesis by (auto simp: bread_post_def cached_def bframe_def)
qed

theorem bread_coherent_witness:
  "bcache_ok {} {} (binit boot_kbio) \<and> (\<exists>i s'. bread ROOTDEV 7 (binit boot_kbio) = Inr (i, s') \<and>
     b_data (bufs s' ! i) = bview (binit boot_kbio) 7 \<and> bcache_ok {i} {} s')"
  using bread_coherent [OF bcache_ok_boot [OF boots_boot], of 7] bcache_ok_boot [OF boots_boot] by auto

text \<open>C6: On a miss \<^verbatim>\<open>bget\<close> recycles the least recently used buffer without references, the last such
  on the list, and panics exactly when every buffer is referenced.\<close>

theorem bget_recycles_lru:
  assumes "ring s xs" "\<And>b. b \<in> set xs \<Longrightarrow> \<not> (b_dev (bufs s ! b) = d \<and> b_blockno (bufs s ! b) = n)"
  shows "bget d n s =
    (case find (\<lambda>b. b_refcnt (bufs s ! b) = 0) (rev xs) of
       None \<Rightarrow> Inl (Panic ''bget: no buffers'')
     | Some b \<Rightarrow> rbind (lock_buf b (upd_buf b
         (\<lambda>bf. bf\<lparr>b_dev := d, b_blockno := n, b_valid := False, b_refcnt := 1\<rparr>) s)) (\<lambda>s. Inr (b, s)))"
proof -
  have "bget_cached (Suc NBUF) d n (bnext s bhead) s =
      Inr (find (\<lambda>b. b_dev (bufs s ! b) = d \<and> b_blockno (bufs s ! b) = n) xs)"
    using assms(1) ring_length [OF assms(1)] by (intro bget_cached_find) (simp_all add: ring_def)
  also have "find (\<lambda>b. b_dev (bufs s ! b) = d \<and> b_blockno (bufs s ! b) = n) xs = None"
    using assms(2) by (auto simp: find_None_iff)
  finally show ?thesis using bget_unused_lru [OF assms(1)] by (simp add: bget_def split: option.split)
qed

theorem bget_recycles_lru_witness:
  "\<exists>s'. bget ROOTDEV 7 (binit boot_kbio) = Inr (0, s')"
proof -
  have "find (\<lambda>b. b_refcnt (bufs (binit boot_kbio) ! b) = 0) [0..<NBUF] = Some 0"
    using bufs_boot [OF boots_boot, of 0] by (simp add: upt_conv_Cons blank_buf_def)
  then show ?thesis
    using bget_recycles_lru [OF ring_boot [OF boots_boot], of ROOTDEV 7] bufs_boot [OF boots_boot]
      length_bufs_boot [OF boots_boot]
    by (simp add: blank_buf_def lock_buf_def acquiresleep_def)
qed

text \<open>Releasing the last reference to a buffer moves it to the front of the list and keeps the
  order of the others, so the list is always in order of last use.\<close>

lemma brelse_most_recent:
  assumes "ring s (ys @ b # zs)" "holdingsleep (b_lock (bufs s ! b)) s" "b < length (bufs s)"
    "b_refcnt (bufs s ! b) = 1"
  shows "\<exists>s'. brelse b s = Inr s' \<and> ring s' (b # ys @ zs) \<and> b_refcnt (bufs s' ! b) = 0 \<and>
    \<not> sl_locked (b_lock (bufs s' ! b)) \<and> b_data (bufs s' ! b) = b_data (bufs s ! b)"
proof -
  let ?s = "upd_buf b (\<lambda>bf. bf\<lparr>b_refcnt := b_refcnt bf - 1\<rparr>) (unlock_buf b s)"
  have "ring ?s (ys @ b # zs)" using assms(1) by (simp add: unlock_buf_def releasesleep_def)
  then have "ring (move_to_front b ?s) (b # ys @ zs)" by (rule ring_move_to_front)
  with assms(2-4) show ?thesis
    by (simp add: brelse_def unlock_buf_def releasesleep_def)
qed

definition held_kbio :: kbio where
  "held_kbio = upd_buf 3 (\<lambda>b. b\<lparr>b_dev := ROOTDEV, b_valid := True, b_refcnt := 1,
     b_lock := \<lparr>sl_locked = True, sl_pid = 0\<rparr>\<rparr>) (binit boot_kbio)"

lemma brelse_most_recent_example:
  "\<exists>s'. brelse 3 held_kbio = Inr s' \<and> ring s' (3 # rev [4..<NBUF] @ rev [0..<3])"
proof -
  have "rev [0..<NBUF] = rev [4..<NBUF] @ 3 # rev [0..<3]" by (simp add: upt_rec)
  then have r: "ring held_kbio (rev [4..<NBUF] @ 3 # rev [0..<3])"
    using ring_boot [OF boots_boot] by (simp add: held_kbio_def)
  have b: "bufs held_kbio ! 3 = blank_buf\<lparr>b_dev := ROOTDEV, b_valid := True, b_refcnt := 1,
     b_lock := \<lparr>sl_locked = True, sl_pid = 0\<rparr>\<rparr>" "length (bufs held_kbio) = NBUF"
    using bufs_boot [OF boots_boot, of 3] length_bufs_boot [OF boots_boot] by (simp_all add: held_kbio_def)
  have "p_pid (myproc held_kbio) = 0" by (simp add: held_kbio_def myproc_boot blank_proc_def)
  then show ?thesis using brelse_most_recent [OF r] b by (auto simp: holdingsleep_def)
qed

end
