(* ===== verification/Log.thy ===== *)
theory Log
  imports Bio
begin

text \<open>
  The write-ahead log of \<^verbatim>\<open>kernel/log.c\<close>. The header block holds the number of logged blocks
  and their home block numbers as 32-bit little-endian integers. A system call brackets its
  updates with \<^verbatim>\<open>begin_op\<close> and \<^verbatim>\<open>end_op\<close>; the last one to leave commits. Copying \<^verbatim>\<open>BSIZE\<close>
  bytes between two buffers replaces the whole \<^verbatim>\<open>data\<close> array, which has that size.
\<close>

record logheader =
  lh_n :: int
  lh_block :: "uint list"

record logstate =
  lg_start :: uint
  lg_size :: int
  lg_outstanding :: int
  lg_committing :: bool
  lg_dev :: uint
  lg_lh :: logheader

record klog = kbio +
  log :: logstate

record superblock =
  sb_magic :: uint
  sb_size :: uint
  sb_nblocks :: uint
  sb_ninodes :: uint
  sb_nlog :: uint
  sb_logstart :: uint
  sb_inodestart :: uint
  sb_bmapstart :: uint

definition upd_lh :: "(logheader \<Rightarrow> logheader) \<Rightarrow> 'z klog_scheme \<Rightarrow> 'z klog_scheme" where
  "upd_lh f s = s\<lparr>log := (log s)\<lparr>lg_lh := f (lg_lh (log s))\<rparr>\<rparr>"

section \<open>Operations\<close>

definition install_one :: "bool \<Rightarrow> nat \<Rightarrow> 'z klog_scheme \<Rightarrow> 'z klog_scheme res" where
  "install_one recovering tail s =
     rbind (bread (lg_dev (log s)) (lg_start (log s) + of_nat tail + 1) s) (\<lambda>(lbuf, s).
     rbind (bread (lg_dev (log s)) (lh_block (lg_lh (log s)) ! tail) s) (\<lambda>(dbuf, s).
     let s = bmod dbuf (\<lambda>_. b_data (bufs s ! lbuf)) s in
     rbind (bwrite dbuf s) (\<lambda>s.
     let s = (if \<not> recovering then bunpin dbuf s else s) in
     rbind (brelse lbuf s) (\<lambda>s. brelse dbuf s))))"

definition install_trans :: "bool \<Rightarrow> 'z klog_scheme \<Rightarrow> 'z klog_scheme res" where
  "install_trans recovering s = rfold (install_one recovering) [0..<nat (lh_n (lg_lh (log s)))] s"

definition hdr_n :: "block \<Rightarrow> int" where
  "hdr_n b = sint (get32 b 0)"

definition hdr_block :: "block \<Rightarrow> nat \<Rightarrow> uint" where
  "hdr_block b i = get32 b (4 + 4 * i)"

text \<open>
  The header on disk is trusted: a count above \<^verbatim>\<open>LOGSIZE\<close> would overrun the in-memory array.
\<close>

definition read_head :: "'z klog_scheme \<Rightarrow> 'z klog_scheme res" where
  "read_head s =
     rbind (bread (lg_dev (log s)) (lg_start (log s)) s) (\<lambda>(buf, s).
     let d = b_data (bufs s ! buf);
         s = upd_lh (\<lambda>lh. lh\<lparr>lh_n := hdr_n d\<rparr>) s
     in if hdr_n d > int LOGSIZE then Inl (Undef ''read_head'')
        else
          let s = fold (\<lambda>i. upd_lh (\<lambda>lh. lh\<lparr>lh_block := (lh_block lh)[i := hdr_block d i]\<rparr>))
                    [0..<nat (hdr_n d)] s
          in brelse buf s)"

definition put_head :: "logheader \<Rightarrow> block \<Rightarrow> block" where
  "put_head lh d =
     fold (\<lambda>i d. set32 d (4 + 4 * i) (lh_block lh ! i)) [0..<nat (lh_n lh)]
       (set32 d 0 (word_of_int (lh_n lh)))"

definition write_head :: "'z klog_scheme \<Rightarrow> 'z klog_scheme res" where
  "write_head s =
     rbind (bread (lg_dev (log s)) (lg_start (log s)) s) (\<lambda>(buf, s).
     let s = bmod buf (put_head (lg_lh (log s))) s in
     rbind (bwrite buf s) (\<lambda>s. brelse buf s))"

definition recover_from_log :: "'z klog_scheme \<Rightarrow> 'z klog_scheme res" where
  "recover_from_log s =
     rbind (read_head s) (\<lambda>s.
     rbind (install_trans True s) (\<lambda>s.
     write_head (upd_lh (\<lambda>lh. lh\<lparr>lh_n := 0\<rparr>) s)))"

definition initlog :: "uint \<Rightarrow> superblock \<Rightarrow> 'z klog_scheme \<Rightarrow> 'z klog_scheme res" where
  "initlog dev sb s =
     (if 4 + 4 * LOGSIZE \<ge> BSIZE then Inl (Panic ''initlog: too big logheader'')
      else recover_from_log (s\<lparr>log := (log s)\<lparr>lg_start := sb_logstart sb,
        lg_size := sint (sb_nlog sb), lg_dev := dev\<rparr>\<rparr>))"

text \<open>\<^verbatim>\<open>begin_op\<close> loops until there is room; a round that sleeps is the outcome \<open>Sleeps\<close>.\<close>

definition begin_op :: "'z klog_scheme \<Rightarrow> 'z klog_scheme res" where
  "begin_op s =
     (if lg_committing (log s) then Inl (Sleeps Chan_log)
      else if lh_n (lg_lh (log s)) + (lg_outstanding (log s) + 1) * int MAXOPBLOCKS > int LOGSIZE
        then Inl (Sleeps Chan_log)
      else Inr (s\<lparr>log := (log s)\<lparr>lg_outstanding := lg_outstanding (log s) + 1\<rparr>\<rparr>))"

definition write_one :: "nat \<Rightarrow> 'z klog_scheme \<Rightarrow> 'z klog_scheme res" where
  "write_one tail s =
     rbind (bread (lg_dev (log s)) (lg_start (log s) + of_nat tail + 1) s) (\<lambda>(to, s).
     rbind (bread (lg_dev (log s)) (lh_block (lg_lh (log s)) ! tail) s) (\<lambda>(from, s).
     let s = bmod to (\<lambda>_. b_data (bufs s ! from)) s in
     rbind (bwrite to s) (\<lambda>s.
     rbind (brelse from s) (\<lambda>s. brelse to s))))"

definition write_log :: "'z klog_scheme \<Rightarrow> 'z klog_scheme res" where
  "write_log s = rfold write_one [0..<nat (lh_n (lg_lh (log s)))] s"

definition commit :: "'z klog_scheme \<Rightarrow> 'z klog_scheme res" where
  "commit s =
     (if lh_n (lg_lh (log s)) > 0
      then
        rbind (write_log s) (\<lambda>s.
        rbind (write_head s) (\<lambda>s.
        rbind (install_trans False s) (\<lambda>s.
        write_head (upd_lh (\<lambda>lh. lh\<lparr>lh_n := 0\<rparr>) s))))
      else Inr s)"

definition end_op :: "'z klog_scheme \<Rightarrow> 'z klog_scheme res" where
  "end_op s =
     (let s = s\<lparr>log := (log s)\<lparr>lg_outstanding := lg_outstanding (log s) - 1\<rparr>\<rparr> in
      if lg_committing (log s) then Inl (Panic ''log.committing'')
      else if lg_outstanding (log s) = 0
        then
          rbind (commit (s\<lparr>log := (log s)\<lparr>lg_committing := True\<rparr>\<rparr>)) (\<lambda>s.
          Inr (wakeup Chan_log (s\<lparr>log := (log s)\<lparr>lg_committing := False\<rparr>\<rparr>)))
        else Inr (wakeup Chan_log s))"

text \<open>The index at which the loop of \<^verbatim>\<open>log_write\<close> stops.\<close>

fun log_index :: "uint list \<Rightarrow> uint \<Rightarrow> nat \<Rightarrow> nat \<Rightarrow> nat" where
  "log_index blk b i 0 = i"
| "log_index blk b i (Suc k) = (if blk ! i = b then i else log_index blk b (Suc i) k)"

definition log_write :: "nat \<Rightarrow> 'z klog_scheme \<Rightarrow> 'z klog_scheme res" where
  "log_write b s =
     (let lh = lg_lh (log s) in
      if lh_n lh \<ge> int LOGSIZE \<or> lh_n lh \<ge> lg_size (log s) - 1
        then Inl (Panic ''too big a transaction'')
      else if lg_outstanding (log s) < 1 then Inl (Panic ''log_write outside of trans'')
      else
        let i = log_index (lh_block lh) (b_blockno (bufs s ! b)) 0 (nat (lh_n lh));
            s = upd_lh (\<lambda>lh. lh\<lparr>lh_block := (lh_block lh)[i := b_blockno (bufs s ! b)]\<rparr>) s
        in Inr (if i = nat (lh_n lh)
                then upd_lh (\<lambda>lh. lh\<lparr>lh_n := lh_n lh + 1\<rparr>) (bpin b s)
                else s))"

section \<open>The state of the log\<close>

definition log_blocks :: "'z klog_scheme \<Rightarrow> uint list" where
  "log_blocks s = take (nat (lh_n (lg_lh (log s)))) (lh_block (lg_lh (log s)))"

text \<open>The blocks that belong to the log itself: the header and the \<^verbatim>\<open>nlog - 1\<close> data blocks.\<close>

definition log_slot :: "logstate \<Rightarrow> nat \<Rightarrow> uint" where
  "log_slot lg k = lg_start lg + of_nat k"

definition in_log :: "logstate \<Rightarrow> uint \<Rightarrow> bool" where
  "in_log lg n \<longleftrightarrow> (\<exists>k<nat (lg_size lg). n = log_slot lg k)"

definition log_geom :: "logstate \<Rightarrow> bool" where
  "log_geom lg \<longleftrightarrow>
     lg_dev lg = ROOTDEV \<and> 0 < lg_size lg \<and> lg_size lg \<le> int LOGSIZE \<and>
     unat (lg_start lg) + nat (lg_size lg) < 2 ^ 32 \<and> length (lh_block (lg_lh lg)) = LOGSIZE"

text \<open>
  The header in memory lists distinct home blocks outside the log, as many as fit, and each
  of them is pinned in the cache.
\<close>

definition log_mem_ok :: "nat set \<Rightarrow> 'z klog_scheme \<Rightarrow> bool" where
  "log_mem_ok H s \<longleftrightarrow>
     cur_ok s \<and> log_geom (log s) \<and> 0 \<le> lh_n (lg_lh (log s)) \<and> lh_n (lg_lh (log s)) < lg_size (log s) \<and>
     distinct (log_blocks s) \<and> (\<forall>b\<in>set (log_blocks s). \<not> in_log (log s) b) \<and>
     bcache_ok H (set (log_blocks s)) s"

lemma kbio_more_klog:
  "kbio.more s' = kbio.more s \<Longrightarrow> log s' = log s \<and> klog.more s' = klog.more s"
  by (cases s, cases s') simp

lemma kframe_log: "kframe s s' \<Longrightarrow> log s' = log s"
  using kbio_more_klog by (auto simp: kframe_def)

lemma bframe_log: "bframe s s' \<Longrightarrow> log s' = log s"
  by (simp add: bframe_def kframe_log)

lemma length_log_blocks:
  "log_geom (log s) \<Longrightarrow> lh_n (lg_lh (log s)) \<le> int LOGSIZE \<Longrightarrow>
   length (log_blocks s) = nat (lh_n (lg_lh (log s)))"
  by (auto simp: log_blocks_def log_geom_def)

lemma log_blocks_nth:
  "k < length (log_blocks s) \<Longrightarrow> log_blocks s ! k = lh_block (lg_lh (log s)) ! k"
  by (simp add: log_blocks_def)

lemma log_slot_inj:
  assumes "log_geom lg" "j < nat (lg_size lg)" "k < nat (lg_size lg)"
  shows "log_slot lg j = log_slot lg k \<longleftrightarrow> j = k"
proof -
  have "unat (of_nat j :: uint) = j" "unat (of_nat k :: uint) = k"
    using assms by (auto intro!: unat_of_nat_small simp: log_geom_def)
  then have "(of_nat j :: uint) = of_nat k \<longleftrightarrow> j = k" by metis
  then show ?thesis by (simp add: log_slot_def)
qed

lemma log_slot_upd [simp]:
  "log_slot (lg\<lparr>lg_lh := h\<rparr>) k = log_slot lg k" "in_log (lg\<lparr>lg_lh := h\<rparr>) n = in_log lg n"
  "log_slot (lg\<lparr>lg_outstanding := i\<rparr>) k = log_slot lg k" "in_log (lg\<lparr>lg_outstanding := i\<rparr>) n = in_log lg n"
  "log_slot (lg\<lparr>lg_committing := c\<rparr>) k = log_slot lg k" "in_log (lg\<lparr>lg_committing := c\<rparr>) n = in_log lg n"
  by (simp_all add: log_slot_def in_log_def)

lemma in_log_slot: "k < nat (lg_size lg) \<Longrightarrow> in_log lg (log_slot lg k)"
  by (auto simp: in_log_def)

lemma log_slot_next: "lg_start lg + of_nat tail + 1 = log_slot lg (Suc tail)"
  by (simp add: log_slot_def)

lemma log_slot_0: "lg_start lg = log_slot lg 0"
  by (simp add: log_slot_def)

section \<open>One round of each loop\<close>

text \<open>What a round does to the disk, the cache and the history.\<close>

definition wrote :: "uint set \<Rightarrow> uint \<Rightarrow> block \<Rightarrow> 'z klog_scheme \<Rightarrow> 'z klog_scheme \<Rightarrow> bool" where
  "wrote P n d s s' \<longleftrightarrow>
     bcache_ok {} P s' \<and> cur_ok s' \<and> kframe s s' \<and> bview s' = (bview s)(n := d) \<and>
     disk s' = (disk s)(n := d) \<and> disk_writes s' = disk_writes s @ [(n, d)]"

lemma write_head_ok:
  assumes "bcache_ok {} P s" "cur_ok s" "lg_dev (log s) = ROOTDEV" "card P < NBUF"
  shows "\<exists>s'. write_head s = Inr s' \<and>
    wrote P (lg_start (log s)) (put_head (lg_lh (log s)) (bview s (lg_start (log s)))) s s'"
proof -
  let ?n = "lg_start (log s)"
  obtain i s1 where s1: "bread ROOTDEV ?n s = Inr (i, s1)" "bcache_ok {i} P s1"
      "bview s1 = bview s" "bframe s s1" "holds s1 i ?n (bview s ?n)"
    using bread_rule [OF assms(1), of ?n] assms(4) by auto
  have l1: "log s1 = log s" using s1(4) by (rule bframe_log)
  let ?g = "put_head (lg_lh (log s1))"
  let ?s2 = "bmod i ?g s1"
  have s2: "bcache_ok {i} P ?s2" "bview ?s2 = (bview s1)(?n := ?g (bview s ?n))" "bframe s1 ?s2"
      "holds ?s2 i ?n (?g (bview s ?n))"
    using bmod_rule [OF s1(2) _ s1(5)] by simp_all
  obtain s3 where s3: "bwrite i ?s2 = Inr s3" "bcache_ok {i} P s3" "bview s3 = bview ?s2" "kframe ?s2 s3"
      "disk s3 = (disk ?s2)(?n := ?g (bview s ?n))"
      "disk_writes s3 = disk_writes ?s2 @ [(?n, ?g (bview s ?n))]"
      "holds s3 i ?n (?g (bview s ?n))"
    using bwrite_rule [OF s2(1) _ s2(4)] s2(4) by (metis insertI1)
  have k: "kframe s s3"
    using s1(4) s2(3) s3(4) by (metis bframe_kframe kframe_trans)
  have cur: "cur_ok s3" using kframe_cur [OF k assms(2)] by simp
  obtain s4 where s4: "brelse i s3 = Inr s4" "bcache_ok {} P s4" "bview s4 = bview s3" "bframe s3 s4"
    by (rule brelse_rule [OF s3(2) _ cur s3(7)]) (simp_all add: s3(5))
  have "write_head s = Inr s4"
    using s1(1) s3(1) s4(1) assms(3) by (simp add: write_head_def)
  moreover have "wrote P ?n (?g (bview s ?n)) s s4"
    using s4 s3 s2 s1 k cur unfolding wrote_def
    by (auto simp: bframe_def dest: kframe_trans kframe_cur)
  ultimately show ?thesis using l1 by auto
qed

lemma bframes_cur: "bframe s s' \<Longrightarrow> cur_ok s \<Longrightarrow> cur_ok s'"
  by (simp add: bframe_def kframe_def)

text \<open>
  Both loops copy one block over another and write it: read the two blocks, copy, write the
  second, release them. The source is released first or last.
\<close>

lemma copy_block_ok:
  assumes ok: "bcache_ok {} P s" and cur: "cur_ok s" and room: "card P < NBUF"
    and ab: "a \<noteq> b" "a \<notin> P" "b \<in> P \<or> card P + 1 < NBUF"
  obtains i j s1 s2 where
    "bread ROOTDEV a s = Inr (i, s1)" "bread ROOTDEV b s1 = Inr (j, s2)" "i \<noteq> j"
    "bcache_ok {i, j} P s2" "bview s2 = bview s" "bframe s s1" "bframe s s2"
    "holds s2 i a (bview s a)" "holds s2 j b (bview s b)"
proof -
  obtain i s1 where s1: "bread ROOTDEV a s = Inr (i, s1)" "bcache_ok {i} P s1"
      "bview s1 = bview s" "bframe s s1" "holds s1 i a (bview s a)"
    using bread_rule [OF ok, of a] room by auto
  obtain j s2 where s2: "bread ROOTDEV b s1 = Inr (j, s2)" "j \<notin> {i}" "bcache_ok (insert j {i}) P s2"
      "bview s2 = bview s1" "bframe s1 s2" "holds s2 j b (bview s1 b)"
      "\<And>k m d. k \<in> {i} \<Longrightarrow> holds s2 k m d = holds s1 k m d"
    using bread_rule [OF s1(2), of b] ab holds_blockno [OF s1(5)] by auto
  show thesis
    using that [of i s1 j s2] s1 s2 bframe_trans [OF s1(4) s2(5)] by (simp add: insert_commute)
qed

lemma write_one_ok:
  assumes ok: "bcache_ok {} P s" and cur: "cur_ok s" and dev: "lg_dev (log s) = ROOTDEV"
    and room: "card P < NBUF"
    and a: "a = log_slot (log s) (Suc tail)" "a \<notin> P" and b: "b = lh_block (lg_lh (log s)) ! tail" "b \<in> P"
  shows "\<exists>s'. write_one tail s = Inr s' \<and> wrote P a (bview s b) s s'"
proof -
  have "a \<noteq> b" "b \<in> P \<or> card P + 1 < NBUF" using a b by auto
  then obtain i j s1 s2 where r: "bread ROOTDEV a s = Inr (i, s1)" "bread ROOTDEV b s1 = Inr (j, s2)"
      "i \<noteq> j" "bcache_ok {i, j} P s2" "bview s2 = bview s" "bframe s s1" "bframe s s2"
      "holds s2 i a (bview s a)" "holds s2 j b (bview s b)"
    by (rule copy_block_ok [OF ok cur room _ a(2)])
  let ?d = "bview s b"
  let ?s3 = "bmod i (\<lambda>_. b_data (bufs s2 ! j)) s2"
  have s3: "bcache_ok {i, j} P ?s3" "bview ?s3 = (bview s)(a := ?d)" "bframe s2 ?s3"
      "holds ?s3 i a ?d" "holds ?s3 j b ?d"
    using bmod_rule [OF r(4) _ r(8)] r(3,5,9) holds_data [OF r(9)] by simp_all
  obtain s4 where s4: "bwrite i ?s3 = Inr s4" "bcache_ok {i, j} P s4" "bview s4 = bview ?s3" "kframe ?s3 s4"
      "disk s4 = (disk ?s3)(a := ?d)" "disk_writes s4 = disk_writes ?s3 @ [(a, ?d)]"
      "holds s4 i a ?d" "holds s4 j b ?d"
    using bwrite_rule [OF s3(1) _ s3(4)] s3(4,5) by (metis insertI1)
  have k: "kframe s s4" using r(7) s3(3) s4(4) by (metis bframe_kframe kframe_trans)
  have cur4: "cur_ok s4" using kframe_cur [OF k cur] by simp
  obtain s5 where s5: "brelse j s4 = Inr s5" "bcache_ok {i} P s5" "bview s5 = bview s4" "bframe s4 s5"
      "holds s5 i a ?d"
    by (rule brelse_rule [OF s4(2) _ cur4 s4(8)]) (use s4(7) r(3) b in \<open>simp_all add: insert_Diff_if\<close>)
  have cur5: "cur_ok s5" using s5(4) cur4 by (rule bframes_cur)
  have d5: "disk s5 a = ?d" using s5(4) s4(5) by (simp add: bframe_def)
  obtain s6 where s6: "brelse i s5 = Inr s6" "bcache_ok {} P s6" "bview s6 = bview s5" "bframe s5 s6"
    by (rule brelse_rule [OF s5(2) _ cur5 s5(5)]) (simp_all add: d5)
  have "write_one tail s = Inr s6"
    using r(1,2) s4(1) s5(1) s6(1) a(1) b(1) dev bframe_log [OF r(6)]
    by (simp add: write_one_def log_slot_next)
  moreover have "bframe s4 s6" using s5(4) s6(4) by (rule bframe_trans)
  then have "wrote P a ?d s s6"
    using s6(2,3) s5(3) s4(3,5,6) s3(2,3) r(7) k kframe_trans [OF k] cur4
    by (auto simp: wrote_def bframe_def dest: kframe_cur)
  ultimately show ?thesis by blast
qed

lemma install_one_ok:
  assumes ok: "bcache_ok {} P s" and cur: "cur_ok s" and dev: "lg_dev (log s) = ROOTDEV"
    and room: "card P < NBUF"
    and a: "a = log_slot (log s) (Suc tail)" "a \<notin> P" "a \<noteq> b"
    and b: "b = lh_block (lg_lh (log s)) ! tail" "if recovering then P = {} else b \<in> P"
  shows "\<exists>s'. install_one recovering tail s = Inr s' \<and> wrote (P - {b}) b (bview s a) s s'"
proof -
  have "b \<in> P \<or> card P + 1 < NBUF" using b(2) by (auto split: if_splits)
  with a(3) obtain i j s1 s2 where r: "bread ROOTDEV a s = Inr (i, s1)" "bread ROOTDEV b s1 = Inr (j, s2)"
      "i \<noteq> j" "bcache_ok {i, j} P s2" "bview s2 = bview s" "bframe s s1" "bframe s s2"
      "holds s2 i a (bview s a)" "holds s2 j b (bview s b)"
    by (rule copy_block_ok [OF ok cur room _ a(2)])
  let ?d = "bview s a"
  have da: "disk s a = ?d" using bview_clean [OF ok a(2)] by simp
  let ?s3 = "bmod j (\<lambda>_. b_data (bufs s2 ! i)) s2"
  have s3: "bcache_ok {i, j} P ?s3" "bview ?s3 = (bview s)(b := ?d)" "bframe s2 ?s3"
      "holds ?s3 j b ?d" "holds ?s3 i a ?d"
    using bmod_rule [OF r(4) _ r(9)] r(3,5,8) holds_data [OF r(8)] by simp_all
  obtain s4 where s4: "bwrite j ?s3 = Inr s4" "bcache_ok {i, j} P s4" "bview s4 = bview ?s3" "kframe ?s3 s4"
      "disk s4 = (disk ?s3)(b := ?d)" "disk_writes s4 = disk_writes ?s3 @ [(b, ?d)]"
      "holds s4 j b ?d" "holds s4 i a ?d"
    using bwrite_rule [OF s3(1) _ s3(4)] s3(4,5) by (metis insertI1 insertI2)
  have k: "kframe s s4" using r(7) s3(3) s4(4) by (metis bframe_kframe kframe_trans)
  have cur4: "cur_ok s4" using kframe_cur [OF k cur] by simp
  have d4: "disk s4 = (disk s)(b := ?d)" using s4(5) s3(3) r(7) by (simp add: bframe_def)
  let ?s5 = "if \<not> recovering then bunpin j s4 else s4"
  have "bcache_ok {i, j} (P - {b}) ?s5 \<and> bview ?s5 = bview s4 \<and> bframe s4 ?s5 \<and>
      (\<forall>k m d. holds ?s5 k m d = holds s4 k m d)"
  proof (cases recovering)
    case True
    with b(2) s4(2) show ?thesis by simp
  next
    case False
    have "bstep {i, j} (P - {b}) j s4 (bunpin j s4)"
      using False b(2) by (intro bunpin_ok [OF s4(2) _ cur4]) (simp_all add: holds_blockno [OF s4(7)])
    with False bstep_holds [OF this] show ?thesis by (simp add: bstep_def)
  qed
  then have s5: "bcache_ok {i, j} (P - {b}) ?s5" "bview ?s5 = bview s4" "bframe s4 ?s5"
      "holds ?s5 i a ?d" "holds ?s5 j b ?d"
    using s4(7,8) by blast+
  have cur5: "cur_ok ?s5" using s5(3) cur4 by (rule bframes_cur)
  have d5: "disk ?s5 = (disk s)(b := ?d)" using s5(3) d4 unfolding bframe_def by metis
  obtain s6 where s6: "brelse i ?s5 = Inr s6" "bcache_ok {j} (P - {b}) s6" "bview s6 = bview ?s5"
      "bframe ?s5 s6" "holds s6 j b ?d"
    by (rule brelse_rule [OF s5(1) _ cur5 s5(4)])
      (use s5(5) r(3) a(3) da in \<open>simp_all add: insert_Diff_if d5\<close>)
  have cur6: "cur_ok s6" using s6(4) cur5 by (rule bframes_cur)
  have d6: "disk s6 = (disk s)(b := ?d)" using s6(4) d5 unfolding bframe_def by metis
  obtain s7 where s7: "brelse j s6 = Inr s7" "bcache_ok {} (P - {b}) s7" "bview s7 = bview s6" "bframe s6 s7"
    by (rule brelse_rule [OF s6(2) _ cur6 s6(5)]) (simp_all add: d6)
  have run: "install_one recovering tail s = Inr s7"
    using r(1,2) s4(1) s6(1) s7(1) a(1) b(1) dev bframe_log [OF r(6)]
    by (simp add: install_one_def log_slot_next Let_def)
  have fr: "bframe s4 s7" using s5(3) s6(4) s7(4) by (metis bframe_trans)
  have "wrote (P - {b}) b ?d s s7"
    using s7(2,3) s6(3) s5(2) s4(3,6) s3(2,3) r(7) fr d4 k kframe_trans [OF k] cur4
    by (auto simp: wrote_def bframe_def dest: kframe_cur)
  with run show ?thesis by blast
qed

section \<open>The loops\<close>

definition apply_writes :: "(uint \<times> block) list \<Rightarrow> (uint \<Rightarrow> block) \<Rightarrow> uint \<Rightarrow> block" where
  "apply_writes ws dk = fold (\<lambda>(n, d) dk. dk(n := d)) ws dk"

lemma apply_writes_simps [simp]:
  "apply_writes [] dk = dk" "apply_writes (w # ws) dk = apply_writes ws (dk(fst w := snd w))"
  by (simp_all add: apply_writes_def case_prod_unfold)

lemma apply_writes_append [simp]:
  "apply_writes (ws @ vs) dk = apply_writes vs (apply_writes ws dk)"
  by (simp add: apply_writes_def)

lemma apply_writes_other: "n \<notin> fst ` set ws \<Longrightarrow> apply_writes ws dk n = dk n"
  by (induction ws arbitrary: dk) auto

lemma apply_writes_map:
  "apply_writes (map (\<lambda>t. (f t, g t)) ts) dk n =
     (if n \<in> f ` set ts then g (last (filter (\<lambda>t. f t = n) ts)) else dk n)"
  by (induction ts rule: rev_induct) auto

lemma apply_writes_map_inj:
  assumes "inj_on f (set ts)" "t \<in> set ts"
  shows "apply_writes (map (\<lambda>t. (f t, g t)) ts) dk (f t) = g t"
proof -
  have "filter (\<lambda>u. f u = f t) ts \<noteq> []" using assms(2) by (auto simp: filter_empty_conv)
  then have "last (filter (\<lambda>u. f u = f t) ts) \<in> set (filter (\<lambda>u. f u = f t) ts)" by (rule last_in_set)
  then have "last (filter (\<lambda>u. f u = f t) ts) = t" using assms by (auto dest: inj_onD)
  then show ?thesis using assms(2) by (simp add: apply_writes_map)
qed

definition wrote_all :: "uint set \<Rightarrow> (uint \<times> block) list \<Rightarrow> 'z klog_scheme \<Rightarrow> 'z klog_scheme \<Rightarrow> bool" where
  "wrote_all P ws s s' \<longleftrightarrow>
     bcache_ok {} P s' \<and> cur_ok s' \<and> kframe s s' \<and> bview s' = apply_writes ws (bview s) \<and>
     disk s' = apply_writes ws (disk s) \<and> disk_writes s' = disk_writes s @ ws"

lemma wrote_all_Nil: "bcache_ok {} P s \<Longrightarrow> cur_ok s \<Longrightarrow> wrote_all P [] s s"
  by (simp add: wrote_all_def)

lemma wrote_all_snoc:
  "wrote_all P ws s s1 \<Longrightarrow> wrote P' n d s1 s2 \<Longrightarrow> wrote_all P' (ws @ [(n, d)]) s s2"
  by (auto simp: wrote_all_def wrote_def elim: kframe_trans)

lemma wrote_all_log: "wrote_all P ws s s' \<Longrightarrow> log s' = log s"
  by (simp add: wrote_all_def kframe_log)

definition log_ws :: "logstate \<Rightarrow> (uint \<Rightarrow> block) \<Rightarrow> nat \<Rightarrow> (uint \<times> block) list" where
  "log_ws lg v k = map (\<lambda>t. (log_slot lg (Suc t), v (lh_block (lg_lh lg) ! t))) [0..<k]"

definition home_ws :: "logstate \<Rightarrow> (uint \<Rightarrow> block) \<Rightarrow> nat \<Rightarrow> (uint \<times> block) list" where
  "home_ws lg v k = map (\<lambda>t. (lh_block (lg_lh lg) ! t, v (log_slot lg (Suc t)))) [0..<k]"

lemma ws_Suc:
  "log_ws lg v (Suc k) = log_ws lg v k @ [(log_slot lg (Suc k), v (lh_block (lg_lh lg) ! k))]"
  "home_ws lg v (Suc k) = home_ws lg v k @ [(lh_block (lg_lh lg) ! k, v (log_slot lg (Suc k)))]"
  by (simp_all add: log_ws_def home_ws_def)

lemma ws_0 [simp]: "log_ws lg v 0 = []" "home_ws lg v 0 = []"
  by (simp_all add: log_ws_def home_ws_def)

lemma ws_blocks:
  "fst ` set (log_ws lg v k) = (\<lambda>t. log_slot lg (Suc t)) ` {..<k}"
  "fst ` set (home_ws lg v k) = (\<lambda>t. lh_block (lg_lh lg) ! t) ` {..<k}"
  by (auto simp: log_ws_def home_ws_def image_image)

lemma log_mem_ok_facts:
  assumes "log_mem_ok H s" and n: "n = nat (lh_n (lg_lh (log s)))"
  shows "length (log_blocks s) = n" "n < nat (lg_size (log s))" "n < NBUF"
    "card (set (log_blocks s)) < NBUF" "lg_dev (log s) = ROOTDEV" "cur_ok s"
    "\<And>t. t < n \<Longrightarrow> lh_block (lg_lh (log s)) ! t = log_blocks s ! t"
    "\<And>t. t < n \<Longrightarrow> \<not> in_log (log s) (log_blocks s ! t)"
    "\<And>t. t < nat (lg_size (log s)) \<Longrightarrow> in_log (log s) (log_slot (log s) t)"
proof -
  note g = assms(1) [unfolded log_mem_ok_def log_geom_def]
  show l: "length (log_blocks s) = n" using g n by (auto simp: log_blocks_def)
  show "n < nat (lg_size (log s))" "n < NBUF" using g n by auto
  then show "card (set (log_blocks s)) < NBUF" using l card_length le_less_trans by metis
  show "lg_dev (log s) = ROOTDEV" "cur_ok s" using g by auto
  show "lh_block (lg_lh (log s)) ! t = log_blocks s ! t" if "t < n" for t
    using that l by (simp add: log_blocks_nth)
  show "\<not> in_log (log s) (log_blocks s ! t)" if "t < n" for t using that l g by auto
  show "in_log (log s) (log_slot (log s) t)" if "t < nat (lg_size (log s))" for t
    using that by (auto simp: in_log_def)
qed

lemma write_log_ok:
  assumes ok: "log_mem_ok {} s" and n: "n = nat (lh_n (lg_lh (log s)))"
  shows "\<exists>s'. write_log s = Inr s' \<and> wrote_all (set (log_blocks s)) (log_ws (log s) (bview s) n) s s'"
proof -
  note f = log_mem_ok_facts [OF ok n]
  let ?P = "set (log_blocks s)"
  let ?I = "\<lambda>k. wrote_all ?P (log_ws (log s) (bview s) k) s"
  have "\<exists>s'. rfold write_one [0..<n] s = Inr s' \<and> ?I (length [0..<n]) s'"
  proof (rule rfold_invariant)
    show "?I 0 s" using ok wrote_all_Nil by (auto simp: log_mem_ok_def)
  next
    fix k s1
    assume "k < length [0..<n]" and I: "?I k s1"
    then have k: "k < n" by simp
    let ?b = "lh_block (lg_lh (log s)) ! k" and ?a = "log_slot (log s) (Suc k)"
    have nb: "\<not> in_log (log s) ?b" "?b \<in> ?P" using f(1,7,8) k by simp_all
    have na: "in_log (log s) (log_slot (log s) (Suc t))" if "t \<le> k" for t
      using f(2) k that by (intro f(9)) simp
    have "\<exists>s2. write_one k s1 = Inr s2 \<and> wrote ?P ?a (bview s1 ?b) s1 s2"
      using I wrote_all_log [OF I] f(4,5) k nb na [of k] ok
      by (intro write_one_ok) (auto simp: wrote_all_def log_mem_ok_def)
    moreover have "?b \<notin> fst ` set (log_ws (log s) (bview s) k)"
      unfolding ws_blocks using nb(1) na by force
    then have "bview s1 ?b = bview s ?b" using I by (simp add: wrote_all_def apply_writes_other)
    ultimately show "\<exists>s2. write_one ([0..<n] ! k) s1 = Inr s2 \<and> ?I (Suc k) s2"
      using wrote_all_snoc [OF I] k by (auto simp: ws_Suc)
  qed
  then show ?thesis using n by (simp add: write_log_def)
qed

lemma set_drop_remove:
  "distinct xs \<Longrightarrow> k < length xs \<Longrightarrow> set (drop k xs) - {xs ! k} = set (drop (Suc k) xs)"
  by (auto simp: Cons_nth_drop_Suc [symmetric] distinct_conv_nth) (metis distinct.simps(2)
      distinct_drop Cons_nth_drop_Suc distinct_conv_nth)

lemma install_trans_ok:
  assumes geom: "log_geom (log s)" and n: "n = nat (lh_n (lg_lh (log s)))" "n < nat (lg_size (log s))"
    and cur: "cur_ok s" and ok: "bcache_ok {} P s"
    and out: "\<And>t. t < n \<Longrightarrow> \<not> in_log (log s) (lh_block (lg_lh (log s)) ! t)"
    and P: "if recovering then P = {} else P = set (log_blocks s) \<and> distinct (log_blocks s)"
  shows "\<exists>s'. install_trans recovering s = Inr s' \<and>
    wrote_all {} (home_ws (log s) (bview s) n) s s'"
proof -
  define bs where "bs = log_blocks s"
  have bs: "length bs = n" "\<And>t. t < n \<Longrightarrow> bs ! t = lh_block (lg_lh (log s)) ! t"
    using geom n by (auto simp: bs_def log_blocks_def log_geom_def)
  define Q where "Q k = (if recovering then {} else set (drop k bs))" for k
  have Qcard: "card (Q k) < NBUF" for k
  proof -
    have "card (set (drop k bs)) \<le> n" using card_length [of "drop k bs"] bs by simp
    with geom n show ?thesis by (auto simp: Q_def log_geom_def)
  qed
  let ?I = "\<lambda>k. wrote_all (Q k) (home_ws (log s) (bview s) k) s"
  have "\<exists>s'. rfold (install_one recovering) [0..<n] s = Inr s' \<and> ?I (length [0..<n]) s'"
  proof (rule rfold_invariant)
    show "?I 0 s" using ok cur P by (auto simp: Q_def bs_def intro: wrote_all_Nil split: if_splits)
  next
    fix k s1
    assume "k < length [0..<n]" and I: "?I k s1"
    then have k: "k < n" by simp
    let ?b = "lh_block (lg_lh (log s)) ! k" and ?a = "log_slot (log s) (Suc k)"
    have ina: "in_log (log s) ?a" using n(2) k by (auto simp: in_log_def intro!: exI [of _ "Suc k"])
    have outb: "?a \<noteq> lh_block (lg_lh (log s)) ! t" if "t < n" for t using out [OF that] ina by metis
    have aQ: "?a \<notin> Q k"
    proof
      assume "?a \<in> Q k"
      then have "?a \<in> set bs" by (auto simp: Q_def dest: in_set_dropD split: if_splits)
      then show False using outb bs by (metis in_set_conv_nth)
    qed
    have bQ: "if recovering then Q k = {} else ?b \<in> Q k"
      using k bs by (auto simp: Q_def Cons_nth_drop_Suc [symmetric])
    have QS: "Q k - {?b} = Q (Suc k)"
      using P k bs set_drop_remove [of bs k] by (auto simp: Q_def bs_def split: if_splits)
    have "\<exists>s2. install_one recovering k s1 = Inr s2 \<and> wrote (Q k - {?b}) ?b (bview s1 ?a) s1 s2"
      using I wrote_all_log [OF I] geom aQ outb [OF k] bQ Qcard
      by (intro install_one_ok) (auto simp: wrote_all_def log_geom_def)
    moreover have "?a \<notin> fst ` set (home_ws (log s) (bview s) k)"
      unfolding ws_blocks using outb k by (metis (no_types, lifting) imageE lessThan_iff less_trans)
    then have "bview s1 ?a = bview s ?a" using I by (simp add: wrote_all_def apply_writes_other)
    ultimately show "\<exists>s2. install_one recovering ([0..<n] ! k) s1 = Inr s2 \<and> ?I (Suc k) s2"
      using wrote_all_snoc [OF I] k QS by (auto simp: ws_Suc)
  qed
  moreover have "Q n = {}" using bs by (simp add: Q_def)
  ultimately show ?thesis using n by (simp add: install_trans_def)
qed

section \<open>The header block\<close>

lemma put_head_blocks:
  assumes "k \<le> m" "i < k"
  shows "get32 (fold (\<lambda>i d. set32 d (4 + 4 * i) (bl ! i)) [0..<k] d) (4 + 4 * i) = bl ! i"
  using assms
proof (induction k)
  case 0
  then show ?case by simp
next
  case (Suc k)
  then show ?case
    by (cases "i = k") (auto simp: get_set_disj)
qed

lemma put_head_count:
  "get32 (fold (\<lambda>i d. set32 d (4 + 4 * i) (bl ! i)) [0..<k] d) 0 = get32 d 0"
  by (induction k) (auto simp: get_set_disj)

lemma put_head_roundtrip:
  assumes "0 \<le> lh_n lh" "lh_n lh < 2 ^ 31"
  shows "hdr_n (put_head lh d) = lh_n lh"
    and "i < nat (lh_n lh) \<Longrightarrow> hdr_block (put_head lh d) i = lh_block lh ! i"
proof -
  have "sint (word_of_int (lh_n lh) :: uint) = lh_n lh"
    using assms by (simp add: int_word_sint)
  then show "hdr_n (put_head lh d) = lh_n lh"
    by (simp add: hdr_n_def put_head_def put_head_count)
  show "hdr_block (put_head lh d) i = lh_block lh ! i" if "i < nat (lh_n lh)"
    using put_head_blocks [of "nat (lh_n lh)" "nat (lh_n lh)" i] that
    by (simp add: hdr_block_def put_head_def)
qed

section \<open>Commit\<close>

lemma upd_lh_simps [simp]:
  "bufs (upd_lh f s) = bufs s" "bnext (upd_lh f s) = bnext s" "bprev (upd_lh f s) = bprev s"
  "disk (upd_lh f s) = disk s" "disk_writes (upd_lh f s) = disk_writes s"
  "cpu_proc (upd_lh f s) = cpu_proc s" "procs (upd_lh f s) = procs s" "mem (upd_lh f s) = mem s"
  "freelist (upd_lh f s) = freelist s" "kend (upd_lh f s) = kend s" "nextpid (upd_lh f s) = nextpid s"
  "initproc (upd_lh f s) = initproc s" "klog.more (upd_lh f s) = klog.more s"
  "log (upd_lh f s) = (log s)\<lparr>lg_lh := f (lg_lh (log s))\<rparr>"
  "myproc (upd_lh f s) = myproc s" "cur_ok (upd_lh f s) = cur_ok s"
  by (simp_all add: upd_lh_def myproc_def cur_ok_def)

lemma bcache_cong:
  assumes "bufs s' = bufs s" "bnext s' = bnext s" "bprev s' = bprev s" "disk s' = disk s"
    "p_pid (myproc s') = p_pid (myproc s)"
  shows "bcache_ok H P s' = bcache_ok H P s" "bview s' = bview s" "cached s' = cached s"
proof -
  show c: "cached s' = cached s" using assms by (simp add: cached_def fun_eq_iff)
  have "ring s' = ring s" using ring_cong [OF assms(2,3)] by blast
  then show "bcache_ok H P s' = bcache_ok H P s" using assms c by (simp add: bcache_ok_def)
  show "bview s' = bview s" unfolding bview_def assms ..
qed

lemma bcache_upd_lh [simp]:
  "bcache_ok H P (upd_lh f s) = bcache_ok H P s" "bview (upd_lh f s) = bview s"
  "cached (upd_lh f s) = cached s"
  by (rule bcache_cong; simp)+

lemma kframe_upd_lh: "kframe s s' \<Longrightarrow> kframe (upd_lh f s) (upd_lh f s')"
  using kbio_more_klog [of s' s] by (cases s; cases s') (auto simp: kframe_def upd_lh_def myproc_def cur_ok_def)

lemma wrote_all_one: "wrote P n d s s' = wrote_all P [(n, d)] s s'"
  by (simp add: wrote_def wrote_all_def)

lemma wrote_all_trans:
  "wrote_all P ws s s1 \<Longrightarrow> wrote_all P' vs s1 s2 \<Longrightarrow> wrote_all P' (ws @ vs) s s2"
  by (auto simp: wrote_all_def elim: kframe_trans)

definition clear_head :: "logheader \<Rightarrow> logheader" where
  "clear_head lh = lh\<lparr>lh_n := 0\<rparr>"

text \<open>The writes of a commit, in order: the log, the header, the home blocks, the empty header.\<close>

definition commit_writes :: "'z klog_scheme \<Rightarrow> (uint \<times> block) list" where
  "commit_writes s =
     (let lg = log s; n = nat (lh_n (lg_lh lg)); hd = put_head (lg_lh lg) (bview s (log_slot lg 0))
      in log_ws lg (bview s) n @ [(log_slot lg 0, hd)] @
         map (\<lambda>t. (lh_block (lg_lh lg) ! t, bview s (lh_block (lg_lh lg) ! t))) [0..<n] @
         [(log_slot lg 0, put_head (clear_head (lg_lh lg)) hd)])"

lemma log_ws_slot:
  assumes "log_geom lg" "k < nat (lg_size lg)" "t < k"
  shows "apply_writes (log_ws lg v k) dk (log_slot lg (Suc t)) = v (lh_block (lg_lh lg) ! t)"
  unfolding log_ws_def
proof (rule apply_writes_map_inj)
  show "inj_on (\<lambda>t. log_slot lg (Suc t)) (set [0..<k])"
    using assms by (auto simp: inj_on_def log_slot_inj)
qed (use assms in simp)

lemma slot_0_not_written:
  assumes "log_geom lg" "k < nat (lg_size lg)"
  shows "log_slot lg 0 \<notin> fst ` set (log_ws lg v k)"
proof
  assume "log_slot lg 0 \<in> fst ` set (log_ws lg v k)"
  then obtain t where "t < k" "log_slot lg 0 = log_slot lg (Suc t)" unfolding ws_blocks by auto
  moreover have "0 < nat (lg_size lg)" using assms(2) by simp
  ultimately show False using assms log_slot_inj [OF assms(1), of 0 "Suc t"] by simp
qed

lemma write_head_all:
  assumes "bcache_ok {} P s" "cur_ok s" "lg_dev (log s) = ROOTDEV" "card P < NBUF"
    "d = put_head (lg_lh (log s)) (bview s (log_slot (log s) 0))" "z = log_slot (log s) 0"
  shows "\<exists>s'. write_head s = Inr s' \<and> wrote_all P [(z, d)] s s'"
  using write_head_ok [OF assms(1-4)] assms(5,6) by (simp add: log_slot_0 [symmetric] wrote_all_one)

text \<open>The first three phases of a commit, up to the installation.\<close>

lemma commit_install_ok:
  assumes ok: "log_mem_ok {} s" and lg: "lg = log s" and n: "n = nat (lh_n (lg_lh lg))"
    and hb: "hb = put_head (lg_lh lg) (bview s (log_slot lg 0))"
  shows "\<exists>s1 s2 s3. write_log s = Inr s1 \<and> write_head s1 = Inr s2 \<and> install_trans False s2 = Inr s3 \<and>
    wrote_all {} (log_ws lg (bview s) n @ [(log_slot lg 0, hb)] @
      map (\<lambda>t. (lh_block (lg_lh lg) ! t, bview s (lh_block (lg_lh lg) ! t))) [0..<n]) s s3"
proof -
  note f = log_mem_ok_facts [OF ok n [unfolded lg], folded lg]
  have geom: "log_geom lg" using ok by (simp add: log_mem_ok_def lg)
  let ?P = "set (log_blocks s)" and ?z = "log_slot lg 0"
  obtain s1 where s1: "write_log s = Inr s1" "wrote_all ?P (log_ws lg (bview s) n) s s1"
    using write_log_ok [OF ok n [unfolded lg]] lg by blast
  have l1: "log s1 = lg" using wrote_all_log [OF s1(2)] lg by simp
  have z1: "bview s1 ?z = bview s ?z"
    using s1(2) slot_0_not_written [OF geom f(2)] by (simp add: wrote_all_def apply_writes_other)
  have "bcache_ok {} ?P s1" "cur_ok s1" using s1(2) by (auto simp: wrote_all_def)
  then have "\<exists>s2. write_head s1 = Inr s2 \<and> wrote_all ?P [(?z, hb)] s1 s2"
    by (rule write_head_all) (use f(4,5) z1 hb in \<open>simp_all add: l1\<close>)
  then obtain s2 where s2: "write_head s1 = Inr s2" "wrote_all ?P [(?z, hb)] s1 s2" by blast
  have l2: "log s2 = lg" using wrote_all_log [OF s2(2)] l1 by simp
  have v2: "bview s2 (log_slot lg (Suc t)) = bview s (lh_block (lg_lh lg) ! t)" if "t < n" for t
  proof -
    have "0 < nat (lg_size lg)" "Suc t < nat (lg_size lg)" using that f(2) by simp_all
    then have "log_slot lg (Suc t) \<noteq> log_slot lg 0" using log_slot_inj [OF geom] by blast
    with that s1(2) s2(2) log_ws_slot [OF geom f(2)] show ?thesis by (simp add: wrote_all_def)
  qed
  have h: "home_ws lg (bview s2) n = map (\<lambda>t. (lh_block (lg_lh lg) ! t, bview s (lh_block (lg_lh lg) ! t))) [0..<n]"
    by (simp add: home_ws_def v2)
  have bl: "log_blocks s2 = log_blocks s" using l2 lg by (simp add: log_blocks_def)
  have "bcache_ok {} ?P s2" "cur_ok s2" using s2(2) by (auto simp: wrote_all_def)
  then have "\<exists>s3. install_trans False s2 = Inr s3 \<and> wrote_all {} (home_ws (log s2) (bview s2) n) s2 s3"
    using geom n f ok by (intro install_trans_ok) (simp_all add: l2 bl log_mem_ok_def)
  then obtain s3 where s3: "install_trans False s2 = Inr s3" "wrote_all {} (home_ws lg (bview s2) n) s2 s3"
    unfolding l2 by blast
  show ?thesis
    using s1(1) s2(1) s3(1) wrote_all_trans [OF s1(2) wrote_all_trans [OF s2(2) s3(2)]] unfolding h by blast
qed

lemma commit_ok:
  assumes ok: "log_mem_ok {} s" and pos: "0 < lh_n (lg_lh (log s))"
  shows "\<exists>s'. commit s = Inr s' \<and> disk_writes s' = disk_writes s @ commit_writes s \<and>
    disk s' = apply_writes (commit_writes s) (disk s) \<and>
    bview s' = apply_writes (commit_writes s) (bview s) \<and> bcache_ok {} {} s' \<and>
    kframe (upd_lh clear_head s) s' \<and> cur_ok s'"
proof -
  define lg where "lg = log s"
  define n where "n = nat (lh_n (lg_lh lg))"
  let ?z = "log_slot lg 0"
  define hb where "hb = put_head (lg_lh lg) (bview s ?z)"
  define hw where "hw = map (\<lambda>t. (lh_block (lg_lh lg) ! t, bview s (lh_block (lg_lh lg) ! t))) [0..<n]"
  note f = log_mem_ok_facts [OF ok n_def [unfolded lg_def], folded lg_def]
  obtain s1 s2 s3 where r: "write_log s = Inr s1" "write_head s1 = Inr s2" "install_trans False s2 = Inr s3"
      and w: "wrote_all {} (log_ws lg (bview s) n @ [(?z, hb)] @ hw) s s3"
    using commit_install_ok [OF ok lg_def n_def hb_def] unfolding hw_def by blast
  have l3: "log s3 = lg" using wrote_all_log [OF w] by (simp add: lg_def)
  have "?z \<notin> fst ` set hw"
  proof
    assume "?z \<in> fst ` set hw"
    then obtain t where "t < n" "?z = lh_block (lg_lh lg) ! t" unfolding hw_def by auto
    moreover have "in_log lg ?z" using f(2,9) by simp
    ultimately show False using f(7,8) by metis
  qed
  then have z3: "bview s3 ?z = hb" using w by (simp add: wrote_all_def apply_writes_other)
  let ?e = "put_head (clear_head (lg_lh lg)) hb"
  have "bcache_ok {} {} (upd_lh clear_head s3)" "cur_ok (upd_lh clear_head s3)"
    using w by (simp_all add: wrote_all_def)
  then have "\<exists>s4. write_head (upd_lh clear_head s3) = Inr s4 \<and> wrote_all {} [(?z, ?e)] (upd_lh clear_head s3) s4"
    by (rule write_head_all) (use f(5) z3 in \<open>simp_all add: l3 log_slot_def\<close>)
  then obtain s4 where s4: "write_head (upd_lh clear_head s3) = Inr s4"
      "wrote_all {} [(?z, ?e)] (upd_lh clear_head s3) s4" by blast
  have run: "commit s = Inr s4"
    using r s4(1) pos by (simp add: commit_def clear_head_def [abs_def])
  have k: "kframe (upd_lh clear_head s) (upd_lh clear_head s3)"
    using w by (intro kframe_upd_lh) (simp add: wrote_all_def)
  have cw: "commit_writes s = (log_ws lg (bview s) n @ [(?z, hb)] @ hw) @ [(?z, ?e)]"
    by (simp add: commit_writes_def Let_def lg_def n_def hb_def hw_def)
  have "disk_writes s4 = disk_writes s @ commit_writes s"
    "disk s4 = apply_writes (commit_writes s) (disk s)" "bview s4 = apply_writes (commit_writes s) (bview s)"
    using w s4(2) unfolding cw wrote_all_def by simp_all
  then show ?thesis using run kframe_trans [OF k] s4(2) unfolding wrote_all_def by blast
qed

section \<open>Recovery\<close>

text \<open>What recovery must make of a disk: the blocks the header lists are copied home.\<close>

definition recovered :: "logstate \<Rightarrow> (uint \<Rightarrow> block) \<Rightarrow> uint \<Rightarrow> block" where
  "recovered lg dk = apply_writes
     (map (\<lambda>t. (hdr_block (dk (log_slot lg 0)) t, dk (log_slot lg (Suc t))))
       [0..<nat (hdr_n (dk (log_slot lg 0)))]) dk"

lemma fold_upd_lh:
  "fold (\<lambda>i. upd_lh (\<lambda>lh. lh\<lparr>lh_block := (lh_block lh)[i := h i]\<rparr>)) xs s =
   upd_lh (\<lambda>lh. lh\<lparr>lh_block := fold (\<lambda>i l. l[i := h i]) xs (lh_block lh)\<rparr>) s"
  by (induction xs arbitrary: s) (simp_all add: upd_lh_def)

lemma fold_list_update:
  "k \<le> length l \<Longrightarrow> length (fold (\<lambda>i l. l[i := h i]) [0..<k] l) = length l \<and>
     (\<forall>i<k. fold (\<lambda>i l. l[i := h i]) [0..<k] l ! i = h i)"
  by (induction k) (auto simp: nth_list_update less_Suc_eq)

lemma brelse_upd_lh: "brelse i (upd_lh f s) = rbind (brelse i s) (\<lambda>s. Inr (upd_lh f s))"
  by (simp add: brelse_def holdingsleep_def unlock_buf_def releasesleep_def Let_def upd_buf_def
      upd_lh_def move_to_front_def wakeup_def myproc_def)

lemma read_head_ok:
  assumes ok: "bcache_ok {} {} s" and cur: "cur_ok s" and dev: "lg_dev (log s) = ROOTDEV"
    and len: "length (lh_block (lg_lh (log s))) = LOGSIZE"
    and d: "d = bview s (log_slot (log s) 0)" "hdr_n d \<le> int LOGSIZE"
  shows "\<exists>s' lh. read_head s = Inr (upd_lh (\<lambda>_. lh) s') \<and> bcache_ok {} {} s' \<and> bview s' = bview s \<and>
    bframe s s' \<and> lh_n lh = hdr_n d \<and> length (lh_block lh) = LOGSIZE \<and>
    (\<forall>t<nat (hdr_n d). lh_block lh ! t = hdr_block d t)"
proof -
  let ?z = "log_slot (log s) 0"
  obtain i s1 where s1: "bread ROOTDEV ?z s = Inr (i, s1)" "bcache_ok {i} {} s1"
      "bview s1 = bview s" "bframe s s1" "holds s1 i ?z d"
    using bread_rule [OF ok, of ?z] d(1) by auto
  have cur1: "cur_ok s1" using s1(4) cur by (rule bframes_cur)
  have "d = disk s1 ?z"
    using d(1) bview_clean [OF ok, of ?z] s1(4) by (simp add: bframe_def)
  then obtain s2 where s2: "brelse i s1 = Inr s2" "bcache_ok {} {} s2" "bview s2 = bview s1" "bframe s1 s2"
    using brelse_rule [OF s1(2) _ cur1 s1(5)] by (metis Diff_cancel singletonI)
  define bl where "bl = fold (\<lambda>i l. l[i := hdr_block d i]) [0..<nat (hdr_n d)] (lh_block (lg_lh (log s)))"
  let ?lh = "(lg_lh (log s))\<lparr>lh_n := hdr_n d, lh_block := bl\<rparr>"
  have l2: "log s2 = log s" using s1(4) s2(4) by (simp add: bframe_log)
  have "read_head s = Inr (upd_lh (\<lambda>_. ?lh) s2)"
    using s1(1) s2(1) dev d(2) holds_data [OF s1(5)] l2
    by (simp add: read_head_def log_slot_0 [symmetric] fold_upd_lh brelse_upd_lh Let_def not_less)
      (simp add: upd_lh_def bl_def)
  moreover have "length bl = LOGSIZE" "\<forall>t<nat (hdr_n d). bl ! t = hdr_block d t"
    using fold_list_update [of "nat (hdr_n d)" "lh_block (lg_lh (log s))" "hdr_block d"] len d(2)
    by (auto simp: bl_def)
  ultimately show ?thesis
    using s2(2,3) s1(3) bframe_trans [OF s1(4) s2(4)] by (intro exI [of _ s2] exI [of _ ?lh]) simp
qed

lemma recover_ok:
  assumes ok: "bcache_ok {} {} s" and cur: "cur_ok s" and geom: "log_geom (log s)"
    and d: "d = disk s (log_slot (log s) 0)" "hdr_n d < lg_size (log s)"
    and out: "\<And>t. t < nat (hdr_n d) \<Longrightarrow> \<not> in_log (log s) (hdr_block d t)"
  shows "\<exists>s' e. recover_from_log s = Inr s' \<and> bcache_ok {} {} s' \<and> cur_ok s' \<and>
    disk s' = (recovered (log s) (disk s))(log_slot (log s) 0 := e) \<and> hdr_n e = 0"
proof -
  let ?z = "log_slot (log s) 0"
  have dv: "d = bview s ?z" using d(1) bview_clean [OF ok, of ?z] by simp
  obtain s1 lh where s1: "read_head s = Inr (upd_lh (\<lambda>_. lh) s1)" "bcache_ok {} {} s1" "bview s1 = bview s"
      "bframe s s1" "lh_n lh = hdr_n d" "length (lh_block lh) = LOGSIZE"
      "\<forall>t<nat (hdr_n d). lh_block lh ! t = hdr_block d t"
    using read_head_ok [OF ok cur _ _ dv] geom d(2) by (auto simp: log_geom_def)
  let ?t = "upd_lh (\<lambda>_. lh) s1"
  have l1: "log s1 = log s" using s1(4) by (rule bframe_log)
  then have l: "log ?t = (log s)\<lparr>lg_lh := lh\<rparr>" by simp
  have slot: "log_slot (log ?t) k = log_slot (log s) k" for k by (simp add: l1)
  have inl: "in_log (log ?t) m = in_log (log s) m" for m by (simp add: l1)
  have cur1: "cur_ok ?t" using s1(4) cur by (simp add: bframes_cur)
  have "\<exists>s2. install_trans True ?t = Inr s2 \<and> wrote_all {} (home_ws (log ?t) (bview ?t) (nat (hdr_n d))) ?t s2"
    by (rule install_trans_ok [where P = "{}"])
      (use geom s1 d(2) out cur1 inl in \<open>auto simp: l1 log_geom_def\<close>)
  then obtain s2 where s2: "install_trans True ?t = Inr s2"
      "wrote_all {} (home_ws (log ?t) (bview ?t) (nat (hdr_n d))) ?t s2" by blast
  have l2: "log s2 = (log s)\<lparr>lg_lh := lh\<rparr>" using wrote_all_log [OF s2(2)] l by simp
  define e where "e = put_head (clear_head lh) (bview s2 ?z)"
  have "bcache_ok {} {} (upd_lh clear_head s2)" "cur_ok (upd_lh clear_head s2)"
    using s2(2) by (simp_all add: wrote_all_def)
  then have "\<exists>s3. write_head (upd_lh clear_head s2) = Inr s3 \<and> wrote_all {} [(?z, e)] (upd_lh clear_head s2) s3"
    by (rule write_head_all) (use geom in \<open>simp_all add: l2 log_slot_def e_def log_geom_def\<close>)
  then obtain s3 where s3: "write_head (upd_lh clear_head s2) = Inr s3"
      "wrote_all {} [(?z, e)] (upd_lh clear_head s2) s3" by blast
  have run: "recover_from_log s = Inr s3"
    using s1(1) s2(1) s3(1) by (simp add: recover_from_log_def clear_head_def [abs_def])
  have "bview s = disk s" using bview_clean [OF ok] by (auto simp: fun_eq_iff)
  then have "home_ws (log ?t) (bview ?t) (nat (hdr_n d)) =
      map (\<lambda>t. (hdr_block d t, disk s (log_slot (log s) (Suc t)))) [0..<nat (hdr_n d)]"
    using s1(3,7) by (simp add: home_ws_def l1)
  moreover have "disk ?t = disk s" using s1(4) by (simp add: bframe_def)
  ultimately have "disk s2 = recovered (log s) (disk s)"
    using s2(2) d(1) by (simp add: wrote_all_def recovered_def)
  then have "disk s3 = (recovered (log s) (disk s))(?z := e)" using s3(2) by (simp add: wrote_all_def)
  moreover have "hdr_n e = 0" unfolding e_def by (subst put_head_roundtrip(1)) (simp_all add: clear_head_def)
  moreover have "bcache_ok {} {} s3" "cur_ok s3" using s3(2) by (simp_all add: wrote_all_def)
  ultimately show ?thesis using run by blast
qed

section \<open>Crash safety\<close>

lemma apply_writes_same:
  "apply_writes (map (\<lambda>t. (f t, v (f t))) ts) dk m = (if m \<in> f ` set ts then v m else dk m)"
  by (induction ts rule: rev_induct) auto

lemma take_log_ws: "k \<le> n \<Longrightarrow> take k (log_ws lg v n) = log_ws lg v k"
  by (simp add: log_ws_def take_map)

text \<open>
  The disk after some of the writes of a commit. Up to the header write recovery finds an
  empty header and every home block is the old one; after it the header lists the blocks and
  the log holds their new contents; the last write empties the header again.
\<close>

definition home_of :: "logstate \<Rightarrow> nat \<Rightarrow> uint" where
  "home_of lg t = lh_block (lg_lh lg) ! t"

definition new_ws :: "logstate \<Rightarrow> (uint \<Rightarrow> block) \<Rightarrow> nat \<Rightarrow> (uint \<times> block) list" where
  "new_ws lg v j = map (\<lambda>t. (home_of lg t, v (home_of lg t))) [0..<j]"

lemma new_ws_apply:
  "apply_writes (new_ws lg v j) dk m = (if m \<in> home_of lg ` {..<j} then v m else dk m)"
  using apply_writes_same [of "home_of lg" v "[0..<j]" dk m] by (simp add: new_ws_def atLeast0LessThan)

lemma log_ws_outside:
  assumes "\<not> in_log lg m" "j < nat (lg_size lg)"
  shows "apply_writes (log_ws lg v j) dk m = dk m"
proof (rule apply_writes_other, rule notI)
  assume "m \<in> fst ` set (log_ws lg v j)"
  then obtain t where "t < j" "m = log_slot lg (Suc t)" unfolding ws_blocks by auto
  then have "in_log lg m" unfolding in_log_def using assms(2) by (intro exI [of _ "Suc t"]) simp
  with assms(1) show False by simp
qed

lemma home_not_slot:
  assumes "\<And>t. t < n \<Longrightarrow> \<not> in_log lg (home_of lg t)" "k < nat (lg_size lg)" "j \<le> n"
  shows "log_slot lg k \<notin> home_of lg ` {..<j}"
proof
  assume "log_slot lg k \<in> home_of lg ` {..<j}"
  then obtain t where "t < j" "home_of lg t = log_slot lg k" by auto
  moreover have "in_log lg (log_slot lg k)" using assms(2) by (auto simp: in_log_def)
  ultimately show False using assms(1) [of t] assms(3) by auto
qed

lemma crash_before_header:
  assumes "log_geom lg" "k < nat (lg_size lg)" "hdr_n (dk0 (log_slot lg 0)) = 0"
    and dk: "dk = apply_writes (log_ws lg v k) dk0"
  shows "hdr_n (dk (log_slot lg 0)) = 0 \<and> (\<forall>m. \<not> in_log lg m \<longrightarrow> recovered lg dk m = dk0 m)"
proof -
  have "dk (log_slot lg 0) = dk0 (log_slot lg 0)"
    using slot_0_not_written [OF assms(1,2)] by (simp add: dk apply_writes_other)
  then show ?thesis using assms(2,3) by (simp add: recovered_def dk log_ws_outside)
qed

lemma crash_after_header:
  assumes geom: "log_geom lg" and n: "n < nat (lg_size lg)" "j \<le> n"
    and out: "\<And>t. t < n \<Longrightarrow> \<not> in_log lg (home_of lg t)"
    and clean: "\<And>m. m \<notin> home_of lg ` {..<n} \<Longrightarrow> dk0 m = v m"
    and hb: "hdr_n hb = int n" "\<And>t. t < n \<Longrightarrow> hdr_block hb t = home_of lg t"
    and dk: "dk = apply_writes (new_ws lg v j) ((apply_writes (log_ws lg v n) dk0)(log_slot lg 0 := hb))"
  shows "dk (log_slot lg 0) = hb \<and> (\<forall>m. \<not> in_log lg m \<longrightarrow> recovered lg dk m = v m)"
proof -
  let ?z = "log_slot lg 0"
  have nh: "log_slot lg k \<notin> home_of lg ` {..<j}" if "k < nat (lg_size lg)" for k
    by (rule home_not_slot [OF out that n(2)])
  have z: "dk ?z = hb" using nh [of 0] n by (simp add: dk new_ws_apply)
  have sl: "dk (log_slot lg (Suc t)) = v (home_of lg t)" if "t < n" for t
  proof -
    have "0 < nat (lg_size lg)" "Suc t < nat (lg_size lg)" using that n by simp_all
    then have "log_slot lg (Suc t) \<noteq> ?z" using log_slot_inj [OF geom] by blast
    then show ?thesis
      using nh [of "Suc t"] log_ws_slot [OF geom n(1) that] that n
      by (simp add: dk new_ws_apply home_of_def)
  qed
  have "map (\<lambda>t. (hdr_block hb t, dk (log_slot lg (Suc t)))) [0..<n] = new_ws lg v n"
    using hb(2) sl by (simp add: new_ws_def)
  then have rec: "recovered lg dk m = (if m \<in> home_of lg ` {..<n} then v m else dk m)" for m
    by (simp add: recovered_def z hb(1) new_ws_apply)
  have "dk m = v m" if "\<not> in_log lg m" "m \<notin> home_of lg ` {..<n}" for m
  proof -
    have "in_log lg ?z" using n by (intro in_log_slot) simp
    with that n have "m \<noteq> ?z" "m \<notin> home_of lg ` {..<j}" by auto
    then show ?thesis using that n clean by (simp add: dk new_ws_apply log_ws_outside)
  qed
  with z rec show ?thesis by simp
qed

lemma commit_writes_eq:
  assumes "lg = log s" "n = nat (lh_n (lg_lh lg))"
    "hb = put_head (lg_lh lg) (bview s (log_slot lg 0))" "e = put_head (clear_head (lg_lh lg)) hb"
  shows "commit_writes s =
    log_ws lg (bview s) n @ [(log_slot lg 0, hb)] @ new_ws lg (bview s) n @ [(log_slot lg 0, e)]"
  using assms by (simp add: commit_writes_def Let_def new_ws_def home_of_def)

lemma hdr_n_cleared: "hdr_n (put_head (clear_head lh) d) = 0"
  by (subst put_head_roundtrip(1)) (simp_all add: clear_head_def)

text \<open>The facts about the blocks of the transaction that the crash argument needs.\<close>

lemma log_mem_ok_home:
  assumes ok: "log_mem_ok {} s" and lg: "lg = log s" and n: "n = nat (lh_n (lg_lh lg))"
  shows "log_geom lg" "n < nat (lg_size lg)" "0 \<le> lh_n (lg_lh lg)" "n < 2 ^ 31"
    "\<And>t. t < n \<Longrightarrow> \<not> in_log lg (home_of lg t)"
    "\<And>m. m \<notin> home_of lg ` {..<n} \<Longrightarrow> disk s m = bview s m"
proof -
  note f = log_mem_ok_facts [OF ok n [unfolded lg], folded lg]
  show "log_geom lg" "0 \<le> lh_n (lg_lh lg)" using ok by (simp_all add: log_mem_ok_def lg)
  show "n < nat (lg_size lg)" "n < 2 ^ 31" using f(2,3) by simp_all
  show "\<not> in_log lg (home_of lg t)" if "t < n" for t using f(7,8) that by (simp add: home_of_def)
  have "set (log_blocks s) = home_of lg ` {..<n}"
    using f(1,7) by (auto simp: set_conv_nth image_iff home_of_def)
  then show "disk s m = bview s m" if "m \<notin> home_of lg ` {..<n}" for m
    using bview_clean0 [of "set (log_blocks s)" s m] that ok by (simp add: log_mem_ok_def)
qed

lemma commit_writes_final:
  assumes ok: "log_mem_ok {} s"
  shows "hdr_n (apply_writes (commit_writes s) (disk s) (log_slot (log s) 0)) = 0"
    "\<not> in_log (log s) m \<Longrightarrow> apply_writes (commit_writes s) (disk s) m = bview s m"
proof -
  note h = log_mem_ok_home [OF ok refl refl]
  note cw = commit_writes_eq [OF refl refl refl refl, of s]
  show "hdr_n (apply_writes (commit_writes s) (disk s) (log_slot (log s) 0)) = 0"
    by (simp add: cw hdr_n_cleared)
  assume m: "\<not> in_log (log s) m"
  moreover have "in_log (log s) (log_slot (log s) 0)" using h(2) by (intro in_log_slot) simp
  ultimately have "m \<noteq> log_slot (log s) 0" by auto
  then show "apply_writes (commit_writes s) (disk s) m = bview s m"
    using m h(2,6) by (simp add: cw new_ws_apply log_ws_outside)
qed

lemma crash_disk:
  assumes ok: "log_mem_ok {} s" and lg: "lg = log s" and n: "n = nat (lh_n (lg_lh lg))"
    and dk: "dk = apply_writes (take k (commit_writes s)) (disk s)" and k: "k \<le> length (commit_writes s)"
    and h0: "hdr_n (disk s (log_slot lg 0)) = 0"
  shows "hdr_n (dk (log_slot lg 0)) < lg_size lg \<and>
    (\<forall>t<nat (hdr_n (dk (log_slot lg 0))). \<not> in_log lg (hdr_block (dk (log_slot lg 0)) t)) \<and>
    (\<forall>m. \<not> in_log lg m \<longrightarrow> recovered lg dk m = (if k \<le> n then disk s m else bview s m))"
proof -
  note h = log_mem_ok_home [OF ok lg n]
  let ?z = "log_slot lg 0" and ?v = "bview s"
  define hb where "hb = put_head (lg_lh lg) (?v ?z)"
  note cw = commit_writes_eq [OF lg n hb_def refl]
  have len: "length (log_ws lg ?v n) = n" "length (new_ws lg ?v n) = n" by (simp_all add: log_ws_def new_ws_def)
  have hbn: "hdr_n hb = int n" "\<And>t. t < n \<Longrightarrow> hdr_block hb t = home_of lg t"
    using put_head_roundtrip [where lh = "lg_lh lg" and d = "?v ?z"] h(3,4) n
    by (auto simp: hb_def home_of_def)
  have "k \<le> Suc (Suc (n + n))" using k unfolding cw by (simp add: len)
  then consider (old) "k \<le> n" | (cleared) "k = Suc (Suc (n + n))"
    | (mid) "k = Suc (n + (k - Suc n))" "k - Suc n \<le> n"
    by linarith
  then show ?thesis
  proof cases
    case old
    then have "dk = apply_writes (log_ws lg ?v k) (disk s)" using dk cw len by (simp add: take_log_ws)
    with old h(1,2) h0 crash_before_header [of lg k "disk s" dk ?v] show ?thesis
      by (auto simp: log_geom_def)
  next
    case mid
    let ?j = "k - Suc n"
    have "take k (commit_writes s) = log_ws lg ?v n @ [(?z, hb)] @ new_ws lg ?v ?j"
      unfolding cw using mid len by (simp add: new_ws_def take_map take_Cons')
    then have "dk = apply_writes (new_ws lg ?v ?j) ((apply_writes (log_ws lg ?v n) (disk s))(?z := hb))"
      using dk by simp
    with mid hbn h(2,5) crash_after_header [OF h(1,2) mid(2) h(5,6) hbn] show ?thesis by auto
  next
    case cleared
    have "dk = apply_writes (commit_writes s) (disk s)" using dk cw len cleared by simp
    with commit_writes_final [OF ok] cleared h(1) lg show ?thesis
      by (auto simp: recovered_def log_geom_def)
  qed
qed

lemma commit_crash_recover:
  assumes ok: "log_mem_ok {} s" and h0: "hdr_n (disk s (log_slot (log s) 0)) = 0"
    and run: "commit s = Inr s'" "disk_writes s' = disk_writes s @ ws" "k \<le> length ws"
    and boot: "bcache_ok {} {} t" "cur_ok t" "disk t = apply_writes (take k ws) (disk s)"
      "log_geom (log t)" "lg_start (log t) = lg_start (log s)" "lg_size (log t) = lg_size (log s)"
  shows "\<exists>t'. recover_from_log t = Inr t' \<and> hdr_n (disk t' (log_slot (log s) 0)) = 0 \<and>
    (\<forall>m. \<not> in_log (log s) m \<longrightarrow>
      disk t' m = (if k \<le> nat (lh_n (lg_lh (log s))) then disk s m else bview s m))"
proof -
  have slot: "log_slot (log t) j = log_slot (log s) j" for j using boot(5) by (simp add: log_slot_def)
  have inl: "in_log (log t) m = in_log (log s) m" for m using boot(6) slot by (simp add: in_log_def)
  have rec: "recovered (log t) = recovered (log s)" by (simp add: recovered_def slot fun_eq_iff)
  have z: "in_log (log s) (log_slot (log s) 0)"
    using log_mem_ok_facts(2) [OF ok refl] by (intro in_log_slot) simp
  have "hdr_n (disk t (log_slot (log s) 0)) < lg_size (log s) \<and>
    (\<forall>i<nat (hdr_n (disk t (log_slot (log s) 0))). \<not> in_log (log s) (hdr_block (disk t (log_slot (log s) 0)) i)) \<and>
    (\<forall>m. \<not> in_log (log s) m \<longrightarrow>
      recovered (log s) (disk t) m = (if k \<le> nat (lh_n (lg_lh (log s))) then disk s m else bview s m))"
  proof (cases "0 < lh_n (lg_lh (log s))")
    case True
    then have "ws = commit_writes s" using commit_ok [OF ok] run by auto
    then have "disk t = apply_writes (take k (commit_writes s)) (disk s)" "k \<le> length (commit_writes s)"
      using boot(3) run(3) by simp_all
    then show ?thesis by (rule crash_disk [OF ok refl refl _ _ h0])
  next
    case False
    then have "s' = s" "ws = []" using run by (auto simp: commit_def)
    moreover have "log_ws (log s) (bview s) 0 = []" by simp
    ultimately show ?thesis
      using boot(3) h0 ok run(3) by (auto simp: recovered_def log_mem_ok_def log_geom_def)
  qed
  then obtain t' e where "recover_from_log t = Inr t'" "disk t' = (recovered (log s) (disk t))(log_slot (log s) 0 := e)"
      "hdr_n e = 0"
    and rest: "\<forall>m. \<not> in_log (log s) m \<longrightarrow>
      recovered (log s) (disk t) m = (if k \<le> nat (lh_n (lg_lh (log s))) then disk s m else bview s m)"
    using recover_ok [OF boot(1,2,4) refl] unfolding slot inl rec boot(6) by blast
  moreover have "m \<noteq> log_slot (log s) 0" if "\<not> in_log (log s) m" for m using that z by auto
  ultimately show ?thesis by simp
qed

section \<open>Logging a block\<close>

text \<open>Log absorption: a block that is logged already keeps its place.\<close>

lemma log_index_cases:
  "i + k \<le> length blk \<Longrightarrow>
   (if b \<in> set (take k (drop i blk)) then log_index blk b i k < i + k \<and> blk ! log_index blk b i k = b
    else log_index blk b i k = i + k)"
proof (induction blk b i k rule: log_index.induct)
  case (1 blk b i)
  then show ?case by simp
next
  case (2 blk b i k)
  then have "drop i blk = blk ! i # drop (Suc i) blk" by (simp add: Cons_nth_drop_Suc)
  with 2 show ?case by (auto split: if_splits)
qed

text \<open>What operations on logged blocks leave alone.\<close>

definition lframe :: "'z klog_scheme \<Rightarrow> 'z klog_scheme \<Rightarrow> bool" where
  "lframe s s' \<longleftrightarrow>
     mem s' = mem s \<and> freelist s' = freelist s \<and> kend s' = kend s \<and> cpu_proc s' = cpu_proc s \<and>
     nextpid s' = nextpid s \<and> initproc s' = initproc s \<and> length (procs s') = length (procs s) \<and>
     disk s' = disk s \<and> disk_writes s' = disk_writes s \<and> klog.more s' = klog.more s \<and>
     (\<exists>h. log s' = (log s)\<lparr>lg_lh := h\<rparr>) \<and> (cur_ok s \<longrightarrow> cur_ok s' \<and> myproc s' = myproc s)"

lemma lframe_refl [simp]: "lframe s s"
  by (auto simp: lframe_def intro: exI [of _ "lg_lh (log s)"])

lemma lframe_trans [trans]: "lframe s s' \<Longrightarrow> lframe s' s'' \<Longrightarrow> lframe s s''"
  by (auto simp: lframe_def)

lemma lframe_bframe: "bframe s s' \<Longrightarrow> lframe s s'"
  using kbio_more_klog [of s' s]
  by (auto simp: lframe_def bframe_def kframe_def intro: exI [of _ "lg_lh (log s)"])

lemma lframe_log:
  "lframe s s' \<Longrightarrow> lg_start (log s') = lg_start (log s) \<and> lg_size (log s') = lg_size (log s) \<and>
    lg_outstanding (log s') = lg_outstanding (log s) \<and> lg_committing (log s') = lg_committing (log s) \<and>
    lg_dev (log s') = lg_dev (log s) \<and> in_log (log s') = in_log (log s) \<and>
    (\<forall>k. log_slot (log s') k = log_slot (log s) k)"
  by (auto simp: lframe_def in_log_def log_slot_def fun_eq_iff)

lemma lframe_cur: "lframe s s' \<Longrightarrow> cur_ok s \<Longrightarrow> cur_ok s' \<and> myproc s' = myproc s"
  by (simp add: lframe_def)

lemma upd_lh_twice: "upd_lh f (upd_lh g s) = upd_lh (\<lambda>lh. f (g lh)) s"
  by (simp add: upd_lh_def)

lemma upd_lh_same: "f (lg_lh (log s)) = lg_lh (log s) \<Longrightarrow> upd_lh f s = s"
  by (simp add: upd_lh_def)

lemma log_upd_buf [simp]: "log (upd_buf i f s) = log s" "log (bpin i s) = log s" "log (bmod i g s) = log s"
  by (simp_all add: upd_buf_def bpin_def bmod_def)

lemma holds_upd_lh [simp]: "holds (upd_lh f s) i n d = holds s i n d"
  by (simp add: holds_def)

lemma log_write_ok:
  assumes ok: "log_mem_ok H s" and i: "i \<in> H" "holds s i b d" and b: "\<not> in_log (log s) b"
    and room: "lh_n (lg_lh (log s)) + 1 < lg_size (log s)" "1 \<le> lg_outstanding (log s)"
  shows "\<exists>s'. log_write i s = Inr s' \<and> log_mem_ok H s' \<and> bview s' = bview s \<and> lframe s s' \<and>
    log_blocks s' = (if b \<in> set (log_blocks s) then log_blocks s else log_blocks s @ [b]) \<and>
    (\<forall>j m d. holds s' j m d = holds s j m d)"
proof -
  let ?lh = "lg_lh (log s)"
  let ?n = "nat (lh_n ?lh)"
  let ?i = "log_index (lh_block ?lh) b 0 ?n"
  note g = ok [unfolded log_mem_ok_def log_geom_def]
  have n: "0 \<le> lh_n ?lh" "?n < LOGSIZE" "length (lh_block ?lh) = LOGSIZE" "lh_n ?lh < int LOGSIZE"
    using g room by auto
  have bn: "b_blockno (bufs s ! i) = b" using i(2) by (rule holds_blockno)
  let ?s = "upd_lh (\<lambda>lh. lh\<lparr>lh_block := (lh_block lh)[?i := b]\<rparr>) s"
  have run: "log_write i s = Inr (if ?i = ?n then upd_lh (\<lambda>lh. lh\<lparr>lh_n := lh_n lh + 1\<rparr>) (bpin i ?s) else ?s)"
    using room n by (simp add: log_write_def Let_def bn)
  have idx: "if b \<in> set (log_blocks s) then ?i < ?n \<and> lh_block ?lh ! ?i = b else ?i = ?n"
    using log_index_cases [of 0 ?n "lh_block ?lh" b] n unfolding log_blocks_def by (simp split: if_splits)
  show ?thesis
  proof (cases "b \<in> set (log_blocks s)")
    case True
    then have "?s = s" using idx by (intro upd_lh_same) (metis list_update_id logheader.surjective logheader.update_convs(2))
    with run True idx ok show ?thesis by auto
  next
    case False
    let ?t = "upd_lh (\<lambda>lh. lh\<lparr>lh_n := lh_n lh + 1\<rparr>) (bpin i ?s)"
    have st: "bcache_ok H (set (log_blocks s)) ?s" "cur_ok ?s" using g by simp_all
    have pin: "bstep H (insert b (set (log_blocks s))) i ?s (bpin i ?s)"
      using False by (intro bpin_ok [OF st(1) i(1) st(2)]) (simp_all add: bn)
    have lt: "log ?t = (log s)\<lparr>lg_lh := ?lh\<lparr>lh_n := lh_n ?lh + 1, lh_block := (lh_block ?lh)[?n := b]\<rparr>\<rparr>"
      using idx False by simp
    have lb: "log_blocks ?t = log_blocks s @ [b]"
      using lt n by (simp add: log_blocks_def nat_add_distrib take_Suc_conv_app_nth)
    have "lframe s ?t"
      using pin lt lframe_bframe [of ?s "bpin i ?s"] by (auto simp: lframe_def bstep_def)
    moreover have "log_mem_ok H ?t"
      using pin g lb lt False b room st by (auto simp: log_mem_ok_def log_geom_def bstep_def bframes_cur)
    moreover have "bview ?t = bview s" "\<forall>j m d. holds ?t j m d = holds s j m d"
      using pin bstep_holds [OF pin] by (simp_all add: bstep_def)
    ultimately show ?thesis using run idx False lb by auto
  qed
qed

section \<open>Transactions\<close>

text \<open>The last system call to leave commits: afterwards the disk is what the cache showed.\<close>

definition idle_log :: "'z klog_scheme \<Rightarrow> bool" where
  "idle_log s \<longleftrightarrow> log_mem_ok {} s \<and> log_blocks s = [] \<and> lg_outstanding (log s) = 0 \<and>
     \<not> lg_committing (log s) \<and> hdr_n (disk s (log_slot (log s) 0)) = 0"

definition set_log :: "(logstate \<Rightarrow> logstate) \<Rightarrow> 'z klog_scheme \<Rightarrow> 'z klog_scheme" where
  "set_log f s = s\<lparr>log := f (log s)\<rparr>"

lemma set_log_simps [simp]:
  "bufs (set_log f s) = bufs s" "disk (set_log f s) = disk s" "disk_writes (set_log f s) = disk_writes s"
  "log (set_log f s) = f (log s)" "klog.more (set_log f s) = klog.more s"
  "myproc (set_log f s) = myproc s" "cur_ok (set_log f s) = cur_ok s"
  "mem (set_log f s) = mem s" "bcache_ok H P (set_log f s) = bcache_ok H P s" "bview (set_log f s) = bview s"
  by (simp_all add: set_log_def myproc_def cur_ok_def) (rule bcache_cong; simp add: myproc_def)+

lemma bcache_wakeup [simp]:
  "cur_ok s \<Longrightarrow> bcache_ok H P (wakeup ch s) = bcache_ok H P s" "bview (wakeup ch s) = bview s"
  using bcache_cong [of "wakeup ch s" s] by simp (rule ext, simp only: bview_def kbio_wakeup)

lemma log_wakeup [simp]: "log (wakeup ch s) = log s"
  by (simp add: wakeup_def)

lemma log_mem_ok_counts [simp]:
  "log_mem_ok H (set_log (lg_outstanding_update f) s) = log_mem_ok H s"
  "log_mem_ok H (set_log (lg_committing_update g) s) = log_mem_ok H s"
  by (simp_all add: log_mem_ok_def log_geom_def log_blocks_def in_log_def log_slot_def)

lemma commit_empties:
  assumes ok: "log_mem_ok {} s" and h0: "hdr_n (disk s (log_slot (log s) 0)) = 0"
  shows "\<exists>s'. commit s = Inr s' \<and> log_mem_ok {} s' \<and> log_blocks s' = [] \<and>
    log s' = (log s)\<lparr>lg_lh := clear_head (lg_lh (log s))\<rparr> \<and> hdr_n (disk s' (log_slot (log s) 0)) = 0 \<and>
    (\<forall>m. \<not> in_log (log s) m \<longrightarrow> disk s' m = bview s m \<and> bview s' m = bview s m)"
proof (cases "0 < lh_n (lg_lh (log s))")
  case True
  then obtain s' where s': "commit s = Inr s'" "disk s' = apply_writes (commit_writes s) (disk s)"
      "bcache_ok {} {} s'" "kframe (upd_lh clear_head s) s'" "cur_ok s'"
    using commit_ok [OF ok] by blast
  have l: "log s' = (log s)\<lparr>lg_lh := clear_head (lg_lh (log s))\<rparr>" using kframe_log [OF s'(4)] by simp
  have v: "bview s' m = disk s' m" for m using bview_clean [OF s'(3)] by simp
  have "log_mem_ok {} s'" "log_blocks s' = []"
    using ok s'(3,5) l by (auto simp: log_mem_ok_def log_geom_def clear_head_def log_blocks_def)
  then show ?thesis using s' l v commit_writes_final [OF ok] by auto
next
  case False
  then have e: "lh_n (lg_lh (log s)) = 0" using ok by (simp add: log_mem_ok_def)
  then have "log_blocks s = []" by (simp add: log_blocks_def)
  moreover have "bcache_ok {} {} s" using ok calculation by (simp add: log_mem_ok_def)
  then have "bview s m = disk s m" for m by (rule bview_clean0) simp
  moreover have "log s = (log s)\<lparr>lg_lh := clear_head (lg_lh (log s))\<rparr>"
    using e by (simp add: clear_head_def)
  ultimately show ?thesis using e ok h0 by (auto simp: commit_def)
qed

lemma end_op_commits:
  assumes ok: "log_mem_ok {} s" and h0: "hdr_n (disk s (log_slot (log s) 0)) = 0"
    and last: "lg_outstanding (log s) = 1" "\<not> lg_committing (log s)"
  shows "\<exists>s'. end_op s = Inr s' \<and> idle_log s' \<and>
    (\<forall>m. \<not> in_log (log s) m \<longrightarrow> disk s' m = bview s m \<and> bview s' m = bview s m)"
proof -
  define s1 where "s1 = set_log (\<lambda>lg. lg\<lparr>lg_outstanding := 0, lg_committing := True\<rparr>) s"
  have s1': "s1 = set_log (lg_committing_update (\<lambda>_. True)) (set_log (lg_outstanding_update (\<lambda>_. 0)) s)"
    by (simp add: s1_def set_log_def)
  have "log_mem_ok {} s1" unfolding s1' using ok by simp
  moreover have "hdr_n (disk s1 (log_slot (log s1) 0)) = 0" using h0 by (simp add: s1_def)
  ultimately obtain s2 where s2: "commit s1 = Inr s2" "log_mem_ok {} s2" "log_blocks s2 = []"
      "log s2 = (log s1)\<lparr>lg_lh := clear_head (lg_lh (log s1))\<rparr>" "hdr_n (disk s2 (log_slot (log s1) 0)) = 0"
      "\<forall>m. \<not> in_log (log s1) m \<longrightarrow> disk s2 m = bview s1 m \<and> bview s2 m = bview s1 m"
    using commit_empties by blast
  let ?s3 = "wakeup Chan_log (set_log (lg_committing_update (\<lambda>_. False)) s2)"
  have "end_op s = Inr ?s3"
    using s2(1) last by (simp add: end_op_def Let_def s1_def set_log_def)
  moreover have "log_mem_ok {} ?s3"
    using s2(2) by (auto simp: log_mem_ok_def log_blocks_def log_geom_def)
  then have "idle_log ?s3"
    using s2 by (simp add: idle_log_def log_blocks_def s1_def)
  ultimately show ?thesis using s2(6) by (simp add: s1_def)
qed

section \<open>A logged update\<close>

text \<open>The booted machine with an empty log of thirty blocks from block 2 on.\<close>

definition boot_log :: logstate where
  "boot_log = \<lparr>lg_start = 2, lg_size = 30, lg_outstanding = 0, lg_committing = False, lg_dev = ROOTDEV,
     lg_lh = \<lparr>lh_n = 0, lh_block = replicate LOGSIZE 0\<rparr>\<rparr>"

definition boot_klog :: klog where
  "boot_klog = binit (kbio.extend boot_kbio \<lparr>log = boot_log\<rparr>)"

lemma boots_klog: "boots (kbio.extend boot_kbio x)"
  by (simp add: boots_def kbio.extend_def kbio.truncate_def)

lemma fold_binit_more: "kbio.more (fold binit_one xs s) = kbio.more s"
  by (induction xs arbitrary: s) (simp_all add: binit_one_def Let_def upd_buf_def)

lemma binit_more: "kbio.more (binit s) = kbio.more s"
  by (simp add: binit_def Let_def fold_binit_more del: upt_Suc)

lemma boot_klog_simps [simp]:
  "log boot_klog = boot_log" "bcache_ok {} {} boot_klog" "cur_ok boot_klog" "disk boot_klog = disk boot_kbio"
proof -
  let ?s = "kbio.extend boot_kbio \<lparr>log = boot_log\<rparr>"
  show "log boot_klog = boot_log"
    using kbio_more_klog [OF binit_more [of ?s]] by (simp add: boot_klog_def kbio.extend_def)
  show "bcache_ok {} {} boot_klog" "cur_ok boot_klog"
    unfolding boot_klog_def by (rule bcache_ok_boot [OF boots_klog], rule myproc_boot(2) [OF boots_klog])
  show "disk boot_klog = disk boot_kbio"
    using binit_frame(1) [of ?s] boots_fields(1,4) [OF boots_klog, of "\<lparr>log = boot_log\<rparr>"]
    by (simp add: boot_klog_def)
qed

lemma hdr_n_zero: "hdr_n (\<lambda>_. 0) = 0"
  by (simp add: hdr_n_def get32_def load_bytes_def upt_rec)

lemma idle_boot: "idle_log boot_klog"
  by (simp add: idle_log_def log_mem_ok_def log_geom_def log_blocks_def boot_log_def boot_kbio_def log_slot_def
      hdr_n_zero)

text \<open>One block changed through the log, as a system call does it.\<close>

definition log_block :: "uint \<Rightarrow> block \<Rightarrow> 'z klog_scheme \<Rightarrow> 'z klog_scheme res" where
  "log_block n d s =
     rbind (bread ROOTDEV n s) (\<lambda>(b, s).
     rbind (log_write b (bmod b (\<lambda>_. d) s)) (\<lambda>s. brelse b s))"

lemma log_mem_ok_bframe:
  assumes "log_mem_ok H s" "bframe s s'" "bcache_ok H' (set (log_blocks s)) s'"
  shows "log_mem_ok H' s'" "log_blocks s' = log_blocks s"
  using assms bframe_log [OF assms(2)] bframe_kframe [OF assms(2)] kframe_cur
  by (auto simp: log_mem_ok_def log_blocks_def)

lemma log_block_ok:
  assumes ok: "log_mem_ok {} s" and b: "\<not> in_log (log s) n" "lh_n (lg_lh (log s)) + 1 < lg_size (log s)"
    "1 \<le> lg_outstanding (log s)" and room: "n \<in> set (log_blocks s) \<or> length (log_blocks s) < NBUF"
  shows "\<exists>s'. log_block n d s = Inr s' \<and> log_mem_ok {} s' \<and> bview s' = (bview s)(n := d) \<and> lframe s s' \<and>
    log_blocks s' = (if n \<in> set (log_blocks s) then log_blocks s else log_blocks s @ [n])"
proof -
  let ?P = "set (log_blocks s)"
  have c: "bcache_ok {} ?P s" "cur_ok s" using ok by (simp_all add: log_mem_ok_def)
  have "card ?P < NBUF \<or> n \<in> ?P" using room card_length [of "log_blocks s"] by linarith
  then obtain i s1 where s1: "bread ROOTDEV n s = Inr (i, s1)" "bcache_ok {i} ?P s1"
      "bview s1 = bview s" "bframe s s1" "holds s1 i n (bview s n)"
    using bread_rule [OF c(1), of n thesis] by auto
  let ?s2 = "bmod i (\<lambda>_. d) s1"
  have s2: "bcache_ok {i} ?P ?s2" "bview ?s2 = (bview s)(n := d)" "bframe s1 ?s2" "holds ?s2 i n d"
    using bmod_rule [OF s1(2) _ s1(5), where g = "\<lambda>_. d"] s1(3) by auto
  have f2: "bframe s ?s2" using s1(4) s2(3) by (rule bframe_trans)
  have ok2: "log_mem_ok {i} ?s2" "log_blocks ?s2 = log_blocks s" "log ?s2 = log s"
    using log_mem_ok_bframe [OF ok f2 s2(1)] bframe_log [OF f2] by simp_all
  obtain s3 where s3: "log_write i ?s2 = Inr s3" "log_mem_ok {i} s3" "bview s3 = bview ?s2" "lframe ?s2 s3"
      "log_blocks s3 = (if n \<in> ?P then log_blocks s else log_blocks s @ [n])" "holds s3 i n d"
    using log_write_ok [OF ok2(1) _ s2(4)] ok2 b s2(4) by auto
  have c3: "bcache_ok {i} (set (log_blocks s3)) s3" "cur_ok s3" "n \<in> set (log_blocks s3)"
    using s3(2,5) by (auto simp: log_mem_ok_def)
  obtain s4 where s4: "brelse i s3 = Inr s4" "bcache_ok ({i} - {i}) (set (log_blocks s3)) s4" "bview s4 = bview s3"
      "bframe s3 s4"
    by (rule brelse_rule [OF c3(1) singletonI c3(2) s3(6) disjI1 [OF c3(3)]])
  have "log_mem_ok {} s4" "log_blocks s4 = log_blocks s3"
    using log_mem_ok_bframe [OF s3(2) s4(4,2)] by simp_all
  moreover have "lframe s s4"
    using lframe_trans [OF lframe_trans [OF lframe_bframe [OF f2] s3(4)] lframe_bframe [OF s4(4)]] .
  ultimately show ?thesis using s1(1) s2(2) s3 s4 by (simp add: log_block_def)
qed

definition logged_klog :: klog where
  "logged_klog = (case rbind (begin_op boot_klog) (log_block 40 (\<lambda>_. 7)) of Inr s \<Rightarrow> s)"

lemma logged_klog_ok:
  "log_mem_ok {} logged_klog" "log_blocks logged_klog = [40]" "hdr_n (disk logged_klog (log_slot (log logged_klog) 0)) = 0"
  "lg_outstanding (log logged_klog) = 1" "\<not> lg_committing (log logged_klog)"
  "lg_start (log logged_klog) = 2" "lg_size (log logged_klog) = 30" "bview logged_klog 40 = (\<lambda>_. 7)"
  "disk logged_klog = disk boot_kbio"
proof -
  let ?s = "set_log (lg_outstanding_update (\<lambda>_. 1)) boot_klog"
  have b: "begin_op boot_klog = Inr ?s" by (simp add: begin_op_def boot_log_def set_log_def)
  have ok: "log_mem_ok {} ?s" using idle_boot by (simp add: idle_log_def)
  have nl: "\<not> in_log (log ?s) 40"
    by (auto simp: in_log_def log_slot_def boot_log_def word_unat_eq_iff unat_word_ariths unat_of_nat)
  have e: "log_blocks ?s = []" by (simp add: log_blocks_def boot_log_def)
  obtain s where s: "log_block 40 (\<lambda>_. 7) ?s = Inr s" "log_mem_ok {} s" "bview s = (bview ?s)(40 := (\<lambda>_. 7))"
      "lframe ?s s" "log_blocks s = [40]"
    using log_block_ok [OF ok nl, of "\<lambda>_. 7"] e by (auto simp: boot_log_def)
  have l: "logged_klog = s" using b s(1) by (simp add: logged_klog_def)
  show "log_mem_ok {} logged_klog" "log_blocks logged_klog = [40]" "bview logged_klog 40 = (\<lambda>_. 7)"
    using s by (simp_all add: l)
  have f: "lg_start (log s) = 2" "lg_size (log s) = 30" "lg_outstanding (log s) = 1" "\<not> lg_committing (log s)"
      "disk s = disk boot_kbio"
    using lframe_log [OF s(4)] s(4) by (auto simp: boot_log_def lframe_def)
  then show "lg_start (log logged_klog) = 2" "lg_size (log logged_klog) = 30" "lg_outstanding (log logged_klog) = 1"
    "\<not> lg_committing (log logged_klog)" "disk logged_klog = disk boot_kbio" by (simp_all add: l)
  then show "hdr_n (disk logged_klog (log_slot (log logged_klog) 0)) = 0"
    using f by (simp add: l log_slot_def boot_kbio_def hdr_n_zero)
qed

lemma logged_home: "\<not> in_log (log logged_klog) 40"
  by (auto simp: in_log_def log_slot_def logged_klog_ok word_unat_eq_iff unat_word_ariths unat_of_nat)

section \<open>What the log promises\<close>

text \<open>C7: Crash safety. If the machine stops after any prefix of the disk writes of \<^verbatim>\<open>commit\<close> and boots
  again with an empty cache, \<^verbatim>\<open>recover_from_log\<close> succeeds, and every block outside the log is as it
  was before the transaction, when the header had not been written, or as the transaction left
  it. No other outcome is possible, and the log is empty afterwards.\<close>

theorem commit_atomic:
  assumes "log_mem_ok {} s" "hdr_n (disk s (log_slot (log s) 0)) = 0"
    and "commit s = Inr s'" "disk_writes s' = disk_writes s @ ws" "k \<le> length ws"
    and "bcache_ok {} {} t" "cur_ok t" "disk t = apply_writes (take k ws) (disk s)"
      "log_geom (log t)" "lg_start (log t) = lg_start (log s)" "lg_size (log t) = lg_size (log s)"
  shows "\<exists>t'. recover_from_log t = Inr t' \<and> hdr_n (disk t' (log_slot (log s) 0)) = 0 \<and>
    (\<forall>m. \<not> in_log (log s) m \<longrightarrow>
      disk t' m = (if k \<le> nat (lh_n (lg_lh (log s))) then disk s m else bview s m))"
  using assms by (rule commit_crash_recover)

text \<open>The machine after a crash during the commit of \<open>logged_klog\<close>, with \<open>k\<close> writes done.\<close>

definition crashed_klog :: "nat \<Rightarrow> klog" where
  "crashed_klog k = binit ((kbio.extend boot_kbio \<lparr>log = boot_log\<rparr>)
     \<lparr>disk := apply_writes (take k (commit_writes logged_klog)) (disk logged_klog)\<rparr>)"

lemma crashed_klog_ok:
  "bcache_ok {} {} (crashed_klog k)" "cur_ok (crashed_klog k)" "log (crashed_klog k) = boot_log"
  "disk (crashed_klog k) = apply_writes (take k (commit_writes logged_klog)) (disk logged_klog)"
proof -
  let ?s = "kbio.extend boot_kbio \<lparr>log = boot_log\<rparr>"
  let ?t = "?s\<lparr>disk := apply_writes (take k (commit_writes logged_klog)) (disk logged_klog)\<rparr>"
  have b: "bufs ?t = replicate NBUF blank_buf" "procs ?t = replicate NPROC blank_proc" "cpu_proc ?t = Some 0"
    using boots_fields [OF boots_klog, of "\<lparr>log = boot_log\<rparr>"] by simp_all
  then show "bcache_ok {} {} (crashed_klog k)"
    using binit_ok [of ?t] by (simp add: crashed_klog_def blank_buf_def)
  show "cur_ok (crashed_klog k)"
    "disk (crashed_klog k) = apply_writes (take k (commit_writes logged_klog)) (disk logged_klog)"
    using binit_frame [of ?t] b by (simp_all add: crashed_klog_def cur_ok_def)
  show "log (crashed_klog k) = boot_log"
    using kbio_more_klog [OF binit_more [of ?t]] by (simp add: crashed_klog_def kbio.extend_def)
qed

lemma crashed_klog_recovers:
  shows "\<exists>s'. commit logged_klog = Inr s' \<and> disk_writes s' = disk_writes logged_klog @ commit_writes logged_klog"
    "lh_n (lg_lh (log logged_klog)) = 1" "length (commit_writes logged_klog) = 4"
proof -
  have n: "0 \<le> lh_n (lg_lh (log logged_klog))" "lh_n (lg_lh (log logged_klog)) \<le> int LOGSIZE"
      "log_geom (log logged_klog)"
    using logged_klog_ok(1,7) by (auto simp: log_mem_ok_def log_geom_def)
  from length_log_blocks [OF n(3,2)] n(1) show l: "lh_n (lg_lh (log logged_klog)) = 1"
    by (simp add: logged_klog_ok(2))
  with commit_ok [OF logged_klog_ok(1)] show "\<exists>s'. commit logged_klog = Inr s' \<and>
      disk_writes s' = disk_writes logged_klog @ commit_writes logged_klog" by auto
  show "length (commit_writes logged_klog) = 4" by (simp add: commit_writes_def Let_def log_ws_def l)
qed

theorem commit_atomic_witness:
  "(\<exists>t'. recover_from_log (crashed_klog 1) = Inr t' \<and> disk t' 40 = (\<lambda>_. 40)) \<and>
   (\<exists>t'. recover_from_log (crashed_klog 2) = Inr t' \<and> disk t' 40 = (\<lambda>_. 7))"
proof -
  obtain s' where s': "commit logged_klog = Inr s'" "disk_writes s' = disk_writes logged_klog @ commit_writes logged_klog"
    using crashed_klog_recovers(1) by blast
  from logged_home commit_atomic [OF logged_klog_ok(1,3) s' _ crashed_klog_ok(1,2,4), of 1]
    commit_atomic [OF logged_klog_ok(1,3) s' _ crashed_klog_ok(1,2,4), of 2]
  show ?thesis
    by (auto simp: crashed_klog_recovers crashed_klog_ok logged_klog_ok boot_log_def log_geom_def boot_kbio_def)
qed

text \<open>C8: When the last system call leaves, \<^verbatim>\<open>end_op\<close> commits: every block outside the log is on the disk as
  the cache showed it, the cache still shows the same, and the log is empty and idle.\<close>

theorem end_op_durable:
  assumes "log_mem_ok {} s" "hdr_n (disk s (log_slot (log s) 0)) = 0"
    "lg_outstanding (log s) = 1" "\<not> lg_committing (log s)"
  shows "\<exists>s'. end_op s = Inr s' \<and> idle_log s' \<and>
    (\<forall>m. \<not> in_log (log s) m \<longrightarrow> disk s' m = bview s m \<and> bview s' m = bview s m)"
  using assms by (rule end_op_commits)

theorem end_op_durable_witness:
  "\<exists>s'. end_op logged_klog = Inr s' \<and> idle_log s' \<and> disk s' 40 = (\<lambda>_. 7)"
proof -
  from logged_home end_op_durable [OF logged_klog_ok(1,3,4,5)] show ?thesis by (auto simp: logged_klog_ok)
qed

text \<open>\<^verbatim>\<open>log_write\<close> records a block once: a second write of a block in one transaction is absorbed, and
  the number of logged blocks is the number of distinct blocks written.\<close>

lemma log_absorbs:
  assumes "log_mem_ok H s" "i \<in> H" "holds s i b d" "\<not> in_log (log s) b"
    "lh_n (lg_lh (log s)) + 1 < lg_size (log s)" "1 \<le> lg_outstanding (log s)"
  shows "\<exists>s'. log_write i s = Inr s' \<and> log_mem_ok H s' \<and> bview s' = bview s \<and> disk s' = disk s \<and>
    set (log_blocks s') = insert b (set (log_blocks s)) \<and>
    lh_n (lg_lh (log s')) = int (card (insert b (set (log_blocks s))))"
proof -
  obtain s' where s': "log_write i s = Inr s'" "log_mem_ok H s'" "bview s' = bview s" "lframe s s'"
      "log_blocks s' = (if b \<in> set (log_blocks s) then log_blocks s else log_blocks s @ [b])"
    using log_write_ok [OF assms] by blast
  have "length (log_blocks s') = nat (lh_n (lg_lh (log s')))" "0 \<le> lh_n (lg_lh (log s'))" "distinct (log_blocks s')"
    using s'(2) by (auto simp: log_mem_ok_def log_geom_def intro!: length_log_blocks)
  moreover have "set (log_blocks s') = insert b (set (log_blocks s))" using s'(5) by auto
  ultimately show ?thesis using s' distinct_card [of "log_blocks s'"] by (auto simp: lframe_def)
qed

lemma log_absorbs_example:
  "\<exists>i s s'. bread ROOTDEV 40 logged_klog = Inr (i, s) \<and> log_write i s = Inr s' \<and> lh_n (lg_lh (log s')) = 1"
proof -
  have c: "bcache_ok {} {40} logged_klog"
    using logged_klog_ok(1,2) by (simp add: log_mem_ok_def)
  obtain i s where s: "bread ROOTDEV 40 logged_klog = Inr (i, s)" "bcache_ok {i} {40} s" "bframe logged_klog s"
      "holds s i 40 (bview logged_klog 40)"
    using bread_rule [OF c, of 40 thesis] by auto
  have ok: "log_mem_ok {i} s" "log_blocks s = [40]"
    using log_mem_ok_bframe [OF logged_klog_ok(1) s(3), of "{i}"] s(2) logged_klog_ok(2) by simp_all
  have l: "log s = log logged_klog" using s(3) by (rule bframe_log)
  have "\<not> in_log (log s) 40" using logged_home by (simp add: l)
  then obtain s' where "log_write i s = Inr s'" "lh_n (lg_lh (log s')) = int (card (insert 40 (set (log_blocks s))))"
    using log_absorbs [OF ok(1) _ s(4)] crashed_klog_recovers(2) logged_klog_ok(4,7) by (auto simp: l)
  with s(1) ok(2) show ?thesis by auto
qed

text \<open>\<^verbatim>\<open>begin_op\<close> lets a system call in only if the log can take the most that it and every call
  already inside may still write; otherwise the caller sleeps and nothing changes.\<close>

lemma begin_op_reserves:
  "(case begin_op s of
      Inr s' \<Rightarrow> \<not> lg_committing (log s) \<and> s' = s\<lparr>log := (log s)\<lparr>lg_outstanding := lg_outstanding (log s) + 1\<rparr>\<rparr> \<and>
        lh_n (lg_lh (log s')) + lg_outstanding (log s') * int MAXOPBLOCKS \<le> int LOGSIZE
    | Inl e \<Rightarrow> e = Sleeps Chan_log \<and> (lg_committing (log s) \<or>
        int LOGSIZE < lh_n (lg_lh (log s)) + (lg_outstanding (log s) + 1) * int MAXOPBLOCKS))"
  by (simp add: begin_op_def)

text \<open>The log header survives its trip to the disk block and back: count and block numbers read from
  the block are those written, whatever the block held before.\<close>

lemma log_header_roundtrip:
  assumes "0 \<le> lh_n lh" "lh_n lh < 2 ^ 31"
  shows "hdr_n (put_head lh d) = lh_n lh \<and> (\<forall>i<nat (lh_n lh). hdr_block (put_head lh d) i = lh_block lh ! i)"
  using put_head_roundtrip [OF assms] by blast

lemma log_header_roundtrip_example:
  "hdr_n (put_head \<lparr>lh_n = 2, lh_block = [40, 77]\<rparr> (\<lambda>_. 9)) = 2 \<and>
   hdr_block (put_head \<lparr>lh_n = 2, lh_block = [40, 77]\<rparr> (\<lambda>_. 9)) 1 = 77"
  using log_header_roundtrip [of "\<lparr>lh_n = 2, lh_block = [40, 77]\<rparr>" "\<lambda>_. 9"] by auto

end
