(* ===== verification/Vm.thy ===== *)
theory Vm
  imports Ptable
begin

text \<open>
  Virtual memory (\<^verbatim>\<open>kernel/vm.c\<close>): Sv39 page tables stored in physical memory, each a page of
  512 eight-byte entries. A page table is the physical address of its root page. The linker
  symbols \<^verbatim>\<open>etext\<close> and \<^verbatim>\<open>trampoline\<close> are parameters. A copy to kernel space delivers the bytes
  to the caller, so \<^verbatim>\<open>copyin\<close> returns the bytes copied before it stopped.
\<close>

section \<open>Operations\<close>

definition pte_at :: "'z kmem_scheme \<Rightarrow> uint64 \<Rightarrow> uint64" where
  "pte_at s p = get64 (mem s) p"

definition set_pte :: "uint64 \<Rightarrow> uint64 \<Rightarrow> 'z kmem_scheme \<Rightarrow> 'z kmem_scheme" where
  "set_pte p v s = s\<lparr>mem := set64 (mem s) p v\<rparr>"

definition pte_addr :: "uint64 \<Rightarrow> nat \<Rightarrow> uint64 \<Rightarrow> uint64" where
  "pte_addr pt level va = pt + 8 * PX level va"

definition zero_page :: "uint64 \<Rightarrow> 'z kmem_scheme \<Rightarrow> 'z kmem_scheme" where
  "zero_page p s = s\<lparr>mem := memset (mem s) p 0 (unat PGSIZE)\<rparr>"

fun walk_from :: "nat \<Rightarrow> uint64 \<Rightarrow> uint64 \<Rightarrow> bool \<Rightarrow> 'z kmem_scheme \<Rightarrow> uint64 \<times> 'z kmem_scheme" where
  "walk_from 0 pt va alloc s = (pte_addr pt 0 va, s)"
| "walk_from (Suc l) pt va alloc s =
     (let pte = pte_addr pt (Suc l) va in
      if pte_at s pte AND PTE_V \<noteq> 0 then walk_from l (PTE2PA (pte_at s pte)) va alloc s
      else if \<not> alloc then (0, s)
      else case kalloc s of (p, s) \<Rightarrow>
        if p = 0 then (0, s)
        else
          let s = zero_page p s;
              s = set_pte pte (PA2PTE p OR PTE_V) s
          in walk_from l p va alloc s)"

definition walk :: "uint64 \<Rightarrow> uint64 \<Rightarrow> bool \<Rightarrow> 'z kmem_scheme \<Rightarrow> (uint64 \<times> 'z kmem_scheme) res" where
  "walk pt va alloc s =
     (if va \<ge> MAXVA then Inl (Panic ''walk'') else Inr (walk_from 2 pt va alloc s))"

definition walkaddr :: "uint64 \<Rightarrow> uint64 \<Rightarrow> 'z kmem_scheme \<Rightarrow> uint64 res" where
  "walkaddr pt va s =
     (if va \<ge> MAXVA then Inr 0
      else rbind (walk pt va False s) (\<lambda>(pte, s).
        if pte = 0 then Inr 0
        else if pte_at s pte AND PTE_V = 0 then Inr 0
        else if pte_at s pte AND PTE_U = 0 then Inr 0
        else Inr (PTE2PA (pte_at s pte))))"

lemma walk_MAXVA: "walk pt va alloc s = Inr r \<Longrightarrow> va < MAXVA"
  by (auto simp: walk_def split: if_splits)

lemma unat_less_MAXVA: "a < MAXVA \<Longrightarrow> unat a < 2 ^ 38"
  by (simp add: word_less_nat_alt)

text \<open>The loop of \<^verbatim>\<open>mappages\<close> goes on until it has mapped \<open>a_last\<close>, or \<^verbatim>\<open>walk\<close> panics.\<close>

function mappages_from :: "uint64 \<Rightarrow> uint64 \<Rightarrow> uint64 \<Rightarrow> uint64 \<Rightarrow> uint64 \<Rightarrow> 'z kmem_scheme \<Rightarrow>
    (int \<times> 'z kmem_scheme) res" where
  "mappages_from pt a a_last pa perm s =
     rbind (walk pt a True s) (\<lambda>(pte, s).
       if pte = 0 then Inr (- 1, s)
       else if pte_at s pte AND PTE_V \<noteq> 0 then Inl (Panic ''mappages: remap'')
       else
         let s = set_pte pte (PA2PTE pa OR perm OR PTE_V) s in
         if a = a_last then Inr (0, s)
         else mappages_from pt (a + PGSIZE) a_last (pa + PGSIZE) perm s)"
  by pat_completeness auto
termination
proof (relation "measure (\<lambda>(pt, a, a_last, pa, perm, s). 2 ^ 64 - unat a)", goal_cases)
  case 1
  then show ?case by simp
next
  case (2 pt a a_last pa perm s x pte s')
  then have "unat a < 2 ^ 38" using walk_MAXVA unat_less_MAXVA by blast
  moreover from this have "unat (a + 4096) = unat a + 4096" using unat_add_lem [of a 4096] by simp
  ultimately show ?case by simp
qed

declare mappages_from.simps [simp del]

definition mappages :: "uint64 \<Rightarrow> uint64 \<Rightarrow> uint64 \<Rightarrow> uint64 \<Rightarrow> uint64 \<Rightarrow> 'z kmem_scheme \<Rightarrow>
    (int \<times> 'z kmem_scheme) res" where
  "mappages pt va sz pa perm s =
     (if sz = 0 then Inl (Panic ''mappages: size'')
      else mappages_from pt (PGROUNDDOWN va) (PGROUNDDOWN (va + sz - 1)) pa perm s)"

lemma mappages_MAXVA: "mappages pt va sz pa perm s = Inr r \<Longrightarrow> PGROUNDDOWN va < MAXVA"
  by (auto simp: mappages_def mappages_from.simps [of pt "PGROUNDDOWN va"] rbind_eq_Inr
      dest: walk_MAXVA split: if_splits)

definition kvmmap :: "uint64 \<Rightarrow> uint64 \<Rightarrow> uint64 \<Rightarrow> uint64 \<Rightarrow> uint64 \<Rightarrow> 'z kmem_scheme \<Rightarrow>
    'z kmem_scheme res" where
  "kvmmap kpgtbl va pa sz perm s =
     rbind (mappages kpgtbl va sz pa perm s) (\<lambda>(r, s).
       if r \<noteq> 0 then Inl (Panic ''kvmmap'') else Inr s)"

function uvmunmap_from :: "uint64 \<Rightarrow> uint64 \<Rightarrow> uint64 \<Rightarrow> bool \<Rightarrow> 'z kmem_scheme \<Rightarrow> 'z kmem_scheme res" where
  "uvmunmap_from pt a limit do_free s =
     (if a < limit then
        rbind (walk pt a False s) (\<lambda>(pte, s).
          if pte = 0 then Inl (Panic ''uvmunmap: walk'')
          else if pte_at s pte AND PTE_V = 0 then Inl (Panic ''uvmunmap: not mapped'')
          else if PTE_FLAGS (pte_at s pte) = PTE_V then Inl (Panic ''uvmunmap: not a leaf'')
          else
            rbind (if do_free then kfree (PTE2PA (pte_at s pte)) s else Inr s) (\<lambda>s.
              uvmunmap_from pt (a + PGSIZE) limit do_free (set_pte pte 0 s)))
      else Inr s)"
  by pat_completeness auto
termination
proof (relation "measure (\<lambda>(pt, a, limit, do_free, s). 2 ^ 64 - unat a)", goal_cases)
  case 1
  then show ?case by simp
next
  case (2 pt a limit do_free s x pte s' s'')
  then have "unat a < 2 ^ 38" using walk_MAXVA unat_less_MAXVA by blast
  moreover from this have "unat (a + 4096) = unat a + 4096" using unat_add_lem [of a 4096] by simp
  ultimately show ?case by simp
qed

declare uvmunmap_from.simps [simp del]

definition uvmunmap :: "uint64 \<Rightarrow> uint64 \<Rightarrow> uint64 \<Rightarrow> bool \<Rightarrow> 'z kmem_scheme \<Rightarrow> 'z kmem_scheme res" where
  "uvmunmap pt va npages do_free s =
     (if va mod PGSIZE \<noteq> 0 then Inl (Panic ''uvmunmap: not aligned'')
      else uvmunmap_from pt va (va + npages * PGSIZE) do_free s)"

definition uvmcreate :: "'z kmem_scheme \<Rightarrow> uint64 \<times> 'z kmem_scheme" where
  "uvmcreate s =
     (case kalloc s of (pt, s) \<Rightarrow> if pt = 0 then (0, s) else (pt, zero_page pt s))"

definition uvmfirst :: "uint64 \<Rightarrow> uchar list \<Rightarrow> 'z kmem_scheme \<Rightarrow> 'z kmem_scheme res" where
  "uvmfirst pt src s =
     (if length src \<ge> unat PGSIZE then Inl (Panic ''uvmfirst: more than a page'')
      else case kalloc s of (m, s) \<Rightarrow>
        let s = zero_page m s in
        rbind (mappages pt 0 PGSIZE m (PTE_W OR PTE_R OR PTE_X OR PTE_U) s) (\<lambda>(_, s).
          Inr (s\<lparr>mem := store_bytes (mem s) m src\<rparr>)))"

text \<open>The page count passes through a C \<^verbatim>\<open>int\<close>.\<close>

definition uvmdealloc :: "uint64 \<Rightarrow> uint64 \<Rightarrow> uint64 \<Rightarrow> 'z kmem_scheme \<Rightarrow> (uint64 \<times> 'z kmem_scheme) res" where
  "uvmdealloc pt oldsz newsz s =
     (if newsz \<ge> oldsz then Inr (oldsz, s)
      else if PGROUNDUP newsz < PGROUNDUP oldsz then
        let npages = ucast ((PGROUNDUP oldsz - PGROUNDUP newsz) div PGSIZE) :: uint in
        rbind (uvmunmap pt (PGROUNDUP newsz) (scast npages) True s) (\<lambda>s. Inr (newsz, s))
      else Inr (newsz, s))"

text \<open>
  Both loops below end because \<^verbatim>\<open>mappages\<close> or \<^verbatim>\<open>walk\<close> stops them at \<^verbatim>\<open>MAXVA\<close>.
\<close>

lemma page_step_less:
  assumes "PGROUNDDOWN a < MAXVA"
  shows "unat a < unat (a + 4096)"
proof -
  have "unat (PGROUNDDOWN a) < 2 ^ 38" using assms by (rule unat_less_MAXVA)
  then have "unat a div 4096 * 4096 < 2 ^ 38" by (simp add: unat_PGROUNDDOWN)
  moreover have "unat a = unat a div 4096 * 4096 + unat a mod 4096" by simp
  moreover have "unat a mod 4096 < 4096" by simp
  ultimately have "unat a < 2 ^ 38 + 4096" by linarith
  then show ?thesis using unat_add_lem [of a 4096] by simp
qed

function uvmalloc_from :: "uint64 \<Rightarrow> uint64 \<Rightarrow> uint64 \<Rightarrow> uint64 \<Rightarrow> uint64 \<Rightarrow> 'z kmem_scheme \<Rightarrow>
    (uint64 \<times> 'z kmem_scheme) res" where
  "uvmalloc_from pt a oldsz newsz xperm s =
     (if a < newsz then
        (case kalloc s of (m, s1) \<Rightarrow>
          if m = 0 then rbind (uvmdealloc pt a oldsz s1) (\<lambda>(_, s). Inr (0, s))
          else
            rbind (mappages pt a PGSIZE m (PTE_R OR PTE_U OR xperm) (zero_page m s1)) (\<lambda>(r, s).
              if r \<noteq> 0 then
                rbind (kfree m s) (\<lambda>s. rbind (uvmdealloc pt a oldsz s) (\<lambda>(_, s). Inr (0, s)))
              else uvmalloc_from pt (a + PGSIZE) oldsz newsz xperm s))
      else Inr (newsz, s))"
  by pat_completeness auto
termination
proof (relation "measure (\<lambda>(pt, a, oldsz, newsz, xperm, s). 2 ^ 64 - unat a)", goal_cases)
  case 1
  then show ?case by simp
next
  case (2 pt a oldsz newsz xperm s)
  then have "unat a < unat (a + 4096)" by (intro page_step_less mappages_MAXVA)
  moreover have "unat (a + 4096) < 2 ^ 64" by (rule unat_uint64_less)
  ultimately show ?case by simp
qed

declare uvmalloc_from.simps [simp del]

definition uvmalloc :: "uint64 \<Rightarrow> uint64 \<Rightarrow> uint64 \<Rightarrow> uint64 \<Rightarrow> 'z kmem_scheme \<Rightarrow>
    (uint64 \<times> 'z kmem_scheme) res" where
  "uvmalloc pt oldsz newsz xperm s =
     (if newsz < oldsz then Inr (oldsz, s)
      else uvmalloc_from pt (PGROUNDUP oldsz) (PGROUNDUP oldsz) newsz xperm s)"

text \<open>
  \<^verbatim>\<open>freewalk\<close> recurses into the tables its entries point to; a table built by \<^verbatim>\<open>walk\<close> has
  three levels, so a depth of three is all it needs.
\<close>

fun freewalk_at :: "nat \<Rightarrow> uint64 \<Rightarrow> 'z kmem_scheme \<Rightarrow> 'z kmem_scheme res" where
  "freewalk_at 0 pt s = Inl Fuel"
| "freewalk_at (Suc depth) pt s =
     rbind (rfold (\<lambda>i s.
         let p = pt + 8 * of_nat i; pte = pte_at s p in
         if pte AND PTE_V \<noteq> 0 \<and> pte AND (PTE_R OR PTE_W OR PTE_X) = 0 then
           rbind (freewalk_at depth (PTE2PA pte) s) (\<lambda>s. Inr (set_pte p 0 s))
         else if pte AND PTE_V \<noteq> 0 then Inl (Panic ''freewalk: leaf'')
         else Inr s) [0..<512] s)
       (\<lambda>s. kfree pt s)"

definition freewalk :: "uint64 \<Rightarrow> 'z kmem_scheme \<Rightarrow> 'z kmem_scheme res" where
  "freewalk pt s = freewalk_at 3 pt s"

definition uvmfree :: "uint64 \<Rightarrow> uint64 \<Rightarrow> 'z kmem_scheme \<Rightarrow> 'z kmem_scheme res" where
  "uvmfree pt sz s =
     rbind (if sz > 0 then uvmunmap pt 0 (PGROUNDUP sz div PGSIZE) True s else Inr s) (\<lambda>s.
       freewalk pt s)"

function uvmcopy_from :: "uint64 \<Rightarrow> uint64 \<Rightarrow> uint64 \<Rightarrow> uint64 \<Rightarrow> 'z kmem_scheme \<Rightarrow>
    (int \<times> 'z kmem_scheme) res" where
  "uvmcopy_from old new i sz s =
     (if i < sz then
        rbind (walk old i False s) (\<lambda>(pte, s).
          if pte = 0 then Inl (Panic ''uvmcopy: pte should exist'')
          else if pte_at s pte AND PTE_V = 0 then Inl (Panic ''uvmcopy: page not present'')
          else
            let pa = PTE2PA (pte_at s pte); flags = PTE_FLAGS (pte_at s pte) in
            case kalloc s of (m, s1) \<Rightarrow>
              if m = 0 then rbind (uvmunmap new 0 (i div PGSIZE) True s1) (\<lambda>s. Inr (- 1, s))
              else
                rbind (mappages new i PGSIZE m flags
                    (s1\<lparr>mem := memmove (mem s1) m pa (ucast PGSIZE)\<rparr>)) (\<lambda>(r, s).
                  if r \<noteq> 0 then
                    rbind (kfree m s) (\<lambda>s.
                      rbind (uvmunmap new 0 (i div PGSIZE) True s) (\<lambda>s. Inr (- 1, s)))
                  else uvmcopy_from old new (i + PGSIZE) sz s))
      else Inr (0, s))"
  by pat_completeness auto
termination
proof (relation "measure (\<lambda>(old, new, i, sz, s). 2 ^ 64 - unat i)", goal_cases)
  case 1
  then show ?case by simp
next
  case (2 old new i sz s)
  then have "unat i < 2 ^ 38" using walk_MAXVA unat_less_MAXVA by blast
  moreover from this have "unat (i + 4096) = unat i + 4096" using unat_add_lem [of i 4096] by simp
  ultimately show ?case by simp
qed

declare uvmcopy_from.simps [simp del]

definition uvmcopy :: "uint64 \<Rightarrow> uint64 \<Rightarrow> uint64 \<Rightarrow> 'z kmem_scheme \<Rightarrow> (int \<times> 'z kmem_scheme) res" where
  "uvmcopy old new sz s = uvmcopy_from old new 0 sz s"

definition uvmclear :: "uint64 \<Rightarrow> uint64 \<Rightarrow> 'z kmem_scheme \<Rightarrow> 'z kmem_scheme res" where
  "uvmclear pt va s =
     rbind (walk pt va False s) (\<lambda>(pte, s).
       if pte = 0 then Inl (Panic ''uvmclear'')
       else Inr (set_pte pte (pte_at s pte AND NOT PTE_U) s))"

section \<open>Copies between user and kernel memory\<close>

text \<open>The length of the chunk that ends at the page boundary, at most \<open>len\<close>.\<close>

definition page_chunk :: "uint64 \<Rightarrow> nat \<Rightarrow> nat" where
  "page_chunk va len = min (unat (PGSIZE - (va - PGROUNDDOWN va))) len"

lemma page_chunk_pos: "0 < len \<Longrightarrow> 0 < page_chunk va len"
proof -
  assume "0 < len"
  moreover have "va - PGROUNDDOWN va < 4096"
    by (simp add: word_less_nat_alt unat_sub_if' unat_PGROUNDDOWN)
  then have "0 < unat (4096 - (va - PGROUNDDOWN va))"
    by (simp add: unat_gt_0)
  ultimately show ?thesis by (simp add: page_chunk_def)
qed

function copyout :: "uint64 \<Rightarrow> uint64 \<Rightarrow> uchar list \<Rightarrow> 'z kmem_scheme \<Rightarrow> (int \<times> 'z kmem_scheme) res" where
  "copyout pt dstva src s =
     (if length src > 0 then
        let va0 = PGROUNDDOWN dstva in
        rbind (walkaddr pt va0 s) (\<lambda>pa0.
          if pa0 = 0 then Inr (- 1, s)
          else
            let n = page_chunk dstva (length src) in
            copyout pt (va0 + PGSIZE) (drop n src)
              (s\<lparr>mem := store_bytes (mem s) (pa0 + (dstva - va0)) (take n src)\<rparr>))
      else Inr (0, s))"
  by pat_completeness auto
termination
  by (relation "measure (\<lambda>(pt, dstva, src, s). length src)") (auto simp: page_chunk_pos)

declare copyout.simps [simp del]

function copyin :: "uint64 \<Rightarrow> uint64 \<Rightarrow> nat \<Rightarrow> 'z kmem_scheme \<Rightarrow> (int \<times> uchar list) res" where
  "copyin pt srcva len s =
     (if len > 0 then
        let va0 = PGROUNDDOWN srcva in
        rbind (walkaddr pt va0 s) (\<lambda>pa0.
          if pa0 = 0 then Inr (- 1, [])
          else
            let n = page_chunk srcva len in
            rbind (copyin pt (va0 + PGSIZE) (len - n) s) (\<lambda>(r, bs).
              Inr (r, load_bytes (mem s) (pa0 + (srcva - va0)) n @ bs)))
      else Inr (0, []))"
  by pat_completeness auto
termination
  by (relation "measure (\<lambda>(pt, srcva, len, s). len)") (auto simp: page_chunk_pos)

declare copyin.simps [simp del]

text \<open>The inner loop of \<^verbatim>\<open>copyinstr\<close>: the bytes up to a NUL, at most \<open>n\<close>, and whether it saw one.\<close>

fun copystr_page :: "(uint64 \<Rightarrow> uchar) \<Rightarrow> uint64 \<Rightarrow> nat \<Rightarrow> uchar list \<times> bool" where
  "copystr_page m p 0 = ([], False)"
| "copystr_page m p (Suc n) =
     (if m p = 0 then ([0], True)
      else case copystr_page m (p + 1) n of (bs, got_null) \<Rightarrow> (m p # bs, got_null))"

function copyinstr :: "uint64 \<Rightarrow> uint64 \<Rightarrow> nat \<Rightarrow> 'z kmem_scheme \<Rightarrow> (int \<times> uchar list) res" where
  "copyinstr pt srcva limit s =
     (if limit > 0 then
        let va0 = PGROUNDDOWN srcva in
        rbind (walkaddr pt va0 s) (\<lambda>pa0.
          if pa0 = 0 then Inr (- 1, [])
          else
            let n = page_chunk srcva limit in
            case copystr_page (mem s) (pa0 + (srcva - va0)) n of (bs, got_null) \<Rightarrow>
              if got_null then Inr (0, bs)
              else rbind (copyinstr pt (va0 + PGSIZE) (limit - n) s) (\<lambda>(r, bs'). Inr (r, bs @ bs')))
      else Inr (- 1, []))"
  by pat_completeness auto
termination
  by (relation "measure (\<lambda>(pt, srcva, limit, s). limit)") (auto simp: page_chunk_pos)

declare copyinstr.simps [simp del]

text \<open>
  \<^verbatim>\<open>either_copyout\<close> and \<^verbatim>\<open>either_copyin\<close> of \<^verbatim>\<open>kernel/proc.c\<close>. A kernel buffer is the caller's
  own, so only the copy to user space changes memory; the source in the kernel is the list
  \<open>kbuf\<close>.
\<close>

definition either_copyout :: "bool \<Rightarrow> uint64 \<Rightarrow> uchar list \<Rightarrow> 'z kproc_scheme \<Rightarrow> (int \<times> 'z kproc_scheme) res" where
  "either_copyout user_dst dst src s =
     (if user_dst then copyout (p_pagetable (myproc s)) dst src s else Inr (0, s))"

definition either_copyin :: "bool \<Rightarrow> uint64 \<Rightarrow> uchar list \<Rightarrow> nat \<Rightarrow> 'z kproc_scheme \<Rightarrow> (int \<times> uchar list) res" where
  "either_copyin user_src src kbuf len s =
     (if user_src then copyin (p_pagetable (myproc s)) src len s else Inr (0, take len kbuf))"

section \<open>The kernel's page table\<close>

definition proc_mapstacks :: "uint64 \<Rightarrow> 'z kmem_scheme \<Rightarrow> 'z kmem_scheme res" where
  "proc_mapstacks kpgtbl s =
     rfold (\<lambda>i s.
       case kalloc s of (pa, s) \<Rightarrow>
         if pa = 0 then Inl (Panic ''kalloc'')
         else kvmmap kpgtbl (KSTACK i) pa PGSIZE (PTE_R OR PTE_W) s) [0..<NPROC] s"

definition UART0 :: uint64 where [simp]: "UART0 = 0x10000000"
definition VIRTIO0 :: uint64 where [simp]: "VIRTIO0 = 0x10001000"
definition PLIC :: uint64 where [simp]: "PLIC = 0x0c000000"

definition kvmmake :: "uint64 \<Rightarrow> uint64 \<Rightarrow> 'z kmem_scheme \<Rightarrow> (uint64 \<times> 'z kmem_scheme) res" where
  "kvmmake etext trampoline s =
     (case kalloc s of (kpgtbl, s) \<Rightarrow>
        let s = zero_page kpgtbl s in
        rbind (kvmmap kpgtbl UART0 UART0 PGSIZE (PTE_R OR PTE_W) s) (\<lambda>s.
        rbind (kvmmap kpgtbl VIRTIO0 VIRTIO0 PGSIZE (PTE_R OR PTE_W) s) (\<lambda>s.
        rbind (kvmmap kpgtbl PLIC PLIC 0x400000 (PTE_R OR PTE_W) s) (\<lambda>s.
        rbind (kvmmap kpgtbl KERNBASE KERNBASE (etext - KERNBASE) (PTE_R OR PTE_X) s) (\<lambda>s.
        rbind (kvmmap kpgtbl etext etext (PHYSTOP - etext) (PTE_R OR PTE_W) s) (\<lambda>s.
        rbind (kvmmap kpgtbl TRAMPOLINE trampoline PGSIZE (PTE_R OR PTE_X) s) (\<lambda>s.
        rbind (proc_mapstacks kpgtbl s) (\<lambda>s. Inr (kpgtbl, s)))))))))"

definition kvminit :: "uint64 \<Rightarrow> uint64 \<Rightarrow> 'z kproc_scheme \<Rightarrow> 'z kproc_scheme res" where
  "kvminit etext trampoline s =
     rbind (kvmmake etext trampoline s) (\<lambda>(pt, s). Inr (s\<lparr>kernel_pagetable := pt\<rparr>))"

section \<open>Reading through a page table\<close>

text \<open>Without allocation the walk only reads memory.\<close>

lemma walk_from_noalloc: "snd (walk_from l pt va False s) = s"
  by (induction l arbitrary: pt) (auto simp: Let_def)

lemma walk_from_mem:
  "mem s' = mem s \<Longrightarrow> fst (walk_from l pt va False s') = fst (walk_from l pt va False s)"
  by (induction l arbitrary: pt) (auto simp: Let_def pte_at_def)

definition leaf :: "uint64 \<Rightarrow> uint64 \<Rightarrow> 'z kmem_scheme \<Rightarrow> uint64" where
  "leaf pt va s = fst (walk_from 2 pt va False s)"

lemma walk_leaf: "va < MAXVA \<Longrightarrow> walk pt va False s = Inr (leaf pt va s, s)"
  using walk_from_noalloc [of 2 pt va s] by (simp add: walk_def leaf_def prod_eq_iff not_le)

lemma walkaddr_mem:
  assumes "mem s' = mem s"
  shows "walkaddr pt va s' = walkaddr pt va s"
proof -
  have "leaf pt va s' = leaf pt va s" using walk_from_mem [OF assms] by (simp only: leaf_def)
  moreover have "pte_at s' = pte_at s" by (rule ext) (simp add: pte_at_def assms)
  ultimately show ?thesis by (cases "va < MAXVA") (simp_all add: walkaddr_def walk_leaf not_less)
qed

lemma walkaddr_returns: "\<exists>pa. walkaddr pt va s = Inr pa"
  by (cases "va < MAXVA") (auto simp: walkaddr_def walk_leaf not_less)

lemma copyin_mem: "mem s' = mem s \<Longrightarrow> copyin pt va n s' = copyin pt va n s"
proof (induction pt va n s rule: copyin.induct)
  case (1 pt srcva len s)
  obtain pa where pa: "walkaddr pt (PGROUNDDOWN srcva) s = Inr pa" using walkaddr_returns by blast
  show ?case
    using 1 pa walkaddr_mem [OF 1(2)] by (auto simp: copyin.simps [of pt srcva len] Let_def)
qed

text \<open>\<^verbatim>\<open>copyin\<close> and \<^verbatim>\<open>copyout\<close> always come back: they fail with -1 or deliver all bytes.\<close>

lemma copyin_returns: "\<exists>r bs. copyin pt va n s = Inr (r, bs) \<and> (r = 0 \<and> length bs = n \<or> r = - 1 \<and> length bs < n)"
proof (induction pt va n s rule: copyin.induct)
  case (1 pt srcva len s)
  obtain pa where pa: "walkaddr pt (PGROUNDDOWN srcva) s = Inr pa" using walkaddr_returns by blast
  show ?case
  proof (cases "len > 0 \<and> pa \<noteq> 0")
    case True
    let ?n = "page_chunk srcva len"
    obtain r bs where r: "copyin pt (PGROUNDDOWN srcva + PGSIZE) (len - ?n) s = Inr (r, bs)"
        "r = 0 \<and> length bs = len - ?n \<or> r = - 1 \<and> length bs < len - ?n"
      using 1 [OF _ refl pa] True by auto
    moreover have "?n \<le> len" by (simp add: page_chunk_def)
    ultimately show ?thesis using True pa by (auto simp: copyin.simps [of pt srcva len] Let_def)
  next
    case False
    then show ?thesis using pa by (auto simp: copyin.simps [of pt srcva len] Let_def)
  qed
qed

lemma copyout_returns: "\<exists>r s'. copyout pt va bs s = Inr (r, s') \<and> (r = 0 \<or> r = - 1) \<and> (\<exists>m. s' = s\<lparr>mem := m\<rparr>)"
proof (induction pt va bs s rule: copyout.induct)
  case (1 pt dstva src s)
  obtain pa where pa: "walkaddr pt (PGROUNDDOWN dstva) s = Inr pa" using walkaddr_returns by blast
  have keep: "\<exists>m. s = s\<lparr>mem := m\<rparr>" by (rule exI [of _ "mem s"]) simp
  show ?case
  proof (cases "length src > 0 \<and> pa \<noteq> 0")
    case True
    with 1 [OF _ refl pa] obtain r s' m where
      "copyout pt (PGROUNDDOWN dstva + PGSIZE) (drop (page_chunk dstva (length src)) src)
        (s\<lparr>mem := store_bytes (mem s) (pa + (dstva - PGROUNDDOWN dstva)) (take (page_chunk dstva (length src)) src)\<rparr>)
        = Inr (r, s')" "r = 0 \<or> r = - 1" "s' = s\<lparr>mem := m\<rparr>"
      by (auto simp: Let_def)
    then show ?thesis using True pa by (auto simp: copyout.simps [of pt dstva src] Let_def)
  next
    case False
    then show ?thesis using pa keep by (auto simp: copyout.simps [of pt dstva src] Let_def)
  qed
qed

end
