(* ===== verification/Fs.thy ===== *)
theory Fs
  imports Log Vm
begin

text \<open>
  The file system of \<^verbatim>\<open>kernel/fs.c\<close>: the block bitmap, inodes on disk and in the inode table,
  file contents, directories and path names. An inode pointer is an index of the table, so
  the null checks of \<^verbatim>\<open>ilock\<close> and \<^verbatim>\<open>iunlock\<close> have no counterpart; a function that may return a
  null inode returns an option. A C string is the list of its bytes before the NUL. The
  diagnostics that the code prints are left out.
\<close>

record inode =
  i_dev :: uint
  i_inum :: uint
  i_ref :: int
  i_lock :: sleeplock
  i_valid :: bool
  i_type :: ushort
  i_major :: ushort
  i_minor :: ushort
  i_nlink :: ushort
  i_size :: uint
  i_addrs :: "uint list"

record kfs = klog +
  sb :: superblock
  itable :: "inode list"

record fstat =
  st_dev :: uint
  st_ino :: uint
  st_type :: ushort
  st_nlink :: ushort
  st_size :: uint64

definition T_DIR :: ushort where [simp]: "T_DIR = 1"
definition T_FILE :: ushort where [simp]: "T_FILE = 2"
definition T_DEVICE :: ushort where [simp]: "T_DEVICE = 3"

definition IBLOCK :: "uint \<Rightarrow> superblock \<Rightarrow> uint" where
  "IBLOCK i x = i div of_nat IPB + sb_inodestart x"

definition BBLOCK :: "nat \<Rightarrow> superblock \<Rightarrow> uint" where
  "BBLOCK b x = of_nat (b div BPB) + sb_bmapstart x"

definition ino :: "'z kfs_scheme \<Rightarrow> nat \<Rightarrow> inode" where
  "ino s ip = itable s ! ip"

definition upd_inode :: "nat \<Rightarrow> (inode \<Rightarrow> inode) \<Rightarrow> 'z kfs_scheme \<Rightarrow> 'z kfs_scheme" where
  "upd_inode ip f s = s\<lparr>itable := (itable s)[ip := f (itable s ! ip)]\<rparr>"

section \<open>Super block and bitmap\<close>

definition parse_sb :: "block \<Rightarrow> superblock" where
  "parse_sb d = \<lparr>sb_magic = get32 d 0, sb_size = get32 d 4, sb_nblocks = get32 d 8,
     sb_ninodes = get32 d 12, sb_nlog = get32 d 16, sb_logstart = get32 d 20,
     sb_inodestart = get32 d 24, sb_bmapstart = get32 d 28\<rparr>"

definition readsb :: "uint \<Rightarrow> 'z kfs_scheme \<Rightarrow> (superblock \<times> 'z kfs_scheme) res" where
  "readsb dev s =
     rbind (bread dev 1 s) (\<lambda>(bp, s).
     let x = parse_sb (b_data (bufs s ! bp)) in
     rbind (brelse bp s) (\<lambda>s. Inr (x, s)))"

definition fsinit :: "uint \<Rightarrow> 'z kfs_scheme \<Rightarrow> 'z kfs_scheme res" where
  "fsinit dev s =
     rbind (readsb dev s) (\<lambda>(x, s).
     let s = s\<lparr>sb := x\<rparr> in
     if sb_magic (sb s) \<noteq> FSMAGIC then Inl (Panic ''invalid file system'')
     else initlog dev (sb s) s)"

definition bzero :: "uint \<Rightarrow> uint \<Rightarrow> 'z kfs_scheme \<Rightarrow> 'z kfs_scheme res" where
  "bzero dev bno s =
     rbind (bread dev bno s) (\<lambda>(bp, s).
     let s = bmod bp (\<lambda>d. memset d 0 0 BSIZE) s in
     rbind (log_write bp s) (\<lambda>s. brelse bp s))"

definition bit_set :: "block \<Rightarrow> nat \<Rightarrow> bool" where
  "bit_set d bi \<longleftrightarrow> d (bi div 8) AND push_bit (bi mod 8) 1 \<noteq> 0"

definition set_bit_in :: "nat \<Rightarrow> block \<Rightarrow> block" where
  "set_bit_in bi d = d(bi div 8 := d (bi div 8) OR push_bit (bi mod 8) 1)"

definition clear_bit_in :: "nat \<Rightarrow> block \<Rightarrow> block" where
  "clear_bit_in bi d = d(bi div 8 := d (bi div 8) AND NOT (push_bit (bi mod 8) 1))"

text \<open>The inner loop of \<^verbatim>\<open>balloc\<close> on the bitmap block of block \<open>b\<close>: the first free bit.\<close>

definition free_bit :: "block \<Rightarrow> nat \<Rightarrow> nat \<Rightarrow> nat option" where
  "free_bit d b nblk = find (\<lambda>bi. \<not> bit_set d bi) [0..<min BPB (nblk - b)]"

function balloc_from :: "uint \<Rightarrow> nat \<Rightarrow> nat \<Rightarrow> 'z kfs_scheme \<Rightarrow> (uint \<times> 'z kfs_scheme) res" where
  "balloc_from dev b nblk s =
     (if b < nblk then
        rbind (bread dev (BBLOCK b (sb s)) s) (\<lambda>(bp, s).
        case free_bit (b_data (bufs s ! bp)) b nblk of
          Some bi \<Rightarrow>
            let s = bmod bp (set_bit_in bi) s in
            rbind (log_write bp s) (\<lambda>s.
            rbind (brelse bp s) (\<lambda>s.
            rbind (bzero dev (of_nat (b + bi)) s) (\<lambda>s. Inr (of_nat (b + bi), s))))
        | None \<Rightarrow> rbind (brelse bp s) (\<lambda>s. balloc_from dev (b + BPB) nblk s))
      else Inr (0, s))"
  by pat_completeness auto
termination by (relation "measure (\<lambda>(dev, b, nblk, s). nblk - b)") auto

declare balloc_from.simps [simp del]

definition balloc :: "uint \<Rightarrow> 'z kfs_scheme \<Rightarrow> (uint \<times> 'z kfs_scheme) res" where
  "balloc dev s = balloc_from dev 0 (unat (sb_size (sb s))) s"

definition bfree :: "uint \<Rightarrow> uint \<Rightarrow> 'z kfs_scheme \<Rightarrow> 'z kfs_scheme res" where
  "bfree dev b s =
     rbind (bread dev (BBLOCK (unat b) (sb s)) s) (\<lambda>(bp, s).
     let bi = unat b mod BPB in
     if \<not> bit_set (b_data (bufs s ! bp)) bi then Inl (Panic ''freeing free block'')
     else
       let s = bmod bp (clear_bit_in bi) s in
       rbind (log_write bp s) (\<lambda>s. brelse bp s))"

text \<open>\<^verbatim>\<open>count_free_blocks\<close> reads the super block into a local copy and counts the clear bits.\<close>

definition clear_bits :: "block \<Rightarrow> nat \<Rightarrow> nat \<Rightarrow> nat" where
  "clear_bits d b nblk = length (filter (\<lambda>bi. \<not> bit_set d bi) [0..<min BPB (nblk - b)])"

function count_from :: "superblock \<Rightarrow> nat \<Rightarrow> uint \<Rightarrow> 'z kfs_scheme \<Rightarrow> (uint \<times> 'z kfs_scheme) res" where
  "count_from x b free_blocks s =
     (if b < unat (sb_size x) then
        rbind (bread ROOTDEV (BBLOCK b x) s) (\<lambda>(bp, s).
        let free_blocks = free_blocks + of_nat (clear_bits (b_data (bufs s ! bp)) b (unat (sb_size x))) in
        rbind (brelse bp s) (\<lambda>s. count_from x (b + BPB) free_blocks s))
      else Inr (free_blocks, s))"
  by pat_completeness auto
termination by (relation "measure (\<lambda>(x, b, f, s). unat (sb_size x) - b)") auto

declare count_from.simps [simp del]

definition count_free_blocks :: "'z kfs_scheme \<Rightarrow> (uint \<times> 'z kfs_scheme) res" where
  "count_free_blocks s = rbind (readsb ROOTDEV s) (\<lambda>(x, s). count_from x 0 0 s)"

definition read_disk_size :: "'z kfs_scheme \<Rightarrow> (uint \<times> 'z kfs_scheme) res" where
  "read_disk_size s = rbind (readsb ROOTDEV s) (\<lambda>(x, s). Inr (sb_size x, s))"

section \<open>Inodes\<close>

definition iinit :: "'z kfs_scheme \<Rightarrow> 'z kfs_scheme" where
  "iinit s = fold (\<lambda>i. upd_inode i (\<lambda>ip. ip\<lparr>i_lock := initsleeplock\<rparr>)) [0..<NINODE] s"

definition iget :: "uint \<Rightarrow> uint \<Rightarrow> 'z kfs_scheme \<Rightarrow> (nat \<times> 'z kfs_scheme) res" where
  "iget dev inum s =
     (case find (\<lambda>i. i_ref (ino s i) > 0 \<and> i_dev (ino s i) = dev \<and> i_inum (ino s i) = inum)
             [0..<NINODE] of
        Some ip \<Rightarrow> Inr (ip, upd_inode ip (\<lambda>i. i\<lparr>i_ref := i_ref i + 1\<rparr>) s)
      | None \<Rightarrow>
          (case find (\<lambda>i. i_ref (ino s i) = 0) [0..<NINODE] of
             None \<Rightarrow> Inl (Panic ''iget: no inodes'')
           | Some ip \<Rightarrow>
               Inr (ip, upd_inode ip (\<lambda>i. i\<lparr>i_dev := dev, i_inum := inum, i_ref := 1, i_valid := False\<rparr>) s)))"

text \<open>The offset of an inode in its block, and the fields of \<^verbatim>\<open>struct dinode\<close>.\<close>

definition dinode_off :: "uint \<Rightarrow> nat" where
  "dinode_off inum = unat inum mod IPB * 64"

definition put_addrs :: "uint list \<Rightarrow> nat \<Rightarrow> block \<Rightarrow> block" where
  "put_addrs as off d = fold (\<lambda>i d. set32 d (off + 12 + 4 * i) (as ! i)) [0..<Suc NDIRECT] d"

definition put_dinode :: "inode \<Rightarrow> nat \<Rightarrow> block \<Rightarrow> block" where
  "put_dinode i off d =
     (let d = set16 d off (i_type i);
          d = set16 d (off + 2) (i_major i);
          d = set16 d (off + 4) (i_minor i);
          d = set16 d (off + 6) (i_nlink i);
          d = set32 d (off + 8) (i_size i)
      in put_addrs (i_addrs i) off d)"

definition get_dinode :: "block \<Rightarrow> nat \<Rightarrow> inode \<Rightarrow> inode" where
  "get_dinode d off i = i\<lparr>i_type := get16 d off, i_major := get16 d (off + 2), i_minor := get16 d (off + 4),
     i_nlink := get16 d (off + 6), i_size := get32 d (off + 8),
     i_addrs := map (\<lambda>k. get32 d (off + 12 + 4 * k)) [0..<Suc NDIRECT]\<rparr>"

function ialloc_from :: "uint \<Rightarrow> ushort \<Rightarrow> nat \<Rightarrow> nat \<Rightarrow> 'z kfs_scheme \<Rightarrow> (nat option \<times> 'z kfs_scheme) res" where
  "ialloc_from dev type inum ninodes s =
     (if inum < ninodes then
        rbind (bread dev (IBLOCK (of_nat inum) (sb s)) s) (\<lambda>(bp, s).
        let off = dinode_off (of_nat inum) in
        if get16 (b_data (bufs s ! bp)) off = 0 then
          let s = bmod bp (\<lambda>d. set16 (memset d off 0 64) off type) s in
          rbind (log_write bp s) (\<lambda>s.
          rbind (brelse bp s) (\<lambda>s.
          rbind (iget dev (of_nat inum) s) (\<lambda>(ip, s). Inr (Some ip, s))))
        else rbind (brelse bp s) (\<lambda>s. ialloc_from dev type (Suc inum) ninodes s))
      else Inr (None, s))"
  by pat_completeness auto
termination by (relation "measure (\<lambda>(dev, type, inum, ninodes, s). ninodes - inum)") auto

declare ialloc_from.simps [simp del]

definition ialloc :: "uint \<Rightarrow> ushort \<Rightarrow> 'z kfs_scheme \<Rightarrow> (nat option \<times> 'z kfs_scheme) res" where
  "ialloc dev type s = ialloc_from dev type 1 (unat (sb_ninodes (sb s))) s"

definition iupdate :: "nat \<Rightarrow> 'z kfs_scheme \<Rightarrow> 'z kfs_scheme res" where
  "iupdate ip s =
     rbind (bread (i_dev (ino s ip)) (IBLOCK (i_inum (ino s ip)) (sb s)) s) (\<lambda>(bp, s).
     let s = bmod bp (put_dinode (ino s ip) (dinode_off (i_inum (ino s ip)))) s in
     rbind (log_write bp s) (\<lambda>s. brelse bp s))"

definition idup :: "nat \<Rightarrow> 'z kfs_scheme \<Rightarrow> nat \<times> 'z kfs_scheme" where
  "idup ip s = (ip, upd_inode ip (\<lambda>i. i\<lparr>i_ref := i_ref i + 1\<rparr>) s)"

definition lock_inode :: "nat \<Rightarrow> 'z kfs_scheme \<Rightarrow> 'z kfs_scheme res" where
  "lock_inode ip s =
     rbind (acquiresleep (Chan_inode_lock ip) (i_lock (ino s ip)) s)
       (\<lambda>lk. Inr (upd_inode ip (\<lambda>i. i\<lparr>i_lock := lk\<rparr>) s))"

definition unlock_inode :: "nat \<Rightarrow> 'z kfs_scheme \<Rightarrow> 'z kfs_scheme" where
  "unlock_inode ip s =
     (case releasesleep (Chan_inode_lock ip) (i_lock (ino s ip)) s of
        (lk, s) \<Rightarrow> upd_inode ip (\<lambda>i. i\<lparr>i_lock := lk\<rparr>) s)"

definition ilock :: "nat \<Rightarrow> 'z kfs_scheme \<Rightarrow> 'z kfs_scheme res" where
  "ilock ip s =
     (if i_ref (ino s ip) < 1 then Inl (Panic ''ilock'')
      else
        rbind (lock_inode ip s) (\<lambda>s.
        if \<not> i_valid (ino s ip) then
          rbind (bread (i_dev (ino s ip)) (IBLOCK (i_inum (ino s ip)) (sb s)) s) (\<lambda>(bp, s).
          let s = upd_inode ip (get_dinode (b_data (bufs s ! bp)) (dinode_off (i_inum (ino s ip)))) s in
          rbind (brelse bp s) (\<lambda>s.
          let s = upd_inode ip (\<lambda>i. i\<lparr>i_valid := True\<rparr>) s in
          if i_type (ino s ip) = 0 then Inl (Panic ''ilock: no type'') else Inr s))
        else Inr s))"

definition iunlock :: "nat \<Rightarrow> 'z kfs_scheme \<Rightarrow> 'z kfs_scheme res" where
  "iunlock ip s =
     (if \<not> holdingsleep (i_lock (ino s ip)) s \<or> i_ref (ino s ip) < 1 then Inl (Panic ''iunlock'')
      else Inr (unlock_inode ip s))"

section \<open>Inode contents\<close>

text \<open>\<^verbatim>\<open>bmap\<close>: the block that holds the \<open>bn\<close>-th block of the file, allocated if it is missing.\<close>

definition bmap_direct :: "nat \<Rightarrow> nat \<Rightarrow> 'z kfs_scheme \<Rightarrow> (uint \<times> 'z kfs_scheme) res" where
  "bmap_direct ip k s =
     (let addr = i_addrs (ino s ip) ! k in
      if addr = 0 then
        rbind (balloc (i_dev (ino s ip)) s) (\<lambda>(addr, s).
          if addr = 0 then Inr (0, s)
          else Inr (addr, upd_inode ip (\<lambda>i. i\<lparr>i_addrs := (i_addrs i)[k := addr]\<rparr>) s))
      else Inr (addr, s))"

text \<open>The entry \<open>j\<close> of the indirect block at \<open>addr\<close>.\<close>

definition bmap_entry :: "uint \<Rightarrow> uint \<Rightarrow> nat \<Rightarrow> 'z kfs_scheme \<Rightarrow> (uint \<times> 'z kfs_scheme) res" where
  "bmap_entry dev addr j s =
     rbind (bread dev addr s) (\<lambda>(bp, s).
     let addr = get32 (b_data (bufs s ! bp)) (4 * j) in
     rbind (if addr = 0 then
              rbind (balloc dev s) (\<lambda>(addr, s).
                if addr \<noteq> 0 then
                  rbind (log_write bp (bmod bp (\<lambda>d. set32 d (4 * j) addr) s)) (\<lambda>s. Inr (addr, s))
                else Inr (addr, s))
            else Inr (addr, s)) (\<lambda>(addr, s).
     rbind (brelse bp s) (\<lambda>s. Inr (addr, s))))"

definition bmap :: "nat \<Rightarrow> nat \<Rightarrow> 'z kfs_scheme \<Rightarrow> (uint \<times> 'z kfs_scheme) res" where
  "bmap ip bn s =
     (if bn < NDIRECT then bmap_direct ip bn s
      else if bn - NDIRECT < NINDIRECT then
        rbind (bmap_direct ip NDIRECT s) (\<lambda>(addr, s).
          if addr = 0 then Inr (0, s) else bmap_entry (i_dev (ino s ip)) addr (bn - NDIRECT) s)
      else Inl (Panic ''bmap: out of range''))"

definition itrunc_direct :: "nat \<Rightarrow> nat \<Rightarrow> 'z kfs_scheme \<Rightarrow> 'z kfs_scheme res" where
  "itrunc_direct ip i s =
     (if i_addrs (ino s ip) ! i \<noteq> 0 then
        rbind (bfree (i_dev (ino s ip)) (i_addrs (ino s ip) ! i) s) (\<lambda>s.
          Inr (upd_inode ip (\<lambda>n. n\<lparr>i_addrs := (i_addrs n)[i := 0]\<rparr>) s))
      else Inr s)"

definition itrunc_indirect :: "nat \<Rightarrow> 'z kfs_scheme \<Rightarrow> 'z kfs_scheme res" where
  "itrunc_indirect ip s =
     (if i_addrs (ino s ip) ! NDIRECT \<noteq> 0 then
        rbind (bread (i_dev (ino s ip)) (i_addrs (ino s ip) ! NDIRECT) s) (\<lambda>(bp, s).
        rbind (rfold (\<lambda>j s.
            let a = get32 (b_data (bufs s ! bp)) (4 * j) in
            if a \<noteq> 0 then bfree (i_dev (ino s ip)) a s else Inr s) [0..<NINDIRECT] s) (\<lambda>s.
        rbind (brelse bp s) (\<lambda>s.
        rbind (bfree (i_dev (ino s ip)) (i_addrs (ino s ip) ! NDIRECT) s) (\<lambda>s.
          Inr (upd_inode ip (\<lambda>n. n\<lparr>i_addrs := (i_addrs n)[NDIRECT := 0]\<rparr>) s)))))
      else Inr s)"

definition itrunc :: "nat \<Rightarrow> 'z kfs_scheme \<Rightarrow> 'z kfs_scheme res" where
  "itrunc ip s =
     rbind (rfold (itrunc_direct ip) [0..<NDIRECT] s) (\<lambda>s.
     rbind (itrunc_indirect ip s) (\<lambda>s.
     iupdate ip (upd_inode ip (\<lambda>n. n\<lparr>i_size := 0\<rparr>) s)))"

definition iput :: "nat \<Rightarrow> 'z kfs_scheme \<Rightarrow> 'z kfs_scheme res" where
  "iput ip s =
     rbind (if i_ref (ino s ip) = 1 \<and> i_valid (ino s ip) \<and> i_nlink (ino s ip) = 0 then
              rbind (lock_inode ip s) (\<lambda>s.
              rbind (itrunc ip s) (\<lambda>s.
              rbind (iupdate ip (upd_inode ip (\<lambda>i. i\<lparr>i_type := 0\<rparr>) s)) (\<lambda>s.
              Inr (unlock_inode ip (upd_inode ip (\<lambda>i. i\<lparr>i_valid := False\<rparr>) s)))))
            else Inr s) (\<lambda>s.
     Inr (upd_inode ip (\<lambda>i. i\<lparr>i_ref := i_ref i - 1\<rparr>) s))"

definition iunlockput :: "nat \<Rightarrow> 'z kfs_scheme \<Rightarrow> 'z kfs_scheme res" where
  "iunlockput ip s = rbind (iunlock ip s) (\<lambda>s. iput ip s)"

definition stati :: "nat \<Rightarrow> 'z kfs_scheme \<Rightarrow> fstat" where
  "stati ip s = \<lparr>st_dev = i_dev (ino s ip), st_ino = i_inum (ino s ip), st_type = i_type (ino s ip),
     st_nlink = i_nlink (ino s ip), st_size = ucast (i_size (ino s ip))\<rparr>"

text \<open>
  The loop of \<^verbatim>\<open>readi\<close>, with \<open>rest\<close> bytes to go; it returns the bytes copied. After the checks
  of \<^verbatim>\<open>readi\<close> the 32-bit sums below do not wrap.
\<close>

definition block_chunk :: "nat \<Rightarrow> nat \<Rightarrow> nat" where
  "block_chunk off rest = min rest (BSIZE - off mod BSIZE)"

lemma block_chunk_pos [simp]: "0 < rest \<Longrightarrow> 0 < block_chunk off rest"
  by (simp add: block_chunk_def)

lemma block_chunk_le: "block_chunk off rest \<le> rest"
  by (simp add: block_chunk_def)

function readi_from :: "nat \<Rightarrow> bool \<Rightarrow> uint64 \<Rightarrow> nat \<Rightarrow> nat \<Rightarrow> nat \<Rightarrow> 'z kfs_scheme \<Rightarrow>
    (int \<times> uchar list \<times> 'z kfs_scheme) res" where
  "readi_from ip user_dst dst off tot rest s =
     (if rest > 0 then
        rbind (bmap ip (off div BSIZE) s) (\<lambda>(addr, s).
        if addr = 0 then Inr (int tot, [], s)
        else
          rbind (bread (i_dev (ino s ip)) addr s) (\<lambda>(bp, s).
          let m = block_chunk off rest;
              bs = load_bytes (b_data (bufs s ! bp)) (off mod BSIZE) m in
          rbind (either_copyout user_dst dst bs s) (\<lambda>(r, s).
          if r = - 1 then rbind (brelse bp s) (\<lambda>s. Inr (- 1, [], s))
          else
            rbind (brelse bp s) (\<lambda>s.
            rbind (readi_from ip user_dst (dst + of_nat m) (off + m) (tot + m) (rest - m) s)
              (\<lambda>(r, bs', s). Inr (r, bs @ bs', s))))))
      else Inr (int tot, [], s))"
  by pat_completeness auto
termination by (relation "measure (\<lambda>(ip, user_dst, dst, off, tot, rest, s). rest)") auto

declare readi_from.simps [simp del]

definition readi :: "nat \<Rightarrow> bool \<Rightarrow> uint64 \<Rightarrow> uint \<Rightarrow> uint \<Rightarrow> 'z kfs_scheme \<Rightarrow>
    (int \<times> uchar list \<times> 'z kfs_scheme) res" where
  "readi ip user_dst dst off n s =
     (let sz = i_size (ino s ip) in
      if off > sz \<or> off + n < off then Inr (0, [], s)
      else
        let n = (if off + n > sz then sz - off else n) in
        readi_from ip user_dst dst (unat off) 0 (unat n) s)"

text \<open>
  The loop of \<^verbatim>\<open>writei\<close> returns the bytes written and the offset reached. A copy that fails
  half way has already changed the buffer.
\<close>

function writei_from :: "nat \<Rightarrow> bool \<Rightarrow> uint64 \<Rightarrow> uchar list \<Rightarrow> nat \<Rightarrow> nat \<Rightarrow> nat \<Rightarrow> 'z kfs_scheme \<Rightarrow>
    (nat \<times> nat \<times> 'z kfs_scheme) res" where
  "writei_from ip user_src src kbuf off tot rest s =
     (if rest > 0 then
        rbind (bmap ip (off div BSIZE) s) (\<lambda>(addr, s).
        if addr = 0 then Inr (tot, off, s)
        else
          rbind (bread (i_dev (ino s ip)) addr s) (\<lambda>(bp, s).
          let m = block_chunk off rest in
          rbind (either_copyin user_src src kbuf m s) (\<lambda>(r, bs).
          let s = bmod bp (\<lambda>d. store_bytes d (off mod BSIZE) bs) s in
          if r = - 1 then rbind (brelse bp s) (\<lambda>s. Inr (tot, off, s))
          else
            rbind (log_write bp s) (\<lambda>s.
            rbind (brelse bp s) (\<lambda>s.
            writei_from ip user_src (src + of_nat m) (drop m kbuf) (off + m) (tot + m) (rest - m) s)))))
      else Inr (tot, off, s))"
  by pat_completeness auto
termination by (relation "measure (\<lambda>(ip, user_src, src, kbuf, off, tot, rest, s). rest)") auto

declare writei_from.simps [simp del]

definition writei :: "nat \<Rightarrow> bool \<Rightarrow> uint64 \<Rightarrow> uchar list \<Rightarrow> uint \<Rightarrow> uint \<Rightarrow> 'z kfs_scheme \<Rightarrow>
    (int \<times> 'z kfs_scheme) res" where
  "writei ip user_src src kbuf off n s =
     (if off > i_size (ino s ip) \<or> off + n < off then Inr (- 1, s)
      else if unat (off + n) > MAXFILE * BSIZE then Inr (- 1, s)
      else
        rbind (writei_from ip user_src src kbuf (unat off) 0 (unat n) s) (\<lambda>(tot, off, s).
        let s = (if off > unat (i_size (ino s ip))
                 then upd_inode ip (\<lambda>i. i\<lparr>i_size := of_nat off\<rparr>) s else s) in
        rbind (iupdate ip s) (\<lambda>s. Inr (int tot, s))))"

section \<open>Directories\<close>

text \<open>A C string as the characters a pointer to it shows.\<close>

definition str_view :: "uchar list \<Rightarrow> nat \<Rightarrow> uchar" where
  "str_view xs i = (if i < length xs then xs ! i else 0)"

definition namecmp :: "(nat \<Rightarrow> uchar) \<Rightarrow> (nat \<Rightarrow> uchar) \<Rightarrow> int" where
  "namecmp s t = strncmp s t DIRSIZ"

definition dirent_size :: nat where [simp]: "dirent_size = 16"

definition de_inum :: "uchar list \<Rightarrow> ushort" where
  "de_inum bs = get16 (str_view bs) 0"

definition de_name :: "uchar list \<Rightarrow> nat \<Rightarrow> uchar" where
  "de_name bs = (\<lambda>i. str_view bs (2 + i))"

definition mk_dirent :: "ushort \<Rightarrow> (nat \<Rightarrow> uchar) \<Rightarrow> uchar list" where
  "mk_dirent inum name = to_le 2 (unat inum) @ map name [0..<DIRSIZ]"

function dirlookup_from :: "nat \<Rightarrow> (nat \<Rightarrow> uchar) \<Rightarrow> nat \<Rightarrow> nat \<Rightarrow> 'z kfs_scheme \<Rightarrow>
    ((nat \<times> uint) option \<times> 'z kfs_scheme) res" where
  "dirlookup_from dp name off sz s =
     (if off < sz then
        rbind (readi dp False 0 (of_nat off) (of_nat dirent_size) s) (\<lambda>(r, de, s).
        if r \<noteq> int dirent_size then Inl (Panic ''dirlookup read'')
        else if de_inum de \<noteq> 0 \<and> namecmp name (de_name de) = 0 then
          rbind (iget (i_dev (ino s dp)) (ucast (de_inum de)) s) (\<lambda>(ip, s).
            Inr (Some (ip, of_nat off), s))
        else dirlookup_from dp name (off + dirent_size) sz s)
      else Inr (None, s))"
  by pat_completeness auto
termination by (relation "measure (\<lambda>(dp, name, off, sz, s). sz - off)") auto

declare dirlookup_from.simps [simp del]

definition dirlookup :: "nat \<Rightarrow> (nat \<Rightarrow> uchar) \<Rightarrow> 'z kfs_scheme \<Rightarrow>
    ((nat \<times> uint) option \<times> 'z kfs_scheme) res" where
  "dirlookup dp name s =
     (if i_type (ino s dp) \<noteq> T_DIR then Inl (Panic ''dirlookup not DIR'')
      else dirlookup_from dp name 0 (unat (i_size (ino s dp))) s)"

text \<open>
  The second loop of \<^verbatim>\<open>dirlink\<close>: the offset of an empty entry, or the end. The local \<^verbatim>\<open>de\<close>
  keeps the last entry read, whose name is overwritten in full.
\<close>

function empty_dirent :: "nat \<Rightarrow> nat \<Rightarrow> nat \<Rightarrow> 'z kfs_scheme \<Rightarrow> (nat \<times> 'z kfs_scheme) res" where
  "empty_dirent dp off sz s =
     (if off < sz then
        rbind (readi dp False 0 (of_nat off) (of_nat dirent_size) s) (\<lambda>(r, de, s).
        if r \<noteq> int dirent_size then Inl (Panic ''dirlink read'')
        else if de_inum de = 0 then Inr (off, s)
        else empty_dirent dp (off + dirent_size) sz s)
      else Inr (off, s))"
  by pat_completeness auto
termination by (relation "measure (\<lambda>(dp, off, sz, s). sz - off)") auto

declare empty_dirent.simps [simp del]

definition dirlink :: "nat \<Rightarrow> (nat \<Rightarrow> uchar) \<Rightarrow> uint \<Rightarrow> 'z kfs_scheme \<Rightarrow> (int \<times> 'z kfs_scheme) res" where
  "dirlink dp name inum s =
     rbind (dirlookup dp name s) (\<lambda>(found, s). case found of
       Some (ip, _) \<Rightarrow> rbind (iput ip s) (\<lambda>s. Inr (- 1, s))
     | None \<Rightarrow>
         rbind (empty_dirent dp 0 (unat (i_size (ino s dp))) s) (\<lambda>(off, s).
         let de = mk_dirent (ucast inum) (strncpy (\<lambda>_. 0) name DIRSIZ) in
         rbind (writei dp False 0 de (of_nat off) (of_nat dirent_size) s) (\<lambda>(r, s).
         if r \<noteq> int dirent_size then Inr (- 1, s) else Inr (0, s))))"

function dirunlink_from :: "nat \<Rightarrow> (nat \<Rightarrow> uchar) \<Rightarrow> nat \<Rightarrow> nat \<Rightarrow> 'z kfs_scheme \<Rightarrow>
    (int \<times> 'z kfs_scheme) res" where
  "dirunlink_from dp name off sz s =
     (if off < sz then
        rbind (readi dp False 0 (of_nat off) (of_nat dirent_size) s) (\<lambda>(r, de, s).
        if r \<noteq> int dirent_size then Inl (Panic ''dirunlink read'')
        else if strncmp (de_name de) name DIRSIZ = 0 \<and> de_inum de \<noteq> 0 then
          rbind (writei dp False 0 (mk_dirent 0 (de_name de)) (of_nat off) (of_nat dirent_size) s) (\<lambda>(r, s).
          if r \<noteq> int dirent_size then Inr (- 1, s) else Inr (0, s))
        else dirunlink_from dp name (off + dirent_size) sz s)
      else Inr (- 1, s))"
  by pat_completeness auto
termination by (relation "measure (\<lambda>(dp, name, off, sz, s). sz - off)") auto

declare dirunlink_from.simps [simp del]

definition dirunlink :: "nat \<Rightarrow> (nat \<Rightarrow> uchar) \<Rightarrow> 'z kfs_scheme \<Rightarrow> (int \<times> 'z kfs_scheme) res" where
  "dirunlink dp name s = dirunlink_from dp name 0 (unat (i_size (ino s dp))) s"

section \<open>Path names\<close>

definition slash :: uchar where [simp]: "slash = 47"

text \<open>
  \<^verbatim>\<open>skipelem\<close> returns the rest of the path and the buffer that receives the element, or None
  where the code returns a null pointer.
\<close>

definition skipelem :: "uchar list \<Rightarrow> (nat \<Rightarrow> uchar) \<Rightarrow> (uchar list \<times> (nat \<Rightarrow> uchar)) option" where
  "skipelem path name =
     (let path = dropWhile (\<lambda>c. c = slash) path in
      if path = [] then None
      else
        let elem = takeWhile (\<lambda>c. c \<noteq> slash) path;
            rest = dropWhile (\<lambda>c. c \<noteq> slash) path;
            name = (if length elem \<ge> DIRSIZ then store_bytes name 0 (take DIRSIZ elem)
                    else (store_bytes name 0 elem)(length elem := 0))
        in Some (dropWhile (\<lambda>c. c = slash) rest, name))"

lemma skipelem_shorter:
  assumes "skipelem path name = Some (rest, name')"
  shows "length rest < length path"
proof -
  let ?p = "dropWhile (\<lambda>c. c = slash) path"
  have ne: "?p \<noteq> []" and r: "rest = dropWhile (\<lambda>c. c = slash) (dropWhile (\<lambda>c. c \<noteq> slash) ?p)"
    using assms by (auto simp: skipelem_def Let_def split: if_splits)
  have "hd ?p \<noteq> slash" using ne by (metis (full_types) hd_dropWhile)
  then have "length (dropWhile (\<lambda>c. c \<noteq> slash) ?p) < length ?p"
    using ne by (cases ?p) (auto simp: le_imp_less_Suc length_dropWhile_le)
  then show ?thesis
    unfolding r using length_dropWhile_le [of "\<lambda>c. c = slash" path]
      length_dropWhile_le [of "\<lambda>c. c = slash" "dropWhile (\<lambda>c. c \<noteq> slash) ?p"] by linarith
qed

function namex_from :: "nat \<Rightarrow> uchar list \<Rightarrow> bool \<Rightarrow> (nat \<Rightarrow> uchar) \<Rightarrow> 'z kfs_scheme \<Rightarrow>
    (nat option \<times> (nat \<Rightarrow> uchar) \<times> 'z kfs_scheme) res" where
  "namex_from ip path parent name s =
     (case skipelem path name of
        None \<Rightarrow>
          if parent then rbind (iput ip s) (\<lambda>s. Inr (None, name, s)) else Inr (Some ip, name, s)
      | Some (path, name) \<Rightarrow>
          rbind (ilock ip s) (\<lambda>s.
          if i_type (ino s ip) \<noteq> T_DIR then rbind (iunlockput ip s) (\<lambda>s. Inr (None, name, s))
          else if parent \<and> path = [] then rbind (iunlock ip s) (\<lambda>s. Inr (Some ip, name, s))
          else
            rbind (dirlookup ip name s) (\<lambda>(found, s). case found of
              None \<Rightarrow> rbind (iunlockput ip s) (\<lambda>s. Inr (None, name, s))
            | Some (nxt, _) \<Rightarrow> rbind (iunlockput ip s) (\<lambda>s. namex_from nxt path parent name s))))"
  by pat_completeness auto
termination
  by (relation "measure (\<lambda>(ip, path, parent, name, s). length path)") (auto dest: skipelem_shorter)

declare namex_from.simps [simp del]

definition namex :: "uchar list \<Rightarrow> bool \<Rightarrow> (nat \<Rightarrow> uchar) \<Rightarrow> 'z kfs_scheme \<Rightarrow>
    (nat option \<times> (nat \<Rightarrow> uchar) \<times> 'z kfs_scheme) res" where
  "namex path parent name s =
     rbind (if path \<noteq> [] \<and> hd path = slash then iget ROOTDEV ROOTINO s
            else Inr (idup (the (p_cwd (myproc s))) s)) (\<lambda>(ip, s).
     namex_from ip path parent name s)"

definition namei :: "uchar list \<Rightarrow> 'z kfs_scheme \<Rightarrow> (nat option \<times> 'z kfs_scheme) res" where
  "namei path s = rbind (namex path False (\<lambda>_. 0) s) (\<lambda>(ip, _, s). Inr (ip, s))"

definition nameiparent :: "uchar list \<Rightarrow> (nat \<Rightarrow> uchar) \<Rightarrow> 'z kfs_scheme \<Rightarrow>
    (nat option \<times> (nat \<Rightarrow> uchar) \<times> 'z kfs_scheme) res" where
  "nameiparent path name s = namex path True name s"

text \<open>
  \<^verbatim>\<open>rename\<close>, with the references and locks it keeps on its error paths. The new name is
  taken as it is, slashes included.
\<close>

definition rename :: "uchar list \<Rightarrow> uchar list \<Rightarrow> 'z kfs_scheme \<Rightarrow> (int \<times> 'z kfs_scheme) res" where
  "rename old new s =
     rbind (begin_op s) (\<lambda>s.
     rbind (nameiparent old (\<lambda>_. 0) s) (\<lambda>(old_dp, old_name, s). case old_dp of
       None \<Rightarrow> rbind (end_op s) (\<lambda>s. Inr (- 1, s))
     | Some old_dp \<Rightarrow>
         rbind (namei old s) (\<lambda>(ip, s). case ip of
           None \<Rightarrow> rbind (end_op s) (\<lambda>s. Inr (- 1, s))
         | Some ip \<Rightarrow>
             rbind (ilock ip s) (\<lambda>s.
             rbind (dirlink old_dp (str_view new) (i_inum (ino s ip)) s) (\<lambda>(r, s).
             if r < 0 then
               rbind (iunlockput ip s) (\<lambda>s. rbind (end_op s) (\<lambda>s. Inr (- 1, s)))
             else
               rbind (ilock old_dp s) (\<lambda>s.
               rbind (dirunlink old_dp old_name s) (\<lambda>(r, s).
               if r < 0 then
                 rbind (dirunlink old_dp (str_view new) s) (\<lambda>(_, s).
                 rbind (iunlockput old_dp s) (\<lambda>s. rbind (end_op s) (\<lambda>s. Inr (- 1, s))))
               else
                 rbind (iunlockput ip s) (\<lambda>s.
                 rbind (iunlockput old_dp s) (\<lambda>s.
                 rbind (end_op s) (\<lambda>s. Inr (0, s)))))))))))"

end
