(* ===== verification/Console.thy ===== *)
theory Console
  imports Fs
begin

text \<open>
  The serial line and the console on top of it: \<^verbatim>\<open>kernel/uart.c\<close>, \<^verbatim>\<open>kernel/console.c\<close> and the
  formatting of \<^verbatim>\<open>kernel/printf.c\<close>. The 16550 chip is the device behind the code: \<open>uart_in\<close>
  holds the received bytes that have not been read (LSR_RX_READY is set while there are any),
  \<open>uart_out\<close> the bytes written to the transmit register, oldest first, and \<open>uart_room\<close> how
  many more the transmitter takes before LSR_TX_IDLE clears.
\<close>

datatype devfn = Consoleread | Consolewrite

record devsw =
  dv_read :: "devfn option"
  dv_write :: "devfn option"

record kcons = kfs +
  uart_in :: "uchar list"
  uart_out :: "uchar list"
  uart_room :: nat
  uart_tx_buf :: "uchar list"
  uart_tx_w :: uint64
  uart_tx_r :: uint64
  panicked :: bool
  cons_buf :: "uchar list"
  cons_r :: uint
  cons_w :: uint
  cons_e :: uint
  devsw_tab :: "devsw list"

definition UART_TX_BUF_SIZE :: nat where [simp]: "UART_TX_BUF_SIZE = 32"
definition INPUT_BUF_SIZE :: nat where [simp]: "INPUT_BUF_SIZE = 128"
definition CONSOLE :: nat where [simp]: "CONSOLE = 1"

text \<open>The control character \<^verbatim>\<open>C(x)\<close>, and the code \<^verbatim>\<open>BACKSPACE\<close> outside the range of bytes.\<close>

definition Ctrl :: "nat \<Rightarrow> int" where [simp]: "Ctrl x = int x - 64"
definition BACKSPACE :: int where [simp]: "BACKSPACE = 0x100"

section \<open>Initialisation of the chip\<close>

text \<open>
  The registers of the 16550 that \<^verbatim>\<open>uartinit\<close> writes. While the latch bit of the line control
  register is set, the first two addresses are the two halves of the divisor of the clock.
\<close>

record uart_chip =
  chip_ier :: uchar
  chip_fcr :: uchar
  chip_lcr :: uchar
  chip_dll :: uchar
  chip_dlm :: uchar

definition IER :: nat where [simp]: "IER = 1"
definition IER_RX_ENABLE :: uchar where [simp]: "IER_RX_ENABLE = push_bit 0 1"
definition IER_TX_ENABLE :: uchar where [simp]: "IER_TX_ENABLE = push_bit 1 1"
definition FCR :: nat where [simp]: "FCR = 2"
definition FCR_FIFO_ENABLE :: uchar where [simp]: "FCR_FIFO_ENABLE = push_bit 0 1"
definition FCR_FIFO_CLEAR :: uchar where [simp]: "FCR_FIFO_CLEAR = push_bit 1 3"
definition LCR :: nat where [simp]: "LCR = 3"
definition LCR_EIGHT_BITS :: uchar where [simp]: "LCR_EIGHT_BITS = push_bit 0 3"
definition LCR_BAUD_LATCH :: uchar where [simp]: "LCR_BAUD_LATCH = push_bit 7 1"

definition WriteReg :: "nat \<Rightarrow> uchar \<Rightarrow> uart_chip \<Rightarrow> uart_chip" where
  "WriteReg reg v c =
     (if reg = FCR then c\<lparr>chip_fcr := v\<rparr>
      else if reg = LCR then c\<lparr>chip_lcr := v\<rparr>
      else if chip_lcr c AND LCR_BAUD_LATCH \<noteq> 0 then
        if reg = 0 then c\<lparr>chip_dll := v\<rparr> else if reg = 1 then c\<lparr>chip_dlm := v\<rparr> else c
      else if reg = IER then c\<lparr>chip_ier := v\<rparr> else c)"

definition uartinit :: "uart_chip \<Rightarrow> uart_chip" where
  "uartinit c =
     (let c = WriteReg IER 0 c;
          c = WriteReg LCR LCR_BAUD_LATCH c;
          c = WriteReg 0 0x03 c;
          c = WriteReg 1 0x00 c;
          c = WriteReg LCR LCR_EIGHT_BITS c;
          c = WriteReg FCR (FCR_FIFO_ENABLE OR FCR_FIFO_CLEAR) c
      in WriteReg IER (IER_TX_ENABLE OR IER_RX_ENABLE) c)"

lemma uartinit_effect:
  "uartinit c = c\<lparr>chip_ier := 3, chip_fcr := 7, chip_lcr := 3, chip_dll := 3, chip_dlm := 0\<rparr>"
  by (simp add: uartinit_def WriteReg_def Let_def)

section \<open>uart.c\<close>

definition write_thr :: "uchar \<Rightarrow> 'z kcons_scheme \<Rightarrow> 'z kcons_scheme" where
  "write_thr c s = s\<lparr>uart_out := uart_out s @ [c], uart_room := uart_room s - 1\<rparr>"

text \<open>Waiting for the transmitter ends as soon as the chip has drained; other CPUs spin after a panic.\<close>

definition uartputc_sync :: "uchar \<Rightarrow> 'z kcons_scheme \<Rightarrow> 'z kcons_scheme res" where
  "uartputc_sync c s = (if panicked s then Inl Hangs else Inr (write_thr c s))"

function uartstart :: "'z kcons_scheme \<Rightarrow> 'z kcons_scheme" where
  "uartstart s =
     (if uart_tx_w s = uart_tx_r s then s
      else if uart_room s = 0 then s
      else
        let c = uart_tx_buf s ! (unat (uart_tx_r s) mod UART_TX_BUF_SIZE);
            s = s\<lparr>uart_tx_r := uart_tx_r s + 1\<rparr>;
            s = wakeup Chan_uart_tx_r s
        in uartstart (write_thr c s))"
  by pat_completeness auto
termination
  by (relation "measure uart_room") (auto simp: write_thr_def wakeup_def)

declare uartstart.simps [simp del]

definition uartputc :: "uchar \<Rightarrow> 'z kcons_scheme \<Rightarrow> 'z kcons_scheme res" where
  "uartputc c s =
     (if panicked s then Inl Hangs
      else if uart_tx_w s = uart_tx_r s + of_nat UART_TX_BUF_SIZE then Inl (Sleeps Chan_uart_tx_r)
      else
        let s = s\<lparr>uart_tx_buf := (uart_tx_buf s)[unat (uart_tx_w s) mod UART_TX_BUF_SIZE := c]\<rparr>;
            s = s\<lparr>uart_tx_w := uart_tx_w s + 1\<rparr>
        in Inr (uartstart s))"

definition uartgetc :: "'z kcons_scheme \<Rightarrow> int \<times> 'z kcons_scheme" where
  "uartgetc s =
     (case uart_in s of [] \<Rightarrow> (- 1, s) | c # cs \<Rightarrow> (int (unat c), s\<lparr>uart_in := cs\<rparr>))"

section \<open>Output of printf.c\<close>

definition digits :: "uchar list" where
  "digits = [48, 49, 50, 51, 52, 53, 54, 55, 56, 57, 97, 98, 99, 100, 101, 102]"

text \<open>The digits of a number, least significant first: the \<^verbatim>\<open>do\<close> loop of \<^verbatim>\<open>printint\<close>.\<close>

function int_digits :: "nat \<Rightarrow> nat \<Rightarrow> uchar list" where
  "int_digits base x =
     digits ! (x mod base) # (if x div base \<noteq> 0 \<and> base > 1 then int_digits base (x div base) else [])"
  by pat_completeness auto
termination by (relation "measure snd") (auto simp: div_le_dividend intro!: div_less_dividend Nat.gr0I)

declare int_digits.simps [simp del]

definition printint :: "uint \<Rightarrow> nat \<Rightarrow> bool \<Rightarrow> uchar list" where
  "printint xx base sign =
     (let neg = sign \<and> sint xx < 0;
          x = (if neg then - xx else xx);
          buf = int_digits base (unat x) @ (if neg then [45] else [])
      in rev buf)"

fun ptr_digits :: "nat \<Rightarrow> uint64 \<Rightarrow> uchar list" where
  "ptr_digits 0 x = []"
| "ptr_digits (Suc n) x = digits ! unat (drop_bit 60 x) # ptr_digits n (push_bit 4 x)"

definition printptr :: "uint64 \<Rightarrow> uchar list" where
  "printptr x = [48, 120] @ ptr_digits 16 x"

datatype printf_arg = AInt uint | APtr uint64 | AStr "uchar list option"

text \<open>
  The text that \<^verbatim>\<open>printf\<close> sends to the console for a format and its arguments. An argument that
  is missing or of the wrong type is undefined in C.
\<close>

fun kprintf :: "uchar list \<Rightarrow> printf_arg list \<Rightarrow> uchar list res" where
  "kprintf [] as = Inr []"
| "kprintf [c] as = Inr (if c = 37 then [] else [c])"
| "kprintf (c # d # fmt) as =
     (if c \<noteq> 37 then rbind (kprintf (d # fmt) as) (\<lambda>t. Inr (c # t))
      else if d = 100 then
        (case as of AInt x # as \<Rightarrow> rbind (kprintf fmt as) (\<lambda>t. Inr (printint x 10 True @ t))
         | _ \<Rightarrow> Inl (Undef ''va_arg''))
      else if d = 120 then
        (case as of AInt x # as \<Rightarrow> rbind (kprintf fmt as) (\<lambda>t. Inr (printint x 16 True @ t))
         | _ \<Rightarrow> Inl (Undef ''va_arg''))
      else if d = 112 then
        (case as of APtr x # as \<Rightarrow> rbind (kprintf fmt as) (\<lambda>t. Inr (printptr x @ t))
         | _ \<Rightarrow> Inl (Undef ''va_arg''))
      else if d = 115 then
        (case as of AStr x # as \<Rightarrow>
           rbind (kprintf fmt as) (\<lambda>t. Inr ((case x of None \<Rightarrow> [40, 110, 117, 108, 108, 41] | Some cs \<Rightarrow> cs) @ t))
         | _ \<Rightarrow> Inl (Undef ''va_arg''))
      else if d = 37 then rbind (kprintf fmt as) (\<lambda>t. Inr (37 # t))
      else rbind (kprintf fmt as) (\<lambda>t. Inr (37 # d # t)))"

section \<open>console.c\<close>

definition consputc :: "int \<Rightarrow> 'z kcons_scheme \<Rightarrow> 'z kcons_scheme res" where
  "consputc c s =
     (if c = BACKSPACE then rfold uartputc_sync [8, 32, 8] s
      else uartputc_sync (word_of_int c) s)"

definition kputs :: "uchar list \<Rightarrow> 'z kcons_scheme \<Rightarrow> 'z kcons_scheme res" where
  "kputs cs s = rfold (\<lambda>c. consputc (int (unat c))) cs s"

definition printf :: "uchar list \<Rightarrow> printf_arg list \<Rightarrow> 'z kcons_scheme \<Rightarrow> 'z kcons_scheme res" where
  "printf fmt as s = rbind (kprintf fmt as) (\<lambda>t. kputs t s)"

definition bytes :: "string \<Rightarrow> uchar list" where
  "bytes cs = map (\<lambda>c. of_nat (of_char c)) cs"

text \<open>\<^verbatim>\<open>panic\<close> does not return: this is the state in which it loops. Everywhere else a panic is an outcome of the operation.\<close>

definition panic :: "uchar list \<Rightarrow> 'z kcons_scheme \<Rightarrow> 'z kcons_scheme res" where
  "panic msg s =
     rbind (printf (bytes ''panic: '') [] s) (\<lambda>s.
     rbind (printf msg [] s) (\<lambda>s.
     rbind (printf (bytes ''\<newline>'') [] s) (\<lambda>s.
     Inr (s\<lparr>panicked := True\<rparr>))))"

definition state_name :: "procstate \<Rightarrow> string" where
  "state_name st = (case st of UNUSED \<Rightarrow> ''unused'' | USED \<Rightarrow> ''used'' | SLEEPING \<Rightarrow> ''sleep ''
     | RUNNABLE \<Rightarrow> ''runble'' | RUNNING \<Rightarrow> ''run   '' | ZOMBIE \<Rightarrow> ''zombie'')"

definition procdump :: "'z kcons_scheme \<Rightarrow> 'z kcons_scheme res" where
  "procdump s =
     rbind (printf (bytes ''\<newline>'') [] s)
       (rfold (\<lambda>p s.
          if p_state p = UNUSED then Inr s
          else
            rbind (printf (bytes ''%d %s %s'')
                [AInt (word_of_int (p_pid p)), AStr (Some (bytes (state_name (p_state p)))),
                 AStr (Some (cstr (p_name p) 16))] s) (\<lambda>s.
            printf (bytes ''\<newline>'') [] s)) (procs s))"

text \<open>\<^verbatim>\<open>consolewrite\<close> writes from a user or kernel address, byte by byte.\<close>

fun consolewrite_from :: "bool \<Rightarrow> uint64 \<Rightarrow> nat \<Rightarrow> nat \<Rightarrow> 'z kcons_scheme \<Rightarrow> (outcome \<times> 'z kcons_scheme) res" where
  "consolewrite_from user_src src i 0 s = Inr (Ret (int i), s)"
| "consolewrite_from user_src src i (Suc n) s =
     rbind (either_copyin user_src (src + of_nat i) [mem s (src + of_nat i)] 1 s) (\<lambda>(r, bs).
     if r = - 1 then Inr (Ret (int i), s)
     else case uartputc (hd bs) s of
       Inl (Sleeps ch) \<Rightarrow> Inr (Wait ch i, s)
     | Inl e \<Rightarrow> Inl e
     | Inr s \<Rightarrow> consolewrite_from user_src src (Suc i) n s)"

definition consolewrite :: "bool \<Rightarrow> uint64 \<Rightarrow> int \<Rightarrow> 'z kcons_scheme \<Rightarrow> (int \<times> 'z kcons_scheme) res" where
  "consolewrite user_src src n s = or_sleep (consolewrite_from user_src src 0 (nat n) s)"

text \<open>\<^verbatim>\<open>consoleread\<close>, with \<open>n\<close> bytes left of \<open>target\<close>.\<close>

fun consoleread_from :: "bool \<Rightarrow> uint64 \<Rightarrow> nat \<Rightarrow> nat \<Rightarrow> 'z kcons_scheme \<Rightarrow> (outcome \<times> 'z kcons_scheme) res" where
  "consoleread_from user_dst dst target 0 s = Inr (Ret (int target), s)"
| "consoleread_from user_dst dst target (Suc n) s =
     (if cons_r s = cons_w s then
        (if p_killed (myproc s) then Inr (Ret (- 1), s)
         else Inr (Wait Chan_cons_r (target - Suc n), s))
      else
        let c = cons_buf s ! (unat (cons_r s) mod INPUT_BUF_SIZE);
            s' = s\<lparr>cons_r := cons_r s + 1\<rparr>
        in
        if int (unat c) = Ctrl 68 then
          Inr (Ret (int (target - Suc n)), if Suc n < target then s'\<lparr>cons_r := cons_r s' - 1\<rparr> else s')
        else
          rbind (either_copyout user_dst dst [c] s') (\<lambda>(r, s).
          if r = - 1 then Inr (Ret (int (target - Suc n)), s)
          else if c = 10 then Inr (Ret (int (target - n)), s)
          else consoleread_from user_dst (dst + 1) target n s))"

definition consoleread :: "bool \<Rightarrow> uint64 \<Rightarrow> int \<Rightarrow> 'z kcons_scheme \<Rightarrow> (int \<times> 'z kcons_scheme) res" where
  "consoleread user_dst dst n s = or_sleep (consoleread_from user_dst dst (nat n) (nat n) s)"

text \<open>The kill-line loop takes back the characters of the line being edited.\<close>

function kill_line :: "'z kcons_scheme \<Rightarrow> 'z kcons_scheme res" where
  "kill_line s =
     (if cons_e s \<noteq> cons_w s \<and> cons_buf s ! (unat (cons_e s - 1) mod INPUT_BUF_SIZE) \<noteq> 10 then
        rbind (consputc BACKSPACE (s\<lparr>cons_e := cons_e s - 1\<rparr>)) kill_line
      else Inr s)"
  by pat_completeness auto
termination
proof (relation "measure (\<lambda>s. unat (cons_e s - cons_w s))", goal_cases)
  case 1
  then show ?case by simp
next
  case (2 s s')
  then have "s' = s\<lparr>cons_e := cons_e s - 1, uart_out := uart_out s @ [8, 32, 8], uart_room := uart_room s - 3\<rparr>"
    by (auto simp: consputc_def uartputc_sync_def write_thr_def split: if_splits)
  moreover have "cons_e s - cons_w s \<noteq> 0" using 2 by simp
  then have "unat (cons_e s - cons_w s - 1) < unat (cons_e s - cons_w s)" by (simp add: measure_unat)
  ultimately show ?case by (simp add: algebra_simps)
qed

declare kill_line.simps [simp del]

definition consoleintr :: "int \<Rightarrow> 'z kcons_scheme \<Rightarrow> 'z kcons_scheme res" where
  "consoleintr c s =
     (if c = Ctrl 80 then procdump s
      else if c = Ctrl 85 then kill_line s
      else if c = Ctrl 72 \<or> c = 127 then
        (if cons_e s \<noteq> cons_w s then consputc BACKSPACE (s\<lparr>cons_e := cons_e s - 1\<rparr>) else Inr s)
      else if c \<noteq> 0 \<and> unat (cons_e s - cons_r s) < INPUT_BUF_SIZE then
        let c = (if c = 13 then 10 else c) in
        rbind (consputc c s) (\<lambda>s.
        let s = s\<lparr>cons_buf := (cons_buf s)[unat (cons_e s) mod INPUT_BUF_SIZE := word_of_int c]\<rparr>;
            s = s\<lparr>cons_e := cons_e s + 1\<rparr> in
        Inr (if c = 10 \<or> c = Ctrl 68 \<or> cons_e s - cons_r s = of_nat INPUT_BUF_SIZE
             then wakeup Chan_cons_r (s\<lparr>cons_w := cons_e s\<rparr>) else s))
      else Inr s)"

text \<open>
  The interrupt handler reads the bytes that are waiting, one \<^verbatim>\<open>uartgetc\<close> each, and then sends
  what is buffered.
\<close>

definition uartintr :: "'z kcons_scheme \<Rightarrow> 'z kcons_scheme res" where
  "uartintr s =
     rbind (rfold (\<lambda>_ s. case uartgetc s of (c, s) \<Rightarrow> consoleintr c s) (uart_in s) s) (\<lambda>s.
     Inr (uartstart s))"

text \<open>The registers that \<^verbatim>\<open>uartinit\<close> programs are part of the chip; what remains is the device table.\<close>

definition consoleinit :: "'z kcons_scheme \<Rightarrow> 'z kcons_scheme" where
  "consoleinit s = s\<lparr>devsw_tab := (devsw_tab s)[CONSOLE :=
     \<lparr>dv_read = Some Consoleread, dv_write = Some Consolewrite\<rparr>]\<rparr>"

end
