(* ===== verification/Ring.thy ===== *)
theory Ring
  imports Prelude
begin

text \<open>
  Ring buffers as the kernel writes them: an array of \<open>N\<close> elements and two counters that only
  grow and wrap around at the width of their type, with the element of count \<open>i\<close> at index
  \<open>i mod N\<close>. Pipes, the console input and the serial output are three of them. The locale
  states what makes the scheme work, and proves that the array between the counters is a
  first-in first-out queue.
\<close>

definition ring_items :: "nat \<Rightarrow> 'a list \<Rightarrow> 'w::len word \<Rightarrow> 'w word \<Rightarrow> 'a list" where
  "ring_items N buf r w = map (\<lambda>i. buf ! (unat (r + of_nat i) mod N)) [0..<unat (w - r)]"

lemma length_ring_items [simp]: "length (ring_items N buf r w) = unat (w - r)"
  by (simp add: ring_items_def)

lemma ring_items_empty [simp]: "ring_items N buf r r = []"
  by (simp add: ring_items_def)

locale ring_buffer =
  fixes N :: nat and ty :: "'w::len itself"
  assumes N_pos: "0 < N" and N_dvd: "N dvd 2 ^ LENGTH('w)" and N_less: "N < 2 ^ LENGTH('w)"
begin

lemma slot_add: "unat (r + of_nat i :: 'w word) mod N = (unat r + i) mod N"
proof -
  have "unat (r + of_nat i :: 'w word) = (unat r + i) mod 2 ^ LENGTH('w)"
    by (simp add: unat_word_ariths unat_of_nat mod_add_right_eq)
  then show ?thesis using N_dvd by (simp add: mod_mod_cancel)
qed

lemma slots_differ_less:
  assumes "i < j" "j < N"
  shows "(k + j) mod N \<noteq> (k + i) mod N"
  using assms mod_eq_dvd_iff_nat [of "k + i" "k + j" N] by (auto dest: dvd_imp_le)

lemma slots_differ:
  assumes "i < N" "j < N" "i \<noteq> j"
  shows "(k + i) mod N \<noteq> (k + j) mod N"
  using assms slots_differ_less [of i j k] slots_differ_less [of j i k] by (cases "i < j") auto

lemma count_up:
  assumes "unat (w - r :: 'w word) < N"
  shows "unat (w + 1 - r) = Suc (unat (w - r))"
proof -
  have e: "w - r + 1 = w + 1 - r" by simp
  have "unat (x + 1) = Suc (unat x)" if "Suc (unat x) < 2 ^ LENGTH('w)" for x :: "'w word"
    using that by (simp add: unat_word_ariths)
  moreover have "Suc (unat (w - r)) < 2 ^ LENGTH('w)" using assms N_less by linarith
  ultimately show ?thesis unfolding e [symmetric] by blast
qed

lemma items_put:
  assumes "length buf = N" "unat (w - r :: 'w word) < N"
  shows "ring_items N (buf[unat w mod N := x]) r (w + 1) = ring_items N buf r w @ [x]"
proof -
  let ?n = "unat (w - r)"
  have w: "w = r + of_nat ?n" by simp
  have s: "unat w mod N = (unat r + ?n) mod N" by (subst w) (rule slot_add)
  have "buf[unat w mod N := x] ! (unat (r + of_nat i) mod N) = buf ! (unat (r + of_nat i) mod N)" if "i < ?n" for i
    using slots_differ [of i ?n "unat r"] that assms(2) by (simp add: s slot_add)
  moreover have "buf[unat w mod N := x] ! (unat (r + of_nat ?n) mod N) = x"
    using assms(1) N_pos by (simp add: s slot_add)
  ultimately show ?thesis by (simp add: ring_items_def count_up [OF assms(2)])
qed

lemma count_down: "w \<noteq> r \<Longrightarrow> unat (w - r :: 'w word) = Suc (unat (w - (r + 1)))"
  by (rule unat_diff_Suc)

lemma items_get:
  assumes "w \<noteq> (r :: 'w word)"
  shows "ring_items N buf r w = buf ! (unat r mod N) # ring_items N buf (r + 1) w"
proof -
  have "[0..<Suc n] = 0 # map Suc [0..<n]" for n by (simp add: map_Suc_upt upt_conv_Cons del: upt_Suc)
  then have "ring_items N buf r w =
      map (\<lambda>i. buf ! (unat (r + of_nat i) mod N)) (0 # map Suc [0..<unat (w - (r + 1))])"
    by (simp only: ring_items_def count_down [OF assms])
  then show ?thesis by (simp add: ring_items_def algebra_simps)
qed

lemma items_unput:
  assumes "w \<noteq> (r :: 'w word)"
  shows "ring_items N buf r w = ring_items N buf r (w - 1) @ [buf ! (unat (w - 1) mod N)]"
proof -
  let ?n = "unat (w - 1 - r)"
  have "unat (w - r) = Suc ?n" using unat_diff_Suc [OF assms] by (simp add: diff_diff_eq add.commute)
  moreover have "r + of_nat ?n = w - 1" by simp
  ultimately show ?thesis by (simp add: ring_items_def)
qed

text \<open>A counter in between cuts the queue in two.\<close>

lemma items_split:
  assumes "unat (w - m :: 'w word) + unat (m - r) < 2 ^ LENGTH('w)"
  shows "ring_items N buf r w = ring_items N buf r m @ ring_items N buf m w"
proof -
  have "w - r = (w - m) + (m - r)" by simp
  then have n: "unat (w - r) = unat (m - r) + unat (w - m)"
    using assms by (metis add.commute unat_add_lem)
  have "map f [k..<k + n] = map (\<lambda>i. f (k + i)) [0..<n]" for f :: "nat \<Rightarrow> 'a" and k n
    by (rule nth_equalityI) simp_all
  moreover have "r + of_nat (unat (m - r) + i) = m + of_nat i" for i by simp
  ultimately show ?thesis by (simp add: ring_items_def n upt_add_eq_append [of 0])
qed

end

end
