(* ===== verification/Vmtree.thy ===== *)
theory Vmtree
  imports Vm
begin

text \<open>
  Page tables (\<^verbatim>\<open>kernel/vm.c\<close>) seen from above: the table pages form a tree, \<^verbatim>\<open>walk\<close> with allocation
  only adds empty tables to it, and \<^verbatim>\<open>mappages\<close> and \<^verbatim>\<open>walkaddr\<close> are update and lookup of the map it
  stands for.
\<close>

section \<open>Page tables as trees\<close>

text \<open>
  Below, a page table is described by its memory alone. \<open>ent m pt i\<close> is an entry of a table
  page, \<open>tables l m pt\<close> the set of table pages reachable from a table of level \<open>l\<close>, and
  \<open>pt_tree\<close> says that they form a tree: no table page is reached twice. \<open>leaf_slot\<close> is the
  address of the last-level entry for a virtual address, if the tables above it exist, and
  \<open>leaf_pte\<close> its value.
\<close>

definition ent :: "(uint64 \<Rightarrow> uchar) \<Rightarrow> uint64 \<Rightarrow> nat \<Rightarrow> uint64" where
  "ent m pt i = get64 m (pt + 8 * of_nat i)"

definition valid :: "uint64 \<Rightarrow> bool" where
  "valid e \<longleftrightarrow> e AND PTE_V \<noteq> 0"

definition px :: "nat \<Rightarrow> uint64 \<Rightarrow> nat" where
  "px l va = unat (PX l va)"

lemma px_less [simp]: "px l va < 512"
  by (simp add: px_def unat_PX_less)

lemma pte_addr_px: "pte_addr pt l va = pt + 8 * of_nat (px l va)"
  by (simp add: pte_addr_def px_def)

fun tables :: "nat \<Rightarrow> (uint64 \<Rightarrow> uchar) \<Rightarrow> uint64 \<Rightarrow> uint64 set" where
  "tables 0 m pt = {pt}"
| "tables (Suc l) m pt =
     insert pt (\<Union>i\<in>{i. i < 512 \<and> valid (ent m pt i)}. tables l m (PTE2PA (ent m pt i)))"

fun pt_tree :: "nat \<Rightarrow> (uint64 \<Rightarrow> uchar) \<Rightarrow> uint64 \<Rightarrow> bool" where
  "pt_tree 0 m pt = page_aligned pt"
| "pt_tree (Suc l) m pt \<longleftrightarrow> page_aligned pt \<and>
     (\<forall>i<512. valid (ent m pt i) \<longrightarrow>
       pt_tree l m (PTE2PA (ent m pt i)) \<and> pt \<notin> tables l m (PTE2PA (ent m pt i))) \<and>
     (\<forall>i<512. \<forall>j<512. i \<noteq> j \<and> valid (ent m pt i) \<and> valid (ent m pt j) \<longrightarrow>
       tables l m (PTE2PA (ent m pt i)) \<inter> tables l m (PTE2PA (ent m pt j)) = {})"

fun leaf_slot :: "nat \<Rightarrow> (uint64 \<Rightarrow> uchar) \<Rightarrow> uint64 \<Rightarrow> uint64 \<Rightarrow> uint64 option" where
  "leaf_slot 0 m pt va = Some (pte_addr pt 0 va)"
| "leaf_slot (Suc l) m pt va =
     (if valid (ent m pt (px (Suc l) va)) then leaf_slot l m (PTE2PA (ent m pt (px (Suc l) va))) va else None)"

definition leaf_pte :: "nat \<Rightarrow> (uint64 \<Rightarrow> uchar) \<Rightarrow> uint64 \<Rightarrow> uint64 \<Rightarrow> uint64" where
  "leaf_pte l m pt va = (case leaf_slot l m pt va of None \<Rightarrow> 0 | Some a \<Rightarrow> get64 m a)"

lemma leaf_pte_simps [simp]:
  "leaf_pte 0 m pt va = ent m pt (px 0 va)"
  "leaf_pte (Suc l) m pt va =
     (if valid (ent m pt (px (Suc l) va)) then leaf_pte l m (PTE2PA (ent m pt (px (Suc l) va))) va else 0)"
  by (simp_all add: leaf_pte_def ent_def pte_addr_px)

lemma child_tables: "i < 512 \<Longrightarrow> valid (ent m pt i) \<Longrightarrow> tables l m (PTE2PA (ent m pt i)) \<subseteq> tables (Suc l) m pt"
  by auto

lemma tables_self [simp]: "pt \<in> tables l m pt"
  by (cases l) auto

lemma pt_tree_aligned: "pt_tree l m pt \<Longrightarrow> page_aligned pt"
  by (cases l) auto

lemma tables_aligned: "pt_tree l m pt \<Longrightarrow> q \<in> tables l m pt \<Longrightarrow> page_aligned q"
proof (induction l arbitrary: pt)
  case 0
  then show ?case by simp
next
  case (Suc l)
  then show ?case by auto
qed

text \<open>Memory on one page unchanged, and changed on the pages of a set at most.\<close>

definition same_page :: "uint64 \<Rightarrow> (uint64 \<Rightarrow> uchar) \<Rightarrow> (uint64 \<Rightarrow> uchar) \<Rightarrow> bool" where
  "same_page q m m' \<longleftrightarrow> (\<forall>i<4096. m' (q + of_nat i) = m (q + of_nat i))"

definition changes :: "uint64 set \<Rightarrow> (uint64 \<Rightarrow> uchar) \<Rightarrow> (uint64 \<Rightarrow> uchar) \<Rightarrow> bool" where
  "changes C m m' \<longleftrightarrow> (\<forall>q. page_aligned q \<longrightarrow> q \<notin> C \<longrightarrow> same_page q m m')"

lemma changes_refl [simp]: "changes C m m"
  by (simp add: changes_def same_page_def)

lemma changes_trans: "changes C m m' \<Longrightarrow> changes D m' m'' \<Longrightarrow> changes (C \<union> D) m m''"
  by (simp add: changes_def same_page_def)

lemma changes_mono: "changes C m m' \<Longrightarrow> C \<subseteq> D \<Longrightarrow> changes D m m'"
  by (auto simp: changes_def)

lemma same_outside_changes: "same_outside pa m m' \<Longrightarrow> page_aligned pa \<Longrightarrow> changes {pa} m m'"
  using page_offset_diff by (auto simp: changes_def same_page_def same_outside_def)

lemma ent_same_page:
  assumes "same_page q m m'" "i < 512"
  shows "ent m' q i = ent m q i"
proof -
  have "load_bytes m' (q + 8 * of_nat i) 8 = load_bytes m (q + 8 * of_nat i) 8"
  proof (rule nth_equalityI)
    fix k assume "k < length (load_bytes m' (q + 8 * of_nat i) 8)"
    then have k: "k < 8" "8 * i + k < 4096" using assms(2) by auto
    have "q + 8 * of_nat i + of_nat k = q + of_nat (8 * i + k)" by (simp add: add.assoc)
    with assms(1) k show "load_bytes m' (q + 8 * of_nat i) 8 ! k = load_bytes m (q + 8 * of_nat i) 8 ! k"
      by (simp only: nth_load_bytes same_page_def)
  qed simp
  then show ?thesis by (simp add: ent_def get64_def)
qed

text \<open>What a table describes depends on its own pages only.\<close>

lemma tables_frame:
  assumes "\<And>q. q \<in> tables l m pt \<Longrightarrow> same_page q m m'"
  shows "tables l m' pt = tables l m pt \<and> (pt_tree l m' pt \<longleftrightarrow> pt_tree l m pt) \<and>
    leaf_slot l m' pt = leaf_slot l m pt \<and> leaf_pte l m' pt = leaf_pte l m pt"
  using assms
proof (induction l arbitrary: pt)
  case 0
  then have "ent m' pt i = ent m pt i" if "i < 512" for i using ent_same_page that by simp
  then show ?case by (simp add: fun_eq_iff)
next
  case (Suc l)
  have e: "ent m' pt i = ent m pt i" if "i < 512" for i using ent_same_page Suc.prems that by simp
  have c: "tables l m' c = tables l m c \<and> (pt_tree l m' c \<longleftrightarrow> pt_tree l m c) \<and>
      leaf_slot l m' c = leaf_slot l m c \<and> leaf_pte l m' c = leaf_pte l m c"
    if "i < 512" "valid (ent m pt i)" "c = PTE2PA (ent m pt i)" for i c
    using Suc.prems that by (intro Suc.IH) auto
  have t: "tables (Suc l) m' pt = tables (Suc l) m pt" using e c by (auto 4 3)
  have p: "pt_tree (Suc l) m' pt = pt_tree (Suc l) m pt" using e c by simp
  have s: "leaf_slot (Suc l) m' pt va = leaf_slot (Suc l) m pt va" for va using e c by simp
  have "leaf_pte (Suc l) m' pt va = leaf_pte (Suc l) m pt va" for va
    using e c by simp
  with t p s show ?case by blast
qed


lemma tables_frame_changes:
  assumes "changes C m m'" "pt_tree l m pt" "tables l m pt \<inter> C = {}"
  shows "tables l m' pt = tables l m pt" "pt_tree l m' pt" "leaf_slot l m' pt = leaf_slot l m pt"
    "leaf_pte l m' pt = leaf_pte l m pt"
proof -
  have "same_page q m m'" if "q \<in> tables l m pt" for q
    using assms tables_aligned [OF assms(2) that] that by (auto simp: changes_def)
  then show "tables l m' pt = tables l m pt" "pt_tree l m' pt" "leaf_slot l m' pt = leaf_slot l m pt"
    "leaf_pte l m' pt = leaf_pte l m pt"
    using tables_frame [of l m pt m'] assms(2) by blast+
qed

text \<open>Writing one entry.\<close>

lemma slot_distance:
  assumes "i < 512" "j < 512" "i \<noteq> j"
  shows "8 \<le> unat ((pt + 8 * of_nat i) - (pt + 8 * of_nat j :: uint64))"
proof -
  have u: "unat (8 * of_nat k :: uint64) = 8 * k" if "k < 512" for k
    using that by (simp add: unat_word_ariths unat_of_nat)
  have e: "(pt + 8 * of_nat i) - (pt + 8 * of_nat j :: uint64) = 8 * of_nat i - 8 * of_nat j" by simp
  have d: "unat (8 * of_nat i - 8 * of_nat j :: uint64) = (if j \<le> i then 8 * i - 8 * j else 8 * i + 2 ^ 64 - 8 * j)"
    using assms by (simp add: unat_sub_if' u)
  have "8 + 8 * j \<le> 8 * i + 2 ^ 64" using assms(2) by simp
  moreover have "8 + 8 * j \<le> 8 * i" if "j \<le> i" using assms(3) that by simp
  ultimately show ?thesis unfolding e d by (simp add: le_diff_conv2)
qed

lemma ent_set64:
  assumes "i < 512" "j < 512"
  shows "ent (set64 m (pt + 8 * of_nat i) v) pt j = (if j = i then v else ent m pt j)"
  using assms slot_distance get64_set64_word_disj by (simp add: ent_def)

lemma set64_same_outside: "i < 512 \<Longrightarrow> same_outside pt m (set64 m (pt + 8 * of_nat i) v)"
  using same_outside_store [of "8 * i" "to_le 8 (unat v)" pt m] by (simp add: set64_def)

lemma leaf_slot_page:
  assumes "leaf_slot l m pt va = Some a"
  shows "\<exists>q\<in>tables l m pt. a = q + 8 * of_nat (px 0 va)"
  using assms
proof (induction l arbitrary: pt)
  case 0
  then show ?case by (simp add: pte_addr_px)
next
  case (Suc l)
  then obtain q where "q \<in> tables l m (PTE2PA (ent m pt (px (Suc l) va)))" "a = q + 8 * of_nat (px 0 va)"
    by (auto split: if_splits)
  with Suc.prems show ?case by (auto split: if_splits intro!: bexI [of _ q])
qed

definition same_indices :: "nat \<Rightarrow> uint64 \<Rightarrow> uint64 \<Rightarrow> bool" where
  "same_indices l va va' \<longleftrightarrow> (\<forall>k\<le>l. px k va = px k va')"

lemma same_indices_Suc: "same_indices (Suc l) va va' \<longleftrightarrow> px (Suc l) va = px (Suc l) va' \<and> same_indices l va va'"
  by (auto simp: same_indices_def le_Suc_eq)

text \<open>Writing the entry for \<open>va\<close> changes the entry for \<open>va\<close> and no other.\<close>

lemma leaf_write:
  assumes "pt_tree l m pt" "leaf_slot l m pt va = Some a" "m' = set64 m a v"
  shows "tables l m' pt = tables l m pt \<and> pt_tree l m' pt \<and> leaf_slot l m' pt = leaf_slot l m pt \<and>
    changes (tables l m pt) m m' \<and>
    leaf_pte l m' pt va' = (if same_indices l va' va then v else leaf_pte l m pt va')"
  using assms
proof (induction l arbitrary: pt)
  case 0
  then have m': "m' = set64 m (pt + 8 * of_nat (px 0 va)) v" by (simp add: pte_addr_px)
  then have "changes {pt} m m'" using 0 same_outside_changes [OF set64_same_outside [OF px_less]] by simp
  moreover have "leaf_slot 0 m' pt = leaf_slot 0 m pt" by (rule ext) simp
  ultimately show ?case using 0(1) by (simp add: m' ent_set64 same_indices_def)
next
  case (Suc l)
  let ?i = "px (Suc l) va"
  let ?c = "PTE2PA (ent m pt ?i)"
  have v: "valid (ent m pt ?i)" and a: "leaf_slot l m ?c va = Some a"
    using Suc.prems(2) by (auto split: if_splits)
  have tree: "pt_tree l m ?c" "pt \<notin> tables l m ?c" using Suc.prems(1) v by simp_all
  note ih = Suc.IH [OF tree(1) a Suc.prems(3)]
  have e: "ent m' pt j = ent m pt j" if "j < 512" for j
  proof (rule ent_same_page [OF _ that])
    show "same_page pt m m'" using ih tree(2) Suc.prems(1) by (simp add: changes_def)
  qed
  have other: "tables l m' (PTE2PA (ent m pt j)) = tables l m (PTE2PA (ent m pt j)) \<and>
      pt_tree l m' (PTE2PA (ent m pt j)) \<and>
      leaf_slot l m' (PTE2PA (ent m pt j)) = leaf_slot l m (PTE2PA (ent m pt j)) \<and>
      (j \<noteq> ?i \<longrightarrow> leaf_pte l m' (PTE2PA (ent m pt j)) = leaf_pte l m (PTE2PA (ent m pt j)))"
    if j: "j < 512" "valid (ent m pt j)" for j
  proof (cases "j = ?i")
    case True
    with ih show ?thesis by simp
  next
    case False
    have "pt_tree l m (PTE2PA (ent m pt j))" "tables l m (PTE2PA (ent m pt j)) \<inter> tables l m ?c = {}"
      using Suc.prems(1) j False v by simp_all
    with ih tables_frame_changes [of "tables l m ?c" m m' l "PTE2PA (ent m pt j)"] show ?thesis by simp
  qed
  have "tables (Suc l) m' pt = tables (Suc l) m pt" using e other by auto
  moreover have "pt_tree (Suc l) m' pt" using Suc.prems(1) e other by simp
  moreover have "leaf_slot (Suc l) m' pt = leaf_slot (Suc l) m pt" using e other by (simp add: fun_eq_iff)
  moreover have "changes (tables (Suc l) m pt) m m'"
    by (rule changes_mono [of "tables l m ?c"]) (use ih v in \<open>auto intro!: exI [of _ ?i]\<close>)
  moreover have "leaf_pte (Suc l) m' pt va' = (if same_indices (Suc l) va' va then v else leaf_pte (Suc l) m pt va')"
    using e other [of "px (Suc l) va'"] ih v
    by (cases "px (Suc l) va' = ?i") (simp_all add: same_indices_Suc)
  ultimately show ?case by blast
qed

section \<open>Walking with allocation\<close>

lemma zero_page_ent:
  assumes "i < 512"
  shows "ent (mem (zero_page p s)) p i = 0"
proof -
  have "mem (zero_page p s) (p + 8 * of_nat i + of_nat k) = 0" if "k < 8" for k
  proof -
    have "p + 8 * of_nat i + of_nat k - p = (of_nat (8 * i + k) :: uint64)" by simp
    then have "unat (p + 8 * of_nat i + of_nat k - p) = 8 * i + k"
      using assms that unat_of_nat_small [of "8 * i + k", where 'w = 64] by simp
    then show ?thesis using assms that by (simp add: zero_page_def memset_word)
  qed
  then have "load_bytes (mem (zero_page p s)) (p + 8 * of_nat i) 8 = replicate 8 0"
    by (intro nth_equalityI) simp_all
  then show ?thesis by (simp add: ent_def get64_def numeral_eq_Suc)
qed

lemma valid_0 [simp]: "\<not> valid 0"
  by (simp add: valid_def)

lemma empty_table:
  assumes "\<And>i. i < 512 \<Longrightarrow> ent m p i = 0" "page_aligned p"
  shows "tables l m p = {p}" "pt_tree l m p" "leaf_pte l m p va = 0"
  using assms by (cases l; simp)+

text \<open>
  The state in which page tables are changed: the table is a tree, and none of its pages is
  on the free list.
\<close>

definition vm_at :: "nat \<Rightarrow> uint64 \<Rightarrow> uint64 list \<Rightarrow> 'z kmem_scheme \<Rightarrow> bool" where
  "vm_at l pt fl s \<longleftrightarrow> free_pages s fl \<and> pt_tree l (mem s) pt \<and> tables l (mem s) pt \<inter> set fl = {}"

lemma valid_PA2PTE [simp]: "valid (PA2PTE p OR 1)"
proof -
  have "(PA2PTE p OR 1) AND 1 = 1" by (rule bit_word_eqI) (auto simp: bit_simps)
  then show ?thesis by (simp add: valid_def)
qed

lemma PTE2PA_table [simp]: "page_aligned p \<Longrightarrow> PTE2PA (PA2PTE p OR 1) = p"
  by (rule PTE2PA_PA2PTE) simp_all


text \<open>A change inside one subtree and on pages outside the tree, seen from the table above.\<close>

lemma lift_child:
  assumes tree: "pt_tree (Suc l) m pt" and i: "i < 512" "valid (ent m pt i)" and c: "c = PTE2PA (ent m pt i)"
    and ch: "changes (tables l m c \<union> F) m m'" and F: "tables (Suc l) m pt \<inter> F = {}"
    and new: "pt_tree l m' c" "tables l m' c \<subseteq> tables l m c \<union> F"
  shows "\<forall>j<512. ent m' pt j = ent m pt j" "pt_tree (Suc l) m' pt"
    "tables (Suc l) m' pt \<subseteq> tables (Suc l) m pt \<union> tables l m' c"
    "leaf_pte l m' c = leaf_pte l m c \<Longrightarrow> leaf_pte (Suc l) m' pt = leaf_pte (Suc l) m pt"
proof -
  have pt: "pt \<notin> tables l m c" "page_aligned pt" "pt \<notin> F" using tree i c F by auto
  then have "same_page pt m m'" using ch by (simp add: changes_def)
  then have e: "\<And>j. j < 512 \<Longrightarrow> ent m' pt j = ent m pt j" by (rule ent_same_page)
  then show "\<forall>j<512. ent m' pt j = ent m pt j" by blast
  have other: "tables l m' (PTE2PA (ent m pt j)) = tables l m (PTE2PA (ent m pt j))"
      "pt_tree l m' (PTE2PA (ent m pt j))" "leaf_pte l m' (PTE2PA (ent m pt j)) = leaf_pte l m (PTE2PA (ent m pt j))"
      "tables l m (PTE2PA (ent m pt j)) \<inter> (tables l m c \<union> F) = {}"
    if j: "j < 512" "valid (ent m pt j)" "j \<noteq> i" for j
  proof -
    have t: "pt_tree l m (PTE2PA (ent m pt j))" "tables l m (PTE2PA (ent m pt j)) \<inter> tables l m c = {}"
      using tree i c j by simp_all
    have "tables l m (PTE2PA (ent m pt j)) \<subseteq> tables (Suc l) m pt" using j by auto
    with F t(2) show d: "tables l m (PTE2PA (ent m pt j)) \<inter> (tables l m c \<union> F) = {}" by blast
    show "tables l m' (PTE2PA (ent m pt j)) = tables l m (PTE2PA (ent m pt j))"
      "pt_tree l m' (PTE2PA (ent m pt j))" "leaf_pte l m' (PTE2PA (ent m pt j)) = leaf_pte l m (PTE2PA (ent m pt j))"
      using tables_frame_changes [OF ch t(1) d] by simp_all
  qed
  have ptc: "pt \<notin> tables l m' c" using new(2) pt by blast
  have "pt_tree l m' (PTE2PA (ent m pt j)) \<and> pt \<notin> tables l m' (PTE2PA (ent m pt j))"
    if "j < 512" "valid (ent m pt j)" for j
    using that other(1,2) [of j] tree new(1) ptc c by (cases "j = i") auto
  moreover have "tables l m' (PTE2PA (ent m pt j)) \<inter> tables l m' (PTE2PA (ent m pt k)) = {}"
    if "j < 512" "k < 512" "j \<noteq> k" "valid (ent m pt j)" "valid (ent m pt k)" for j k
  proof (cases "j = i \<or> k = i")
    case True
    then show ?thesis using that other(1,4) [of j] other(1,4) [of k] new(2) c by auto
  next
    case False
    then show ?thesis using that other(1) tree by simp
  qed
  ultimately show "pt_tree (Suc l) m' pt" using e pt(2) by simp
  have sub: "tables l m' (PTE2PA (ent m pt j)) \<subseteq> tables (Suc l) m pt \<union> tables l m' c"
    if "j < 512" "valid (ent m pt j)" for j
    using that other(1) [of j] c by (cases "j = i") auto
  show "tables (Suc l) m' pt \<subseteq> tables (Suc l) m pt \<union> tables l m' c"
  proof
    fix x assume "x \<in> tables (Suc l) m' pt"
    then consider "x = pt" | j where "j < 512" "valid (ent m pt j)" "x \<in> tables l m' (PTE2PA (ent m pt j))"
      using e by auto
    then show "x \<in> tables (Suc l) m pt \<union> tables l m' c" using sub by cases (simp, blast)
  qed
  show "leaf_pte (Suc l) m' pt = leaf_pte (Suc l) m pt" if "leaf_pte l m' c = leaf_pte l m c"
  proof
    fix va
    show "leaf_pte (Suc l) m' pt va = leaf_pte (Suc l) m pt va"
      using e other(3) [of "px (Suc l) va"] that c i by (cases "px (Suc l) va = i") simp_all
  qed
qed

text \<open>A new, empty table entered where there was none.\<close>

lemma add_child:
  assumes tree: "pt_tree (Suc l) m pt" and i: "i < 512" "\<not> valid (ent m pt i)"
    and p: "page_aligned p" "p \<notin> tables (Suc l) m pt" and m2: "changes {p} m m2" "\<And>j. j < 512 \<Longrightarrow> ent m2 p j = 0"
    and m3: "m3 = set64 m2 (pt + 8 * of_nat i) (PA2PTE p OR PTE_V)"
  shows "ent m3 pt i = PA2PTE p OR PTE_V" "pt_tree (Suc l) m3 pt" "tables l m3 p = {p}"
    "tables (Suc l) m3 pt = insert p (tables (Suc l) m pt)" "leaf_pte (Suc l) m3 pt = leaf_pte (Suc l) m pt"
    "changes {p, pt} m m3"
proof -
  have al: "page_aligned pt" "p \<noteq> pt" using tree p(2) by auto
  have c3: "changes {pt} m2 m3" using m3 i al by (auto intro: same_outside_changes set64_same_outside)
  show ch: "changes {p, pt} m m3" using changes_trans [OF m2(1) c3] by (simp add: insert_commute)
  have "same_page pt m m2" using m2(1) al by (simp add: changes_def)
  then have e: "ent m3 pt j = (if j = i then PA2PTE p OR PTE_V else ent m pt j)" if "j < 512" for j
    using that i m3 ent_same_page [of pt m m2 j] by (simp add: ent_set64)
  then show ei: "ent m3 pt i = PA2PTE p OR PTE_V" using i by simp
  have "same_page p m2 m3" using c3 p(1) al by (simp add: changes_def)
  then have z: "ent m3 p j = 0" if "j < 512" for j using that m2(2) ent_same_page by simp
  show tp: "tables l m3 p = {p}" using empty_table(1) z p(1) by blast
  have other: "tables l m3 (PTE2PA (ent m pt j)) = tables l m (PTE2PA (ent m pt j))"
      "pt_tree l m3 (PTE2PA (ent m pt j))" "leaf_pte l m3 (PTE2PA (ent m pt j)) = leaf_pte l m (PTE2PA (ent m pt j))"
      "p \<notin> tables l m (PTE2PA (ent m pt j))" "pt \<notin> tables l m (PTE2PA (ent m pt j))"
    if j: "j < 512" "valid (ent m pt j)" for j
  proof -
    have "tables l m (PTE2PA (ent m pt j)) \<subseteq> tables (Suc l) m pt" using j by auto
    then show d: "p \<notin> tables l m (PTE2PA (ent m pt j))" "pt \<notin> tables l m (PTE2PA (ent m pt j))"
      using p(2) tree j by auto
    have "pt_tree l m (PTE2PA (ent m pt j))" using tree j by simp
    from tables_frame_changes [OF ch this] d
    show "tables l m3 (PTE2PA (ent m pt j)) = tables l m (PTE2PA (ent m pt j))"
      "pt_tree l m3 (PTE2PA (ent m pt j))" "leaf_pte l m3 (PTE2PA (ent m pt j)) = leaf_pte l m (PTE2PA (ent m pt j))"
      by simp_all
  qed
  have "pt_tree l m3 p" using empty_table(2) z p(1) by blast
  then show "pt_tree (Suc l) m3 pt"
    using e other tree al p(1) tp by (simp split: if_splits)
  have "x \<in> tables (Suc l) m3 pt \<longleftrightarrow> x = p \<or> x \<in> tables (Suc l) m pt" for x
  proof -
    have "x \<in> tables (Suc l) m3 pt \<longleftrightarrow> x = pt \<or> (\<exists>j<512. valid (ent m3 pt j) \<and> x \<in> tables l m3 (PTE2PA (ent m3 pt j)))"
      by auto
    also have "\<dots> \<longleftrightarrow> x = pt \<or> x = p \<or> (\<exists>j<512. valid (ent m pt j) \<and> x \<in> tables l m (PTE2PA (ent m pt j)))"
    proof -
      have "valid (ent m3 pt j) \<and> x \<in> tables l m3 (PTE2PA (ent m3 pt j)) \<longleftrightarrow>
          j = i \<and> x = p \<or> j \<noteq> i \<and> valid (ent m pt j) \<and> x \<in> tables l m (PTE2PA (ent m pt j))" if "j < 512" for j
        using that e other(1) [of j] tp p(1) by auto
      then show ?thesis using i by blast
    qed
    finally show ?thesis by auto
  qed
  then show "tables (Suc l) m3 pt = insert p (tables (Suc l) m pt)" by blast
  show "leaf_pte (Suc l) m3 pt = leaf_pte (Suc l) m pt"
  proof
    fix va
    show "leaf_pte (Suc l) m3 pt va = leaf_pte (Suc l) m pt va"
      using e other(3) [of "px (Suc l) va"] i p(1) empty_table(3) [OF z p(1), of l va] by simp
  qed
qed

text \<open>
  \<^verbatim>\<open>walk\<close> with allocation adds empty tables where they are missing; every virtual address keeps
  its translation.
\<close>

definition walk_post :: "nat \<Rightarrow> uint64 \<Rightarrow> uint64 list \<Rightarrow> uint64 \<Rightarrow> uint64 \<Rightarrow> 'z kmem_scheme \<Rightarrow> 'z kmem_scheme \<Rightarrow> bool" where
  "walk_post l pt fl va a s s' \<longleftrightarrow>
     (\<exists>fl'. vm_at l pt fl' s' \<and> set fl' \<subseteq> set fl) \<and> tables l (mem s') pt \<subseteq> tables l (mem s) pt \<union> set fl \<and>
     changes (tables l (mem s) pt \<union> set fl) (mem s) (mem s') \<and> leaf_pte l (mem s') pt = leaf_pte l (mem s) pt \<and>
     leaf_slot l (mem s') pt va = Some a \<and> kend s' = kend s \<and> kmem.more s' = kmem.more s"

lemma walk_alloc_lift:
  assumes at: "vm_at (Suc l) pt fl s" and v: "valid (ent (mem s) pt (px (Suc l) va))"
    and c: "c = PTE2PA (ent (mem s) pt (px (Suc l) va))" and post: "walk_post l c fl va a s s'"
  shows "walk_post (Suc l) pt fl va a s s'"
proof -
  let ?i = "px (Suc l) va"
  have tree: "pt_tree (Suc l) (mem s) pt" and disj: "tables (Suc l) (mem s) pt \<inter> set fl = {}"
    using at by (simp_all add: vm_at_def)
  have sub: "tables l (mem s) c \<subseteq> tables (Suc l) (mem s) pt" using v c by (auto intro!: exI [of _ ?i])
  obtain fl' where fl': "vm_at l c fl' s'" "set fl' \<subseteq> set fl" using post by (auto simp: walk_post_def)
  have p: "tables l (mem s') c \<subseteq> tables l (mem s) c \<union> set fl" "leaf_pte l (mem s') c = leaf_pte l (mem s) c"
      "changes (tables l (mem s) c \<union> set fl) (mem s) (mem s')" "leaf_slot l (mem s') c va = Some a"
      "kend s' = kend s" "kmem.more s' = kmem.more s"
    using post by (simp_all add: walk_post_def)
  have "pt_tree l (mem s') c" using fl' by (simp add: vm_at_def)
  note lift = lift_child [OF tree px_less v c p(3) disj this p(1)]
  have "vm_at (Suc l) pt fl' s'"
    using fl' lift(2,3) disj by (auto simp: vm_at_def simp del: tables.simps pt_tree.simps)
  moreover have "tables (Suc l) (mem s') pt \<subseteq> tables (Suc l) (mem s) pt \<union> set fl" using lift(3) p(1) sub by blast
  moreover have "changes (tables (Suc l) (mem s) pt \<union> set fl) (mem s) (mem s')"
    using p(3) by (rule changes_mono) (use sub in blast)
  ultimately show ?thesis using fl'(2) lift(1,4) p(2,4,5,6) v c by (auto simp: walk_post_def simp del: tables.simps)
qed

lemma walk_new_table:
  assumes at: "vm_at (Suc l) pt (p # fl) s" and nv: "\<not> valid (ent (mem s) pt (px (Suc l) va))"
    and run: "walk_from (Suc l) pt va True s = (a, s')"
  obtains s3 where "walk_from l p va True s3 = (a, s')" "vm_at (Suc l) pt fl s3" "vm_at l p fl s3"
    "ent (mem s3) pt (px (Suc l) va) = PA2PTE p OR PTE_V" "page_aligned p"
    "tables (Suc l) (mem s3) pt = insert p (tables (Suc l) (mem s) pt)"
    "leaf_pte (Suc l) (mem s3) pt = leaf_pte (Suc l) (mem s) pt" "changes {p, pt} (mem s) (mem s3)"
    "kend s3 = kend s" "kmem.more s3 = kmem.more s"
proof -
  let ?i = "px (Suc l) va"
  have tree: "pt_tree (Suc l) (mem s) pt" and fp: "free_pages s (p # fl)"
    and disj: "tables (Suc l) (mem s) pt \<inter> set (p # fl) = {}"
    using at by (simp_all add: vm_at_def)
  have p: "page_aligned p" "p \<notin> set fl" "p \<noteq> 0" "page_aligned pt" "pt \<notin> set fl"
    using fp tree disj by (auto simp: free_pages_def)
  obtain s1 where s1: "kalloc s = (p, s1)" "free_pages s1 fl" "same_outside p (mem s) (mem s1)"
      "kend s1 = kend s" "kmem.more s1 = kmem.more s"
    using kalloc_Cons [OF fp] by metis
  let ?s2 = "zero_page p s1" and ?v = "PA2PTE p OR PTE_V"
  let ?s3 = "set_pte (pte_addr pt (Suc l) va) ?v ?s2"
  have m3: "mem ?s3 = set64 (mem ?s2) (pt + 8 * of_nat ?i) ?v" by (simp add: set_pte_def pte_addr_px)
  have so: "same_outside p (mem s1) (mem ?s2)" by (simp add: zero_page_def)
  have ch: "changes {p} (mem s) (mem ?s2)"
    using same_outside_trans [OF s1(3) so] p(1) by (rule same_outside_changes)
  have "free_pages ?s2 fl"
    using free_pages_frame [OF s1(2) p(1,2) so] by (simp add: zero_page_def)
  then have fp3: "free_pages ?s3 fl"
    using free_pages_frame [OF _ p(4,5), of ?s2] set64_same_outside [OF px_less, of pt "mem ?s2" "Suc l" va ?v]
    by (simp add: set_pte_def pte_addr_px)
  have "p \<notin> tables (Suc l) (mem s) pt" using disj by auto
  note add = add_child [OF tree px_less nv p(1) this ch zero_page_ent m3]
  have "pt_tree l (mem ?s3) p"
    using add(1,2) p(1) by (auto dest!: spec [of _ ?i])
  show ?thesis
  proof (rule that [of ?s3])
    show "walk_from l p va True ?s3 = (a, s')"
      using run nv s1(1) p(3) by (simp add: valid_def pte_at_def pte_addr_px ent_def Let_def)
    show "vm_at (Suc l) pt fl ?s3"
      using fp3 add(2,4) disj p(2) by (auto simp: vm_at_def simp del: tables.simps pt_tree.simps)
    show "vm_at l p fl ?s3" using fp3 add(3) \<open>pt_tree l (mem ?s3) p\<close> p(2) by (simp add: vm_at_def)
  qed (use add p s1 in \<open>simp_all add: set_pte_def zero_page_def\<close>)
qed

lemma walk_alloc:
  assumes "vm_at l pt fl s" "walk_from l pt va True s = (a, s')" "a \<noteq> 0"
  shows "walk_post l pt fl va a s s'"
  using assms
proof (induction l arbitrary: pt s fl)
  case 0
  then show ?case by (auto simp: walk_post_def)
next
  case (Suc l)
  let ?i = "px (Suc l) va"
  let ?e = "ent (mem s) pt ?i"
  have at: "pte_at s (pte_addr pt (Suc l) va) = ?e" by (simp add: pte_at_def pte_addr_px ent_def)
  show ?case
  proof (cases "valid ?e")
    case True
    have "tables l (mem s) (PTE2PA ?e) \<subseteq> tables (Suc l) (mem s) pt" using True by (intro child_tables px_less)
    moreover have "pt_tree l (mem s) (PTE2PA ?e)" using Suc.prems(1) True px_less by (simp add: vm_at_def)
    ultimately have "vm_at l (PTE2PA ?e) fl s"
      using Suc.prems(1) by (auto simp: vm_at_def simp del: tables.simps pt_tree.simps)
    moreover have "walk_from l (PTE2PA ?e) va True s = (a, s')"
      using Suc.prems(2) at True by (simp add: valid_def Let_def)
    ultimately have "walk_post l (PTE2PA ?e) fl va a s s'" using Suc.IH Suc.prems(3) by blast
    then show ?thesis by (rule walk_alloc_lift [OF Suc.prems(1) True refl])
  next
    case False
    obtain p fl1 where fl: "fl = p # fl1"
      using Suc.prems False at kalloc_Nil [of s] by (cases fl) (auto simp: valid_def vm_at_def Let_def)
    obtain s3 where s3: "walk_from l p va True s3 = (a, s')" "vm_at (Suc l) pt fl1 s3" "vm_at l p fl1 s3"
        "ent (mem s3) pt ?i = PA2PTE p OR PTE_V" "page_aligned p"
        "tables (Suc l) (mem s3) pt = insert p (tables (Suc l) (mem s) pt)"
        "leaf_pte (Suc l) (mem s3) pt = leaf_pte (Suc l) (mem s) pt" "changes {p, pt} (mem s) (mem s3)"
        "kend s3 = kend s" "kmem.more s3 = kmem.more s"
      by (rule walk_new_table [OF Suc.prems(1) [unfolded fl] False Suc.prems(2)])
    have v: "valid (ent (mem s3) pt ?i)" and c: "p = PTE2PA (ent (mem s3) pt ?i)" using s3(4,5) by simp_all
    have post: "walk_post (Suc l) pt fl1 va a s3 s'"
      by (rule walk_alloc_lift [OF s3(2) v c Suc.IH [OF s3(3,1) Suc.prems(3)]])
    have "changes (tables (Suc l) (mem s) pt \<union> set fl) (mem s) (mem s')"
    proof (rule changes_mono [OF changes_trans [OF s3(8)]])
      show "changes (tables (Suc l) (mem s3) pt \<union> set fl1) (mem s3) (mem s')" using post by (simp add: walk_post_def)
    qed (use s3(6) fl in \<open>auto simp del: tables.simps\<close>)
    with post s3(6,7,9,10) fl show ?thesis by (auto simp: walk_post_def simp del: tables.simps)
  qed
qed

section \<open>What mappages does to the table\<close>

lemma px_pages:
  "px 0 va = unat va div 4096 mod 512" "px (Suc 0) va = unat va div 4096 div 512 mod 512"
  "px 2 va = unat va div 4096 div 262144 mod 512"
  by (simp_all only: px_def unat_PX div_mult2_eq [symmetric]) simp_all

lemma same_indices_page:
  assumes "va < MAXVA" "va' < MAXVA"
  shows "same_indices 2 va va' \<longleftrightarrow> unat va div 4096 = unat va' div 4096"
proof
  assume "same_indices 2 va va'"
  then have "px 0 va = px 0 va'" "px 1 va = px 1 va'" "px 2 va = px 2 va'" by (simp_all add: same_indices_def)
  with va_decompose [OF assms(1)] va_decompose [OF assms(2)]
  have "unat va - unat va mod 4096 = unat va' - unat va' mod 4096" by (simp only: px_def)
  then show "unat va div 4096 = unat va' div 4096" by (simp add: minus_mod_eq_mult_div)
next
  assume "unat va div 4096 = unat va' div 4096"
  then show "same_indices 2 va va'" by (auto simp: same_indices_def px_pages le_Suc_eq numeral_2_eq_2
        px_pages(3) [unfolded numeral_2_eq_2])
qed

lemma leaf_pte_page: "same_indices l va va' \<Longrightarrow> leaf_pte l m pt va = leaf_pte l m pt va'"
  by (induction l arbitrary: pt) (auto simp: same_indices_Suc same_indices_def)

lemma set_leaf:
  assumes at: "vm_at 2 pt fl s" and slot: "leaf_slot 2 (mem s) pt a = Some pte" and a: "a < MAXVA"
  shows "vm_at 2 pt fl (set_pte pte v s)" "tables 2 (mem (set_pte pte v s)) pt = tables 2 (mem s) pt"
    and "va < MAXVA \<Longrightarrow> leaf_pte 2 (mem (set_pte pte v s)) pt va =
      (if unat va div 4096 = unat a div 4096 then v else leaf_pte 2 (mem s) pt va)"
proof -
  have m: "mem (set_pte pte v s) = set64 (mem s) pte v" by (simp add: set_pte_def)
  have tree: "pt_tree 2 (mem s) pt" and fp: "free_pages s fl" and disj: "tables 2 (mem s) pt \<inter> set fl = {}"
    using at by (simp_all add: vm_at_def)
  note w = leaf_write [OF tree slot m]
  obtain q where q: "q \<in> tables 2 (mem s) pt" "pte = q + 8 * of_nat (px 0 a)"
    using leaf_slot_page [OF slot] by blast
  have "same_outside q (mem s) (mem (set_pte pte v s))" unfolding m unfolding q(2) by (rule set64_same_outside [OF px_less])
  moreover have "q \<notin> set fl" using q(1) disj by auto
  ultimately have "free_pages (set_pte pte v s) fl"
    using free_pages_frame [OF fp tables_aligned [OF tree q(1)]] by (simp add: set_pte_def)
  with w disj show "vm_at 2 pt fl (set_pte pte v s)" by (simp add: vm_at_def)
  show "tables 2 (mem (set_pte pte v s)) pt = tables 2 (mem s) pt" using w by blast
  show "va < MAXVA \<Longrightarrow> leaf_pte 2 (mem (set_pte pte v s)) pt va =
      (if unat va div 4096 = unat a div 4096 then v else leaf_pte 2 (mem s) pt va)"
    using w same_indices_page [OF _ a] by metis
qed

definition maps_range :: "nat \<Rightarrow> nat \<Rightarrow> (uint64 \<Rightarrow> uint64) \<Rightarrow> (uint64 \<Rightarrow> uint64) \<Rightarrow> (uint64 \<Rightarrow> uint64) \<Rightarrow> bool" where
  "maps_range p q f old new \<longleftrightarrow> p \<le> q \<and> (\<forall>va. va < MAXVA \<longrightarrow>
     (if p \<le> unat va div 4096 \<and> unat va div 4096 \<le> q then \<not> valid (old va) \<and> new va = f va else new va = old va))"

lemma maps_range_step:
  assumes "maps_range (Suc p) q f mid new"
    "\<And>va. va < MAXVA \<Longrightarrow> mid va = (if unat va div 4096 = p then f va else old va)"
    "\<And>va. va < MAXVA \<Longrightarrow> unat va div 4096 = p \<Longrightarrow> \<not> valid (old va)"
  shows "maps_range p q f old new"
  using assms by (auto simp: maps_range_def Suc_le_eq split: if_splits)

lemma mappages_from_maps:
  assumes "mappages_from pt a a_last pa perm s = Inr (0, s')" "vm_at 2 pt fl s" "page_aligned a" "page_aligned a_last"
  shows "maps_range (unat a div 4096) (unat a_last div 4096)
      (\<lambda>va. PA2PTE (pa + (PGROUNDDOWN va - a)) OR perm OR PTE_V)
      (leaf_pte 2 (mem s) pt) (leaf_pte 2 (mem s') pt) \<and> (\<exists>fl'. vm_at 2 pt fl' s' \<and> set fl' \<subseteq> set fl) \<and>
      tables 2 (mem s') pt \<subseteq> tables 2 (mem s) pt \<union> set fl"
  using assms
proof (induction pt a a_last pa perm s arbitrary: fl rule: mappages_from.induct)
  case (1 pt a a_last pa perm s)
  let ?f = "\<lambda>va. PA2PTE (pa + (PGROUNDDOWN va - a)) OR perm OR PTE_V"
  obtain pte s1 where walk: "walk pt a True s = Inr (pte, s1)" and pte: "pte \<noteq> 0" "\<not> valid (pte_at s1 pte)"
    using 1(2) by (auto simp: mappages_from.simps [of pt a] rbind_eq_Inr valid_def split: if_splits)
  have a: "a < MAXVA" "walk_from 2 pt a True s = (pte, s1)" using walk by (auto simp: walk_def split: if_splits)
  have post: "walk_post 2 pt fl a pte s s1" using walk_alloc [OF 1(3) a(2) pte(1)] .
  then obtain fl1 where fl1: "vm_at 2 pt fl1 s1" "set fl1 \<subseteq> set fl" by (auto simp: walk_post_def)
  have slot: "leaf_slot 2 (mem s1) pt a = Some pte" and keep: "leaf_pte 2 (mem s1) pt = leaf_pte 2 (mem s) pt"
    using post by (simp_all add: walk_post_def)
  let ?s2 = "set_pte pte (PA2PTE pa OR perm OR PTE_V) s1"
  note set = set_leaf [OF fl1(1) slot a(1), where v = "PA2PTE pa OR perm OR PTE_V"]
  have sub: "tables 2 (mem ?s2) pt \<subseteq> tables 2 (mem s) pt \<union> set fl" using set(2) post by (simp add: walk_post_def)
  have page: "PGROUNDDOWN va = a" if "unat va div 4096 = unat a div 4096" for va
    using 1(4) that by (auto simp: word_unat_eq_iff unat_PGROUNDDOWN page_aligned_iff)
  have mid: "leaf_pte 2 (mem ?s2) pt va = (if unat va div 4096 = unat a div 4096 then ?f va else leaf_pte 2 (mem s) pt va)"
    if "va < MAXVA" for va using set(3) [OF that] page keep by simp
  have old: "\<not> valid (leaf_pte 2 (mem s) pt va)" if "va < MAXVA" "unat va div 4096 = unat a div 4096" for va
  proof -
    have "leaf_pte 2 (mem s1) pt a = pte_at s1 pte" using slot by (simp add: leaf_pte_def pte_at_def)
    moreover have "leaf_pte 2 (mem s1) pt va = leaf_pte 2 (mem s1) pt a"
      using that a(1) by (simp only: leaf_pte_page [of 2 va a] same_indices_page)
    ultimately show ?thesis using pte(2) keep by simp
  qed
  show ?case
  proof (cases "a = a_last")
    case True
    then have "s' = ?s2" using 1(2) walk pte by (simp add: mappages_from.simps [of pt a_last a_last] valid_def Let_def)
    then show ?thesis using True mid old set(1) fl1(2) sub by (auto simp: maps_range_def)
  next
    case False
    have lt: "unat a < 2 ^ 38" using unat_less_MAXVA a(1) by blast
    then have next_a: "unat (a + 4096) = unat a + 4096" using unat_add_lem [of a 4096] by simp
    have rec: "mappages_from pt (a + PGSIZE) a_last (pa + PGSIZE) perm ?s2 = Inr (0, s')"
      using 1(2) walk pte False by (simp add: mappages_from.simps [of pt a] valid_def Let_def)
    have al: "page_aligned (a + PGSIZE)" using 1(4) next_a by (simp add: page_aligned_iff)
    have ih: "maps_range (unat (a + PGSIZE) div 4096) (unat a_last div 4096)
        (\<lambda>va. PA2PTE (pa + PGSIZE + (PGROUNDDOWN va - (a + PGSIZE))) OR perm OR PTE_V)
        (leaf_pte 2 (mem ?s2) pt) (leaf_pte 2 (mem s') pt) \<and> (\<exists>fl'. vm_at 2 pt fl' s' \<and> set fl' \<subseteq> set fl1) \<and>
        tables 2 (mem s') pt \<subseteq> tables 2 (mem ?s2) pt \<union> set fl1"
      using walk pte False rec set(1) al 1(5) by (intro 1(1) [OF walk refl]) (auto simp: valid_def)
    have "unat (a + PGSIZE) div 4096 = Suc (unat a div 4096)" using next_a by simp
    moreover have "pa + PGSIZE + (PGROUNDDOWN va - (a + PGSIZE)) = pa + (PGROUNDDOWN va - a)" for va by simp
    ultimately have "maps_range (Suc (unat a div 4096)) (unat a_last div 4096) ?f
        (leaf_pte 2 (mem ?s2) pt) (leaf_pte 2 (mem s') pt)" using ih by simp
    note range = maps_range_step [OF this mid old]
    have fl': "\<exists>fl'. vm_at 2 pt fl' s' \<and> set fl' \<subseteq> set fl" using ih fl1(2) by (metis subset_trans)
    have "tables 2 (mem s') pt \<subseteq> tables 2 (mem ?s2) pt \<union> set fl1" using ih by (elim conjE)
    then have "tables 2 (mem s') pt \<subseteq> tables 2 (mem s) pt \<union> set fl" using sub fl1(2) by blast
    with range fl' show ?thesis by (intro conjI)
  qed
qed

lemma PGROUNDDOWN_le: "PGROUNDDOWN a \<le> PGROUNDDOWN b \<longleftrightarrow> unat a div 4096 \<le> unat b div 4096"
  by (simp add: word_le_nat_alt unat_PGROUNDDOWN)

text \<open>\<^verbatim>\<open>walkaddr\<close> reads the leaf entry.\<close>

lemma walk_from_slot:
  "fst (walk_from l pt va False s) = (case leaf_slot l (mem s) pt va of None \<Rightarrow> 0 | Some a \<Rightarrow> a)"
  by (induction l arbitrary: pt) (auto simp: Let_def pte_at_def pte_addr_px ent_def valid_def split: option.splits)

lemma slot_nonzero:
  assumes "pt_tree l m pt" "0 \<notin> tables l m pt"
  shows "leaf_slot l m pt va \<noteq> Some 0"
proof
  assume "leaf_slot l m pt va = Some 0"
  then obtain q where q: "q \<in> tables l m pt" "0 = q + 8 * of_nat (px 0 va)" using leaf_slot_page by blast
  have "page_aligned q" "q \<noteq> 0" using tables_aligned [OF assms(1) q(1)] q(1) assms(2) by auto
  moreover have "(0 :: uint64) + of_nat 0 = q + of_nat (8 * px 0 va)" using q(2) by simp
  moreover have "8 * px 0 va < 4096" using px_less [of 0 va] by simp
  ultimately show False using page_offset_diff [of q 0 "8 * px 0 va"] by (simp add: page_aligned_def)
qed

lemma walkaddr_leaf:
  assumes "pt_tree 2 (mem s) pt" "0 \<notin> tables 2 (mem s) pt" "va < MAXVA"
  shows "walkaddr pt va s = Inr (let e = leaf_pte 2 (mem s) pt va in
    if valid e \<and> e AND PTE_U \<noteq> 0 then PTE2PA e else 0)"
  using slot_nonzero [OF assms(1,2), of va] assms(3) walk_from_slot [of 2 pt va s]
  by (auto simp: walkaddr_def walk_leaf leaf_def leaf_pte_def Let_def valid_def pte_at_def split: option.splits)

lemma page_aligned_dvd: "page_aligned a \<longleftrightarrow> 4096 dvd unat a"
  by (simp add: page_aligned_iff mod_eq_0_iff_dvd)

lemma page_aligned_add: "page_aligned a \<Longrightarrow> page_aligned b \<Longrightarrow> page_aligned (a + b)"
  by (simp add: page_aligned_dvd unat_word_ariths dvd_mod_iff)

lemma page_aligned_minus: "page_aligned a \<Longrightarrow> page_aligned b \<Longrightarrow> page_aligned (a - b)"
  by (simp add: page_aligned_dvd unat_sub_if' dvd_diff_nat)

lemma leaf_entry:
  assumes "page_aligned pa" "unat perm < 1024" "perm AND PTE_U \<noteq> 0"
  shows "PTE2PA (PA2PTE pa OR perm OR PTE_V) = pa" "valid (PA2PTE pa OR perm OR PTE_V)"
    "(PA2PTE pa OR perm OR PTE_V) AND PTE_U \<noteq> 0"
proof -
  have "take_bit 10 (perm OR 1) = perm OR 1"
    using bit_flags_high [OF assms(2)] by (intro bit_word_eqI) (auto simp: bit_simps not_le [symmetric])
  then have "take_bit 10 (unat (perm OR 1)) = unat (perm OR 1)" by (metis unsigned_take_bit_eq)
  then have "unat (perm OR 1) < 1024" by (simp add: take_bit_nat_eq_self_iff)
  then show "PTE2PA (PA2PTE pa OR perm OR PTE_V) = pa" using PTE2PA_PA2PTE [OF assms(1)] by simp
  have "(PA2PTE pa OR perm OR 1) AND 1 = 1" by (rule bit_word_eqI) (auto simp: bit_simps)
  then show "valid (PA2PTE pa OR perm OR PTE_V)" by (simp add: valid_def)
  have "(x OR perm OR 1) AND 16 = (x AND 16) OR (perm AND 16)" for x :: uint64
    by (rule bit_word_eqI) (auto simp: bit_simps)
  with assms(3) show "(PA2PTE pa OR perm OR PTE_V) AND PTE_U \<noteq> 0" by (simp add: or_eq_0_iff)
qed

text \<open>With enough free pages the walk does not fail: it takes at most one page a level.\<close>

lemma walk_alloc_enough:
  assumes "vm_at l pt fl s" "l \<le> length fl" "0 \<notin> tables l (mem s) pt"
  shows "\<exists>a s' fl'. walk_from l pt va True s = (a, s') \<and> a \<noteq> 0 \<and> free_pages s' fl' \<and> length fl \<le> length fl' + l"
  using assms
proof (induction l arbitrary: pt s fl)
  case 0
  then have "pte_addr pt 0 va \<noteq> 0" using slot_nonzero [of 0 "mem s" pt va] by (simp add: vm_at_def)
  then show ?case using 0(1) by (auto simp: vm_at_def)
next
  case (Suc l)
  let ?i = "px (Suc l) va"
  let ?e = "ent (mem s) pt ?i"
  have at: "pte_at s (pte_addr pt (Suc l) va) = ?e" by (simp add: pte_at_def pte_addr_px ent_def)
  show ?case
  proof (cases "valid ?e")
    case True
    have sub: "tables l (mem s) (PTE2PA ?e) \<subseteq> tables (Suc l) (mem s) pt" using True by (intro child_tables px_less)
    moreover have "pt_tree l (mem s) (PTE2PA ?e)" using Suc.prems(1) True px_less by (simp add: vm_at_def)
    ultimately have "vm_at l (PTE2PA ?e) fl s"
      using Suc.prems(1) by (auto simp: vm_at_def simp del: tables.simps pt_tree.simps)
    then obtain a s' fl' where "walk_from l (PTE2PA ?e) va True s = (a, s')" "a \<noteq> 0" "free_pages s' fl'" "length fl \<le> length fl' + l"
      using Suc.IH [of "PTE2PA ?e" fl s] Suc.prems(2,3) sub by (metis Suc_leD subset_iff)
    moreover have "walk_from (Suc l) pt va True s = walk_from l (PTE2PA ?e) va True s"
      using at True by (simp add: valid_def Let_def)
    ultimately show ?thesis by (auto intro!: exI [of _ fl'])
  next
    case False
    obtain p fl1 where fl: "fl = p # fl1" using Suc.prems(2) by (cases fl) auto
    obtain a s' where run: "walk_from (Suc l) pt va True s = (a, s')" by (rule prod.exhaust)
    obtain s3 where s3: "walk_from l p va True s3 = (a, s')" "vm_at (Suc l) pt fl1 s3" "vm_at l p fl1 s3"
        "ent (mem s3) pt ?i = PA2PTE p OR PTE_V" "page_aligned p"
        "tables (Suc l) (mem s3) pt = insert p (tables (Suc l) (mem s) pt)"
        "leaf_pte (Suc l) (mem s3) pt = leaf_pte (Suc l) (mem s) pt" "changes {p, pt} (mem s) (mem s3)"
        "kend s3 = kend s" "kmem.more s3 = kmem.more s"
      by (rule walk_new_table [OF Suc.prems(1) [unfolded fl] False run])
    have "p \<noteq> 0" using Suc.prems(1) fl by (auto simp: vm_at_def free_pages_def ram_page_def)
    moreover have "tables l (mem s3) p \<subseteq> tables (Suc l) (mem s3) pt"
      using child_tables [of "px (Suc l) va" "mem s3" pt l] s3(4,5) by (simp del: tables.simps)
    ultimately have "0 \<notin> tables l (mem s3) p" using Suc.prems(3) s3(6) by auto
    then obtain fl' where "a \<noteq> 0" "free_pages s' fl'" "length fl1 \<le> length fl' + l"
      using Suc.IH [OF s3(3)] Suc.prems(2) fl s3(1) by auto
    then show ?thesis using run fl by (auto intro!: exI [of _ fl'])
  qed
qed

lemma map_one_page:
  assumes "vm_at 2 pt fl s" "0 \<notin> tables 2 (mem s) pt" "a < MAXVA" "2 \<le> length fl" "\<not> valid (leaf_pte 2 (mem s) pt a)"
  obtains pte s1 fl1 where "walk pt a True s = Inr (pte, s1)" "pte \<noteq> 0" "pte_at s1 pte AND PTE_V = 0"
    "length fl \<le> length fl1 + 2" "vm_at 2 pt fl1 (set_pte pte v s1)" "0 \<notin> tables 2 (mem (set_pte pte v s1)) pt"
    "\<forall>va<MAXVA. leaf_pte 2 (mem (set_pte pte v s1)) pt va =
      (if unat va div 4096 = unat a div 4096 then v else leaf_pte 2 (mem s) pt va)"
proof -
  obtain pte s1 fl1 where w: "walk_from 2 pt a True s = (pte, s1)" "pte \<noteq> 0" "free_pages s1 fl1" "length fl \<le> length fl1 + 2"
    using walk_alloc_enough [OF assms(1,4,2)] by blast
  have post: "walk_post 2 pt fl a pte s s1" by (rule walk_alloc [OF assms(1) w(1,2)])
  have at: "vm_at 2 pt fl1 s1"
    using post free_pages_unique [OF w(3)] by (auto simp: walk_post_def vm_at_def)
  have slot: "leaf_slot 2 (mem s1) pt a = Some pte" and keep: "leaf_pte 2 (mem s1) pt = leaf_pte 2 (mem s) pt"
    and sub: "tables 2 (mem s1) pt \<subseteq> tables 2 (mem s) pt \<union> set fl"
    using post by (simp_all add: walk_post_def)
  have "0 \<notin> set fl" using assms(1) by (auto simp: vm_at_def free_pages_def ram_page_def)
  moreover have "leaf_pte 2 (mem s1) pt a = pte_at s1 pte" using slot by (simp add: leaf_pte_def pte_at_def)
  ultimately show ?thesis
    using that [of pte s1 fl1] w set_leaf [OF at slot assms(3), where v = v] keep sub assms(2,3,5)
    by (auto simp: walk_def valid_def)
qed

lemma mappages_from_succeeds:
  assumes "vm_at 2 pt fl s" "0 \<notin> tables 2 (mem s) pt" "page_aligned a" "a_last < MAXVA"
    "unat a_last = unat a + 4096 * n" "2 * Suc n \<le> length fl"
    "\<And>va. va < MAXVA \<Longrightarrow> unat a div 4096 \<le> unat va div 4096 \<Longrightarrow> unat va div 4096 \<le> unat a_last div 4096 \<Longrightarrow>
      \<not> valid (leaf_pte 2 (mem s) pt va)"
  shows "\<exists>s'. mappages_from pt a a_last pa perm s = Inr (0, s')"
  using assms
proof (induction n arbitrary: a pa s fl)
  case (0 a pa s fl)
  then have a: "a_last = a" by (simp add: word_unat_eq_iff)
  have nv: "\<not> valid (leaf_pte 2 (mem s) pt a)" and l: "2 \<le> length fl" using 0(4,6,7) a by auto
  obtain pte s1 where "walk pt a True s = Inr (pte, s1)" "pte \<noteq> 0" "pte_at s1 pte AND PTE_V = 0"
    using 0(4) a by (auto intro: map_one_page [OF 0(1,2) _ l nv])
  then show ?case by (simp add: a mappages_from.simps [of pt a a] Let_def)
next
  case (Suc n)
  let ?v = "PA2PTE pa OR perm OR PTE_V"
  have a: "a < MAXVA" "a \<noteq> a_last" using Suc.prems(4,5) by (auto simp: word_less_nat_alt)
  have nv: "\<not> valid (leaf_pte 2 (mem s) pt a)" and l: "2 \<le> length fl" using Suc.prems(5,6,7) a by auto
  obtain pte s1 fl1 where w: "walk pt a True s = Inr (pte, s1)" "pte \<noteq> 0" "pte_at s1 pte AND PTE_V = 0"
    and fl1: "length fl \<le> length fl1 + 2" "vm_at 2 pt fl1 (set_pte pte ?v s1)" "0 \<notin> tables 2 (mem (set_pte pte ?v s1)) pt"
    and new: "\<forall>va<MAXVA. leaf_pte 2 (mem (set_pte pte ?v s1)) pt va =
      (if unat va div 4096 = unat a div 4096 then ?v else leaf_pte 2 (mem s) pt va)"
    by (rule map_one_page [OF Suc.prems(1,2) a(1) l nv, where v = ?v])
  have "unat (a + 4096) = unat a + 4096" using unat_less_MAXVA [OF a(1)] unat_add_lem [of a 4096] by simp
  then have "page_aligned (a + PGSIZE)" "unat a_last = unat (a + PGSIZE) + 4096 * n"
    "unat (a + PGSIZE) div 4096 = Suc (unat a div 4096)"
    using Suc.prems(3,5) by (simp_all add: page_aligned_iff)
  then have "\<exists>s'. mappages_from pt (a + PGSIZE) a_last (pa + PGSIZE) perm (set_pte pte ?v s1) = Inr (0, s')"
    using fl1(1) Suc.prems(4,6,7) new by (intro Suc.IH [OF fl1(2,3)]) auto
  then show ?case using w a(2) by (simp add: mappages_from.simps [of pt a] Let_def)
qed

lemma mappages_update:
  assumes "vm_at 2 pt fl s" "0 \<notin> tables 2 (mem s) pt" "page_aligned pa" "unat perm < 1024" "perm AND PTE_U \<noteq> 0"
    and "mappages pt va sz pa perm s = Inr (0, s')"
  shows "pt_tree 2 (mem s') pt" "0 \<notin> tables 2 (mem s') pt" "tables 2 (mem s') pt \<subseteq> tables 2 (mem s) pt \<union> set fl"
    and "a < MAXVA \<Longrightarrow>
      if PGROUNDDOWN va \<le> PGROUNDDOWN a \<and> PGROUNDDOWN a \<le> PGROUNDDOWN (va + sz - 1)
      then walkaddr pt a s = Inr 0 \<and> walkaddr pt a s' = Inr (pa + (PGROUNDDOWN a - PGROUNDDOWN va))
      else walkaddr pt a s' = walkaddr pt a s"
proof -
  let ?in = "PGROUNDDOWN va \<le> PGROUNDDOWN a \<and> PGROUNDDOWN a \<le> PGROUNDDOWN (va + sz - 1)"
  let ?pa = "pa + (PGROUNDDOWN a - PGROUNDDOWN va)"
  let ?new = "PA2PTE ?pa OR perm OR PTE_V"
  have run: "mappages_from pt (PGROUNDDOWN va) (PGROUNDDOWN (va + sz - 1)) pa perm s = Inr (0, s')"
    using assms(6) by (simp add: mappages_def split: if_splits)
  note m = mappages_from_maps [OF run assms(1) page_aligned_PGROUNDDOWN page_aligned_PGROUNDDOWN]
  obtain fl' where "vm_at 2 pt fl' s'" using m by blast
  then show tree': "pt_tree 2 (mem s') pt" by (simp add: vm_at_def)
  have tree: "pt_tree 2 (mem s) pt" and fl0: "0 \<notin> set fl"
    using assms(1) by (auto simp: vm_at_def free_pages_def ram_page_def)
  show sub: "tables 2 (mem s') pt \<subseteq> tables 2 (mem s) pt \<union> set fl" using m by (elim conjE)
  show no0: "0 \<notin> tables 2 (mem s') pt" using sub fl0 assms(2) by blast
  assume a: "a < MAXVA"
  have new: "if ?in then \<not> valid (leaf_pte 2 (mem s) pt a) \<and> leaf_pte 2 (mem s') pt a = ?new
      else leaf_pte 2 (mem s') pt a = leaf_pte 2 (mem s) pt a"
    using m a by (simp add: maps_range_def PGROUNDDOWN_le unat_PGROUNDDOWN)
  have "page_aligned ?pa" using assms(3) by (intro page_aligned_add page_aligned_minus) simp_all
  note leaf = leaf_entry [OF this assms(4,5)]
  show "if ?in then walkaddr pt a s = Inr 0 \<and> walkaddr pt a s' = Inr ?pa else walkaddr pt a s' = walkaddr pt a s"
    using new leaf walkaddr_leaf [OF tree' no0 a] walkaddr_leaf [OF tree assms(2) a]
    by (auto simp: Let_def split: if_splits)
qed

text \<open>C9: the page table as a function from virtual to physical addresses. When \<^verbatim>\<open>mappages\<close>
  returns 0 for a user mapping, \<^verbatim>\<open>walkaddr\<close> sends every address of the pages
  \<open>PGROUNDDOWN(va) \<dots> PGROUNDDOWN(va + size - 1)\<close> to the page at the same distance from \<open>pa\<close>, none of these
  pages had a valid entry before, and the translation of every other address is what it was,
  although the walk may have added table pages.\<close>

theorem mappages_refines_map_update:
  assumes "vm_at 2 pt fl s" "0 \<notin> tables 2 (mem s) pt" "page_aligned pa" "unat perm < 1024" "perm AND PTE_U \<noteq> 0"
    and "mappages pt va sz pa perm s = Inr (0, s')" and "a < MAXVA"
  shows "walkaddr pt a s' =
    (if PGROUNDDOWN va \<le> PGROUNDDOWN a \<and> PGROUNDDOWN a \<le> PGROUNDDOWN (va + sz - 1)
     then Inr (pa + (PGROUNDDOWN a - PGROUNDDOWN va)) else walkaddr pt a s) \<and>
    (PGROUNDDOWN va \<le> PGROUNDDOWN a \<and> PGROUNDDOWN a \<le> PGROUNDDOWN (va + sz - 1) \<longrightarrow> walkaddr pt a s = Inr 0)"
  using mappages_update(4) [OF assms] by (auto split: if_splits)

text \<open>C10: \<^verbatim>\<open>mappages\<close> returns 0, and so never panics or fails, when the range ends below \<^verbatim>\<open>MAXVA\<close>, none of its pages
  is mapped and the free list has two pages for each page of the range (one for each table level below the root).\<close>

theorem mappages_succeeds:
  assumes "vm_at 2 pt fl s" "0 \<notin> tables 2 (mem s) pt" "0 < sz" "va \<le> va + sz - 1" "va + sz - 1 < MAXVA"
    and "2 * Suc ((unat (va + sz - 1) div 4096) - unat va div 4096) \<le> length fl"
    and "\<forall>a. PGROUNDDOWN va \<le> PGROUNDDOWN a \<and> PGROUNDDOWN a \<le> PGROUNDDOWN (va + sz - 1) \<longrightarrow>
      leaf_pte 2 (mem s) pt a AND PTE_V = 0"
  shows "\<exists>s'. mappages pt va sz pa perm s = Inr (0, s')"
proof -
  let ?l = "va + sz - 1"
  have le: "unat va div 4096 \<le> unat ?l div 4096" using assms(4) by (simp add: word_le_nat_alt div_le_mono)
  have "unat (PGROUNDDOWN ?l) \<le> unat ?l" by (simp add: unat_PGROUNDDOWN)
  then have lim: "PGROUNDDOWN ?l < MAXVA" using assms(5) by (simp add: word_less_nat_alt)
  have "unat (PGROUNDDOWN ?l) = unat (PGROUNDDOWN va) + 4096 * (unat ?l div 4096 - unat va div 4096)"
    using le by (simp add: unat_PGROUNDDOWN diff_mult_distrib2)
  moreover have "\<not> valid (leaf_pte 2 (mem s) pt a)"
    if "a < MAXVA" "unat (PGROUNDDOWN va) div 4096 \<le> unat a div 4096" "unat a div 4096 \<le> unat (PGROUNDDOWN ?l) div 4096" for a
    using assms(7) that by (simp add: PGROUNDDOWN_le valid_def unat_PGROUNDDOWN)
  ultimately show ?thesis
    using mappages_from_succeeds [OF assms(1,2) page_aligned_PGROUNDDOWN lim _ assms(6)] assms(3)
    by (auto simp: mappages_def)
qed

definition empty_vm :: kmem where
  "empty_vm = \<lparr>mem = set64 (\<lambda>_. 0) 0x80002000 0x80003000, freelist = 0x80002000, kend = 0x80001000\<rparr>"

lemma get64_zero [simp]: "get64 (\<lambda>_. 0) a = 0"
  by (simp add: get64_def load_bytes_def upt_rec)

lemma empty_vm_table:
  "pt_tree 2 (mem empty_vm) 0x80001000" "tables 2 (mem empty_vm) 0x80001000 = {0x80001000}"
  "leaf_pte 2 (mem empty_vm) 0x80001000 a = 0"
proof -
  have "changes {0x80002000} (\<lambda>_. 0) (mem empty_vm)"
    by (simp add: empty_vm_def same_outside_changes page_aligned_def)
  then have "same_page 0x80001000 (\<lambda>_. 0) (mem empty_vm)" by (simp add: changes_def page_aligned_def)
  then have "ent (mem empty_vm) 0x80001000 i = 0" if "i < 512" for i
    using ent_same_page that by (simp add: ent_def)
  note e = empty_table [OF this]
  show "pt_tree 2 (mem empty_vm) 0x80001000" "tables 2 (mem empty_vm) 0x80001000 = {0x80001000}"
    "leaf_pte 2 (mem empty_vm) 0x80001000 a = 0" by (simp_all add: e page_aligned_def)
qed

lemma empty_vm_at: "vm_at 2 0x80001000 [0x80002000, 0x80003000] empty_vm"
proof -
  have "free_pages empty_vm [0x80002000, 0x80003000]"
    by (simp add: empty_vm_def free_pages_def ram_page_def page_aligned_def run_next_def get64_set64_word_disj)
  then show ?thesis by (simp add: vm_at_def empty_vm_table)
qed

theorem mappages_succeeds_witness:
  "\<exists>s'. mappages 0x80001000 0x5678 0x100 0x80004000 0x16 empty_vm = Inr (0, s')"
  using mappages_succeeds [OF empty_vm_at, where sz = "0x100" and va = "0x5678" and pa = "0x80004000" and perm = "0x16"]
  by (simp add: empty_vm_table)

theorem mappages_refines_map_update_witness:
  "\<exists>s'. mappages 0x80001000 0x5678 0x100 0x80004000 0x16 empty_vm = Inr (0, s') \<and>
     walkaddr 0x80001000 0x5FFF s' = Inr 0x80004000 \<and> walkaddr 0x80001000 0x6000 s' = Inr 0"
proof -
  obtain s' where run: "mappages 0x80001000 0x5678 0x100 0x80004000 0x16 empty_vm = Inr (0, s')"
    using mappages_from_succeeds [OF empty_vm_at, where a = "0x5000" and a_last = "0x5000" and n = 0 and pa = "0x80004000" and perm = "0x16"]
    by (auto simp: mappages_def PGROUNDDOWN_def empty_vm_table page_aligned_def)
  have "walkaddr 0x80001000 0x6000 empty_vm = Inr 0"
    using walkaddr_leaf [of empty_vm "0x80001000" "0x6000"] by (simp add: empty_vm_table)
  with run show ?thesis
    using mappages_refines_map_update [OF empty_vm_at _ _ _ _ run, where a = "0x5FFF"]
      mappages_refines_map_update [OF empty_vm_at _ _ _ _ run, where a = "0x6000"]
    by (simp add: empty_vm_table page_aligned_def PGROUNDDOWN_def)
qed

section \<open>User memory as a partial map\<close>

text \<open>
  \<open>uaddr\<close> is the physical address behind a user address and \<open>umem\<close> the byte there. Both are
  \<open>None\<close> where the page has no valid user mapping.
\<close>

definition uaddr :: "uint64 \<Rightarrow> 'z kmem_scheme \<Rightarrow> uint64 \<Rightarrow> uint64 option" where
  "uaddr pt s va = (case walkaddr pt (PGROUNDDOWN va) s of
     Inl _ \<Rightarrow> None | Inr pa \<Rightarrow> if pa = 0 then None else Some (pa + (va - PGROUNDDOWN va)))"

definition umem :: "uint64 \<Rightarrow> 'z kmem_scheme \<Rightarrow> uint64 \<Rightarrow> uchar option" where
  "umem pt s va = map_option (mem s) (uaddr pt s va)"

text \<open>
  A well-formed user page table: a tree of tables, no user page is a table page and no two
  user pages share a frame.
\<close>

definition user_map_ok :: "uint64 \<Rightarrow> 'z kmem_scheme \<Rightarrow> bool" where
  "user_map_ok pt s \<longleftrightarrow> pt_tree 2 (mem s) pt \<and> 0 \<notin> tables 2 (mem s) pt \<and>
     (\<forall>va pa. walkaddr pt va s = Inr pa \<and> pa \<noteq> 0 \<longrightarrow> pa \<notin> tables 2 (mem s) pt) \<and>
     (\<forall>va va' pa. walkaddr pt va s = Inr pa \<and> walkaddr pt va' s = Inr pa \<and> pa \<noteq> 0 \<longrightarrow>
       PGROUNDDOWN va = PGROUNDDOWN va')"

lemma page_offset: "unat (va - PGROUNDDOWN va) = unat va mod 4096"
  by (simp add: unat_sub_if' unat_PGROUNDDOWN minus_div_mult_eq_mod)

lemma page_chunk_eq: "page_chunk va n = min (4096 - unat va mod 4096) n"
proof -
  have "va - PGROUNDDOWN va \<le> 4096" by (simp add: word_le_nat_alt page_offset less_imp_le)
  then have "unat (4096 - (va - PGROUNDDOWN va)) = 4096 - unat va mod 4096"
    by (simp add: unat_sub page_offset)
  then show ?thesis by (simp add: page_chunk_def)
qed

lemma page_end: "unat (va::uint64) mod 4096 + k \<le> 4096 \<Longrightarrow> unat va + k \<le> 2 ^ 64"
proof -
  assume k: "unat va mod 4096 + k \<le> 4096"
  have "unat va div 4096 < 2 ^ 52" using unat_uint64_less [of va] by auto
  then have "unat va div 4096 * 4096 + 4096 \<le> 2 ^ 64" by simp
  then show ?thesis using k div_mult_mod_eq [of "unat va" 4096] by linarith
qed

lemma in_chunk:
  assumes "i < page_chunk va n"
  shows "unat (va + of_nat i) = unat va + i" "PGROUNDDOWN (va + of_nat i) = PGROUNDDOWN va"
    "va + of_nat i - PGROUNDDOWN va = (va - PGROUNDDOWN va) + of_nat i"
proof -
  have i: "unat va mod 4096 + i < 4096" using assms by (auto simp: page_chunk_eq)
  have lt: "unat va + i < 2 ^ 64" using page_end [of va "Suc i"] i by simp
  then show u: "unat (va + of_nat i) = unat va + i" 
    by (simp add: unat_word_ariths unat_of_nat)
  have "unat va + i = unat va div 4096 * 4096 + (unat va mod 4096 + i)" by simp
  moreover have "(q * 4096 + k) div 4096 = q" if "k < 4096" for q k :: nat using that by simp
  ultimately have "(unat va + i) div 4096 = unat va div 4096" using i by metis
  then show "PGROUNDDOWN (va + of_nat i) = PGROUNDDOWN va"
    by (simp add: word_unat_eq_iff unat_PGROUNDDOWN u)
qed simp

lemma next_page:
  assumes "page_chunk va n < n"
  shows "PGROUNDDOWN va + 4096 = va + of_nat (page_chunk va n)"
proof -
  have c: "page_chunk va n = 4096 - unat va mod 4096" using assms by (auto simp: page_chunk_eq)
  have "(of_nat (4096 - unat va mod 4096) :: uint64) = 4096 - of_nat (unat va mod 4096)"
    by (simp add: of_nat_diff less_imp_le)
  moreover have "(of_nat (unat va mod 4096) :: uint64) = va - PGROUNDDOWN va"
    by (simp only: page_offset [symmetric]) simp
  ultimately show ?thesis by (simp add: c)
qed

lemma umem_page:
  assumes "walkaddr pt (PGROUNDDOWN va) s = Inr pa" "i < page_chunk va n"
  shows "uaddr pt s (va + of_nat i) = (if pa = 0 then None else Some (pa + (va - PGROUNDDOWN va) + of_nat i))"
  using assms in_chunk [OF assms(2)] by (simp add: uaddr_def add.assoc)

text \<open>\<^verbatim>\<open>copyin\<close> reads the longest mapped prefix of the range it is asked for.\<close>

lemma copyin_umem:
  assumes "copyin pt va n s = Inr (r, bs)"
  shows "(\<forall>i<length bs. umem pt s (va + of_nat i) = Some (bs ! i)) \<and>
    (if r = 0 then length bs = n else r = - 1 \<and> length bs < n \<and> umem pt s (va + of_nat (length bs)) = None)"
  using assms
proof (induction pt va n s arbitrary: r bs rule: copyin.induct)
  case (1 pt va n s)
  obtain pa where pa: "walkaddr pt (PGROUNDDOWN va) s = Inr pa" using walkaddr_returns by blast
  consider "n = 0" | "0 < n" "pa = 0" | "0 < n" "pa \<noteq> 0" by blast
  then show ?case
  proof cases
    case 1
    then show ?thesis using "1.prems" by (simp add: copyin.simps)
  next
    case 2
    then have "umem pt s va = None" using pa by (simp add: umem_def uaddr_def)
    then show ?thesis using "1.prems" 2 pa by (simp add: copyin.simps [of pt va])
  next
    case 3
    let ?c = "page_chunk va n" and ?p = "pa + (va - PGROUNDDOWN va)"
    have c: "0 < ?c" "?c \<le> n" using 3 page_chunk_pos by (simp_all add: page_chunk_def)
    obtain bs' where rec: "copyin pt (PGROUNDDOWN va + PGSIZE) (n - ?c) s = Inr (r, bs')"
      and bs: "bs = load_bytes (mem s) ?p ?c @ bs'"
      using "1.prems" 3 pa by (auto simp: copyin.simps [of pt va] rbind_eq_Inr Let_def)
    note ih = "1.IH" [OF 3(1) refl pa 3(2) refl rec]
    have head: "umem pt s (va + of_nat i) = Some (bs ! i)" if "i < ?c" for i
      using umem_page [OF pa that] 3(2) that bs by (simp add: umem_def nth_append)
    have tail: "umem pt s (va + of_nat (?c + i)) = umem pt s (PGROUNDDOWN va + PGSIZE + of_nat i)"
      if "?c < n" for i using next_page [OF that] by (simp add: add.assoc)
    have "umem pt s (va + of_nat i) = Some (bs ! i)" if i: "i < length bs" for i
    proof (cases "i < ?c")
      case False
      then obtain j where j: "i = ?c + j" using le_Suc_ex not_less by metis
      then have "?c < n" "j < length bs'" using ih i bs by (auto split: if_splits)
      then show ?thesis using tail [of j] ih j bs by (simp add: nth_append)
    qed (rule head)
    moreover have "if r = 0 then length bs = n else r = - 1 \<and> length bs < n \<and> umem pt s (va + of_nat (length bs)) = None"
      using ih bs c tail [of "length bs'"] by (auto split: if_splits)
    ultimately show ?thesis by blast
  qed
qed

lemma walkaddr_aligned: "walkaddr pt va s = Inr pa \<Longrightarrow> page_aligned pa"
  by (cases "va < MAXVA") (auto simp: walkaddr_def walk_leaf not_less page_aligned_def [of 0] split: if_splits)

lemma offset_word: "va - PGROUNDDOWN va = of_nat (unat va mod 4096)"
  by (simp only: page_offset [symmetric]) simp

lemma walkaddr_changes:
  assumes "user_map_ok pt s" "changes {pa} (mem s) (mem s')" "pa \<notin> tables 2 (mem s) pt"
  shows "walkaddr pt va s' = walkaddr pt va s" "tables 2 (mem s') pt = tables 2 (mem s) pt" "pt_tree 2 (mem s') pt"
proof -
  have tree: "pt_tree 2 (mem s) pt" and no0: "0 \<notin> tables 2 (mem s) pt" using assms(1) by (simp_all add: user_map_ok_def)
  note f = tables_frame_changes [OF assms(2) tree]
  show t: "tables 2 (mem s') pt = tables 2 (mem s) pt" "pt_tree 2 (mem s') pt" using f assms(3) by auto
  show "walkaddr pt va s' = walkaddr pt va s"
  proof (cases "va < MAXVA")
    case True
    then show ?thesis
      using walkaddr_leaf [OF tree no0 True] walkaddr_leaf [of s' pt, OF t(2) _ True] t(1) no0 f(4) assms(3) by simp
  qed (simp add: walkaddr_def not_less)
qed

lemma page_addr_distance:
  assumes "page_aligned p" "page_aligned q" "p \<noteq> q" "i < 4096" "j + n \<le> 4096"
  shows "n \<le> unat (p + of_nat i - (q + of_nat j :: uint64))"
proof (rule ccontr)
  let ?k = "unat (p + of_nat i - (q + of_nat j))"
  assume "\<not> n \<le> ?k"
  then have "j + ?k < 4096" using assms(5) by simp
  moreover have "p + of_nat i - q = of_nat (j + ?k)" by simp
  moreover have "unat (of_nat (j + ?k) :: uint64) = j + ?k"
    by (rule unat_of_nat_small) (use \<open>j + ?k < 4096\<close> in simp)
  ultimately have "unat (p + of_nat i - q) < 4096" by metis
  with page_offset_diff [OF assms(1-4)] show False by simp
qed

lemma other_page_distance:
  assumes "PGROUNDDOWN a \<noteq> PGROUNDDOWN va" "unat va mod 4096 + n \<le> 4096"
  shows "n \<le> unat (a - va)"
proof (rule ccontr)
  assume "\<not> n \<le> unat (a - va)"
  then have "unat (a - va) < page_chunk va n" using assms(2) by (simp add: page_chunk_eq)
  from in_chunk(2) [OF this] assms(1) show False by simp
qed

lemma copyout_page:
  assumes ok: "user_map_ok pt s" and pa: "walkaddr pt (PGROUNDDOWN va) s = Inr pa" "pa \<noteq> 0"
    and len: "unat va mod 4096 + length bs \<le> 4096"
    and s': "s' = s\<lparr>mem := store_bytes (mem s) (pa + (va - PGROUNDDOWN va)) bs\<rparr>"
  shows "user_map_ok pt s'" "umem pt s' a = (if unat (a - va) < length bs then Some (bs ! unat (a - va)) else umem pt s a)"
    "dom (umem pt s') = dom (umem pt s)"
proof -
  have al: "page_aligned pa" using walkaddr_aligned pa(1) .
  have "same_outside pa (mem s) (mem s')" using same_outside_store [OF len, of pa "mem s"] s' by (simp add: offset_word)
  then have ch: "changes {pa} (mem s) (mem s')" using al by (rule same_outside_changes)
  have nt: "pa \<notin> tables 2 (mem s) pt" using ok pa by (auto simp: user_map_ok_def)
  note w = walkaddr_changes [OF ok ch nt]
  show "user_map_ok pt s'" using ok w(3) unfolding user_map_ok_def w(1,2) by blast
  show "dom (umem pt s') = dom (umem pt s)" by (auto simp: umem_def uaddr_def w(1) dom_def)
  obtain pb where pb: "walkaddr pt (PGROUNDDOWN a) s = Inr pb" using walkaddr_returns by blast
  have "PGROUNDDOWN (PGROUNDDOWN x) = PGROUNDDOWN x" for x by (simp add: word_unat_eq_iff unat_PGROUNDDOWN)
  then have same: "pb = pa \<longleftrightarrow> PGROUNDDOWN a = PGROUNDDOWN va" if "pb \<noteq> 0"
    using ok pa pb that by (auto simp: user_map_ok_def) metis
  have st: "mem s' x = (if unat (x - (pa + (va - PGROUNDDOWN va))) < length bs
      then bs ! unat (x - (pa + (va - PGROUNDDOWN va))) else mem s x)" for x
    using len by (simp add: s' store_bytes_word)
  show "umem pt s' a = (if unat (a - va) < length bs then Some (bs ! unat (a - va)) else umem pt s a)"
  proof (cases "PGROUNDDOWN a = PGROUNDDOWN va")
    case True
    then have "pb = pa" using pa pb by simp
    then show ?thesis using pb pa True by (simp add: umem_def uaddr_def w(1) st)
  next
    case False
    then have "length bs \<le> unat (pb + (a - PGROUNDDOWN a) - (pa + (va - PGROUNDDOWN va)))" if "pb \<noteq> 0"
      using page_addr_distance [OF walkaddr_aligned [OF pb] al _ _ len, of "unat a mod 4096"] same that
      by (simp add: offset_word)
    then show ?thesis
      using other_page_distance [OF False len] pb
      by (cases "pb = 0") (simp_all add: umem_def uaddr_def w(1) st not_less)
  qed
qed

text \<open>\<^verbatim>\<open>copyout\<close> writes the longest mapped prefix of its range, and nothing else.\<close>

definition overwrite :: "uint64 \<Rightarrow> uchar list \<Rightarrow> (uint64 \<Rightarrow> uchar option) \<Rightarrow> uint64 \<Rightarrow> uchar option" where
  "overwrite va bs m a = (if unat (a - va) < length bs then Some (bs ! unat (a - va)) else m a)"

lemma overwrite_Nil [simp]: "overwrite va [] m = m"
  by (simp add: overwrite_def fun_eq_iff)

lemma overwrite_append:
  assumes "length bs + length cs < 2 ^ 64"
  shows "overwrite (va + of_nat (length bs)) cs (overwrite va bs m) = overwrite va (bs @ cs) m"
proof
  fix a
  let ?d = "unat (a - va)" and ?n = "length bs"
  have n: "unat (of_nat ?n :: uint64) = ?n" using assms by (simp add: unat_of_nat_small)
  have "a - (va + of_nat ?n) = (a - va) - of_nat ?n" by simp
  then have "unat (a - (va + of_nat ?n)) = (if ?n \<le> ?d then ?d - ?n else ?d + 2 ^ 64 - ?n)"
    using n by (simp only: unat_sub_if' [of "a - va"]) simp
  then show "overwrite (va + of_nat ?n) cs (overwrite va bs m) a = overwrite va (bs @ cs) m a"
    using assms by (auto simp: overwrite_def nth_append)
qed

lemma copyout_umem:
  assumes "user_map_ok pt s" "length src < 2 ^ 64" "copyout pt va src s = Inr (r, s')"
  shows "user_map_ok pt s' \<and> dom (umem pt s') = dom (umem pt s) \<and> (\<exists>k\<le>length src. umem pt s' = overwrite va (take k src) (umem pt s) \<and>
    (if r = 0 then k = length src else r = - 1 \<and> k < length src \<and> umem pt s (va + of_nat k) = None))"
  using assms
proof (induction pt va src s rule: copyout.induct)
  case (1 pt va src s)
  obtain pa where pa: "walkaddr pt (PGROUNDDOWN va) s = Inr pa" using walkaddr_returns by blast
  consider "src = []" | "src \<noteq> []" "pa = 0" | "src \<noteq> []" "pa \<noteq> 0" by blast
  then show ?case
  proof cases
    case 1
    then show ?thesis using "1.prems" by (auto simp: copyout.simps)
  next
    case 2
    then have "umem pt s va = None" using pa by (simp add: umem_def uaddr_def)
    then show ?thesis using "1.prems" 2 pa by (auto simp: copyout.simps [of pt va] intro!: exI [of _ 0])
  next
    case 3
    let ?c = "page_chunk va (length src)"
    let ?s1 = "s\<lparr>mem := store_bytes (mem s) (pa + (va - PGROUNDDOWN va)) (take ?c src)\<rparr>"
    have c: "0 < ?c" "?c \<le> length src" "length (take ?c src) = ?c" using 3 page_chunk_pos by (auto simp: page_chunk_def)
    have rec: "copyout pt (PGROUNDDOWN va + PGSIZE) (drop ?c src) ?s1 = Inr (r, s')"
      using "1.prems"(3) 3 pa by (simp add: copyout.simps [of pt va src] Let_def)
    have "unat va mod 4096 + length (take ?c src) \<le> 4096" by (simp add: page_chunk_eq)
    note page = copyout_page [OF "1.prems"(1) pa 3(2) this refl]
    have s1: "umem pt ?s1 = overwrite va (take ?c src) (umem pt s)" using page(2) by (simp add: overwrite_def fun_eq_iff)
    have pos: "0 < length src" and small: "length (drop ?c src) < 2 ^ 64" using 3(1) "1.prems"(2) by auto
    obtain k where dom: "dom (umem pt s') = dom (umem pt ?s1)" and k: "user_map_ok pt s'" "k \<le> length (drop ?c src)"
        "umem pt s' = overwrite (PGROUNDDOWN va + PGSIZE) (take k (drop ?c src)) (umem pt ?s1)"
        "if r = 0 then k = length (drop ?c src)
         else r = - 1 \<and> k < length (drop ?c src) \<and> umem pt ?s1 (PGROUNDDOWN va + PGSIZE + of_nat k) = None"
      using "1.IH" [OF pos refl pa 3(2) refl page(1) small rec] by blast
    have app: "take (?c + k) src = take ?c src @ take k (drop ?c src)" by (rule take_add)
    have "umem pt s' = overwrite va (take (?c + k) src) (umem pt s) \<and>
        (r \<noteq> 0 \<longrightarrow> umem pt s (va + of_nat (?c + k)) = None)"
    proof (cases "?c < length src")
      case True
      have "umem pt s' = overwrite va (take (?c + k) src) (umem pt s)"
        using k(2,3) s1 next_page [OF True] "1.prems"(2) c overwrite_append [of "take ?c src" "take k (drop ?c src)" va]
        by (simp add: app)
      moreover have "umem pt s b = None" if "umem pt ?s1 b = None" for b
        using that s1 by (auto simp: overwrite_def split: if_splits)
      ultimately show ?thesis using k(4) next_page [OF True] by (auto simp: add.assoc)
    next
      case False
      with c k s1 show ?thesis by auto
    qed
    with k c(2) dom page(3) show ?thesis by (intro conjI exI [of _ "?c + k"]) (auto split: if_splits)
  qed
qed

text \<open>A table with the one user page 0x5000.\<close>

definition one_page_vm :: kmem where
  "one_page_vm = (case mappages 0x80001000 0x5000 0x1000 0x80004000 0x16 empty_vm of Inr (_, s) \<Rightarrow> s)"

lemma one_page_vm_ok:
  "user_map_ok 0x80001000 one_page_vm"
  "walkaddr 0x80001000 a one_page_vm = Inr (if PGROUNDDOWN a = 0x5000 then 0x80004000 else 0)"
proof -
  have five: "PGROUNDDOWN 0x5000 = 0x5000" "PGROUNDDOWN 0x5FFF = 0x5000" by (simp_all add: PGROUNDDOWN_def)
  obtain s' where "mappages 0x80001000 0x5000 0x1000 0x80004000 0x16 empty_vm = Inr (0, s')"
    using mappages_from_succeeds [OF empty_vm_at, where a = "0x5000" and a_last = "0x5000" and n = 0 and pa = "0x80004000" and perm = "0x16"]
    by (auto simp: mappages_def five empty_vm_table page_aligned_def)
  then have run: "mappages 0x80001000 0x5000 0x1000 0x80004000 0x16 empty_vm = Inr (0, one_page_vm)"
    by (simp add: one_page_vm_def)
  note u = mappages_update [OF empty_vm_at _ _ _ _ run, simplified empty_vm_table five page_aligned_def, simplified]
  have none: "walkaddr 0x80001000 a empty_vm = Inr 0" for a
    using walkaddr_leaf [of empty_vm "0x80001000" a] by (cases "a < MAXVA") (simp_all add: empty_vm_table walkaddr_def not_less)
  have w: "walkaddr 0x80001000 a one_page_vm = Inr (if PGROUNDDOWN a = 0x5000 then 0x80004000 else 0)" for a
  proof (cases "a < MAXVA")
    case True
    then show ?thesis using u(4) [of a] none by (auto simp: five split: if_splits)
  next
    case False
    then have "PGROUNDDOWN a \<noteq> 0x5000"
      by (auto simp: word_unat_eq_iff unat_PGROUNDDOWN word_less_nat_alt)
    with False show ?thesis by (simp add: walkaddr_def not_less)
  qed
  then show "walkaddr 0x80001000 a one_page_vm = Inr (if PGROUNDDOWN a = 0x5000 then 0x80004000 else 0)" .
  have "0x80004000 \<notin> tables 2 (mem one_page_vm) 0x80001000" using u(3) by auto
  then show "user_map_ok 0x80001000 one_page_vm" using u(1,2) by (auto simp: user_map_ok_def w split: if_splits)
qed

text \<open>C11: \<^verbatim>\<open>copyout\<close> on user memory as a partial map from addresses to bytes. It writes the
  longest prefix of the range \<open>dstva \<dots> dstva + len\<close> that is mapped for the user, leaves every other byte of
  user memory as it was, and returns 0 exactly when that prefix is the whole range, and -1 otherwise.\<close>

theorem copyout_refines_overwrite:
  assumes "user_map_ok pt s" "length src < 2 ^ 64"
  shows "\<exists>r s' k. copyout pt dstva src s = Inr (r, s') \<and> user_map_ok pt s' \<and> k \<le> length src \<and>
    umem pt s' = overwrite dstva (take k src) (umem pt s) \<and>
    (\<forall>i<k. umem pt s (dstva + of_nat i) \<noteq> None) \<and>
    (if k = length src then r = 0 else r = - 1 \<and> umem pt s (dstva + of_nat k) = None)"
proof -
  obtain r s' where run: "copyout pt dstva src s = Inr (r, s')" using copyout_returns by blast
  then obtain k where k: "user_map_ok pt s'" "dom (umem pt s') = dom (umem pt s)" "k \<le> length src"
      "umem pt s' = overwrite dstva (take k src) (umem pt s)"
      "if r = 0 then k = length src else r = - 1 \<and> k < length src \<and> umem pt s (dstva + of_nat k) = None"
    using copyout_umem [OF assms run] by blast
  have "umem pt s (dstva + of_nat i) \<noteq> None" if "i < k" for i
  proof -
    have "dstva + of_nat i \<in> dom (umem pt s')"
      using that k(3,4) assms(2) by (simp add: dom_def overwrite_def unat_of_nat_small)
    then show ?thesis using k(2) by auto
  qed
  with run k show ?thesis by (intro exI [of _ r] exI [of _ s'] exI [of _ k]) (auto split: if_splits)
qed

text \<open>C12: what \<^verbatim>\<open>copyout\<close> put into user memory with result 0, \<^verbatim>\<open>copyin\<close> from the same address reads back.\<close>

theorem copyout_copyin_roundtrip:
  assumes "user_map_ok pt s" "length src < 2 ^ 64" "copyout pt va src s = Inr (0, s')"
  shows "copyin pt va (length src) s' = Inr (0, src)"
proof -
  have m: "umem pt s' = overwrite va src (umem pt s)" using copyout_umem [OF assms] by auto
  obtain r bs where run: "copyin pt va (length src) s' = Inr (r, bs)" using copyin_returns by blast
  have u: "umem pt s' (va + of_nat i) = Some (src ! i)" if "i < length src" for i
    using that assms(2) by (simp add: m overwrite_def unat_of_nat_small)
  have r: "r = 0" using copyin_umem [OF run] u by (auto split: if_splits)
  then have l: "length bs = length src" using copyin_umem [OF run] by simp
  moreover have "bs ! i = src ! i" if "i < length src" for i using copyin_umem [OF run] u [OF that] that l by auto
  ultimately have "bs = src" by (simp add: nth_equalityI)
  with run r show ?thesis by simp
qed

lemma one_page_umem: "umem 0x80001000 one_page_vm a = None \<longleftrightarrow> PGROUNDDOWN a \<noteq> 0x5000"
  by (auto simp: umem_def uaddr_def one_page_vm_ok(2) word_unat_eq_iff unat_PGROUNDDOWN)

theorem copyout_refines_overwrite_witness:
  "\<exists>s'. copyout 0x80001000 0x5FFE [1, 2, 3] one_page_vm = Inr (- 1, s') \<and>
    umem 0x80001000 s' = overwrite 0x5FFE [1, 2] (umem 0x80001000 one_page_vm)"
proof -
  let ?u = "umem 0x80001000 one_page_vm"
  obtain r s' k where run: "copyout 0x80001000 0x5FFE [1, 2, 3] one_page_vm = Inr (r, s')" "k \<le> 3"
      "umem 0x80001000 s' = overwrite 0x5FFE (take k [1, 2, 3]) ?u" "\<forall>i<k. ?u (0x5FFE + of_nat i) \<noteq> None"
      "if k = 3 then r = 0 else r = - 1 \<and> ?u (0x5FFE + of_nat k) = None"
    using copyout_refines_overwrite [OF one_page_vm_ok(1), of "[1, 2, 3]" "0x5FFE"]
    by (auto simp: numeral_3_eq_3)
  have u: "?u 0x5FFE \<noteq> None" "?u 0x5FFF \<noteq> None" "?u 0x6000 = None"
    by (simp_all only: one_page_umem) (simp_all add: PGROUNDDOWN_def)
  have "k \<noteq> 3" using run(4) u(3) by (auto dest!: spec [of _ 2])
  moreover have "k \<noteq> 0" using run(5) u(1) by (cases k) simp_all
  moreover have "k \<noteq> 1" using run(5) u(2) by (cases "k = 1") simp_all
  ultimately have "k = 2" using run(2) by linarith
  with run show ?thesis by (simp add: numeral_2_eq_2)
qed

theorem copyout_copyin_roundtrip_witness:
  "\<exists>s'. copyout 0x80001000 0x5FFD [1, 2, 3] one_page_vm = Inr (0, s') \<and> copyin 0x80001000 0x5FFD 3 s' = Inr (0, [1, 2, 3])"
proof -
  have c: "PGROUNDDOWN 0x5FFD = 0x5000" "page_chunk 0x5FFD (Suc (Suc (Suc 0))) = Suc (Suc (Suc 0))" by (simp_all add: PGROUNDDOWN_def page_chunk_def)
  have "PGROUNDDOWN 0x5000 = 0x5000" by (simp add: PGROUNDDOWN_def)
  then have "\<exists>s'. copyout 0x80001000 0x5FFD [1, 2, 3] one_page_vm = Inr (0, s')"
    by (simp add: copyout.simps c one_page_vm_ok(2) Let_def)
  then show ?thesis using copyout_copyin_roundtrip [OF one_page_vm_ok(1), of "[1, 2, 3]" "0x5FFD"]
    by (auto simp: numeral_3_eq_3)
qed

end
