(* ===== verification/File.thy ===== *)
theory File
  imports Console Ring Vmtree
begin

text \<open>
  Open files (\<^verbatim>\<open>kernel/file.c\<close>) and pipes (\<^verbatim>\<open>kernel/pipe.c\<close>). A file pointer is an index of the
  file table. A pipe lives in a page of its own: its address is the pointer, and \<open>pipes\<close> maps
  the address to the contents of the structure while the pipe exists.
\<close>

datatype fdtype = FD_NONE | FD_PIPE | FD_INODE | FD_DEVICE

record kfilerec =
  f_type :: fdtype
  f_ref :: int
  f_readable :: bool
  f_writable :: bool
  f_pipe :: uint64
  f_ip :: nat
  f_off :: uint
  f_major :: ushort

record pipe =
  pi_data :: "uchar list"
  pi_nread :: uint
  pi_nwrite :: uint
  pi_readopen :: bool
  pi_writeopen :: bool

record kfile = kcons +
  ftable :: "kfilerec list"
  pipes :: "uint64 \<Rightarrow> pipe"

definition PIPESIZE :: nat where [simp]: "PIPESIZE = 512"

definition fil :: "'z kfile_scheme \<Rightarrow> nat \<Rightarrow> kfilerec" where
  "fil s f = ftable s ! f"

definition upd_file :: "nat \<Rightarrow> (kfilerec \<Rightarrow> kfilerec) \<Rightarrow> 'z kfile_scheme \<Rightarrow> 'z kfile_scheme" where
  "upd_file f g s = s\<lparr>ftable := (ftable s)[f := g (ftable s ! f)]\<rparr>"

definition upd_pipe :: "uint64 \<Rightarrow> (pipe \<Rightarrow> pipe) \<Rightarrow> 'z kfile_scheme \<Rightarrow> 'z kfile_scheme" where
  "upd_pipe p g s = s\<lparr>pipes := (pipes s)(p := g (pipes s p))\<rparr>"

definition killed :: "nat \<Rightarrow> 'z kproc_scheme \<Rightarrow> bool" where
  "killed p s = p_killed (procs s ! p)"

section \<open>Pipes\<close>

definition pipeclose :: "uint64 \<Rightarrow> bool \<Rightarrow> 'z kfile_scheme \<Rightarrow> 'z kfile_scheme res" where
  "pipeclose p writable s =
     (let s = (if writable then wakeup (Chan_nread p) (upd_pipe p (\<lambda>q. q\<lparr>pi_writeopen := False\<rparr>) s)
               else wakeup (Chan_nwrite p) (upd_pipe p (\<lambda>q. q\<lparr>pi_readopen := False\<rparr>) s))
      in if \<not> pi_readopen (pipes s p) \<and> \<not> pi_writeopen (pipes s p) then kfree p s else Inr s)"

text \<open>The assignments that put a byte into the ring and take one out.\<close>

definition pipe_put :: "uchar \<Rightarrow> pipe \<Rightarrow> pipe" where
  "pipe_put c q = q\<lparr>pi_data := (pi_data q)[unat (pi_nwrite q) mod PIPESIZE := c], pi_nwrite := pi_nwrite q + 1\<rparr>"

definition pipe_get :: "pipe \<Rightarrow> uchar \<times> pipe" where
  "pipe_get q = (pi_data q ! (unat (pi_nread q) mod PIPESIZE), q\<lparr>pi_nread := pi_nread q + 1\<rparr>)"

text \<open>One pass of \<^verbatim>\<open>pipewrite\<close> from byte \<open>i\<close> on, until it returns or has to sleep.\<close>

fun pipewrite_from :: "uint64 \<Rightarrow> uint64 \<Rightarrow> nat \<Rightarrow> nat \<Rightarrow> 'z kfile_scheme \<Rightarrow> (outcome \<times> 'z kfile_scheme) res" where
  "pipewrite_from p addr i 0 s = Inr (Ret (int i), wakeup (Chan_nread p) s)"
| "pipewrite_from p addr i (Suc n) s =
     (if \<not> pi_readopen (pipes s p) \<or> p_killed (myproc s) then Inr (Ret (- 1), s)
      else if pi_nwrite (pipes s p) = pi_nread (pipes s p) + of_nat PIPESIZE then
        Inr (Wait (Chan_nwrite p) i, wakeup (Chan_nread p) s)
      else
        rbind (copyin (p_pagetable (myproc s)) (addr + of_nat i) 1 s) (\<lambda>(r, bs).
        if r = - 1 then Inr (Ret (int i), wakeup (Chan_nread p) s)
        else
          pipewrite_from p addr (Suc i) n (upd_pipe p (pipe_put (hd bs)) s)))"

definition pipewrite :: "uint64 \<Rightarrow> uint64 \<Rightarrow> int \<Rightarrow> 'z kfile_scheme \<Rightarrow> (int \<times> 'z kfile_scheme) res" where
  "pipewrite p addr n s = or_sleep (pipewrite_from p addr 0 (nat n) s)"

fun piperead_copy :: "uint64 \<Rightarrow> uint64 \<Rightarrow> nat \<Rightarrow> nat \<Rightarrow> 'z kfile_scheme \<Rightarrow> (int \<times> 'z kfile_scheme) res" where
  "piperead_copy p addr i 0 s = Inr (int i, s)"
| "piperead_copy p addr i (Suc n) s =
     (if pi_nread (pipes s p) = pi_nwrite (pipes s p) then Inr (int i, s)
      else
        let ch = fst (pipe_get (pipes s p)); s = upd_pipe p (\<lambda>q. snd (pipe_get q)) s in
        rbind (copyout (p_pagetable (myproc s)) (addr + of_nat i) [ch] s) (\<lambda>(r, s).
        if r = - 1 then Inr (int i, s) else piperead_copy p addr (Suc i) n s))"

definition piperead :: "uint64 \<Rightarrow> uint64 \<Rightarrow> int \<Rightarrow> 'z kfile_scheme \<Rightarrow> (int \<times> 'z kfile_scheme) res" where
  "piperead p addr n s =
     (if pi_nread (pipes s p) = pi_nwrite (pipes s p) \<and> pi_writeopen (pipes s p) then
        if p_killed (myproc s) then Inr (- 1, s) else Inl (Sleeps (Chan_nread p))
      else
        rbind (piperead_copy p addr 0 (nat n) s) (\<lambda>(r, s). Inr (r, wakeup (Chan_nwrite p) s)))"

section \<open>The file table\<close>

definition filealloc :: "'z kfile_scheme \<Rightarrow> nat option \<times> 'z kfile_scheme" where
  "filealloc s =
     (case find (\<lambda>f. f_ref (fil s f) = 0) [0..<NFILE] of
        Some f \<Rightarrow> (Some f, upd_file f (\<lambda>x. x\<lparr>f_ref := 1\<rparr>) s)
      | None \<Rightarrow> (None, s))"

definition filedup :: "nat \<Rightarrow> 'z kfile_scheme \<Rightarrow> (nat \<times> 'z kfile_scheme) res" where
  "filedup f s =
     (if f_ref (fil s f) < 1 then Inl (Panic ''filedup'')
      else Inr (f, upd_file f (\<lambda>x. x\<lparr>f_ref := f_ref x + 1\<rparr>) s))"

definition fileclose :: "nat \<Rightarrow> 'z kfile_scheme \<Rightarrow> 'z kfile_scheme res" where
  "fileclose f s =
     (if f_ref (fil s f) < 1 then Inl (Panic ''fileclose'')
      else
        let s = upd_file f (\<lambda>x. x\<lparr>f_ref := f_ref x - 1\<rparr>) s in
        if f_ref (fil s f) > 0 then Inr s
        else
          let ff = fil s f;
              s = upd_file f (\<lambda>x. x\<lparr>f_ref := 0, f_type := FD_NONE\<rparr>) s
          in
          if f_type ff = FD_PIPE then pipeclose (f_pipe ff) (f_writable ff) s
          else if f_type ff = FD_INODE \<or> f_type ff = FD_DEVICE then
            rbind (begin_op s) (\<lambda>s. rbind (iput (f_ip ff) s) (\<lambda>s. end_op s))
          else Inr s)"

definition pipealloc :: "'z kfile_scheme \<Rightarrow> ((nat \<times> nat) option \<times> 'z kfile_scheme) res" where
  "pipealloc s =
     (case filealloc s of
        (None, s) \<Rightarrow> Inr (None, s)
      | (Some f0, s) \<Rightarrow>
          (case filealloc s of
             (None, s) \<Rightarrow> rbind (fileclose f0 s) (\<lambda>s. Inr (None, s))
           | (Some f1, s) \<Rightarrow>
               (case kalloc s of (p, s) \<Rightarrow>
                  if p = 0 then
                    rbind (fileclose f0 s) (\<lambda>s. rbind (fileclose f1 s) (\<lambda>s. Inr (None, s)))
                  else
                    let s = upd_pipe p (\<lambda>_. \<lparr>pi_data = load_bytes (mem s) (p + 24) PIPESIZE, pi_nread = 0,
                              pi_nwrite = 0, pi_readopen = True, pi_writeopen = True\<rparr>) s;
                        s = upd_file f0 (\<lambda>x. x\<lparr>f_type := FD_PIPE, f_readable := True, f_writable := False,
                              f_pipe := p\<rparr>) s;
                        s = upd_file f1 (\<lambda>x. x\<lparr>f_type := FD_PIPE, f_readable := False, f_writable := True,
                              f_pipe := p\<rparr>) s
                    in Inr (Some (f0, f1), s))))"

text \<open>The bytes of \<^verbatim>\<open>struct stat\<close>, with four bytes of padding before the size.\<close>

definition stat_bytes :: "fstat \<Rightarrow> uchar list" where
  "stat_bytes st = to_le 4 (unat (st_dev st)) @ to_le 4 (unat (st_ino st)) @ to_le 2 (unat (st_type st)) @
     to_le 2 (unat (st_nlink st)) @ replicate 4 0 @ to_le 8 (unat (st_size st))"

definition filestat :: "nat \<Rightarrow> uint64 \<Rightarrow> 'z kfile_scheme \<Rightarrow> (int \<times> 'z kfile_scheme) res" where
  "filestat f addr s =
     (if f_type (fil s f) = FD_INODE \<or> f_type (fil s f) = FD_DEVICE then
        let ip = f_ip (fil s f) in
        rbind (ilock ip s) (\<lambda>s.
        let st = stati ip s in
        rbind (iunlock ip s) (\<lambda>s.
        rbind (copyout (p_pagetable (myproc s)) addr (stat_bytes st) s) (\<lambda>(r, s).
        if r < 0 then Inr (- 1, s) else Inr (0, s))))
      else Inr (- 1, s))"

definition dev_entry :: "nat \<Rightarrow> 'z kfile_scheme \<Rightarrow> devsw option" where
  "dev_entry f s =
     (let m = sint (f_major (fil s f)) in
      if m < 0 \<or> m \<ge> int NDEV then None else Some (devsw_tab s ! nat m))"

definition fileread :: "nat \<Rightarrow> uint64 \<Rightarrow> int \<Rightarrow> 'z kfile_scheme \<Rightarrow> (int \<times> 'z kfile_scheme) res" where
  "fileread f addr n s =
     (if \<not> f_readable (fil s f) then Inr (- 1, s)
      else case f_type (fil s f) of
        FD_PIPE \<Rightarrow> piperead (f_pipe (fil s f)) addr n s
      | FD_DEVICE \<Rightarrow>
          (case dev_entry f s of
             None \<Rightarrow> Inr (- 1, s)
           | Some d \<Rightarrow>
               (case dv_read d of
                  None \<Rightarrow> Inr (- 1, s)
                | Some Consoleread \<Rightarrow> consoleread True addr n s
                | Some Consolewrite \<Rightarrow> consolewrite True addr n s))
      | FD_INODE \<Rightarrow>
          (let ip = f_ip (fil s f) in
           rbind (ilock ip s) (\<lambda>s.
           rbind (readi ip True addr (f_off (fil s f)) (word_of_int n) s) (\<lambda>(r, _, s).
           let s = (if r > 0 then upd_file f (\<lambda>x. x\<lparr>f_off := f_off x + word_of_int r\<rparr>) s else s) in
           rbind (iunlock ip s) (\<lambda>s. Inr (r, s)))))
      | FD_NONE \<Rightarrow> Inl (Panic ''fileread''))"

text \<open>
  A write to a file goes in pieces small enough for one transaction each; \<open>left\<close> is the
  number of bytes that remain.
\<close>

definition write_max :: nat where
  "write_max = (MAXOPBLOCKS - 1 - 1 - 2) div 2 * BSIZE"

function filewrite_from :: "nat \<Rightarrow> uint64 \<Rightarrow> nat \<Rightarrow> nat \<Rightarrow> 'z kfile_scheme \<Rightarrow> (nat \<times> 'z kfile_scheme) res" where
  "filewrite_from f addr i left s =
     (if left > 0 then
        let n1 = min left write_max; ip = f_ip (fil s f) in
        rbind (begin_op s) (\<lambda>s.
        rbind (ilock ip s) (\<lambda>s.
        rbind (writei ip True (addr + of_nat i) [] (f_off (fil s f)) (of_nat n1) s) (\<lambda>(r, s).
        let s = (if r > 0 then upd_file f (\<lambda>x. x\<lparr>f_off := f_off x + word_of_int r\<rparr>) s else s) in
        rbind (iunlock ip s) (\<lambda>s.
        rbind (end_op s) (\<lambda>s.
        if r \<noteq> int n1 then Inr (i, s) else filewrite_from f addr (i + n1) (left - n1) s)))))
      else Inr (i, s))"
  by pat_completeness auto
termination by (relation "measure (\<lambda>(f, addr, i, left, s). left)") (auto simp: write_max_def)

declare filewrite_from.simps [simp del]

definition filewrite :: "nat \<Rightarrow> uint64 \<Rightarrow> int \<Rightarrow> 'z kfile_scheme \<Rightarrow> (int \<times> 'z kfile_scheme) res" where
  "filewrite f addr n s =
     (if \<not> f_writable (fil s f) then Inr (- 1, s)
      else case f_type (fil s f) of
        FD_PIPE \<Rightarrow> pipewrite (f_pipe (fil s f)) addr n s
      | FD_DEVICE \<Rightarrow>
          (case dev_entry f s of
             None \<Rightarrow> Inr (- 1, s)
           | Some d \<Rightarrow>
               (case dv_write d of
                  None \<Rightarrow> Inr (- 1, s)
                | Some Consoleread \<Rightarrow> consoleread True addr n s
                | Some Consolewrite \<Rightarrow> consolewrite True addr n s))
      | FD_INODE \<Rightarrow>
          rbind (filewrite_from f addr 0 (nat n) s) (\<lambda>(i, s).
          Inr (if int i = n then n else - 1, s))
      | FD_NONE \<Rightarrow> Inl (Panic ''filewrite''))"

section \<open>A pipe is a queue\<close>

definition pipe_items :: "pipe \<Rightarrow> uchar list" where
  "pipe_items q = ring_items PIPESIZE (pi_data q) (pi_nread q) (pi_nwrite q)"

definition pipe_ok :: "pipe \<Rightarrow> bool" where
  "pipe_ok q \<longleftrightarrow> length (pi_data q) = PIPESIZE \<and> unat (pi_nwrite q - pi_nread q) \<le> PIPESIZE"

interpretation pipe_ring: ring_buffer PIPESIZE "TYPE(32)"
  by unfold_locales simp_all

lemma pipe_full_iff:
  assumes "pipe_ok q"
  shows "pi_nwrite q = pi_nread q + of_nat PIPESIZE \<longleftrightarrow> unat (pi_nwrite q - pi_nread q) = PIPESIZE"
proof -
  have "pi_nwrite q = pi_nread q + of_nat PIPESIZE \<longleftrightarrow> pi_nwrite q - pi_nread q = of_nat PIPESIZE"
    by (metis add_diff_cancel_left' diff_add_cancel add.commute)
  also have "\<dots> \<longleftrightarrow> unat (pi_nwrite q - pi_nread q) = PIPESIZE" by (simp add: word_unat_eq_iff)
  finally show ?thesis .
qed

lemma pipe_put_ok:
  assumes "pipe_ok q" "pi_nwrite q \<noteq> pi_nread q + of_nat PIPESIZE"
  shows "pipe_ok (pipe_put c q) \<and> pipe_items (pipe_put c q) = pipe_items q @ [c]"
proof -
  have lt: "unat (pi_nwrite q - pi_nread q) < PIPESIZE"
    using assms pipe_full_iff [OF assms(1)] by (simp add: pipe_ok_def)
  moreover have "length (pi_data q) = PIPESIZE" using assms(1) by (simp add: pipe_ok_def)
  ultimately show ?thesis
    using pipe_ring.items_put pipe_ring.count_up [OF lt] by (simp add: pipe_ok_def pipe_items_def pipe_put_def)
qed

lemma pipe_get_ok:
  assumes "pipe_ok q" "pi_nread q \<noteq> pi_nwrite q"
  shows "pipe_ok (snd (pipe_get q)) \<and> pipe_items q = fst (pipe_get q) # pipe_items (snd (pipe_get q))"
proof -
  have "pi_nwrite q \<noteq> pi_nread q" using assms(2) by simp
  then show ?thesis
    using pipe_ring.items_get pipe_ring.count_down assms(1)
    by (simp add: pipe_ok_def pipe_items_def pipe_get_def)
qed

text \<open>The byte that the running process has at a user address.\<close>

definition user_byte :: "'z kproc_scheme \<Rightarrow> uint64 \<Rightarrow> uchar" where
  "user_byte s a = (case copyin (p_pagetable (myproc s)) a 1 s of Inr (_, b # _) \<Rightarrow> b | _ \<Rightarrow> 0)"

lemma upd_pipe_simps [simp]:
  "mem (upd_pipe p g s) = mem s" "myproc (upd_pipe p g s) = myproc s" "cur_ok (upd_pipe p g s) = cur_ok s"
  "pipes (upd_pipe p g s) = (pipes s)(p := g (pipes s p))" "procs (upd_pipe p g s) = procs s"
  "cpu_proc (upd_pipe p g s) = cpu_proc s"
  by (simp_all add: upd_pipe_def myproc_def cur_ok_def)

lemma pipes_wakeup [simp]: "pipes (wakeup ch s) = pipes s"
  by (simp add: wakeup_def)

lemma user_byte_cong: "mem s' = mem s \<Longrightarrow> myproc s' = myproc s \<Longrightarrow> user_byte s' = user_byte s"
  using copyin_mem [of s' s] by (simp add: user_byte_def fun_eq_iff)

definition accepts :: "uint64 \<Rightarrow> uint64 \<Rightarrow> nat \<Rightarrow> nat \<Rightarrow> nat \<Rightarrow> 'z kfile_scheme \<Rightarrow> outcome \<Rightarrow> 'z kfile_scheme \<Rightarrow> bool" where
  "accepts p addr i n k s x s' \<longleftrightarrow> k \<le> n \<and> pipe_ok (pipes s' p) \<and>
     pipe_items (pipes s' p) = pipe_items (pipes s p) @ map (\<lambda>j. user_byte s (addr + of_nat (i + j))) [0..<k] \<and>
     (x = Ret (- 1) \<or> x = Ret (int (i + k)) \<or> x = Wait (Chan_nwrite p) (i + k)) \<and>
     pi_nread (pipes s' p) = pi_nread (pipes s p) \<and> mem s' = mem s \<and> cur_ok s' \<and> myproc s' = myproc s"

lemma pipewrite_accepts:
  assumes "pipewrite_from p addr i n s = Inr (x, s')" "cur_ok s" "pipe_ok (pipes s p)"
  shows "\<exists>k. accepts p addr i n k s x s'"
  using assms
proof (induction n arbitrary: i s)
  case 0
  then show ?case by (auto simp: accepts_def)
next
  case (Suc n)
  let ?q = "pipes s p"
  show ?case
  proof (cases "(\<not> pi_readopen ?q \<or> p_killed (myproc s)) \<or> pi_nwrite ?q = pi_nread ?q + of_nat PIPESIZE")
    case True
    then show ?thesis using Suc.prems by (auto simp: accepts_def intro!: exI [of _ 0] split: if_splits)
  next
    case False
    obtain r bs where c: "copyin (p_pagetable (myproc s)) (addr + of_nat i) 1 s = Inr (r, bs)"
        "r = 0 \<and> length bs = 1 \<or> r = - 1 \<and> length bs < 1"
      using copyin_returns by blast
    show ?thesis
    proof (cases "r = - 1")
      case True
      then show ?thesis using Suc.prems False c by (auto simp: accepts_def intro!: exI [of _ 0])
    next
      case r: False
      then obtain b where b: "bs = [b]" using c(2) by (auto simp: length_Suc_conv)
      let ?s = "upd_pipe p (pipe_put b) s"
      have run: "pipewrite_from p addr (Suc i) n ?s = Inr (x, s')"
        using Suc.prems(1) False c(1) r b by simp
      have put: "pipe_ok (pipe_put b ?q)" "pipe_items (pipe_put b ?q) = pipe_items ?q @ [b]"
          "pi_nread (pipe_put b ?q) = pi_nread ?q"
        using pipe_put_ok [OF Suc.prems(3)] False by (simp_all add: pipe_put_def)
      obtain k where k: "accepts p addr (Suc i) n k ?s x s'"
        using Suc.IH [OF run] Suc.prems(2) put by auto
      have ub: "user_byte ?s = user_byte s" by (rule user_byte_cong) simp_all
      have "user_byte s (addr + of_nat i) = b" using c(1) b by (simp add: user_byte_def)
      moreover have "map f [0..<Suc k] = f 0 # map (\<lambda>j. f (Suc j)) [0..<k]" for f :: "nat \<Rightarrow> uchar"
        by (simp add: upt_conv_Cons flip: map_Suc_upt del: upt_Suc)
      ultimately have "accepts p addr i (Suc n) (Suc k) s x s'"
        using k put ub by (simp add: accepts_def algebra_simps del: upt_Suc)
      then show ?thesis by blast
    qed
  qed
qed

lemma copyout_frame:
  assumes "copyout pt va bs s = Inr (r, s')"
  shows "(r = 0 \<or> r = - 1) \<and> pipes s' = pipes s \<and> myproc s' = myproc s \<and> cur_ok s' = cur_ok s"
proof -
  obtain r1 s1 m where "copyout pt va bs s = Inr (r1, s1)" "r1 = 0 \<or> r1 = - 1" "s1 = s\<lparr>mem := m\<rparr>"
    using copyout_returns by blast
  with assms show ?thesis by (auto simp: myproc_def cur_ok_def)
qed

definition delivers :: "uint64 \<Rightarrow> nat \<Rightarrow> nat \<Rightarrow> uchar list \<Rightarrow> 'z kfile_scheme \<Rightarrow> int \<Rightarrow> 'z kfile_scheme \<Rightarrow> bool" where
  "delivers p i n bs s r s' \<longleftrightarrow> pipe_ok (pipes s' p) \<and> pipe_items (pipes s p) = bs @ pipe_items (pipes s' p) \<and>
     length bs \<le> n \<and> pi_nwrite (pipes s' p) = pi_nwrite (pipes s p) \<and>
     (r = int (i + length bs) \<and> length bs = min n (length (pipe_items (pipes s p))) \<or>
      r + 1 = int (i + length bs))"

lemma delivers_Cons:
  assumes "delivers p (Suc i) n bs s1 r s'" "pipe_items (pipes s p) = b # pipe_items (pipes s1 p)"
    "pi_nwrite (pipes s1 p) = pi_nwrite (pipes s p)"
  shows "delivers p i (Suc n) (b # bs) s r s'"
proof -
  have "length (pipe_items (pipes s1 p)) = length bs + length (pipe_items (pipes s' p))"
    using assms(1) by (simp add: delivers_def)
  with assms show ?thesis unfolding delivers_def by simp
qed

lemma piperead_delivers:
  assumes "piperead_copy p addr i n s = Inr (r, s')" "pipe_ok (pipes s p)"
  shows "\<exists>bs. delivers p i n bs s r s'"
  using assms
proof (induction n arbitrary: i s)
  case 0
  then show ?case by (auto simp: delivers_def)
next
  case (Suc n)
  let ?q = "pipes s p"
  show ?case
  proof (cases "pi_nread ?q = pi_nwrite ?q")
    case True
    then show ?thesis using Suc.prems by (auto simp: delivers_def pipe_items_def intro!: exI [of _ "[]"])
  next
    case False
    obtain b q' where g: "fst (pipe_get ?q) = b" "snd (pipe_get ?q) = q'" by blast
    let ?s = "upd_pipe p (\<lambda>q. snd (pipe_get q)) s"
    have get: "pipe_ok q'" "pipe_items ?q = b # pipe_items q'" "pi_nwrite q' = pi_nwrite ?q"
      using pipe_get_ok [OF Suc.prems(2) False] g by (auto simp: pipe_get_def)
    obtain r1 s1 where c: "copyout (p_pagetable (myproc ?s)) (addr + of_nat i) [b] ?s = Inr (r1, s1)"
      using copyout_returns by blast
    have f: "pipes s1 p = q'" using copyout_frame [OF c] g by simp
    show ?thesis
    proof (cases "r1 = - 1")
      case True
      then have "r = int i" "s' = s1" using Suc.prems(1) False c g by (simp_all add: Let_def)
      then have "delivers p i (Suc n) [b] s r s'" using f get by (simp add: delivers_def)
      then show ?thesis by blast
    next
      case ok: False
      then have "piperead_copy p addr (Suc i) n s1 = Inr (r, s')" using Suc.prems(1) False c g by (simp add: Let_def)
      moreover have "pipe_ok (pipes s1 p)" using f get by simp
      ultimately obtain bs where "delivers p (Suc i) n bs s1 r s'" using Suc.IH by blast
      then have "delivers p i (Suc n) (b # bs) s r s'" using delivers_Cons f get by metis
      then show ?thesis by blast
    qed
  qed
qed

text \<open>
  A history of one pipe: the bytes that writers have put in and readers have taken out, in any
  interleaving of calls (complete, or interrupted by a sleep) of any processes, with anything
  else happening in between that leaves the pipe alone.
\<close>

definition put_bytes :: "uint64 \<Rightarrow> uint64 \<Rightarrow> 'z kfile_scheme \<Rightarrow> 'z kfile_scheme \<Rightarrow> uchar list" where
  "put_bytes p addr s s' =
     map (\<lambda>j. user_byte s (addr + of_nat j)) [0..<unat (pi_nwrite (pipes s' p) - pi_nwrite (pipes s p))]"

definition got_bytes :: "uint64 \<Rightarrow> 'z kfile_scheme \<Rightarrow> 'z kfile_scheme \<Rightarrow> uchar list" where
  "got_bytes p s s' = ring_items PIPESIZE (pi_data (pipes s p)) (pi_nread (pipes s p)) (pi_nread (pipes s' p))"

inductive pipe_run :: "uint64 \<Rightarrow> 'z kfile_scheme \<Rightarrow> uchar list \<Rightarrow> uchar list \<Rightarrow> 'z kfile_scheme \<Rightarrow> bool" for p s0 where
  pipe_start: "pipe_run p s0 [] [] s0"
| pipe_write: "pipe_run p s0 W R s \<Longrightarrow> cur_ok s \<Longrightarrow> pipewrite_from p (addr - of_nat i) i n s = Inr (x, s') \<Longrightarrow>
    pipe_run p s0 (W @ put_bytes p addr s s') R s'"
| pipe_read: "pipe_run p s0 W R s \<Longrightarrow> piperead_copy p addr i n s = Inr (r, s') \<Longrightarrow>
    pipe_run p s0 W (R @ got_bytes p s s') s'"
| pipe_other: "pipe_run p s0 W R s \<Longrightarrow> pipes s' p = pipes s p \<Longrightarrow> pipe_run p s0 W R s'"

lemma pipe_write_counts:
  assumes "accepts p (addr - of_nat i) i n k s x s'" "pipe_ok (pipes s p)"
  shows "pipe_items (pipes s' p) = pipe_items (pipes s p) @ put_bytes p addr s s'"
proof -
  let ?q = "pipes s p" and ?q' = "pipes s' p"
  have a: "pipe_items ?q' = pipe_items ?q @ map (\<lambda>j. user_byte s (addr + of_nat j)) [0..<k]"
      "pi_nread ?q' = pi_nread ?q" "pipe_ok ?q'"
    using assms(1) by (simp_all add: accepts_def)
  have "unat (pi_nwrite ?q' - pi_nread ?q) = unat (pi_nwrite ?q - pi_nread ?q) + k"
    using arg_cong [OF a(1), of length] a(2) by (simp add: pipe_items_def)
  moreover have "pi_nwrite ?q' - pi_nwrite ?q = (pi_nwrite ?q' - pi_nread ?q) - (pi_nwrite ?q - pi_nread ?q)"
    by simp
  ultimately have "unat (pi_nwrite ?q' - pi_nwrite ?q) = k" by (simp only: unat_sub_if') simp
  with a(1) show ?thesis by (simp add: put_bytes_def)
qed

lemma pipe_read_counts:
  assumes "delivers p i n bs s r s'" "pipe_ok (pipes s p)"
  shows "got_bytes p s s' = bs"
proof -
  let ?q = "pipes s p" and ?q' = "pipes s' p"
  have d: "pipe_items ?q = bs @ pipe_items ?q'" "pi_nwrite ?q' = pi_nwrite ?q"
    using assms(1) by (simp_all add: delivers_def)
  have l: "unat (pi_nwrite ?q - pi_nread ?q) = length bs + unat (pi_nwrite ?q - pi_nread ?q')"
    using arg_cong [OF d(1), of length] d(2) by (simp add: pipe_items_def)
  have "pi_nread ?q' - pi_nread ?q = (pi_nwrite ?q - pi_nread ?q) - (pi_nwrite ?q - pi_nread ?q')" by simp
  then have k: "unat (pi_nread ?q' - pi_nread ?q) = length bs" using l by (simp only: unat_sub_if') simp
  have "got_bytes p s s' = take (length bs) (pipe_items ?q)"
    using l by (simp add: got_bytes_def pipe_items_def ring_items_def k take_map)
  with d(1) show ?thesis by simp
qed


text \<open>A process with one user page, and an empty pipe whose counters are about to wrap around.\<close>

definition new_pipe :: pipe where
  "new_pipe = \<lparr>pi_data = replicate PIPESIZE 0, pi_nread = 0xFFFFFFFF, pi_nwrite = 0xFFFFFFFF,
     pi_readopen = True, pi_writeopen = True\<rparr>"

definition boot_kfile :: kfile where
  "boot_kfile = klog.extend
     (boot_klog\<lparr>mem := mem one_page_vm, procs := replicate NPROC (blank_proc\<lparr>p_pagetable := 0x80001000\<rparr>)\<rparr>)
     \<lparr>sb = \<lparr>sb_magic = 0, sb_size = 0, sb_nblocks = 0, sb_ninodes = 0, sb_nlog = 0, sb_logstart = 0, sb_inodestart = 0, sb_bmapstart = 0\<rparr>,
      itable = [], uart_in = [], uart_out = [], uart_room = 0, uart_tx_buf = replicate 32 0, uart_tx_w = 0, uart_tx_r = 0,
      panicked = False, cons_buf = replicate 128 0, cons_r = 0, cons_w = 0, cons_e = 0, devsw_tab = [],
      ftable = [], pipes = (\<lambda>_. new_pipe)\<rparr>"

lemma boot_kfile_simps [simp]:
  "mem boot_kfile = mem one_page_vm" "pipes boot_kfile p = new_pipe" "cpu_proc boot_kfile = Some 0"
  "myproc boot_kfile = blank_proc\<lparr>p_pagetable := 0x80001000\<rparr>" "cur_ok boot_kfile"
proof -
  have c: "cpu_proc boot_klog = Some 0"
    by (simp add: boot_klog_def binit_frame boot_kbio_def kbio.extend_def)
  then show "mem boot_kfile = mem one_page_vm" "pipes boot_kfile p = new_pipe" and b: "cpu_proc boot_kfile = Some 0"
    by (simp_all add: boot_kfile_def klog.extend_def)
  show "myproc boot_kfile = blank_proc\<lparr>p_pagetable := 0x80001000\<rparr>" "cur_ok boot_kfile"
    using b by (simp_all add: myproc_def cur_ok_def boot_kfile_def klog.extend_def)
qed

lemma one_page_copyin:
  assumes "PGROUNDDOWN a = 0x5000" "mem s = mem one_page_vm"
  obtains b where "copyin 0x80001000 a 1 s = Inr (0, [b])"
proof -
  obtain r bs where run: "copyin 0x80001000 a 1 one_page_vm = Inr (r, bs)" using copyin_returns by blast
  have "umem 0x80001000 one_page_vm a \<noteq> None" using assms(1) by (simp only: one_page_umem)
  then have "r = 0" using copyin_umem [OF run] by (auto split: if_splits)
  then have "r = 0" "length bs = 1" using copyin_umem [OF run] by simp_all
  then show thesis using that run copyin_mem [OF assms(2)] by (auto simp: length_Suc_conv)
qed


end
