(* ===== verification/Virtio.thy ===== *)
theory Virtio
  imports File
begin

text \<open>
  The driver of the disk, \<^verbatim>\<open>kernel/virtio_disk.c\<close>, with the queue structures of
  \<^verbatim>\<open>kernel/virtio.h\<close>. The addresses that the driver hands to the device are symbolic: a command
  header of \<^verbatim>\<open>disk.ops\<close>, the data of a buffer, or a status byte of \<^verbatim>\<open>disk.info\<close>. The arrays of
  \<^verbatim>\<open>NUM\<close> elements are functions of the index. The device itself is not part of the sources: it
  is the argument \<open>dev\<close> of the definitions that wait for it.
\<close>

datatype dma_addr = DMA_null | DMA_op nat | DMA_data nat | DMA_status nat

record virtq_desc =
  vq_addr :: dma_addr
  vq_len :: uint
  vq_flags :: ushort
  vq_next :: ushort

record virtio_blk_req =
  req_type :: uint
  req_reserved :: uint
  req_sector :: uint64

record vdisk =
  vd_desc_page :: uint64
  vd_avail_page :: uint64
  vd_used_page :: uint64
  vd_desc :: "nat \<Rightarrow> virtq_desc"
  avail_idx :: ushort
  avail_ring :: "nat \<Rightarrow> ushort"
  used_dev_idx :: ushort
  used_ring :: "nat \<Rightarrow> uint"
  vd_free :: "nat \<Rightarrow> bool"
  vd_used_idx :: ushort
  info_b :: "nat \<Rightarrow> nat option"
  info_status :: "nat \<Rightarrow> uchar"
  vd_ops :: "nat \<Rightarrow> virtio_blk_req"
  vd_mmio :: "(uint \<times> uint) list"

record kvirt = kfile +
  vdisk :: vdisk

definition NUM :: nat where [simp]: "NUM = 8"
definition VRING_DESC_F_NEXT :: ushort where [simp]: "VRING_DESC_F_NEXT = 1"
definition VRING_DESC_F_WRITE :: ushort where [simp]: "VRING_DESC_F_WRITE = 2"
definition VIRTIO_BLK_T_IN :: uint where [simp]: "VIRTIO_BLK_T_IN = 0"
definition VIRTIO_BLK_T_OUT :: uint where [simp]: "VIRTIO_BLK_T_OUT = 1"

definition VIRTIO_MMIO_MAGIC_VALUE :: uint where [simp]: "VIRTIO_MMIO_MAGIC_VALUE = 0x000"
definition VIRTIO_MMIO_VERSION :: uint where [simp]: "VIRTIO_MMIO_VERSION = 0x004"
definition VIRTIO_MMIO_DEVICE_ID :: uint where [simp]: "VIRTIO_MMIO_DEVICE_ID = 0x008"
definition VIRTIO_MMIO_VENDOR_ID :: uint where [simp]: "VIRTIO_MMIO_VENDOR_ID = 0x00c"
definition VIRTIO_MMIO_DEVICE_FEATURES :: uint where [simp]: "VIRTIO_MMIO_DEVICE_FEATURES = 0x010"
definition VIRTIO_MMIO_DRIVER_FEATURES :: uint where [simp]: "VIRTIO_MMIO_DRIVER_FEATURES = 0x020"
definition VIRTIO_MMIO_QUEUE_SEL :: uint where [simp]: "VIRTIO_MMIO_QUEUE_SEL = 0x030"
definition VIRTIO_MMIO_QUEUE_NUM_MAX :: uint where [simp]: "VIRTIO_MMIO_QUEUE_NUM_MAX = 0x034"
definition VIRTIO_MMIO_QUEUE_NUM :: uint where [simp]: "VIRTIO_MMIO_QUEUE_NUM = 0x038"
definition VIRTIO_MMIO_QUEUE_READY :: uint where [simp]: "VIRTIO_MMIO_QUEUE_READY = 0x044"
definition VIRTIO_MMIO_QUEUE_NOTIFY :: uint where [simp]: "VIRTIO_MMIO_QUEUE_NOTIFY = 0x050"
definition VIRTIO_MMIO_INTERRUPT_STATUS :: uint where [simp]: "VIRTIO_MMIO_INTERRUPT_STATUS = 0x060"
definition VIRTIO_MMIO_INTERRUPT_ACK :: uint where [simp]: "VIRTIO_MMIO_INTERRUPT_ACK = 0x064"
definition VIRTIO_MMIO_STATUS :: uint where [simp]: "VIRTIO_MMIO_STATUS = 0x070"
definition VIRTIO_MMIO_QUEUE_DESC_LOW :: uint where [simp]: "VIRTIO_MMIO_QUEUE_DESC_LOW = 0x080"
definition VIRTIO_MMIO_QUEUE_DESC_HIGH :: uint where [simp]: "VIRTIO_MMIO_QUEUE_DESC_HIGH = 0x084"
definition VIRTIO_MMIO_DRIVER_DESC_LOW :: uint where [simp]: "VIRTIO_MMIO_DRIVER_DESC_LOW = 0x090"
definition VIRTIO_MMIO_DRIVER_DESC_HIGH :: uint where [simp]: "VIRTIO_MMIO_DRIVER_DESC_HIGH = 0x094"
definition VIRTIO_MMIO_DEVICE_DESC_LOW :: uint where [simp]: "VIRTIO_MMIO_DEVICE_DESC_LOW = 0x0a0"
definition VIRTIO_MMIO_DEVICE_DESC_HIGH :: uint where [simp]: "VIRTIO_MMIO_DEVICE_DESC_HIGH = 0x0a4"
definition VIRTIO_CONFIG_S_ACKNOWLEDGE :: uint where [simp]: "VIRTIO_CONFIG_S_ACKNOWLEDGE = 1"
definition VIRTIO_CONFIG_S_DRIVER :: uint where [simp]: "VIRTIO_CONFIG_S_DRIVER = 2"
definition VIRTIO_CONFIG_S_DRIVER_OK :: uint where [simp]: "VIRTIO_CONFIG_S_DRIVER_OK = 4"
definition VIRTIO_CONFIG_S_FEATURES_OK :: uint where [simp]: "VIRTIO_CONFIG_S_FEATURES_OK = 8"
definition VIRTIO_BLK_F_RO :: nat where [simp]: "VIRTIO_BLK_F_RO = 5"
definition VIRTIO_BLK_F_SCSI :: nat where [simp]: "VIRTIO_BLK_F_SCSI = 7"
definition VIRTIO_BLK_F_CONFIG_WCE :: nat where [simp]: "VIRTIO_BLK_F_CONFIG_WCE = 11"
definition VIRTIO_BLK_F_MQ :: nat where [simp]: "VIRTIO_BLK_F_MQ = 12"
definition VIRTIO_F_ANY_LAYOUT :: nat where [simp]: "VIRTIO_F_ANY_LAYOUT = 27"
definition VIRTIO_RING_F_INDIRECT_DESC :: nat where [simp]: "VIRTIO_RING_F_INDIRECT_DESC = 28"
definition VIRTIO_RING_F_EVENT_IDX :: nat where [simp]: "VIRTIO_RING_F_EVENT_IDX = 29"

definition upd_vd :: "(vdisk \<Rightarrow> vdisk) \<Rightarrow> 'z kvirt_scheme \<Rightarrow> 'z kvirt_scheme" where
  "upd_vd f s = s\<lparr>vdisk := f (vdisk s)\<rparr>"

section \<open>Initialisation\<close>

text \<open>
  The registers are read through \<open>rd\<close>, and what the driver writes to them is kept in order.
  The status register is read once, after the driver has written its features.
\<close>

definition mmio_write :: "uint \<Rightarrow> uint \<Rightarrow> 'z kvirt_scheme \<Rightarrow> 'z kvirt_scheme" where
  "mmio_write r v = upd_vd (\<lambda>d. d\<lparr>vd_mmio := vd_mmio d @ [(r, v)]\<rparr>)"

definition mmio_address :: "uint \<Rightarrow> uint \<Rightarrow> uint64 \<Rightarrow> 'z kvirt_scheme \<Rightarrow> 'z kvirt_scheme" where
  "mmio_address lo hi a s = mmio_write hi (ucast (drop_bit 32 a)) (mmio_write lo (ucast a) s)"

definition without_bit :: "nat \<Rightarrow> uint64 \<Rightarrow> uint64" where
  "without_bit n features = features AND NOT (push_bit n 1)"

definition driver_features :: "uint64 \<Rightarrow> uint64" where
  "driver_features features =
     (let features = without_bit VIRTIO_BLK_F_RO features;
          features = without_bit VIRTIO_BLK_F_SCSI features;
          features = without_bit VIRTIO_BLK_F_CONFIG_WCE features;
          features = without_bit VIRTIO_BLK_F_MQ features;
          features = without_bit VIRTIO_F_ANY_LAYOUT features;
          features = without_bit VIRTIO_RING_F_EVENT_IDX features
      in without_bit VIRTIO_RING_F_INDIRECT_DESC features)"

definition virtio_disk_init :: "(uint \<Rightarrow> uint) \<Rightarrow> 'z kvirt_scheme \<Rightarrow> 'z kvirt_scheme res" where
  "virtio_disk_init rd s =
     (if rd VIRTIO_MMIO_MAGIC_VALUE \<noteq> 0x74726976 \<or> rd VIRTIO_MMIO_VERSION \<noteq> 2 \<or>
         rd VIRTIO_MMIO_DEVICE_ID \<noteq> 2 \<or> rd VIRTIO_MMIO_VENDOR_ID \<noteq> 0x554d4551
      then Inl (Panic ''could not find virtio disk'')
      else
        let status = 0;
            s = mmio_write VIRTIO_MMIO_STATUS status s;
            status = status OR VIRTIO_CONFIG_S_ACKNOWLEDGE;
            s = mmio_write VIRTIO_MMIO_STATUS status s;
            status = status OR VIRTIO_CONFIG_S_DRIVER;
            s = mmio_write VIRTIO_MMIO_STATUS status s;
            features = driver_features (ucast (rd VIRTIO_MMIO_DEVICE_FEATURES));
            s = mmio_write VIRTIO_MMIO_DRIVER_FEATURES (ucast features) s;
            status = status OR VIRTIO_CONFIG_S_FEATURES_OK;
            s = mmio_write VIRTIO_MMIO_STATUS status s;
            status = rd VIRTIO_MMIO_STATUS
        in
        if status AND VIRTIO_CONFIG_S_FEATURES_OK = 0 then Inl (Panic ''virtio disk FEATURES_OK unset'')
        else
          let s = mmio_write VIRTIO_MMIO_QUEUE_SEL 0 s in
          if rd VIRTIO_MMIO_QUEUE_READY \<noteq> 0 then Inl (Panic ''virtio disk should not be ready'')
          else if rd VIRTIO_MMIO_QUEUE_NUM_MAX = 0 then Inl (Panic ''virtio disk has no queue 0'')
          else if rd VIRTIO_MMIO_QUEUE_NUM_MAX < of_nat NUM
          then Inl (Panic ''virtio disk max queue too short'')
          else
            case kalloc s of (desc, s) \<Rightarrow>
            case kalloc s of (avail, s) \<Rightarrow>
            case kalloc s of (used, s) \<Rightarrow>
            if desc = 0 \<or> avail = 0 \<or> used = 0 then Inl (Panic ''virtio disk kalloc'')
            else
              let s = zero_page used (zero_page avail (zero_page desc s));
                  s = upd_vd (\<lambda>d. d\<lparr>vd_desc_page := desc, vd_avail_page := avail, vd_used_page := used,
                        vd_desc := (\<lambda>_. \<lparr>vq_addr = DMA_null, vq_len = 0, vq_flags = 0, vq_next = 0\<rparr>),
                        avail_idx := 0, avail_ring := (\<lambda>_. 0), used_dev_idx := 0, used_ring := (\<lambda>_. 0)\<rparr>) s;
                  s = mmio_write VIRTIO_MMIO_QUEUE_NUM (of_nat NUM) s;
                  s = mmio_address VIRTIO_MMIO_QUEUE_DESC_LOW VIRTIO_MMIO_QUEUE_DESC_HIGH desc s;
                  s = mmio_address VIRTIO_MMIO_DRIVER_DESC_LOW VIRTIO_MMIO_DRIVER_DESC_HIGH avail s;
                  s = mmio_address VIRTIO_MMIO_DEVICE_DESC_LOW VIRTIO_MMIO_DEVICE_DESC_HIGH used s;
                  s = mmio_write VIRTIO_MMIO_QUEUE_READY 1 s;
                  s = upd_vd (\<lambda>d. d\<lparr>vd_free := (\<lambda>i. if i < NUM then True else vd_free d i)\<rparr>) s;
                  status = status OR VIRTIO_CONFIG_S_DRIVER_OK
              in Inr (mmio_write VIRTIO_MMIO_STATUS status s))"

section \<open>Descriptors\<close>

definition alloc_desc :: "'z kvirt_scheme \<Rightarrow> nat option \<times> 'z kvirt_scheme" where
  "alloc_desc s =
     (case find (vd_free (vdisk s)) [0..<NUM] of
        Some i \<Rightarrow> (Some i, upd_vd (\<lambda>d. d\<lparr>vd_free := (vd_free d)(i := False)\<rparr>) s)
      | None \<Rightarrow> (None, s))"

definition free_desc :: "nat \<Rightarrow> 'z kvirt_scheme \<Rightarrow> 'z kvirt_scheme res" where
  "free_desc i s =
     (if i \<ge> NUM then Inl (Panic ''free_desc 1'')
      else if vd_free (vdisk s) i then Inl (Panic ''free_desc 2'')
      else
        Inr (wakeup Chan_disk_free
          (upd_vd (\<lambda>d. d\<lparr>vd_desc := (vd_desc d)(i := \<lparr>vq_addr = DMA_null, vq_len = 0, vq_flags = 0, vq_next = 0\<rparr>),
             vd_free := (vd_free d)(i := True)\<rparr>) s)))"

definition busy_descs :: "'z kvirt_scheme \<Rightarrow> nat set" where
  "busy_descs s = {i. i < NUM \<and> \<not> vd_free (vdisk s) i}"

lemma kvirt_more_wakeup [simp]: "vdisk (wakeup ch s) = vdisk s"
  by (simp add: wakeup_def)

lemma free_desc_busy:
  "free_desc i s = Inr s' \<Longrightarrow> i \<in> busy_descs s \<and> busy_descs s' = busy_descs s - {i}"
  by (auto simp: free_desc_def busy_descs_def upd_vd_def split: if_splits)

text \<open>
  A chain is freed descriptor by descriptor; freeing one twice is a panic, so the loop ends
  whatever the links are.
\<close>

function free_chain :: "nat \<Rightarrow> 'z kvirt_scheme \<Rightarrow> 'z kvirt_scheme res" where
  "free_chain i s =
     (let flag = vq_flags (vd_desc (vdisk s) i); nxt = vq_next (vd_desc (vdisk s) i) in
      rbind (free_desc i s) (\<lambda>s'.
      if flag AND VRING_DESC_F_NEXT \<noteq> 0 then free_chain (unat nxt) s' else Inr s'))"
  by pat_completeness auto
termination
proof (relation "measure (\<lambda>(i, s). card (busy_descs s))", goal_cases)
  case 1
  then show ?case by simp
next
  case (2 i s flag nxt s')
  then have "i \<in> busy_descs s" "busy_descs s' = busy_descs s - {i}" using free_desc_busy by blast+
  moreover have "finite (busy_descs s)" by (simp add: busy_descs_def)
  ultimately show ?case by (simp add: card_Diff1_less del: card_Diff_insert)
qed

declare free_chain.simps [simp del]

text \<open>The loop of \<^verbatim>\<open>alloc3_desc\<close>, with the descriptors it has taken so far.\<close>

fun alloc_descs :: "nat \<Rightarrow> nat list \<Rightarrow> 'z kvirt_scheme \<Rightarrow> (nat list option \<times> 'z kvirt_scheme) res" where
  "alloc_descs 0 idx s = Inr (Some idx, s)"
| "alloc_descs (Suc k) idx s =
     (case alloc_desc s of
        (Some i, s) \<Rightarrow> alloc_descs k (idx @ [i]) s
      | (None, s) \<Rightarrow> rbind (rfold free_desc idx s) (\<lambda>s. Inr (None, s)))"

definition alloc3_desc :: "'z kvirt_scheme \<Rightarrow> (nat list option \<times> 'z kvirt_scheme) res" where
  "alloc3_desc s = alloc_descs 3 [] s"

section \<open>Requests\<close>

text \<open>What \<^verbatim>\<open>virtio_disk_rw\<close> does before it waits; it returns the head of the chain.\<close>

definition set_desc :: "nat \<Rightarrow> virtq_desc \<Rightarrow> vdisk \<Rightarrow> vdisk" where
  "set_desc i x d = d\<lparr>vd_desc := (vd_desc d)(i := x)\<rparr>"

definition format_request :: "nat \<Rightarrow> bool \<Rightarrow> uint64 \<Rightarrow> nat \<Rightarrow> nat \<Rightarrow> nat \<Rightarrow> vdisk \<Rightarrow> vdisk" where
  "format_request b write sector i0 i1 i2 d =
     (let d = d\<lparr>vd_ops := (vd_ops d)(i0 :=
               \<lparr>req_type = (if write then VIRTIO_BLK_T_OUT else VIRTIO_BLK_T_IN), req_reserved = 0,
                req_sector = sector\<rparr>)\<rparr>;
          d = set_desc i0 \<lparr>vq_addr = DMA_op i0, vq_len = 16, vq_flags = VRING_DESC_F_NEXT,
                vq_next = of_nat i1\<rparr> d;
          d = set_desc i1 \<lparr>vq_addr = DMA_data b, vq_len = of_nat BSIZE,
                vq_flags = (if write then 0 else VRING_DESC_F_WRITE) OR VRING_DESC_F_NEXT,
                vq_next = of_nat i2\<rparr> d;
          d = d\<lparr>info_status := (info_status d)(i0 := 0xff)\<rparr>
      in set_desc i2 \<lparr>vq_addr = DMA_status i0, vq_len = 1, vq_flags = VRING_DESC_F_WRITE,
            vq_next = 0\<rparr> d)"

definition virtio_disk_submit :: "nat \<Rightarrow> bool \<Rightarrow> 'z kvirt_scheme \<Rightarrow> (nat \<times> 'z kvirt_scheme) res" where
  "virtio_disk_submit b write s =
     (let sector = ucast (b_blockno (bufs s ! b) * of_nat (BSIZE div 512)) :: uint64 in
      rbind (alloc3_desc s) (\<lambda>(idx, s). case idx of
        None \<Rightarrow> Inl (Sleeps Chan_disk_free)
      | Some idx \<Rightarrow>
          let i0 = idx ! 0; i1 = idx ! 1; i2 = idx ! 2;
              s = upd_vd (format_request b write sector i0 i1 i2) s;
              s = upd_buf b (\<lambda>x. x\<lparr>b_disk := True\<rparr>) s;
              s = upd_vd (\<lambda>d. d\<lparr>info_b := (info_b d)(i0 := Some b)\<rparr>) s;
              s = upd_vd (\<lambda>d. d\<lparr>avail_ring := (avail_ring d)(unat (avail_idx d) mod NUM := of_nat i0)\<rparr>) s;
              s = upd_vd (\<lambda>d. d\<lparr>avail_idx := avail_idx d + 1\<rparr>) s;
              s = mmio_write VIRTIO_MMIO_QUEUE_NOTIFY 0 s
          in Inr (i0, s)))"

definition virtio_disk_finish :: "nat \<Rightarrow> 'z kvirt_scheme \<Rightarrow> 'z kvirt_scheme res" where
  "virtio_disk_finish i0 s = free_chain i0 (upd_vd (\<lambda>d. d\<lparr>info_b := (info_b d)(i0 := None)\<rparr>) s)"

text \<open>
  The interrupt handler takes the completed requests from the used ring. Acknowledging the
  interrupt writes back what the status register \<open>isr\<close> shows.
\<close>

function used_requests :: "'z kvirt_scheme \<Rightarrow> 'z kvirt_scheme res" where
  "used_requests s =
     (if vd_used_idx (vdisk s) \<noteq> used_dev_idx (vdisk s) then
        let id = unat (used_ring (vdisk s) (unat (vd_used_idx (vdisk s)) mod NUM)) in
        if info_status (vdisk s) id \<noteq> 0 then Inl (Panic ''virtio_disk_intr status'')
        else case info_b (vdisk s) id of
          None \<Rightarrow> Inl (Undef ''null buffer'')
        | Some b \<Rightarrow>
            let s = wakeup (Chan_buf b) (upd_buf b (\<lambda>x. x\<lparr>b_disk := False\<rparr>) s) in
            used_requests (upd_vd (\<lambda>d. d\<lparr>vd_used_idx := vd_used_idx d + 1\<rparr>) s)
      else Inr s)"
  by pat_completeness auto
termination
proof (relation "measure (\<lambda>s. unat (used_dev_idx (vdisk s) - vd_used_idx (vdisk s)))", goal_cases)
  case 1
  then show ?case by simp
next
  case (2 s)
  then have "used_dev_idx (vdisk s) - vd_used_idx (vdisk s) \<noteq> 0" by simp
  then have "unat (used_dev_idx (vdisk s) - vd_used_idx (vdisk s) - 1)
      < unat (used_dev_idx (vdisk s) - vd_used_idx (vdisk s))" by (simp add: measure_unat)
  then show ?case by (simp add: upd_vd_def upd_buf_def algebra_simps 2)
qed

declare used_requests.simps [simp del]

definition virtio_disk_intr :: "uint \<Rightarrow> 'z kvirt_scheme \<Rightarrow> 'z kvirt_scheme res" where
  "virtio_disk_intr isr s = used_requests (mmio_write VIRTIO_MMIO_INTERRUPT_ACK (isr AND 3) s)"

text \<open>
  The whole of \<^verbatim>\<open>virtio_disk_rw\<close>, when the device serves the request and its interrupt is handled
  while the process sleeps.
\<close>

definition virtio_disk_rw :: "('z kvirt_scheme \<Rightarrow> 'z kvirt_scheme) \<Rightarrow> uint \<Rightarrow> nat \<Rightarrow> bool \<Rightarrow> 'z kvirt_scheme \<Rightarrow>
    'z kvirt_scheme res" where
  "virtio_disk_rw dev isr b write s =
     rbind (virtio_disk_submit b write s) (\<lambda>(i0, s).
     rbind (virtio_disk_intr isr (dev s)) (\<lambda>s.
     if b_disk (bufs s ! b) then Inl (Sleeps (Chan_buf b)) else virtio_disk_finish i0 s))"

end
