(* ===== verification/Proc.thy ===== *)
theory Proc
  imports Virtio
begin

text \<open>
  Processes: the rest of \<^verbatim>\<open>kernel/proc.c\<close>. Addresses fixed by the linker are the fields of
  \<open>ksyms\<close>. The trap frame of a process is its page in physical memory, read and written at the
  offsets of \<^verbatim>\<open>struct trapframe\<close>. One CPU is modelled: \<open>cpu_proc\<close> is its \<^verbatim>\<open>c->proc\<close>. What
  \<^verbatim>\<open>sched()\<close> does beyond its checks is to leave the CPU to the scheduler, which clears
  \<^verbatim>\<open>c->proc\<close>; the rest of the sleeping or yielding function runs when the scheduler has chosen
  the process again. The checks of \<^verbatim>\<open>sched()\<close> that concern locks and interrupts are in
  theory \<open>Spinlock\<close>.
\<close>

record ksyms =
  sym_trampoline :: uint64
  sym_uservec :: uint64
  sym_userret :: uint64
  sym_usertrap :: uint64
  sym_kernelvec :: uint64
  sym_forkret :: uint64

record ksys = kvirt +
  ticks :: uint
  forkret_first :: bool

section \<open>Trap frames\<close>

definition tf_kernel_satp :: uint64 where [simp]: "tf_kernel_satp = 0"
definition tf_kernel_sp :: uint64 where [simp]: "tf_kernel_sp = 8"
definition tf_kernel_trap :: uint64 where [simp]: "tf_kernel_trap = 16"
definition tf_epc :: uint64 where [simp]: "tf_epc = 24"
definition tf_kernel_hartid :: uint64 where [simp]: "tf_kernel_hartid = 32"
definition tf_sp :: uint64 where [simp]: "tf_sp = 48"
definition tf_a :: "nat \<Rightarrow> uint64" where [simp]: "tf_a n = 112 + 8 * of_nat n"
definition tf_size :: nat where [simp]: "tf_size = 288"

definition get_tf :: "uint64 \<Rightarrow> uint64 \<Rightarrow> 'z kmem_scheme \<Rightarrow> uint64" where
  "get_tf tf off s = get64 (mem s) (tf + off)"

definition set_tf :: "uint64 \<Rightarrow> uint64 \<Rightarrow> uint64 \<Rightarrow> 'z kmem_scheme \<Rightarrow> 'z kmem_scheme" where
  "set_tf tf off v s = s\<lparr>mem := set64 (mem s) (tf + off) v\<rparr>"

section \<open>The process table\<close>

definition procinit :: "'z kproc_scheme \<Rightarrow> 'z kproc_scheme" where
  "procinit s = fold (\<lambda>i. upd_proc i (\<lambda>p. p\<lparr>p_state := UNUSED, p_kstack := KSTACK i\<rparr>)) [0..<NPROC] s"

text \<open>A process identifier is a C \<^verbatim>\<open>int\<close>, whose overflow is undefined.\<close>

definition allocpid :: "'z kproc_scheme \<Rightarrow> (int \<times> 'z kproc_scheme) res" where
  "allocpid s =
     (if nextpid s \<ge> 2 ^ 31 - 1 then Inl (Undef ''nextpid'')
      else Inr (nextpid s, s\<lparr>nextpid := nextpid s + 1\<rparr>))"

definition proc_pagetable :: "ksyms \<Rightarrow> uint64 \<Rightarrow> 'z kmem_scheme \<Rightarrow> (uint64 \<times> 'z kmem_scheme) res" where
  "proc_pagetable syms trapframe s =
     (case uvmcreate s of (pagetable, s) \<Rightarrow>
        if pagetable = 0 then Inr (0, s)
        else
          rbind (mappages pagetable TRAMPOLINE PGSIZE (sym_trampoline syms) (PTE_R OR PTE_X) s) (\<lambda>(r, s).
          if r < 0 then rbind (uvmfree pagetable 0 s) (\<lambda>s. Inr (0, s))
          else
            rbind (mappages pagetable TRAPFRAME PGSIZE trapframe (PTE_R OR PTE_W) s) (\<lambda>(r, s).
            if r < 0 then
              rbind (uvmunmap pagetable TRAMPOLINE 1 False s) (\<lambda>s.
              rbind (uvmfree pagetable 0 s) (\<lambda>s. Inr (0, s)))
            else Inr (pagetable, s))))"

definition proc_freepagetable :: "uint64 \<Rightarrow> uint64 \<Rightarrow> 'z kmem_scheme \<Rightarrow> 'z kmem_scheme res" where
  "proc_freepagetable pagetable sz s =
     rbind (uvmunmap pagetable TRAMPOLINE 1 False s) (\<lambda>s.
     rbind (uvmunmap pagetable TRAPFRAME 1 False s) (\<lambda>s. uvmfree pagetable sz s))"

definition freeproc :: "nat \<Rightarrow> 'z kproc_scheme \<Rightarrow> 'z kproc_scheme res" where
  "freeproc i s =
     rbind (if p_trapframe (procs s ! i) \<noteq> 0 then kfree (p_trapframe (procs s ! i)) s else Inr s) (\<lambda>s.
     let s = upd_proc i (\<lambda>p. p\<lparr>p_trapframe := 0\<rparr>) s in
     rbind (if p_pagetable (procs s ! i) \<noteq> 0
            then proc_freepagetable (p_pagetable (procs s ! i)) (p_sz (procs s ! i)) s else Inr s) (\<lambda>s.
     Inr (upd_proc i (\<lambda>p. p\<lparr>p_pagetable := 0, p_sz := 0, p_pid := 0, p_parent := None,
       p_name := (p_name p)(0 := 0), p_chan := None, p_killed := False, p_xstate := 0,
       p_state := UNUSED\<rparr>) s)))"

definition allocproc :: "ksyms \<Rightarrow> 'z kproc_scheme \<Rightarrow> (nat option \<times> 'z kproc_scheme) res" where
  "allocproc syms s =
     (case find (\<lambda>i. p_state (procs s ! i) = UNUSED) [0..<NPROC] of
        None \<Rightarrow> Inr (None, s)
      | Some i \<Rightarrow>
          rbind (allocpid s) (\<lambda>(pid, s).
          let s = upd_proc i (\<lambda>p. p\<lparr>p_pid := pid, p_state := USED\<rparr>) s in
          case kalloc s of (tf, s) \<Rightarrow>
          let s = upd_proc i (\<lambda>p. p\<lparr>p_trapframe := tf\<rparr>) s in
          if tf = 0 then rbind (freeproc i s) (\<lambda>s. Inr (None, s))
          else
            rbind (proc_pagetable syms tf s) (\<lambda>(pt, s).
            let s = upd_proc i (\<lambda>p. p\<lparr>p_pagetable := pt\<rparr>) s in
            if pt = 0 then rbind (freeproc i s) (\<lambda>s. Inr (None, s))
            else
              Inr (Some i, upd_proc i (\<lambda>p. p\<lparr>p_context := \<lparr>ctx_ra = sym_forkret syms,
                ctx_sp = p_kstack p + PGSIZE, ctx_s = replicate 12 0\<rparr>\<rparr>) s))))"

definition initcode :: "uchar list" where
  "initcode = [
     0x17, 0x05, 0x00, 0x00, 0x13, 0x05, 0x45, 0x02,
     0x97, 0x05, 0x00, 0x00, 0x93, 0x85, 0x35, 0x02,
     0x93, 0x08, 0x70, 0x00, 0x73, 0x00, 0x00, 0x00,
     0x93, 0x08, 0x20, 0x00, 0x73, 0x00, 0x00, 0x00,
     0xef, 0xf0, 0x9f, 0xff, 0x2f, 0x69, 0x6e, 0x69,
     0x74, 0x00, 0x00, 0x24, 0x00, 0x00, 0x00, 0x00,
     0x00, 0x00, 0x00, 0x00]"

definition userinit :: "ksyms \<Rightarrow> 'z kfs_scheme \<Rightarrow> 'z kfs_scheme res" where
  "userinit syms s =
     rbind (allocproc syms s) (\<lambda>(p, s). case p of
       None \<Rightarrow> Inl (Undef ''null process'')
     | Some i \<Rightarrow>
         let s = s\<lparr>initproc := Some i\<rparr> in
         rbind (uvmfirst (p_pagetable (procs s ! i)) initcode s) (\<lambda>s.
         let s = upd_proc i (\<lambda>p. p\<lparr>p_sz := PGSIZE\<rparr>) s;
             tf = p_trapframe (procs s ! i);
             s = set_tf tf tf_epc 0 s;
             s = set_tf tf tf_sp PGSIZE s;
             s = upd_proc i (\<lambda>p. p\<lparr>p_name := safestrcpy (p_name p) (str_view (bytes ''initcode'')) 16\<rparr>) s
         in
         rbind (namei (bytes ''/'') s) (\<lambda>(cwd, s).
         Inr (upd_proc i (\<lambda>p. p\<lparr>p_cwd := cwd, p_state := RUNNABLE\<rparr>) s))))"

definition growproc :: "int \<Rightarrow> 'z kproc_scheme \<Rightarrow> (int \<times> 'z kproc_scheme) res" where
  "growproc n s =
     (let me = the (cpu_proc s); pt = p_pagetable (myproc s); sz = p_sz (myproc s) in
      if n > 0 then
        rbind (uvmalloc pt sz (sz + word_of_int n) PTE_W s) (\<lambda>(sz, s).
        if sz = 0 then Inr (- 1, s) else Inr (0, upd_proc me (\<lambda>p. p\<lparr>p_sz := sz\<rparr>) s))
      else if n < 0 then
        rbind (uvmdealloc pt sz (sz + word_of_int n) s) (\<lambda>(sz, s).
        Inr (0, upd_proc me (\<lambda>p. p\<lparr>p_sz := sz\<rparr>) s))
      else Inr (0, upd_proc me (\<lambda>p. p\<lparr>p_sz := sz\<rparr>) s))"

section \<open>fork, exit and wait\<close>

definition dup_ofile :: "nat \<Rightarrow> nat \<Rightarrow> nat \<Rightarrow> 'z kfile_scheme \<Rightarrow> 'z kfile_scheme res" where
  "dup_ofile me np i s =
     (case p_ofile (procs s ! me) ! i of
        None \<Rightarrow> Inr s
      | Some f \<Rightarrow>
          rbind (filedup f s) (\<lambda>(f, s).
          Inr (upd_proc np (\<lambda>p. p\<lparr>p_ofile := (p_ofile p)[i := Some f]\<rparr>) s)))"

definition fork :: "ksyms \<Rightarrow> 'z kfile_scheme \<Rightarrow> (int \<times> 'z kfile_scheme) res" where
  "fork syms s =
     (let me = the (cpu_proc s) in
      rbind (allocproc syms s) (\<lambda>(np, s). case np of
        None \<Rightarrow> Inr (- 1, s)
      | Some np \<Rightarrow>
          rbind (uvmcopy (p_pagetable (procs s ! me)) (p_pagetable (procs s ! np)) (p_sz (procs s ! me)) s) (\<lambda>(r, s).
          if r < 0 then rbind (freeproc np s) (\<lambda>s. Inr (- 1, s))
          else
            let s = upd_proc np (\<lambda>p. p\<lparr>p_sz := p_sz (procs s ! me)\<rparr>) s;
                tf = p_trapframe (procs s ! np);
                s = s\<lparr>mem := store_bytes (mem s) tf (load_bytes (mem s) (p_trapframe (procs s ! me)) tf_size)\<rparr>;
                s = set_tf tf (tf_a 0) 0 s
            in
            rbind (rfold (dup_ofile me np) [0..<NOFILE] s) (\<lambda>s.
            case idup (the (p_cwd (procs s ! me))) s of (cwd, s) \<Rightarrow>
            let s = upd_proc np (\<lambda>p. p\<lparr>p_cwd := Some cwd,
                      p_name := safestrcpy (p_name p) (p_name (procs s ! me)) 16\<rparr>) s;
                pid = p_pid (procs s ! np);
                s = upd_proc np (\<lambda>p. p\<lparr>p_parent := Some me\<rparr>) s;
                s = upd_proc np (\<lambda>p. p\<lparr>p_state := RUNNABLE\<rparr>) s
            in Inr (pid, s)))))"

text \<open>A null pointer as a channel wakes nobody: a sleeping process has a channel.\<close>

definition wakeup_proc :: "nat option \<Rightarrow> 'z kproc_scheme \<Rightarrow> 'z kproc_scheme" where
  "wakeup_proc p s = (case p of None \<Rightarrow> s | Some i \<Rightarrow> wakeup (Chan_proc i) s)"

definition reparent :: "nat \<Rightarrow> 'z kproc_scheme \<Rightarrow> 'z kproc_scheme" where
  "reparent p s =
     fold (\<lambda>pp s.
       if p_parent (procs s ! pp) = Some p
       then wakeup_proc (initproc s) (upd_proc pp (\<lambda>q. q\<lparr>p_parent := initproc s\<rparr>) s)
       else s) [0..<NPROC] s"

definition close_ofile :: "nat \<Rightarrow> nat \<Rightarrow> 'z kfile_scheme \<Rightarrow> 'z kfile_scheme res" where
  "close_ofile me fd s =
     (case p_ofile (procs s ! me) ! fd of
        None \<Rightarrow> Inr s
      | Some f \<Rightarrow>
          rbind (fileclose f s) (\<lambda>s. Inr (upd_proc me (\<lambda>p. p\<lparr>p_ofile := (p_ofile p)[fd := None]\<rparr>) s)))"

definition sched :: "'z kproc_scheme \<Rightarrow> 'z kproc_scheme res" where
  "sched s =
     (if p_state (myproc s) = RUNNING then Inl (Panic ''sched running'')
      else Inr (s\<lparr>cpu_proc := None\<rparr>))"

definition exit :: "int \<Rightarrow> 'z kfile_scheme \<Rightarrow> 'z kfile_scheme res" where
  "exit status s =
     (if cpu_proc s = initproc s then Inl (Panic ''init exiting'')
      else
        let me = the (cpu_proc s) in
        rbind (rfold (close_ofile me) [0..<NOFILE] s) (\<lambda>s.
        rbind (begin_op s) (\<lambda>s.
        rbind (iput (the (p_cwd (procs s ! me))) s) (\<lambda>s.
        rbind (end_op s) (\<lambda>s.
        let s = upd_proc me (\<lambda>p. p\<lparr>p_cwd := None\<rparr>) s;
            s = reparent me s;
            s = wakeup_proc (p_parent (procs s ! me)) s;
            s = upd_proc me (\<lambda>p. p\<lparr>p_xstate := status, p_state := ZOMBIE\<rparr>) s
        in sched s)))))"

definition child_of :: "nat \<Rightarrow> 'z kproc_scheme \<Rightarrow> nat \<Rightarrow> bool" where
  "child_of me s pp \<longleftrightarrow> p_parent (procs s ! pp) = Some me"

definition wait :: "uint64 \<Rightarrow> 'z kproc_scheme \<Rightarrow> (int \<times> 'z kproc_scheme) res" where
  "wait addr s =
     (let me = the (cpu_proc s) in
      case find (\<lambda>pp. child_of me s pp \<and> p_state (procs s ! pp) = ZOMBIE) [0..<NPROC] of
        Some pp \<Rightarrow>
          let pid = p_pid (procs s ! pp) in
          rbind (if addr \<noteq> 0
                 then copyout (p_pagetable (myproc s)) addr
                        (to_le 4 (unat (word_of_int (p_xstate (procs s ! pp)) :: uint))) s
                 else Inr (0, s)) (\<lambda>(r, s).
          if r < 0 then Inr (- 1, s) else rbind (freeproc pp s) (\<lambda>s. Inr (pid, s)))
      | None \<Rightarrow>
          if \<not> (\<exists>pp\<in>set [0..<NPROC]. child_of me s pp) \<or> p_killed (myproc s) then Inr (- 1, s)
          else Inl (Sleeps (Chan_proc me)))"

section \<open>Scheduling\<close>

definition run_proc :: "nat \<Rightarrow> 'z kproc_scheme \<Rightarrow> 'z kproc_scheme" where
  "run_proc i s = (upd_proc i (\<lambda>p. p\<lparr>p_state := RUNNING\<rparr>) s)\<lparr>cpu_proc := Some i\<rparr>"

text \<open>
  One turn of the inner loop of \<^verbatim>\<open>scheduler()\<close>, from the \<^verbatim>\<open>acquire()\<close> of the entry's lock to the switch, or to the
  \<^verbatim>\<open>release()\<close> when the process is not runnable; and the entry of the next turn. Between two turns the process that
  was chosen runs, and the table changes.
\<close>

definition scheduler_visit :: "nat \<Rightarrow> 'z kproc_scheme \<Rightarrow> bool \<times> 'z kproc_scheme" where
  "scheduler_visit k s = (if p_state (procs s ! k) = RUNNABLE then (True, run_proc k s) else (False, s))"

definition scheduler_next :: "nat \<Rightarrow> nat" where
  "scheduler_next k = (if k + 1 < NPROC then k + 1 else 0)"

definition yield :: "'z kproc_scheme \<Rightarrow> 'z kproc_scheme res" where
  "yield s = sched (upd_proc (the (cpu_proc s)) (\<lambda>p. p\<lparr>p_state := RUNNABLE\<rparr>) s)"

definition sleep :: "chan \<Rightarrow> 'z kproc_scheme \<Rightarrow> 'z kproc_scheme res" where
  "sleep ch s = sched (upd_proc (the (cpu_proc s)) (\<lambda>p. p\<lparr>p_chan := Some ch, p_state := SLEEPING\<rparr>) s)"

text \<open>What is left of \<^verbatim>\<open>sleep()\<close> when the process runs again.\<close>

definition sleep_resume :: "'z kproc_scheme \<Rightarrow> 'z kproc_scheme" where
  "sleep_resume s = upd_proc (the (cpu_proc s)) (\<lambda>p. p\<lparr>p_chan := None\<rparr>) s"

definition kill :: "int \<Rightarrow> 'z kproc_scheme \<Rightarrow> int \<times> 'z kproc_scheme" where
  "kill pid s =
     (case find (\<lambda>i. p_pid (procs s ! i) = pid) [0..<NPROC] of
        Some i \<Rightarrow>
          (0, upd_proc i (\<lambda>p. if p_state p = SLEEPING then p\<lparr>p_killed := True, p_state := RUNNABLE\<rparr>
                               else p\<lparr>p_killed := True\<rparr>) s)
      | None \<Rightarrow> (- 1, s))"

definition setkilled :: "nat \<Rightarrow> 'z kproc_scheme \<Rightarrow> 'z kproc_scheme" where
  "setkilled i s = upd_proc i (\<lambda>p. p\<lparr>p_killed := True\<rparr>) s"

section \<open>Every runnable process runs\<close>

lemma scheduler_next_pow: "k < NPROC \<Longrightarrow> (scheduler_next ^^ n) k = (k + n) mod NPROC"
proof (induction n)
  case (Suc n)
  then have "(scheduler_next ^^ Suc n) k = scheduler_next ((k + n) mod NPROC)" by simp
  also have "\<dots> = Suc ((k + n) mod NPROC) mod NPROC" by (auto simp: scheduler_next_def mod_Suc)
  finally show ?case by (simp add: mod_Suc_eq)
qed simp

text \<open>C35: A process that is runnable and stays so until it is chosen is chosen within \<^verbatim>\<open>NPROC\<close> turns of the scheduler, whatever happens
  to the table between the turns, and no entry is looked at twice before. \<open>st n\<close> is the state in which the turn \<open>n\<close> starts.
\<close>

theorem scheduler_runs_every_process:
  fixes st :: "nat \<Rightarrow> 'z kproc_scheme"
  assumes "k < NPROC" "j < NPROC" "\<forall>n < NPROC. p_state (procs (st n) ! j) = RUNNABLE"
  shows "\<exists>n < NPROC. (scheduler_next ^^ n) k = j \<and> scheduler_visit ((scheduler_next ^^ n) k) (st n) = (True, run_proc j (st n)) \<and>
    distinct (map (\<lambda>m. (scheduler_next ^^ m) k) [0..<Suc n])"
proof -
  let ?n = "(j + (NPROC - k)) mod NPROC"
  have "(k + ?n) mod NPROC = (k + (j + (NPROC - k))) mod NPROC" by (simp only: mod_add_right_eq)
  then have n: "?n < NPROC" "(scheduler_next ^^ ?n) k = j" using assms(1,2) scheduler_next_pow [OF assms(1), of ?n] by simp_all
  have "(k + a) mod NPROC \<noteq> (k + b) mod NPROC" if "a < b" "b < NPROC" for a b
    using that mod_eq_dvd_iff_nat [of "k + a" "k + b" NPROC] by (auto dest: dvd_imp_le)
  then have "inj_on (\<lambda>m. (scheduler_next ^^ m) k) {0..<Suc ?n}" unfolding scheduler_next_pow [OF assms(1)]
    using n(1) by (intro linorder_inj_onI) (auto simp del: NPROC_def)
  then have "distinct (map (\<lambda>m. (scheduler_next ^^ m) k) [0..<Suc ?n])" by (simp add: distinct_map del: upt_Suc)
  then show ?thesis using n assms(3) unfolding scheduler_visit_def by (intro exI [of _ ?n]) (simp del: NPROC_def upt_Suc)
qed

theorem scheduler_runs_every_process_witness:
  "\<exists>n < NPROC. (scheduler_next ^^ n) 60 = 3 \<and>
    scheduler_visit ((scheduler_next ^^ n) 60) (boot_kbio\<lparr>procs := replicate NPROC (blank_proc\<lparr>p_state := RUNNABLE\<rparr>)\<rparr>) =
      (True, run_proc 3 (boot_kbio\<lparr>procs := replicate NPROC (blank_proc\<lparr>p_state := RUNNABLE\<rparr>)\<rparr>)) \<and>
    distinct (map (\<lambda>m. (scheduler_next ^^ m) 60) [0..<Suc n])"
  by (rule scheduler_runs_every_process) simp_all

end
