(* ===== verification/Sysproc.thy ===== *)
theory Sysproc
  imports Proc
begin

text \<open>
  System call arguments (\<^verbatim>\<open>kernel/syscall.c\<close>) and the system calls on processes
  (\<^verbatim>\<open>kernel/sysproc.c\<close>). A string fetched from user space is returned as the bytes that arrived
  in the kernel's buffer, the NUL included.
\<close>

section \<open>Arguments\<close>

definition fetchaddr :: "uint64 \<Rightarrow> 'z kproc_scheme \<Rightarrow> (int \<times> uint64) res" where
  "fetchaddr addr s =
     (if addr \<ge> p_sz (myproc s) \<or> addr + 8 > p_sz (myproc s) then Inr (- 1, 0)
      else rbind (copyin (p_pagetable (myproc s)) addr 8 s) (\<lambda>(r, bs).
        if r \<noteq> 0 then Inr (- 1, 0) else Inr (0, of_nat (of_le bs))))"

definition fetchstr :: "uint64 \<Rightarrow> nat \<Rightarrow> 'z kproc_scheme \<Rightarrow> (int \<times> uchar list) res" where
  "fetchstr addr limit s =
     rbind (copyinstr (p_pagetable (myproc s)) addr limit s) (\<lambda>(r, bs).
     if r < 0 then Inr (- 1, bs)
     else Inr (int (length (takeWhile (\<lambda>c. c \<noteq> 0) bs)), bs))"

definition argraw :: "nat \<Rightarrow> 'z kproc_scheme \<Rightarrow> uint64 res" where
  "argraw n s =
     (if n \<le> 5 then Inr (get_tf (p_trapframe (myproc s)) (tf_a n) s) else Inl (Panic ''argraw''))"

definition argint :: "nat \<Rightarrow> 'z kproc_scheme \<Rightarrow> int res" where
  "argint n s = rbind (argraw n s) (\<lambda>x. Inr (sint (ucast x :: uint)))"

definition argaddr :: "nat \<Rightarrow> 'z kproc_scheme \<Rightarrow> uint64 res" where
  "argaddr n s = argraw n s"

definition argstr :: "nat \<Rightarrow> nat \<Rightarrow> 'z kproc_scheme \<Rightarrow> (int \<times> uchar list) res" where
  "argstr n limit s = rbind (argaddr n s) (\<lambda>addr. fetchstr addr limit s)"

text \<open>The string in a buffer that holds a NUL.\<close>

definition buf_str :: "uchar list \<Rightarrow> uchar list" where
  "buf_str bs = takeWhile (\<lambda>c. c \<noteq> 0) bs"

section \<open>sysproc.c\<close>

definition sys_exit :: "'z kfile_scheme \<Rightarrow> 'z kfile_scheme res" where
  "sys_exit s = rbind (argint 0 s) (\<lambda>n. exit n s)"

definition sys_getpid :: "'z kproc_scheme \<Rightarrow> (int \<times> 'z kproc_scheme) res" where
  "sys_getpid s = Inr (p_pid (myproc s), s)"

definition sys_fork :: "ksyms \<Rightarrow> 'z kfile_scheme \<Rightarrow> (int \<times> 'z kfile_scheme) res" where
  "sys_fork syms s = fork syms s"

definition sys_wait :: "'z kproc_scheme \<Rightarrow> (int \<times> 'z kproc_scheme) res" where
  "sys_wait s = rbind (argaddr 0 s) (\<lambda>p. wait p s)"

definition sys_sbrk :: "'z kproc_scheme \<Rightarrow> (int \<times> 'z kproc_scheme) res" where
  "sys_sbrk s =
     rbind (argint 0 s) (\<lambda>n.
     let addr = p_sz (myproc s) in
     rbind (growproc n s) (\<lambda>(r, s).
     if r < 0 then Inr (- 1, s) else Inr (int (unat addr), s)))"

text \<open>
  The loop of \<^verbatim>\<open>sys_sleep\<close>, from where it looks at the clock. The comparison of an unsigned with
  a signed number is unsigned.
\<close>

definition sleep_check :: "uint \<Rightarrow> int \<Rightarrow> 'z ksys_scheme \<Rightarrow> (int \<times> 'z ksys_scheme) res" where
  "sleep_check ticks0 n s =
     (if ticks s - ticks0 < word_of_int n then
        if p_killed (myproc s) then Inr (- 1, s) else Inl (Sleeps Chan_ticks)
      else Inr (0, s))"

definition sys_sleep :: "'z ksys_scheme \<Rightarrow> (int \<times> 'z ksys_scheme) res" where
  "sys_sleep s = rbind (argint 0 s) (\<lambda>n. sleep_check (ticks s) n s)"

definition sys_kill :: "'z kproc_scheme \<Rightarrow> (int \<times> 'z kproc_scheme) res" where
  "sys_kill s = rbind (argint 0 s) (\<lambda>pid. Inr (kill pid s))"

definition sys_uptime :: "'z ksys_scheme \<Rightarrow> (int \<times> 'z ksys_scheme) res" where
  "sys_uptime s = Inr (int (unat (ticks s)), s)"

end
