(* ===== verification/Exec.thy ===== *)
theory Exec
  imports Proc
begin

text \<open>
  Program loading (\<^verbatim>\<open>kernel/exec.c\<close>, \<^verbatim>\<open>kernel/elf.h\<close>). The argument vector is the list of the
  addresses of the kernel pages that hold the strings, without the final null pointer. Headers
  read from the file are byte lists, read at the offsets of the C structures.
\<close>

definition ELF_MAGIC :: uint where [simp]: "ELF_MAGIC = 0x464C457F"
definition ELF_PROG_LOAD :: uint where [simp]: "ELF_PROG_LOAD = 1"
definition elfhdr_size :: nat where [simp]: "elfhdr_size = 64"
definition proghdr_size :: nat where [simp]: "proghdr_size = 56"

record elfhdr =
  elf_magic :: uint
  elf_entry :: uint64
  elf_phoff :: uint64
  elf_phnum :: ushort

record proghdr =
  ph_type :: uint
  ph_flags :: uint
  ph_off :: uint64
  ph_vaddr :: uint64
  ph_filesz :: uint64
  ph_memsz :: uint64

definition parse_elfhdr :: "uchar list \<Rightarrow> elfhdr" where
  "parse_elfhdr bs = \<lparr>elf_magic = get32 (str_view bs) 0, elf_entry = get64 (str_view bs) 24,
     elf_phoff = get64 (str_view bs) 32, elf_phnum = get16 (str_view bs) 56\<rparr>"

definition parse_proghdr :: "uchar list \<Rightarrow> proghdr" where
  "parse_proghdr bs = \<lparr>ph_type = get32 (str_view bs) 0, ph_flags = get32 (str_view bs) 4,
     ph_off = get64 (str_view bs) 8, ph_vaddr = get64 (str_view bs) 16,
     ph_filesz = get64 (str_view bs) 32, ph_memsz = get64 (str_view bs) 40\<rparr>"

definition flags2perm :: "uint \<Rightarrow> uint64" where
  "flags2perm flags =
     (let perm = 0;
          perm = (if flags AND 1 \<noteq> 0 then PTE_X else perm)
      in if flags AND 2 \<noteq> 0 then perm OR PTE_W else perm)"

text \<open>
  The 32-bit counter of \<^verbatim>\<open>loadseg\<close> would start again at zero after the last page below 4 GB
  and never reach \<open>sz\<close>.
\<close>

function loadseg_from :: "uint64 \<Rightarrow> uint64 \<Rightarrow> nat \<Rightarrow> uint \<Rightarrow> nat \<Rightarrow> nat \<Rightarrow> 'z kfs_scheme \<Rightarrow> (int \<times> 'z kfs_scheme) res" where
  "loadseg_from pt va ip offset i sz s =
     (if i < sz then
        rbind (walkaddr pt (va + of_nat i) s) (\<lambda>pa.
        if pa = 0 then Inl (Panic ''loadseg: address should exist'')
        else
          let n = min (sz - i) (unat PGSIZE) in
          rbind (readi ip False pa (offset + of_nat i) (of_nat n) s) (\<lambda>(r, bs, s).
          let s = s\<lparr>mem := store_bytes (mem s) pa bs\<rparr> in
          if r \<noteq> int n then Inr (- 1, s)
          else if i + unat PGSIZE \<ge> 2 ^ 32 then Inl Hangs
          else loadseg_from pt va ip offset (i + unat PGSIZE) sz s))
      else Inr (0, s))"
  by pat_completeness auto
termination by (relation "measure (\<lambda>(pt, va, ip, offset, i, sz, s). sz - i)") auto

declare loadseg_from.simps [simp del]

definition loadseg :: "uint64 \<Rightarrow> uint64 \<Rightarrow> nat \<Rightarrow> uint \<Rightarrow> uint \<Rightarrow> 'z kfs_scheme \<Rightarrow> (int \<times> 'z kfs_scheme) res" where
  "loadseg pt va ip offset sz s = loadseg_from pt va ip offset 0 (unat sz) s"

text \<open>
  The loop over the program headers: whether all could be loaded, and the size of the image
  so far. The offset is kept in a 32-bit variable.
\<close>

fun load_segments :: "uint64 \<Rightarrow> nat \<Rightarrow> uint \<Rightarrow> nat \<Rightarrow> uint64 \<Rightarrow> 'z kfs_scheme \<Rightarrow>
    (bool \<times> uint64 \<times> 'z kfs_scheme) res" where
  "load_segments pt ip off 0 sz s = Inr (True, sz, s)"
| "load_segments pt ip off (Suc k) sz s =
     rbind (readi ip False 0 off (of_nat proghdr_size) s) (\<lambda>(r, bs, s).
     let ph = parse_proghdr bs in
     if r \<noteq> int proghdr_size then Inr (False, sz, s)
     else if ph_type ph \<noteq> ELF_PROG_LOAD then load_segments pt ip (off + of_nat proghdr_size) k sz s
     else if ph_memsz ph < ph_filesz ph then Inr (False, sz, s)
     else if ph_vaddr ph + ph_memsz ph < ph_vaddr ph then Inr (False, sz, s)
     else if ph_vaddr ph mod PGSIZE \<noteq> 0 then Inr (False, sz, s)
     else
       rbind (uvmalloc pt sz (ph_vaddr ph + ph_memsz ph) (flags2perm (ph_flags ph)) s) (\<lambda>(sz1, s).
       if sz1 = 0 then Inr (False, sz, s)
       else
         rbind (loadseg pt (ph_vaddr ph) ip (ucast (ph_off ph)) (ucast (ph_filesz ph)) s) (\<lambda>(r, s).
         if r < 0 then Inr (False, sz1, s)
         else load_segments pt ip (off + of_nat proghdr_size) k sz1 s)))"

section \<open>The user stack\<close>

definition kstrlen :: "uint64 \<Rightarrow> 'z kmem_scheme \<Rightarrow> nat res" where
  "kstrlen p s = (case strlen (\<lambda>i. mem s (p + of_nat i)) of None \<Rightarrow> Inl Hangs | Some n \<Rightarrow> Inr n)"

text \<open>Argument strings go below \<open>sp\<close>; \<open>ustack\<close> collects where they are.\<close>

fun push_args :: "uint64 \<Rightarrow> uint64 \<Rightarrow> uint64 list \<Rightarrow> uint64 \<Rightarrow> uint64 list \<Rightarrow> 'z kmem_scheme \<Rightarrow>
    ((uint64 \<times> uint64 list) option \<times> 'z kmem_scheme) res" where
  "push_args pt stackbase [] sp ustack s =
     (if length ustack \<ge> MAXARG then Inl (Undef ''ustack'') else Inr (Some (sp, ustack @ [0]), s))"
| "push_args pt stackbase (a # argv) sp ustack s =
     (if length ustack \<ge> MAXARG then Inr (None, s)
      else
        rbind (kstrlen a s) (\<lambda>n.
        let sp = sp - (of_nat n + 1);
            sp = sp - sp mod 16
        in
        if sp < stackbase then Inr (None, s)
        else
          rbind (copyout pt sp (load_bytes (mem s) a (n + 1)) s) (\<lambda>(r, s).
          if r < 0 then Inr (None, s)
          else push_args pt stackbase argv sp (ustack @ [sp]) s)))"

definition last_elem :: "uchar list \<Rightarrow> uchar list" where
  "last_elem path = rev (takeWhile (\<lambda>c. c \<noteq> slash) (rev path))"

section \<open>exec\<close>

definition exec_bad :: "uint64 \<Rightarrow> uint64 \<Rightarrow> nat option \<Rightarrow> 'z kfs_scheme \<Rightarrow> (int \<times> 'z kfs_scheme) res" where
  "exec_bad pagetable sz ip s =
     rbind (if pagetable \<noteq> 0 then proc_freepagetable pagetable sz s else Inr s) (\<lambda>s.
     rbind (case ip of None \<Rightarrow> Inr s | Some ip \<Rightarrow> rbind (iunlockput ip s) (\<lambda>s. end_op s)) (\<lambda>s.
     Inr (- 1, s)))"

text \<open>From the end of the transaction on: the stack, and the switch to the new image.\<close>

definition exec_image :: "uchar list \<Rightarrow> uint64 list \<Rightarrow> elfhdr \<Rightarrow> uint64 \<Rightarrow> uint64 \<Rightarrow> 'z kfs_scheme \<Rightarrow>
    (int \<times> 'z kfs_scheme) res" where
  "exec_image path argv elf pagetable sz s =
     (let me = the (cpu_proc s); oldsz = p_sz (myproc s); sz = PGROUNDUP sz in
      rbind (uvmalloc pagetable sz (sz + 2 * PGSIZE) PTE_W s) (\<lambda>(sz1, s).
      if sz1 = 0 then exec_bad pagetable sz None s
      else
        let sz = sz1 in
        rbind (uvmclear pagetable (sz - 2 * PGSIZE) s) (\<lambda>s.
        let stackbase = sz - PGSIZE in
        rbind (push_args pagetable stackbase argv sz [] s) (\<lambda>(pushed, s). case pushed of
          None \<Rightarrow> exec_bad pagetable sz None s
        | Some (sp, ustack) \<Rightarrow>
            let sp = sp - of_nat (length ustack) * 8;
                sp = sp - sp mod 16
            in
            if sp < stackbase then exec_bad pagetable sz None s
            else
              rbind (copyout pagetable sp (concat (map (\<lambda>a. to_le 8 (unat a)) ustack)) s) (\<lambda>(r, s).
              if r < 0 then exec_bad pagetable sz None s
              else
                let tf = p_trapframe (myproc s);
                    s = set_tf tf (tf_a 1) sp s;
                    s = upd_proc me (\<lambda>p. p\<lparr>p_name := safestrcpy (p_name p) (str_view (last_elem path)) 16\<rparr>) s;
                    oldpagetable = p_pagetable (myproc s);
                    s = upd_proc me (\<lambda>p. p\<lparr>p_pagetable := pagetable, p_sz := sz\<rparr>) s;
                    s = set_tf tf tf_epc (elf_entry elf) s;
                    s = set_tf tf tf_sp sp s
                in
                rbind (proc_freepagetable oldpagetable oldsz s) (\<lambda>s.
                Inr (int (length ustack) - 1, s)))))))"

definition exec :: "ksyms \<Rightarrow> uchar list \<Rightarrow> uint64 list \<Rightarrow> 'z kfs_scheme \<Rightarrow> (int \<times> 'z kfs_scheme) res" where
  "exec syms path argv s =
     rbind (begin_op s) (\<lambda>s.
     rbind (namei path s) (\<lambda>(ip, s). case ip of
       None \<Rightarrow> rbind (end_op s) (\<lambda>s. Inr (- 1, s))
     | Some ip \<Rightarrow>
         rbind (ilock ip s) (\<lambda>s.
         rbind (readi ip False 0 0 (of_nat elfhdr_size) s) (\<lambda>(r, bs, s).
         let elf = parse_elfhdr bs in
         if r \<noteq> int elfhdr_size then exec_bad 0 0 (Some ip) s
         else if elf_magic elf \<noteq> ELF_MAGIC then exec_bad 0 0 (Some ip) s
         else
           rbind (proc_pagetable syms (p_trapframe (myproc s)) s) (\<lambda>(pagetable, s).
           if pagetable = 0 then exec_bad 0 0 (Some ip) s
           else
             rbind (load_segments pagetable ip (ucast (elf_phoff elf)) (unat (elf_phnum elf)) 0 s) (\<lambda>(ok, sz, s).
             if \<not> ok then exec_bad pagetable sz (Some ip) s
             else
               rbind (iunlockput ip s) (\<lambda>s.
               rbind (end_op s) (\<lambda>s.
               exec_image path argv elf pagetable sz s))))))))"

end
