(* ===== verification/Sysfile.thy ===== *)
theory Sysfile
  imports Sysproc Exec
begin

text \<open>
  The system calls on files (\<^verbatim>\<open>kernel/sysfile.c\<close>). A handler returns the value that goes to user
  space as an integer; each early return and each \<^verbatim>\<open>goto bad\<close> is a branch with the calls that
  the code makes on it.
\<close>

definition O_RDONLY :: uint where [simp]: "O_RDONLY = 0"
definition O_WRONLY :: uint where [simp]: "O_WRONLY = 1"
definition O_RDWR :: uint where [simp]: "O_RDWR = 2"
definition O_CREATE :: uint where [simp]: "O_CREATE = 0x200"
definition O_TRUNC :: uint where [simp]: "O_TRUNC = 0x400"

section \<open>Descriptors\<close>

definition argfd :: "nat \<Rightarrow> 'z kproc_scheme \<Rightarrow> (nat \<times> nat) option res" where
  "argfd n s =
     rbind (argint n s) (\<lambda>fd.
     if fd < 0 \<or> fd \<ge> int NOFILE then Inr None
     else case p_ofile (myproc s) ! nat fd of
       None \<Rightarrow> Inr None
     | Some f \<Rightarrow> Inr (Some (nat fd, f)))"

definition set_ofile :: "nat \<Rightarrow> nat option \<Rightarrow> 'z kproc_scheme \<Rightarrow> 'z kproc_scheme" where
  "set_ofile fd f s = upd_proc (the (cpu_proc s)) (\<lambda>p. p\<lparr>p_ofile := (p_ofile p)[fd := f]\<rparr>) s"

definition fdalloc :: "nat \<Rightarrow> 'z kproc_scheme \<Rightarrow> nat option \<times> 'z kproc_scheme" where
  "fdalloc f s =
     (case find (\<lambda>fd. p_ofile (myproc s) ! fd = None) [0..<NOFILE] of
        Some fd \<Rightarrow> (Some fd, set_ofile fd (Some f) s)
      | None \<Rightarrow> (None, s))"

definition sys_dup :: "'z kfile_scheme \<Rightarrow> (int \<times> 'z kfile_scheme) res" where
  "sys_dup s =
     rbind (argfd 0 s) (\<lambda>x. case x of
       None \<Rightarrow> Inr (- 1, s)
     | Some (_, f) \<Rightarrow>
         (case fdalloc f s of
            (None, s) \<Rightarrow> Inr (- 1, s)
          | (Some fd, s) \<Rightarrow> rbind (filedup f s) (\<lambda>(_, s). Inr (int fd, s))))"

definition sys_read :: "'z kfile_scheme \<Rightarrow> (int \<times> 'z kfile_scheme) res" where
  "sys_read s =
     rbind (argaddr 1 s) (\<lambda>p.
     rbind (argint 2 s) (\<lambda>n.
     rbind (argfd 0 s) (\<lambda>x. case x of
       None \<Rightarrow> Inr (- 1, s)
     | Some (_, f) \<Rightarrow> fileread f p n s)))"

definition sys_write :: "'z kfile_scheme \<Rightarrow> (int \<times> 'z kfile_scheme) res" where
  "sys_write s =
     rbind (argaddr 1 s) (\<lambda>p.
     rbind (argint 2 s) (\<lambda>n.
     rbind (argfd 0 s) (\<lambda>x. case x of
       None \<Rightarrow> Inr (- 1, s)
     | Some (_, f) \<Rightarrow> filewrite f p n s)))"

definition sys_close :: "'z kfile_scheme \<Rightarrow> (int \<times> 'z kfile_scheme) res" where
  "sys_close s =
     rbind (argfd 0 s) (\<lambda>x. case x of
       None \<Rightarrow> Inr (- 1, s)
     | Some (fd, f) \<Rightarrow> rbind (fileclose f (set_ofile fd None s)) (\<lambda>s. Inr (0, s)))"

definition sys_fstat :: "'z kfile_scheme \<Rightarrow> (int \<times> 'z kfile_scheme) res" where
  "sys_fstat s =
     rbind (argaddr 1 s) (\<lambda>st.
     rbind (argfd 0 s) (\<lambda>x. case x of
       None \<Rightarrow> Inr (- 1, s)
     | Some (_, f) \<Rightarrow> filestat f st s))"

section \<open>Directories\<close>

definition return_end_op :: "int \<Rightarrow> 'z kfs_scheme \<Rightarrow> (int \<times> 'z kfs_scheme) res" where
  "return_end_op r s = rbind (end_op s) (\<lambda>s. Inr (r, s))"

definition link_bad :: "nat \<Rightarrow> 'z kfs_scheme \<Rightarrow> (int \<times> 'z kfs_scheme) res" where
  "link_bad ip s =
     rbind (ilock ip s) (\<lambda>s.
     rbind (iupdate ip (upd_inode ip (\<lambda>i. i\<lparr>i_nlink := i_nlink i - 1\<rparr>) s)) (\<lambda>s.
     rbind (iunlockput ip s) (\<lambda>s. return_end_op (- 1) s)))"

definition sys_link :: "'z kfs_scheme \<Rightarrow> (int \<times> 'z kfs_scheme) res" where
  "sys_link s =
     rbind (argstr 0 MAXPATH s) (\<lambda>(r, old). if r < 0 then Inr (- 1, s) else
     rbind (argstr 1 MAXPATH s) (\<lambda>(r, new). if r < 0 then Inr (- 1, s) else
     rbind (begin_op s) (\<lambda>s.
     rbind (namei (buf_str old) s) (\<lambda>(ip, s). case ip of
       None \<Rightarrow> return_end_op (- 1) s
     | Some ip \<Rightarrow>
         rbind (ilock ip s) (\<lambda>s.
         if i_type (ino s ip) = T_DIR then rbind (iunlockput ip s) (\<lambda>s. return_end_op (- 1) s)
         else
           rbind (iupdate ip (upd_inode ip (\<lambda>i. i\<lparr>i_nlink := i_nlink i + 1\<rparr>) s)) (\<lambda>s.
           rbind (iunlock ip s) (\<lambda>s.
           rbind (nameiparent (buf_str new) (\<lambda>_. 0) s) (\<lambda>(dp, name, s). case dp of
             None \<Rightarrow> link_bad ip s
           | Some dp \<Rightarrow>
               rbind (ilock dp s) (\<lambda>s.
               rbind (if i_dev (ino s dp) \<noteq> i_dev (ino s ip) then Inr (- 1, s)
                      else dirlink dp name (i_inum (ino s ip)) s) (\<lambda>(r, s).
               rbind (iunlockput dp s) (\<lambda>s.
               if r < 0 then link_bad ip s
               else rbind (iput ip s) (\<lambda>s. return_end_op 0 s))))))))))))"

function isdirempty_from :: "nat \<Rightarrow> nat \<Rightarrow> nat \<Rightarrow> 'z kfs_scheme \<Rightarrow> (bool \<times> 'z kfs_scheme) res" where
  "isdirempty_from dp off sz s =
     (if off < sz then
        rbind (readi dp False 0 (of_nat off) (of_nat dirent_size) s) (\<lambda>(r, de, s).
        if r \<noteq> int dirent_size then Inl (Panic ''isdirempty: readi'')
        else if de_inum de \<noteq> 0 then Inr (False, s)
        else isdirempty_from dp (off + dirent_size) sz s)
      else Inr (True, s))"
  by pat_completeness auto
termination by (relation "measure (\<lambda>(dp, off, sz, s). sz - off)") auto

declare isdirempty_from.simps [simp del]

definition isdirempty :: "nat \<Rightarrow> 'z kfs_scheme \<Rightarrow> (bool \<times> 'z kfs_scheme) res" where
  "isdirempty dp s = isdirempty_from dp (2 * dirent_size) (unat (i_size (ino s dp))) s"

definition unlink_bad :: "nat \<Rightarrow> 'z kfs_scheme \<Rightarrow> (int \<times> 'z kfs_scheme) res" where
  "unlink_bad dp s = rbind (iunlockput dp s) (\<lambda>s. return_end_op (- 1) s)"

text \<open>The part of \<^verbatim>\<open>sys_unlink\<close> with both inodes locked.\<close>

definition unlink_entry :: "nat \<Rightarrow> nat \<Rightarrow> uint \<Rightarrow> 'z kfs_scheme \<Rightarrow> (int \<times> 'z kfs_scheme) res" where
  "unlink_entry dp ip off s =
     (if sint (i_nlink (ino s ip)) < 1 then Inl (Panic ''unlink: nlink < 1'')
      else
        rbind (if i_type (ino s ip) = T_DIR then isdirempty ip s else Inr (True, s)) (\<lambda>(emptydir, s).
        if \<not> emptydir then rbind (iunlockput ip s) (\<lambda>s. unlink_bad dp s)
        else
          rbind (writei dp False 0 (replicate dirent_size 0) off (of_nat dirent_size) s) (\<lambda>(r, s).
          if r \<noteq> int dirent_size then Inl (Panic ''unlink: writei'')
          else
            rbind (if i_type (ino s ip) = T_DIR
                   then iupdate dp (upd_inode dp (\<lambda>i. i\<lparr>i_nlink := i_nlink i - 1\<rparr>) s) else Inr s) (\<lambda>s.
            rbind (iunlockput dp s) (\<lambda>s.
            rbind (iupdate ip (upd_inode ip (\<lambda>i. i\<lparr>i_nlink := i_nlink i - 1\<rparr>) s)) (\<lambda>s.
            rbind (iunlockput ip s) (\<lambda>s. return_end_op 0 s)))))))"

definition sys_unlink :: "'z kfs_scheme \<Rightarrow> (int \<times> 'z kfs_scheme) res" where
  "sys_unlink s =
     rbind (argstr 0 MAXPATH s) (\<lambda>(r, path). if r < 0 then Inr (- 1, s) else
     rbind (begin_op s) (\<lambda>s.
     rbind (nameiparent (buf_str path) (\<lambda>_. 0) s) (\<lambda>(dp, name, s). case dp of
       None \<Rightarrow> return_end_op (- 1) s
     | Some dp \<Rightarrow>
         rbind (ilock dp s) (\<lambda>s.
         if namecmp name (str_view (bytes ''.'')) = 0 \<or> namecmp name (str_view (bytes ''..'')) = 0
         then unlink_bad dp s
         else
           rbind (dirlookup dp name s) (\<lambda>(found, s). case found of
             None \<Rightarrow> unlink_bad dp s
           | Some (ip, off) \<Rightarrow> rbind (ilock ip s) (\<lambda>s. unlink_entry dp ip off s))))))"

section \<open>create and open\<close>

definition dir_entry :: "nat \<Rightarrow> (nat \<Rightarrow> uchar) \<Rightarrow> uint \<Rightarrow> bool \<times> 'z kfs_scheme \<Rightarrow> (bool \<times> 'z kfs_scheme) res" where
  "dir_entry dp name inum = (\<lambda>(ok, s).
     if ok then rbind (dirlink dp name inum s) (\<lambda>(r, s). Inr (r \<ge> 0, s)) else Inr (False, s))"

text \<open>The entries of a new inode; the first that fails ends the attempt.\<close>

definition create_entries :: "nat \<Rightarrow> nat \<Rightarrow> (nat \<Rightarrow> uchar) \<Rightarrow> ushort \<Rightarrow> 'z kfs_scheme \<Rightarrow> (bool \<times> 'z kfs_scheme) res" where
  "create_entries dp ip name type s =
     (let inum = i_inum (ino s ip); dp_inum = i_inum (ino s dp) in
      rbind (if type = T_DIR
             then rbind (dir_entry ip (str_view (bytes ''.'')) inum (True, s))
                    (dir_entry ip (str_view (bytes ''..'')) dp_inum)
             else Inr (True, s))
        (dir_entry dp name inum))"

definition create :: "uchar list \<Rightarrow> ushort \<Rightarrow> ushort \<Rightarrow> ushort \<Rightarrow> 'z kfs_scheme \<Rightarrow>
    (nat option \<times> 'z kfs_scheme) res" where
  "create path type major minor s =
     rbind (nameiparent path (\<lambda>_. 0) s) (\<lambda>(dp, name, s). case dp of
       None \<Rightarrow> Inr (None, s)
     | Some dp \<Rightarrow>
         rbind (ilock dp s) (\<lambda>s.
         rbind (dirlookup dp name s) (\<lambda>(found, s). case found of
           Some (ip, _) \<Rightarrow>
             rbind (iunlockput dp s) (\<lambda>s.
             rbind (ilock ip s) (\<lambda>s.
             if type = T_FILE \<and> (i_type (ino s ip) = T_FILE \<or> i_type (ino s ip) = T_DEVICE)
             then Inr (Some ip, s)
             else rbind (iunlockput ip s) (\<lambda>s. Inr (None, s))))
         | None \<Rightarrow>
             rbind (ialloc (i_dev (ino s dp)) type s) (\<lambda>(ip, s). case ip of
               None \<Rightarrow> rbind (iunlockput dp s) (\<lambda>s. Inr (None, s))
             | Some ip \<Rightarrow>
                 rbind (ilock ip s) (\<lambda>s.
                 rbind (iupdate ip (upd_inode ip (\<lambda>i. i\<lparr>i_major := major, i_minor := minor, i_nlink := 1\<rparr>) s)) (\<lambda>s.
                 rbind (create_entries dp ip name type s) (\<lambda>(ok, s).
                 if ok then
                   rbind (if type = T_DIR
                          then iupdate dp (upd_inode dp (\<lambda>i. i\<lparr>i_nlink := i_nlink i + 1\<rparr>) s) else Inr s) (\<lambda>s.
                   rbind (iunlockput dp s) (\<lambda>s. Inr (Some ip, s)))
                 else
                   rbind (iupdate ip (upd_inode ip (\<lambda>i. i\<lparr>i_nlink := 0\<rparr>) s)) (\<lambda>s.
                   rbind (iunlockput ip s) (\<lambda>s.
                   rbind (iunlockput dp s) (\<lambda>s. Inr (None, s)))))))))))"

text \<open>
  \<^verbatim>\<open>sys_open\<close> in its three parts: the inode, locked; the file structure and the descriptor;
  and the initial state of the open file.
\<close>

definition open_inode :: "uchar list \<Rightarrow> uint \<Rightarrow> 'z kfs_scheme \<Rightarrow> (nat option \<times> 'z kfs_scheme) res" where
  "open_inode path omode s =
     (if omode AND O_CREATE \<noteq> 0 then create path T_FILE 0 0 s
      else
        rbind (namei path s) (\<lambda>(ip, s). case ip of
          None \<Rightarrow> Inr (None, s)
        | Some ip \<Rightarrow>
            rbind (ilock ip s) (\<lambda>s.
            if i_type (ino s ip) = T_DIR \<and> omode \<noteq> O_RDONLY
            then rbind (iunlockput ip s) (\<lambda>s. Inr (None, s))
            else Inr (Some ip, s))))"

definition bad_major :: "inode \<Rightarrow> bool" where
  "bad_major i \<longleftrightarrow> i_type i = T_DEVICE \<and> (sint (i_major i) < 0 \<or> sint (i_major i) \<ge> int NDEV)"

definition open_file :: "nat \<Rightarrow> nat \<Rightarrow> uint \<Rightarrow> 'z kfile_scheme \<Rightarrow> 'z kfile_scheme res" where
  "open_file f ip omode s =
     rbind (if i_type (ino s ip) = T_DEVICE then
              Inr (upd_file f (\<lambda>x. x\<lparr>f_type := FD_DEVICE, f_major := i_major (ino s ip)\<rparr>) s)
            else
              let s = upd_file f (\<lambda>x. x\<lparr>f_type := FD_INODE\<rparr>) s in
              rbind (if omode AND O_TRUNC \<noteq> 0 \<and> i_type (ino s ip) = T_FILE then itrunc ip s else Inr s) (\<lambda>s.
              if omode AND O_TRUNC = 0 \<and> (omode AND O_WRONLY \<noteq> 0 \<or> omode AND O_RDWR \<noteq> 0)
              then Inr (upd_file f (\<lambda>x. x\<lparr>f_off := ucast (st_size (stati ip s))\<rparr>) s)
              else Inr (upd_file f (\<lambda>x. x\<lparr>f_off := 0\<rparr>) s))) (\<lambda>s.
     Inr (upd_file f (\<lambda>x. x\<lparr>f_ip := ip, f_readable := (omode AND O_WRONLY = 0),
       f_writable := (omode AND O_WRONLY \<noteq> 0 \<or> omode AND O_RDWR \<noteq> 0)\<rparr>) s))"

definition sys_open :: "'z kfile_scheme \<Rightarrow> (int \<times> 'z kfile_scheme) res" where
  "sys_open s =
     rbind (argint 1 s) (\<lambda>omode.
     rbind (argstr 0 MAXPATH s) (\<lambda>(n, path). if n < 0 then Inr (- 1, s) else
     let omode = word_of_int omode in
     rbind (begin_op s) (\<lambda>s.
     rbind (open_inode (buf_str path) omode s) (\<lambda>(ip, s). case ip of
       None \<Rightarrow> return_end_op (- 1) s
     | Some ip \<Rightarrow>
         if bad_major (ino s ip) then rbind (iunlockput ip s) (\<lambda>s. return_end_op (- 1) s)
         else case filealloc s of
           (None, s) \<Rightarrow> rbind (iunlockput ip s) (\<lambda>s. return_end_op (- 1) s)
         | (Some f, s) \<Rightarrow>
             (case fdalloc f s of
                (None, s) \<Rightarrow>
                  rbind (fileclose f s) (\<lambda>s.
                  rbind (iunlockput ip s) (\<lambda>s. return_end_op (- 1) s))
              | (Some fd, s) \<Rightarrow>
                  rbind (open_file f ip omode s) (\<lambda>s.
                  rbind (iunlock ip s) (\<lambda>s. return_end_op (int fd) s)))))))"

text \<open>A new directory or device: the inode is created inside a transaction and put back.\<close>

definition make_inode :: "uchar list \<Rightarrow> ushort \<Rightarrow> ushort \<Rightarrow> ushort \<Rightarrow> 'z kfs_scheme \<Rightarrow> (int \<times> 'z kfs_scheme) res" where
  "make_inode path type major minor s =
     rbind (create path type major minor s) (\<lambda>(ip, s). case ip of
       None \<Rightarrow> return_end_op (- 1) s
     | Some ip \<Rightarrow> rbind (iunlockput ip s) (\<lambda>s. return_end_op 0 s))"

definition sys_mkdir :: "'z kfs_scheme \<Rightarrow> (int \<times> 'z kfs_scheme) res" where
  "sys_mkdir s =
     rbind (begin_op s) (\<lambda>s.
     rbind (argstr 0 MAXPATH s) (\<lambda>(r, path).
     if r < 0 then return_end_op (- 1) s else make_inode (buf_str path) T_DIR 0 0 s))"

definition sys_mknod :: "'z kfs_scheme \<Rightarrow> (int \<times> 'z kfs_scheme) res" where
  "sys_mknod s =
     rbind (begin_op s) (\<lambda>s.
     rbind (argint 1 s) (\<lambda>major.
     rbind (argint 2 s) (\<lambda>minor.
     rbind (argstr 0 MAXPATH s) (\<lambda>(r, path).
     if r < 0 then return_end_op (- 1) s
     else make_inode (buf_str path) T_DEVICE (word_of_int major) (word_of_int minor) s))))"

definition sys_chdir :: "'z kfs_scheme \<Rightarrow> (int \<times> 'z kfs_scheme) res" where
  "sys_chdir s =
     (let me = the (cpu_proc s) in
      rbind (begin_op s) (\<lambda>s.
      rbind (argstr 0 MAXPATH s) (\<lambda>(r, path).
      if r < 0 then return_end_op (- 1) s
      else
        rbind (namei (buf_str path) s) (\<lambda>(ip, s). case ip of
          None \<Rightarrow> return_end_op (- 1) s
        | Some ip \<Rightarrow>
            rbind (ilock ip s) (\<lambda>s.
            if i_type (ino s ip) \<noteq> T_DIR then rbind (iunlockput ip s) (\<lambda>s. return_end_op (- 1) s)
            else
              rbind (iunlock ip s) (\<lambda>s.
              rbind (iput (the (p_cwd (procs s ! me))) s) (\<lambda>s.
              rbind (end_op s) (\<lambda>s.
              Inr (0, upd_proc me (\<lambda>p. p\<lparr>p_cwd := Some ip\<rparr>) s)))))))))"

section \<open>exec, pipe and the calls of this system\<close>

text \<open>The loop of \<^verbatim>\<open>sys_exec\<close> that copies the arguments, with \<open>k\<close> slots of \<^verbatim>\<open>argv\<close> left.\<close>

fun exec_args :: "uint64 \<Rightarrow> nat \<Rightarrow> uint64 list \<Rightarrow> 'z kproc_scheme \<Rightarrow> (bool \<times> uint64 list \<times> 'z kproc_scheme) res" where
  "exec_args uargv 0 argv s = Inr (False, argv, s)"
| "exec_args uargv (Suc k) argv s =
     rbind (fetchaddr (uargv + 8 * of_nat (length argv)) s) (\<lambda>(r, uarg).
     if r < 0 then Inr (False, argv, s)
     else if uarg = 0 then Inr (True, argv, s)
     else case kalloc s of (p, s) \<Rightarrow>
       if p = 0 then Inr (False, argv, s)
       else
         rbind (fetchstr uarg (unat PGSIZE) s) (\<lambda>(r, bs).
         let s = s\<lparr>mem := store_bytes (mem s) p bs\<rparr> in
         if r < 0 then Inr (False, argv @ [p], s) else exec_args uargv k (argv @ [p]) s))"

definition sys_exec :: "ksyms \<Rightarrow> 'z kfs_scheme \<Rightarrow> (int \<times> 'z kfs_scheme) res" where
  "sys_exec syms s =
     rbind (argaddr 1 s) (\<lambda>uargv.
     rbind (argstr 0 MAXPATH s) (\<lambda>(r, path). if r < 0 then Inr (- 1, s) else
     rbind (exec_args uargv MAXARG [] s) (\<lambda>(ok, argv, s).
     rbind (if ok then exec syms (buf_str path) argv s else Inr (- 1, s)) (\<lambda>(ret, s).
     rbind (rfold kfree argv s) (\<lambda>s. Inr (ret, s))))))"

definition pipe_undo :: "nat \<Rightarrow> nat \<Rightarrow> 'z kfile_scheme \<Rightarrow> (int \<times> 'z kfile_scheme) res" where
  "pipe_undo rfl wfl s = rbind (fileclose rfl s) (\<lambda>s. rbind (fileclose wfl s) (\<lambda>s. Inr (- 1, s)))"

definition sys_pipe :: "'z kfile_scheme \<Rightarrow> (int \<times> 'z kfile_scheme) res" where
  "sys_pipe s =
     rbind (argaddr 0 s) (\<lambda>fdarray.
     rbind (pipealloc s) (\<lambda>(fs, s). case fs of
       None \<Rightarrow> Inr (- 1, s)
     | Some (rfl, wfl) \<Rightarrow>
         (case fdalloc rfl s of
            (None, s) \<Rightarrow> pipe_undo rfl wfl s
          | (Some fd0, s) \<Rightarrow>
              (case fdalloc wfl s of
                 (None, s) \<Rightarrow> pipe_undo rfl wfl (set_ofile fd0 None s)
               | (Some fd1, s) \<Rightarrow>
                   rbind (copyout (p_pagetable (myproc s)) fdarray (to_le 4 fd0) s) (\<lambda>(r, s).
                   rbind (if r < 0 then Inr (r, s)
                          else copyout (p_pagetable (myproc s)) (fdarray + 4) (to_le 4 fd1) s) (\<lambda>(r, s).
                   if r < 0 then pipe_undo rfl wfl (set_ofile fd1 None (set_ofile fd0 None s))
                   else Inr (0, s)))))))"

definition sys_diskspace :: "'z kfs_scheme \<Rightarrow> (int \<times> 'z kfs_scheme) res" where
  "sys_diskspace s =
     rbind (argaddr 1 s) (\<lambda>total_blk_addr.
     rbind (argaddr 0 s) (\<lambda>free_blk_addr.
     rbind (read_disk_size s) (\<lambda>(total_disk, s).
     rbind (count_free_blocks s) (\<lambda>(free_blocks, s).
     rbind (copyout (p_pagetable (myproc s)) total_blk_addr (to_le 4 (unat total_disk)) s) (\<lambda>(r, s).
     if r < 0 then Inr (- 1, s)
     else
       rbind (copyout (p_pagetable (myproc s)) free_blk_addr (to_le 4 (unat free_blocks)) s) (\<lambda>(r, s).
       if r < 0 then Inr (- 1, s) else Inr (0, s)))))))"

definition sys_rename :: "'z kfs_scheme \<Rightarrow> (int \<times> 'z kfs_scheme) res" where
  "sys_rename s =
     rbind (argstr 0 DIRSIZ s) (\<lambda>(r, old). if r < 0 then Inr (- 1, s) else
     rbind (argstr 1 DIRSIZ s) (\<lambda>(r, new). if r < 0 then Inr (- 1, s) else
     rename (buf_str old) (buf_str new) s))"

end
