(* ===== verification/Syscall.thy ===== *)
theory Syscall
  imports Sysfile
begin

text \<open>
  The dispatcher of \<^verbatim>\<open>kernel/syscall.c\<close> with the numbers of \<^verbatim>\<open>kernel/syscall.h\<close>. \<open>syscall\<close>
  says whether the call returns; \<^verbatim>\<open>exit\<close> does not.
\<close>

definition SYS_fork :: nat where [simp]: "SYS_fork = 1"
definition SYS_exit :: nat where [simp]: "SYS_exit = 2"
definition SYS_wait :: nat where [simp]: "SYS_wait = 3"
definition SYS_pipe :: nat where [simp]: "SYS_pipe = 4"
definition SYS_read :: nat where [simp]: "SYS_read = 5"
definition SYS_kill :: nat where [simp]: "SYS_kill = 6"
definition SYS_exec :: nat where [simp]: "SYS_exec = 7"
definition SYS_fstat :: nat where [simp]: "SYS_fstat = 8"
definition SYS_chdir :: nat where [simp]: "SYS_chdir = 9"
definition SYS_dup :: nat where [simp]: "SYS_dup = 10"
definition SYS_getpid :: nat where [simp]: "SYS_getpid = 11"
definition SYS_sbrk :: nat where [simp]: "SYS_sbrk = 12"
definition SYS_sleep :: nat where [simp]: "SYS_sleep = 13"
definition SYS_uptime :: nat where [simp]: "SYS_uptime = 14"
definition SYS_open :: nat where [simp]: "SYS_open = 15"
definition SYS_write :: nat where [simp]: "SYS_write = 16"
definition SYS_mknod :: nat where [simp]: "SYS_mknod = 17"
definition SYS_unlink :: nat where [simp]: "SYS_unlink = 18"
definition SYS_link :: nat where [simp]: "SYS_link = 19"
definition SYS_mkdir :: nat where [simp]: "SYS_mkdir = 20"
definition SYS_close :: nat where [simp]: "SYS_close = 21"
definition SYS_diskspace :: nat where [simp]: "SYS_diskspace = 22"
definition SYS_rename :: nat where [simp]: "SYS_rename = 23"

text \<open>The table \<^verbatim>\<open>syscalls\<close>, for the calls that return a value.\<close>

definition syscalls :: "ksyms \<Rightarrow> nat \<Rightarrow> 'z ksys_scheme \<Rightarrow> (int \<times> 'z ksys_scheme) res" where
  "syscalls syms num s =
     (if num = SYS_fork then sys_fork syms s
      else if num = SYS_wait then sys_wait s
      else if num = SYS_pipe then sys_pipe s
      else if num = SYS_read then sys_read s
      else if num = SYS_kill then sys_kill s
      else if num = SYS_exec then sys_exec syms s
      else if num = SYS_fstat then sys_fstat s
      else if num = SYS_chdir then sys_chdir s
      else if num = SYS_dup then sys_dup s
      else if num = SYS_getpid then sys_getpid s
      else if num = SYS_sbrk then sys_sbrk s
      else if num = SYS_sleep then sys_sleep s
      else if num = SYS_uptime then sys_uptime s
      else if num = SYS_open then sys_open s
      else if num = SYS_write then sys_write s
      else if num = SYS_mknod then sys_mknod s
      else if num = SYS_unlink then sys_unlink s
      else if num = SYS_link then sys_link s
      else if num = SYS_mkdir then sys_mkdir s
      else if num = SYS_close then sys_close s
      else if num = SYS_diskspace then sys_diskspace s
      else sys_rename s)"

definition syscall :: "ksyms \<Rightarrow> 'z ksys_scheme \<Rightarrow> (bool \<times> 'z ksys_scheme) res" where
  "syscall syms s =
     (let tf = p_trapframe (myproc s);
          num = sint (ucast (get_tf tf (tf_a 7) s) :: uint)
      in
      if num > 0 \<and> num < 24 then
        if nat num = SYS_exit then rbind (sys_exit s) (\<lambda>s. Inr (False, s))
        else
          rbind (syscalls syms (nat num) s) (\<lambda>(r, s).
          Inr (True, set_tf (p_trapframe (myproc s)) (tf_a 0) (word_of_int r) s))
      else
        rbind (printf (bytes ''%d %s: unknown sys call %d\<newline>'')
            [AInt (word_of_int (p_pid (myproc s))), AStr (Some (cstr (p_name (myproc s)) 16)),
             AInt (word_of_int num)] s) (\<lambda>s.
        Inr (True, set_tf tf (tf_a 0) (- 1) s)))"

end
