(* ===== verification/Trap.thy ===== *)
theory Trap
  imports Syscall
begin

text \<open>
  Traps and interrupts: \<^verbatim>\<open>kernel/trap.c\<close> and \<^verbatim>\<open>kernel/plic.c\<close>. The supervisor registers that the
  handlers read and write are fields of the state, and the interrupt controller is the memory
  of its registers.
\<close>

record ktrap = ksys +
  csr_sstatus :: uint64
  csr_sepc :: uint64
  csr_scause :: uint64
  csr_stval :: uint64
  csr_stvec :: uint64
  csr_satp :: uint64
  csr_sip :: uint64
  tp :: uint64
  plic_regs :: "uint64 \<Rightarrow> uint"
  virtio_isr :: uint

definition SSTATUS_SPP :: uint64 where [simp]: "SSTATUS_SPP = 0x100"
definition SSTATUS_SPIE :: uint64 where [simp]: "SSTATUS_SPIE = 0x20"
definition SSTATUS_SIE :: uint64 where [simp]: "SSTATUS_SIE = 2"
definition SATP_SV39 :: uint64 where [simp]: "SATP_SV39 = push_bit 60 8"
definition MAKE_SATP :: "uint64 \<Rightarrow> uint64" where
  "MAKE_SATP pagetable = SATP_SV39 OR drop_bit 12 pagetable"

definition UART0_IRQ :: uint where [simp]: "UART0_IRQ = 10"
definition VIRTIO0_IRQ :: uint where [simp]: "VIRTIO0_IRQ = 1"
definition PLIC_SENABLE :: "uint64 \<Rightarrow> uint64" where [simp]: "PLIC_SENABLE hart = PLIC + 0x2080 + hart * 0x100"
definition PLIC_SPRIORITY :: "uint64 \<Rightarrow> uint64" where [simp]: "PLIC_SPRIORITY hart = PLIC + 0x201000 + hart * 0x2000"
definition PLIC_SCLAIM :: "uint64 \<Rightarrow> uint64" where [simp]: "PLIC_SCLAIM hart = PLIC + 0x201004 + hart * 0x2000"

definition intr_on :: "'z ktrap_scheme \<Rightarrow> 'z ktrap_scheme" where
  "intr_on s = s\<lparr>csr_sstatus := csr_sstatus s OR SSTATUS_SIE\<rparr>"
definition intr_off :: "'z ktrap_scheme \<Rightarrow> 'z ktrap_scheme" where
  "intr_off s = s\<lparr>csr_sstatus := csr_sstatus s AND NOT SSTATUS_SIE\<rparr>"
definition intr_get :: "'z ktrap_scheme \<Rightarrow> bool" where
  "intr_get s \<longleftrightarrow> csr_sstatus s AND SSTATUS_SIE \<noteq> 0"

section \<open>plic.c\<close>

definition plic_write :: "uint64 \<Rightarrow> uint \<Rightarrow> 'z ktrap_scheme \<Rightarrow> 'z ktrap_scheme" where
  "plic_write a v s = s\<lparr>plic_regs := (plic_regs s)(a := v)\<rparr>"

definition plicinit :: "'z ktrap_scheme \<Rightarrow> 'z ktrap_scheme" where
  "plicinit s = plic_write (PLIC + ucast VIRTIO0_IRQ * 4) 1 (plic_write (PLIC + ucast UART0_IRQ * 4) 1 s)"

definition plicinithart :: "'z ktrap_scheme \<Rightarrow> 'z ktrap_scheme" where
  "plicinithart s =
     plic_write (PLIC_SPRIORITY (tp s)) 0
       (plic_write (PLIC_SENABLE (tp s)) (push_bit (unat UART0_IRQ) 1 OR push_bit (unat VIRTIO0_IRQ) 1) s)"

definition plic_claim :: "'z ktrap_scheme \<Rightarrow> uint" where
  "plic_claim s = plic_regs s (PLIC_SCLAIM (tp s))"

definition plic_complete :: "uint \<Rightarrow> 'z ktrap_scheme \<Rightarrow> 'z ktrap_scheme" where
  "plic_complete irq s = plic_write (PLIC_SCLAIM (tp s)) irq s"

section \<open>Interrupts\<close>

definition trapinithart :: "ksyms \<Rightarrow> 'z ktrap_scheme \<Rightarrow> 'z ktrap_scheme" where
  "trapinithart syms s = s\<lparr>csr_stvec := sym_kernelvec syms\<rparr>"

definition clockintr :: "'z ksys_scheme \<Rightarrow> 'z ksys_scheme" where
  "clockintr s = wakeup Chan_ticks (s\<lparr>ticks := ticks s + 1\<rparr>)"

definition devintr :: "'z ktrap_scheme \<Rightarrow> (nat \<times> 'z ktrap_scheme) res" where
  "devintr s =
     (if csr_scause s AND 0x8000000000000000 \<noteq> 0 \<and> csr_scause s AND 0xff = 9 then
        let irq = plic_claim s in
        rbind (if irq = UART0_IRQ then uartintr s
               else if irq = VIRTIO0_IRQ then virtio_disk_intr (virtio_isr s) s
               else if irq \<noteq> 0 then printf (bytes ''unexpected interrupt irq=%d\<newline>'') [AInt irq] s
               else Inr s) (\<lambda>s.
        Inr (1, if irq \<noteq> 0 then plic_complete irq s else s))
      else if csr_scause s = 0x8000000000000001 then
        let s = (if tp s = 0 then clockintr s else s)
        in Inr (2, s\<lparr>csr_sip := csr_sip s AND NOT 2\<rparr>)
      else Inr (0, s))"

section \<open>Traps from user space\<close>

text \<open>How a trap ends: in user space, in \<^verbatim>\<open>exit()\<close>, or in \<^verbatim>\<open>yield()\<close>, after which \<^verbatim>\<open>usertrapret\<close> is left to do.\<close>

datatype trap_end = Userret uint64 uint64 | Exited | Yielded

text \<open>The first argument of \<open>Userret\<close> is the address of \<^verbatim>\<open>userret\<close>, the second the page table.\<close>

definition usertrapret :: "ksyms \<Rightarrow> 'z ktrap_scheme \<Rightarrow> trap_end \<times> 'z ktrap_scheme" where
  "usertrapret syms s =
     (let s = intr_off s;
          s = s\<lparr>csr_stvec := TRAMPOLINE + (sym_uservec syms - sym_trampoline syms)\<rparr>;
          tf = p_trapframe (myproc s);
          s = set_tf tf tf_kernel_satp (csr_satp s) s;
          s = set_tf tf tf_kernel_sp (p_kstack (myproc s) + PGSIZE) s;
          s = set_tf tf tf_kernel_trap (sym_usertrap syms) s;
          s = set_tf tf tf_kernel_hartid (tp s) s;
          s = s\<lparr>csr_sstatus := csr_sstatus s AND NOT SSTATUS_SPP OR SSTATUS_SPIE\<rparr>;
          s = s\<lparr>csr_sepc := get_tf tf tf_epc s\<rparr>
      in (Userret (TRAMPOLINE + (sym_userret syms - sym_trampoline syms)) (MAKE_SATP (p_pagetable (myproc s))), s))"

definition exit_trap :: "'z ktrap_scheme \<Rightarrow> (trap_end \<times> 'z ktrap_scheme) res" where
  "exit_trap s = rbind (exit (- 1) s) (\<lambda>s. Inr (Exited, s))"

text \<open>The end of \<^verbatim>\<open>usertrap\<close>, after the cause has been dealt with.\<close>

definition usertrap_end :: "ksyms \<Rightarrow> nat \<Rightarrow> 'z ktrap_scheme \<Rightarrow> (trap_end \<times> 'z ktrap_scheme) res" where
  "usertrap_end syms which_dev s =
     (if p_killed (myproc s) then exit_trap s
      else if which_dev = 2 then rbind (yield s) (\<lambda>s. Inr (Yielded, s))
      else Inr (usertrapret syms s))"

definition usertrap :: "ksyms \<Rightarrow> 'z ktrap_scheme \<Rightarrow> (trap_end \<times> 'z ktrap_scheme) res" where
  "usertrap syms s =
     (if csr_sstatus s AND SSTATUS_SPP \<noteq> 0 then Inl (Panic ''usertrap: not from user mode'')
      else
        let s = s\<lparr>csr_stvec := sym_kernelvec syms\<rparr>;
            tf = p_trapframe (myproc s);
            s = set_tf tf tf_epc (csr_sepc s) s
        in
        if csr_scause s = 8 then
          if p_killed (myproc s) then exit_trap s
          else
            let s = set_tf tf tf_epc (get_tf tf tf_epc s + 4) s in
            rbind (syscall syms (intr_on s)) (\<lambda>(returns, s).
            if returns then usertrap_end syms 0 s else Inr (Exited, s))
        else
          rbind (devintr s) (\<lambda>(which_dev, s).
          if which_dev \<noteq> 0 then usertrap_end syms which_dev s
          else
            rbind (printf (bytes ''usertrap(): unexpected scause %p pid=%d\<newline>'')
                [APtr (csr_scause s), AInt (word_of_int (p_pid (myproc s)))] s) (\<lambda>s.
            rbind (printf (bytes ''            sepc=%p stval=%p\<newline>'')
                [APtr (csr_sepc s), APtr (csr_stval s)] s) (\<lambda>s.
            usertrap_end syms 0 (setkilled (the (cpu_proc s)) s)))))"

section \<open>Traps in the kernel\<close>

text \<open>
  \<open>kerneltrap\<close> says whether it gives up the CPU before it returns; the registers it restores
  are restored in either case.
\<close>

definition kerneltrap :: "'z ktrap_scheme \<Rightarrow> (bool \<times> 'z ktrap_scheme) res" where
  "kerneltrap s =
     (let sepc = csr_sepc s; sstatus = csr_sstatus s; scause = csr_scause s in
      if sstatus AND SSTATUS_SPP = 0 then Inl (Panic ''kerneltrap: not from supervisor mode'')
      else if intr_get s then Inl (Panic ''kerneltrap: interrupts enabled'')
      else
        rbind (devintr s) (\<lambda>(which_dev, s).
        if which_dev = 0 then
          rbind (printf (bytes ''scause %p\<newline>'') [APtr scause] s) (\<lambda>s.
          rbind (printf (bytes ''sepc=%p stval=%p\<newline>'') [APtr (csr_sepc s), APtr (csr_stval s)] s) (\<lambda>s.
          Inl (Panic ''kerneltrap'')))
        else
          let yields = (which_dev = 2 \<and> cpu_proc s \<noteq> None \<and> p_state (myproc s) = RUNNING) in
          rbind (if yields then yield s else Inr s) (\<lambda>s.
          Inr (yields, s\<lparr>csr_sepc := sepc, csr_sstatus := sstatus\<rparr>))))"

text \<open>The first run of a forked process.\<close>

definition forkret :: "ksyms \<Rightarrow> 'z ktrap_scheme \<Rightarrow> (trap_end \<times> 'z ktrap_scheme) res" where
  "forkret syms s =
     rbind (if forkret_first s then fsinit ROOTDEV (s\<lparr>forkret_first := False\<rparr>) else Inr s) (\<lambda>s.
     Inr (usertrapret syms s))"

section \<open>main.c\<close>

text \<open>
  What a CPU does before it enters the scheduler. The first CPU initialises the kernel; the locks that it initialises are in
  theory \<open>Spinlock\<close>. The others spin until the first has set \<^verbatim>\<open>started\<close>.
\<close>

definition cpuid :: "'z ktrap_scheme \<Rightarrow> int" where
  "cpuid s = sint (ucast (tp s) :: uint)"

definition kvminithart :: "'z ktrap_scheme \<Rightarrow> 'z ktrap_scheme" where
  "kvminithart s = s\<lparr>csr_satp := MAKE_SATP (kernel_pagetable s)\<rparr>"

definition main_first :: "ksyms \<Rightarrow> uint64 \<Rightarrow> (uint \<Rightarrow> uint) \<Rightarrow> 'z ktrap_scheme \<Rightarrow> 'z ktrap_scheme res" where
  "main_first syms etext rd s =
     (let s = consoleinit s in
      rbind (printf (bytes ''\<newline>'') [] s) (\<lambda>s.
      rbind (printf (bytes ''xv6 kernel is booting\<newline>'') [] s) (\<lambda>s.
      rbind (printf (bytes ''\<newline>'') [] s) (\<lambda>s.
      rbind (kinit s) (\<lambda>s.
      rbind (kvminit etext (sym_trampoline syms) s) (\<lambda>s.
      let s = kvminithart s;
          s = procinit s;
          s = trapinithart syms s;
          s = plicinit s;
          s = plicinithart s;
          s = binit s;
          s = iinit s
      in
      rbind (virtio_disk_init rd s) (\<lambda>s. userinit syms s)))))))"

definition main :: "ksyms \<Rightarrow> uint64 \<Rightarrow> (uint \<Rightarrow> uint) \<Rightarrow> bool \<Rightarrow> 'z ktrap_scheme \<Rightarrow> 'z ktrap_scheme res" where
  "main syms etext rd started s =
     (if cpuid s = 0 then main_first syms etext rd s
      else if \<not> started then Inl Hangs
      else
        rbind (printf (bytes ''hart %d starting\<newline>'') [AInt (word_of_int (cpuid s))] s) (\<lambda>s.
        Inr (plicinithart (trapinithart syms (kvminithart s)))))"

end
