(* ===== verification/Transition.thy ===== *)
theory Transition
  imports Main
begin

text \<open>
  Interleavings as transition systems. The spin locks and the sleep locks are modelled by a relation for the atomic
  steps of all CPUs or processes. The two locales hold what their proofs share: an invariant that the start states have and
  every step keeps holds in every reachable state, and inner steps that lower a rank cannot go on for ever.
\<close>

locale invariant_system =
  fixes init :: "'s \<Rightarrow> bool" and trans :: "'s \<Rightarrow> 's \<Rightarrow> bool" and inv :: "'s \<Rightarrow> bool"
  assumes init_inv: "init s \<Longrightarrow> inv s"
    and trans_inv: "trans s s' \<Longrightarrow> inv s \<Longrightarrow> inv s'"
begin

lemma run_inv: "trans\<^sup>*\<^sup>* s s' \<Longrightarrow> inv s \<Longrightarrow> inv s'"
  by (induction rule: rtranclp_induct) (auto intro: trans_inv)

lemma reachable_inv: "init s \<Longrightarrow> trans\<^sup>*\<^sup>* s s' \<Longrightarrow> inv s'"
  using run_inv init_inv by blast

end

locale ranked_system = invariant_system +
  fixes inner :: "'a \<Rightarrow> 'a \<Rightarrow> bool" and rnk :: "'a \<Rightarrow> nat"
  assumes inner_trans: "inner s s' \<Longrightarrow> trans s s'"
    and inner_rank: "inner s s' \<Longrightarrow> inv s \<Longrightarrow> rnk s' < rnk s"
begin

lemma inner_run:
  assumes "(inner ^^ n) s s'" "inv s"
  shows "inv s' \<and> n + rnk s' \<le> rnk s"
  using assms
proof (induction n arbitrary: s')
  case (Suc n)
  then obtain t where t: "(inner ^^ n) s t" "inner t s'" by auto
  then have "inv t" "n + rnk t \<le> rnk s" using Suc by auto
  then show ?case using trans_inv [OF inner_trans [OF t(2)]] inner_rank [OF t(2)] by simp
qed auto

text \<open>So from every state with the invariant some run reaches a state without inner steps.\<close>

lemma inner_settles:
  assumes "inv s"
  shows "\<exists>n s'. (inner ^^ n) s s' \<and> \<not> (\<exists>t. inner s' t)"
  using assms
proof (induction "rnk s" arbitrary: s rule: less_induct)
  case less
  show ?case
  proof (cases "\<exists>t. inner s t")
    case True
    then obtain t where t: "inner s t" by blast
    then obtain n s' where "(inner ^^ n) t s'" "\<not> (\<exists>u. inner s' u)"
      using less(1) [OF inner_rank [OF t less(2)] trans_inv [OF inner_trans [OF t] less(2)]] by blast
    then show ?thesis using relpowp_Suc_I2 [of inner s t n s', OF t] by blast
  next
    case False
    then show ?thesis by (intro exI [of _ 0]) auto
  qed
qed

end

end
