(* ===== verification/Spinlock.thy ===== *)
theory Spinlock
  imports Proc Transition
begin

text \<open>
  Spin locks and the nesting of interrupt disabling (\<^verbatim>\<open>kernel/spinlock.c\<close>), on several CPUs. The
  operations are given twice: as functions of one CPU that runs undisturbed, and as the atomic
  steps that the CPUs interleave, with a program counter for each CPU inside \<^verbatim>\<open>acquire\<close> or
  \<^verbatim>\<open>release\<close>.
\<close>

record spinlock =
  lk_locked :: bool
  lk_cpu :: "nat option"

record cpu =
  c_noff :: int
  c_intena :: bool
  c_intr :: bool

record smp =
  cpus :: "nat \<Rightarrow> cpu"
  locks :: "nat \<Rightarrow> spinlock"

definition upd_cpu :: "nat \<Rightarrow> (cpu \<Rightarrow> cpu) \<Rightarrow> 'z smp_scheme \<Rightarrow> 'z smp_scheme" where
  "upd_cpu c f s = s\<lparr>cpus := (cpus s)(c := f (cpus s c))\<rparr>"

definition upd_lock :: "nat \<Rightarrow> (spinlock \<Rightarrow> spinlock) \<Rightarrow> 'z smp_scheme \<Rightarrow> 'z smp_scheme" where
  "upd_lock l f s = s\<lparr>locks := (locks s)(l := f (locks s l))\<rparr>"

section \<open>The operations\<close>

definition initlock :: "nat \<Rightarrow> 'z smp_scheme \<Rightarrow> 'z smp_scheme" where
  "initlock l s = upd_lock l (\<lambda>k. k\<lparr>lk_locked := False, lk_cpu := None\<rparr>) s"

text \<open>The initialisations at boot that set up a lock: the arguments are the locks of the clock, the file table and \<^verbatim>\<open>printf\<close>.\<close>

definition trapinit :: "nat \<Rightarrow> 'z smp_scheme \<Rightarrow> 'z smp_scheme" where
  "trapinit tickslock s = initlock tickslock s"

definition fileinit :: "nat \<Rightarrow> 'z smp_scheme \<Rightarrow> 'z smp_scheme" where
  "fileinit ftable_lock s = initlock ftable_lock s"

definition printfinit :: "nat \<Rightarrow> bool \<times> 'z smp_scheme \<Rightarrow> bool \<times> 'z smp_scheme" where
  "printfinit pr_lock = (\<lambda>(locking, s). (True, initlock pr_lock s))"

definition holding :: "nat \<Rightarrow> nat \<Rightarrow> 'z smp_scheme \<Rightarrow> bool" where
  "holding c l s \<longleftrightarrow> lk_locked (locks s l) \<and> lk_cpu (locks s l) = Some c"

definition push_off :: "nat \<Rightarrow> 'z smp_scheme \<Rightarrow> 'z smp_scheme" where
  "push_off c s =
     (let old = c_intr (cpus s c);
          s = upd_cpu c (\<lambda>x. x\<lparr>c_intr := False\<rparr>) s;
          s = (if c_noff (cpus s c) = 0 then upd_cpu c (\<lambda>x. x\<lparr>c_intena := old\<rparr>) s else s)
      in upd_cpu c (\<lambda>x. x\<lparr>c_noff := c_noff x + 1\<rparr>) s)"

definition pop_off :: "nat \<Rightarrow> 'z smp_scheme \<Rightarrow> 'z smp_scheme res" where
  "pop_off c s =
     (if c_intr (cpus s c) then Inl (Panic ''pop_off - interruptible'')
      else if c_noff (cpus s c) < 1 then Inl (Panic ''pop_off'')
      else
        let s = upd_cpu c (\<lambda>x. x\<lparr>c_noff := c_noff x - 1\<rparr>) s in
        Inr (if c_noff (cpus s c) = 0 \<and> c_intena (cpus s c)
             then upd_cpu c (\<lambda>x. x\<lparr>c_intr := True\<rparr>) s else s))"

text \<open>Undisturbed, \<^verbatim>\<open>acquire\<close> spins forever on a lock that is taken.\<close>

definition acquire :: "nat \<Rightarrow> nat \<Rightarrow> 'z smp_scheme \<Rightarrow> 'z smp_scheme res" where
  "acquire c l s =
     (let s = push_off c s in
      if holding c l s then Inl (Panic ''acquire'')
      else if lk_locked (locks s l) then Inl Hangs
      else Inr (upd_lock l (\<lambda>k. k\<lparr>lk_locked := True, lk_cpu := Some c\<rparr>) s))"

definition release :: "nat \<Rightarrow> nat \<Rightarrow> 'z smp_scheme \<Rightarrow> 'z smp_scheme res" where
  "release c l s =
     (if \<not> holding c l s then Inl (Panic ''release'')
      else
        let s = upd_lock l (\<lambda>k. k\<lparr>lk_cpu := None\<rparr>) s;
            s = upd_lock l (\<lambda>k. k\<lparr>lk_locked := False\<rparr>) s
        in pop_off c s)"

text \<open>The checks of \<^verbatim>\<open>sched()\<close>, with the lock of the process that calls it.\<close>

definition sched_checks :: "nat \<Rightarrow> nat \<Rightarrow> procstate \<Rightarrow> 'z smp_scheme \<Rightarrow> unit res" where
  "sched_checks c l st s =
     (if \<not> holding c l s then Inl (Panic ''sched p->lock'')
      else if c_noff (cpus s c) \<noteq> 1 then Inl (Panic ''sched locks'')
      else if st = RUNNING then Inl (Panic ''sched running'')
      else if c_intr (cpus s c) then Inl (Panic ''sched interruptible'')
      else Inr ())"

section \<open>Interleaved steps\<close>

datatype lock_pc =
    Idle
  | Acq_check nat
  | Acq_spin nat
  | Acq_owner nat
  | Rel_sync nat
  | Rel_pop
  | Panicked

record smp_run = smp +
  pcs :: "nat \<Rightarrow> lock_pc"
  crit :: "nat \<Rightarrow> nat set"

text \<open>
  \<open>crit c\<close> is the set of locks that CPU \<open>c\<close> owns: from the atomic swap that found the lock
  free to the atomic store that frees it. It is not part of the code, and no step looks at it.
\<close>

definition set_pc :: "nat \<Rightarrow> lock_pc \<Rightarrow> smp_run \<Rightarrow> smp_run" where
  "set_pc c p s = s\<lparr>pcs := (pcs s)(c := p)\<rparr>"

definition set_crit :: "nat \<Rightarrow> nat set \<Rightarrow> smp_run \<Rightarrow> smp_run" where
  "set_crit c L s = s\<lparr>crit := (crit s)(c := L)\<rparr>"

inductive lock_step :: "smp_run \<Rightarrow> smp_run \<Rightarrow> bool" where
  acquire_call: "pcs s c = Idle \<Longrightarrow> lock_step s (set_pc c (Acq_check l) (push_off c s))"
| acquire_panic: "pcs s c = Acq_check l \<Longrightarrow> holding c l s \<Longrightarrow> lock_step s (set_pc c Panicked s)"
| acquire_check: "pcs s c = Acq_check l \<Longrightarrow> \<not> holding c l s \<Longrightarrow> lock_step s (set_pc c (Acq_spin l) s)"
| swap_busy: "pcs s c = Acq_spin l \<Longrightarrow> lk_locked (locks s l) \<Longrightarrow>
    lock_step s (upd_lock l (\<lambda>k. k\<lparr>lk_locked := True\<rparr>) s)"
| swap_free: "pcs s c = Acq_spin l \<Longrightarrow> \<not> lk_locked (locks s l) \<Longrightarrow>
    lock_step s (set_pc c (Acq_owner l) (set_crit c (insert l (crit s c))
      (upd_lock l (\<lambda>k. k\<lparr>lk_locked := True\<rparr>) s)))"
| set_owner: "pcs s c = Acq_owner l \<Longrightarrow>
    lock_step s (set_pc c Idle (upd_lock l (\<lambda>k. k\<lparr>lk_cpu := Some c\<rparr>) s))"
| release_panic: "pcs s c = Idle \<Longrightarrow> \<not> holding c l s \<Longrightarrow> lock_step s (set_pc c Panicked s)"
| release_call: "pcs s c = Idle \<Longrightarrow> holding c l s \<Longrightarrow>
    lock_step s (set_pc c (Rel_sync l) (upd_lock l (\<lambda>k. k\<lparr>lk_cpu := None\<rparr>) s))"
| release_sync: "pcs s c = Rel_sync l \<Longrightarrow>
    lock_step s (set_pc c Rel_pop (set_crit c (crit s c - {l}) (upd_lock l (\<lambda>k. k\<lparr>lk_locked := False\<rparr>) s)))"
| release_pop: "pcs s c = Rel_pop \<Longrightarrow> pop_off c s = Inr s' \<Longrightarrow> lock_step s (set_pc c Idle s')"
| release_pop_panic: "pcs s c = Rel_pop \<Longrightarrow> pop_off c s = Inl e \<Longrightarrow> lock_step s (set_pc c Panicked s)"

inductive_cases lock_stepE: "lock_step s s'"

section \<open>The invariant of the steps\<close>

text \<open>How many more than the owned locks a CPU counts in \<^verbatim>\<open>noff\<close> while it is inside an operation.\<close>

definition pc_extra :: "lock_pc \<Rightarrow> nat" where
  "pc_extra p = (case p of Acq_check _ \<Rightarrow> 1 | Acq_spin _ \<Rightarrow> 1 | Rel_pop \<Rightarrow> 1 | _ \<Rightarrow> 0)"

definition owners_ok :: "smp_run \<Rightarrow> bool" where
  "owners_ok s \<longleftrightarrow>
     (\<forall>c d l. l \<in> crit s c \<longrightarrow> l \<in> crit s d \<longrightarrow> c = d) \<and>
     (\<forall>l. lk_locked (locks s l) \<longleftrightarrow> (\<exists>c. l \<in> crit s c)) \<and>
     (\<forall>l c. lk_cpu (locks s l) = Some c \<longrightarrow> l \<in> crit s c) \<and>
     (\<forall>c l. pcs s c = Acq_owner l \<longrightarrow> l \<in> crit s c) \<and>
     (\<forall>c l. pcs s c = Rel_sync l \<longrightarrow> l \<in> crit s c \<and> lk_cpu (locks s l) = None)"

definition count_ok :: "bool \<Rightarrow> lock_pc \<Rightarrow> nat set \<Rightarrow> cpu \<Rightarrow> bool" where
  "count_ok intr0 p L x \<longleftrightarrow>
     finite L \<and> (p \<noteq> Panicked \<longrightarrow> c_noff x = int (card L + pc_extra p)) \<and> 0 \<le> c_noff x \<and>
     (c_noff x = 0 \<longrightarrow> c_intr x = intr0) \<and> (c_noff x > 0 \<longrightarrow> \<not> c_intr x \<and> c_intena x = intr0)"

definition counts_ok :: "(nat \<Rightarrow> bool) \<Rightarrow> smp_run \<Rightarrow> bool" where
  "counts_ok intr0 s \<longleftrightarrow> (\<forall>c. count_ok (intr0 c) (pcs s c) (crit s c) (cpus s c))"

lemma set_pc_simps [simp]:
  "cpus (set_pc c p s) = cpus s" "locks (set_pc c p s) = locks s" "crit (set_pc c p s) = crit s"
  "pcs (set_pc c p s) = (pcs s)(c := p)"
  "cpus (set_crit c L s) = cpus s" "locks (set_crit c L s) = locks s" "pcs (set_crit c L s) = pcs s"
  "crit (set_crit c L s) = (crit s)(c := L)"
  by (simp_all add: set_pc_def set_crit_def)

lemma upd_lock_simps [simp]:
  "cpus (upd_lock l f s) = cpus s" "locks (upd_lock l f s) = (locks s)(l := f (locks s l))"
  "pcs (upd_lock l f r) = pcs r" "crit (upd_lock l f r) = crit r"
  by (simp_all add: upd_lock_def)

lemma push_off_simps [simp]:
  "locks (push_off c s) = locks s" "pcs (push_off c r) = pcs r" "crit (push_off c r) = crit r"
  "cpus (push_off c s) = (cpus s)(c := (cpus s c)\<lparr>c_intr := False, c_noff := c_noff (cpus s c) + 1,
     c_intena := (if c_noff (cpus s c) = 0 then c_intr (cpus s c) else c_intena (cpus s c))\<rparr>)"
  by (auto simp: push_off_def Let_def upd_cpu_def fun_eq_iff intro!: cpu.equality)

lemma pop_off_cases:
  assumes "pop_off c s = Inr s'"
  shows "\<not> c_intr (cpus s c)" "1 \<le> c_noff (cpus s c)"
    "s' = upd_cpu c (\<lambda>x. if c_noff x = 1 \<and> c_intena x
       then x\<lparr>c_noff := c_noff x - 1, c_intr := True\<rparr> else x\<lparr>c_noff := c_noff x - 1\<rparr>) s"
  using assms by (auto simp: pop_off_def upd_cpu_def Let_def split: if_splits)

lemma upd_cpu_simps [simp]:
  "locks (upd_cpu c f s) = locks s" "pcs (upd_cpu c f r) = pcs r" "crit (upd_cpu c f r) = crit r"
  "cpus (upd_cpu c f s) = (cpus s)(c := f (cpus s c))"
  by (simp_all add: upd_cpu_def)

lemma owners_okD:
  assumes "owners_ok s"
  shows "l \<in> crit s c \<Longrightarrow> l \<in> crit s d \<Longrightarrow> c = d" "lk_locked (locks s l) \<longleftrightarrow> (\<exists>c. l \<in> crit s c)"
    "lk_cpu (locks s l) = Some c \<Longrightarrow> l \<in> crit s c" "pcs s c = Acq_owner l \<Longrightarrow> l \<in> crit s c"
    "pcs s c = Rel_sync l \<Longrightarrow> l \<in> crit s c" "pcs s c = Rel_sync l \<Longrightarrow> lk_cpu (locks s l) = None"
  using assms unfolding owners_ok_def by blast+

lemma owners_okI:
  assumes "\<And>l c d. l \<in> crit s c \<Longrightarrow> l \<in> crit s d \<Longrightarrow> c = d"
    "\<And>l. lk_locked (locks s l) \<longleftrightarrow> (\<exists>c. l \<in> crit s c)"
    "\<And>l c. lk_cpu (locks s l) = Some c \<Longrightarrow> l \<in> crit s c" "\<And>c l. pcs s c = Acq_owner l \<Longrightarrow> l \<in> crit s c"
    "\<And>c l. pcs s c = Rel_sync l \<Longrightarrow> l \<in> crit s c \<and> lk_cpu (locks s l) = None"
  shows "owners_ok s"
  using assms unfolding owners_ok_def by blast

text \<open>The steps that change who owns a lock, and who is recorded as the owner.\<close>

lemma owners_ok_take:
  assumes "owners_ok s" "\<not> lk_locked (locks s l)"
  shows "owners_ok (set_pc c (Acq_owner l) (set_crit c (insert l (crit s c))
    (upd_lock l (\<lambda>k. k\<lparr>lk_locked := True\<rparr>) s)))" (is "owners_ok ?s'")
proof -
  note o = owners_okD [OF assms(1)]
  have nl: "l \<notin> crit s d" for d using o(2) assms(2) by blast
  have nc: "lk_cpu (locks s l) \<noteq> Some d" for d using o(3) nl by blast
  have ex: "(\<exists>d. m \<in> ((crit s)(c := insert l (crit s c))) d) \<longleftrightarrow> m = l \<or> (\<exists>d. m \<in> crit s d)" for m
    by (metis fun_upd_apply insert_iff)
  show ?thesis
  proof (rule owners_okI, goal_cases)
    case (1 m x y)
    with nl o(1) [of m x y] o(1) [of m c y] o(1) [of m x c] show ?case by (simp split: if_splits) auto
  next
    case (2 m)
    then show ?case using ex o(2) by simp
  next
    case (3 m x)
    then show ?case using nc o(3) [of m x] by (auto split: if_splits)
  next
    case (4 x m)
    then show ?case using o(4) [of x m] by (auto split: if_splits)
  next
    case (5 x m)
    then show ?case using o(5,6) [of x m] nl by (auto split: if_splits)
  qed
qed

lemma owners_ok_give:
  assumes "owners_ok s" "pcs s c = Rel_sync l"
  shows "owners_ok (set_pc c Rel_pop (set_crit c (crit s c - {l}) (upd_lock l (\<lambda>k. k\<lparr>lk_locked := False\<rparr>) s)))"
proof -
  note o = owners_okD [OF assms(1)]
  have l: "l \<in> crit s c" "lk_cpu (locks s l) = None" using o(5,6) assms(2) by blast+
  have nl: "d = c" if "l \<in> crit s d" for d using o(1) [OF that l(1)] .
  have ex: "(\<exists>d. m \<in> ((crit s)(c := crit s c - {l})) d) \<longleftrightarrow> m \<noteq> l \<and> (\<exists>d. m \<in> crit s d)" for m
    using nl by (metis Diff_iff fun_upd_apply insertI1 singletonD)
  show ?thesis
  proof (rule owners_okI, goal_cases)
    case (1 m x y)
    with o(1) [of m x y] show ?case by (simp split: if_splits)
  next
    case (2 m)
    then show ?case using ex o(2) by simp
  next
    case (3 m x)
    then show ?case using l o(3) [of m x] by (auto split: if_splits)
  next
    case (4 x m)
    then show ?case using o(4) [of x m] nl [of x] by (auto split: if_splits)
  next
    case (5 x m)
    then show ?case using o(5,6) [of x m] nl [of x] by (auto split: if_splits)
  qed
qed

lemma owners_ok_record:
  assumes "owners_ok s" "pcs s c = Acq_owner l"
  shows "owners_ok (set_pc c Idle (upd_lock l (\<lambda>k. k\<lparr>lk_cpu := Some c\<rparr>) s))"
proof -
  note o = owners_okD [OF assms(1)]
  have l: "l \<in> crit s c" using o(4) assms(2) by blast
  have "x = c" if "pcs s x = Rel_sync l" for x using o(1) [OF o(5) [OF that] l] .
  then show ?thesis using assms(1) l by (auto simp: owners_ok_def)
qed

lemma owners_ok_step:
  assumes "lock_step s s'" "owners_ok s"
  shows "owners_ok s'"
  using assms(1)
proof (cases rule: lock_step.cases)
  case (swap_free c l)
  with owners_ok_take [OF assms(2)] show ?thesis by simp
next
  case (set_owner c l)
  with owners_ok_record [OF assms(2)] show ?thesis by simp
next
  case (release_sync c l)
  with owners_ok_give [OF assms(2)] show ?thesis by simp
next
  case (release_pop c s')
  with assms(2) show ?thesis using pop_off_cases [OF release_pop(3)] by (auto simp: owners_ok_def)
qed (use assms(2) in \<open>auto simp: owners_ok_def holding_def\<close>)

lemma count_ok_pc: "count_ok i p L x \<Longrightarrow> p \<noteq> Panicked \<Longrightarrow> pc_extra p' = pc_extra p \<or> p' = Panicked \<Longrightarrow> count_ok i p' L x"
  by (auto simp: count_ok_def)

lemma count_ok_push:
  "count_ok i Idle L x \<Longrightarrow> count_ok i (Acq_check l) L (x\<lparr>c_intr := False, c_noff := c_noff x + 1,
     c_intena := (if c_noff x = 0 then c_intr x else c_intena x)\<rparr>)"
  by (auto simp: count_ok_def pc_extra_def)

lemma count_ok_pop:
  "count_ok i Rel_pop L x \<Longrightarrow> count_ok i Idle L (if c_noff x = 1 \<and> c_intena x
     then x\<lparr>c_noff := c_noff x - 1, c_intr := True\<rparr> else x\<lparr>c_noff := c_noff x - 1\<rparr>)"
  by (auto simp: count_ok_def pc_extra_def)

lemma count_ok_take: "count_ok i (Acq_spin l) L x \<Longrightarrow> l \<notin> L \<Longrightarrow> count_ok i (Acq_owner l) (insert l L) x"
  by (auto simp: count_ok_def pc_extra_def)

lemma count_ok_give: "count_ok i (Rel_sync l) L x \<Longrightarrow> l \<in> L \<Longrightarrow> count_ok i Rel_pop (L - {l}) x"
  using card_Suc_Diff1 [of L l] by (auto simp: count_ok_def pc_extra_def simp del: card_Diff_insert)

lemma counts_okD: "counts_ok i s \<Longrightarrow> pcs s c = p \<Longrightarrow> count_ok (i c) p (crit s c) (cpus s c)"
  by (auto simp: counts_ok_def)

lemma counts_okI:
  assumes "counts_ok i s" "count_ok (i c) (pcs s' c) (crit s' c) (cpus s' c)"
    "\<And>d. d \<noteq> c \<Longrightarrow> pcs s' d = pcs s d \<and> crit s' d = crit s d \<and> cpus s' d = cpus s d"
  shows "counts_ok i s'"
  unfolding counts_ok_def
proof
  fix d
  show "count_ok (i d) (pcs s' d) (crit s' d) (cpus s' d)"
    using assms by (cases "d = c") (simp_all add: counts_ok_def)
qed

lemma counts_ok_step:
  assumes "lock_step s s'" "counts_ok i s" "owners_ok s"
  shows "counts_ok i s'"
  using assms(1)
proof (cases rule: lock_step.cases)
  case (acquire_call c l)
  show ?thesis
    by (rule counts_okI [OF assms(2), of c]) (use acquire_call count_ok_push [OF counts_okD [OF assms(2)]] in simp_all)
next
  case (acquire_panic c l)
  show ?thesis
    by (rule counts_okI [OF assms(2), of c])
      (use acquire_panic count_ok_pc [OF counts_okD [OF assms(2) acquire_panic(2)]] in simp_all)
next
  case (acquire_check c l)
  show ?thesis
    by (rule counts_okI [OF assms(2), of c])
      (use acquire_check count_ok_pc [OF counts_okD [OF assms(2) acquire_check(2)], of "Acq_spin l"] in
        \<open>simp_all add: pc_extra_def\<close>)
next
  case (swap_busy c l)
  show ?thesis
    by (rule counts_okI [OF assms(2), of c]) (use swap_busy counts_okD [OF assms(2) swap_busy(2)] in simp_all)
next
  case (swap_free c l)
  have "l \<notin> crit s c" using swap_free owners_okD(2) [OF assms(3)] by blast
  with count_ok_take [OF counts_okD [OF assms(2) swap_free(2)]] show ?thesis
    by (intro counts_okI [OF assms(2), of c]) (use swap_free in simp_all)
next
  case (set_owner c l)
  show ?thesis
    by (rule counts_okI [OF assms(2), of c])
      (use set_owner count_ok_pc [OF counts_okD [OF assms(2) set_owner(2)], of Idle] in \<open>simp_all add: pc_extra_def\<close>)
next
  case (release_panic c l)
  show ?thesis
    by (rule counts_okI [OF assms(2), of c])
      (use release_panic count_ok_pc [OF counts_okD [OF assms(2) release_panic(2)]] in simp_all)
next
  case (release_call c l)
  show ?thesis
    by (rule counts_okI [OF assms(2), of c])
      (use release_call count_ok_pc [OF counts_okD [OF assms(2) release_call(2)], of "Rel_sync l"] in
        \<open>simp_all add: pc_extra_def\<close>)
next
  case (release_sync c l)
  with count_ok_give [OF counts_okD [OF assms(2) release_sync(2)] owners_okD(5) [OF assms(3) release_sync(2)]]
  show ?thesis by (intro counts_okI [OF assms(2), of c]) simp_all
next
  case (release_pop c s')
  show ?thesis
    by (rule counts_okI [OF assms(2), of c])
      (use release_pop pop_off_cases(3) [OF release_pop(3)] count_ok_pop [OF counts_okD [OF assms(2) release_pop(2)]] in simp_all)
next
  case (release_pop_panic c e)
  show ?thesis
    by (rule counts_okI [OF assms(2), of c])
      (use release_pop_panic count_ok_pc [OF counts_okD [OF assms(2) release_pop_panic(2)]] in simp_all)
qed

section \<open>What the locks promise\<close>

text \<open>The start: no lock taken, no CPU inside an operation, interrupts as they may be.\<close>

definition smp_start :: "smp_run \<Rightarrow> bool" where
  "smp_start s \<longleftrightarrow> (\<forall>l. locks s l = \<lparr>lk_locked = False, lk_cpu = None\<rparr>) \<and> (\<forall>c. pcs s c = Idle) \<and>
     (\<forall>c. crit s c = {}) \<and> (\<forall>c. c_noff (cpus s c) = 0)"

interpretation smp_locks: invariant_system "\<lambda>s. smp_start s \<and> (\<forall>c. c_intr (cpus s c) = intr0 c)" lock_step
  "\<lambda>s. owners_ok s \<and> counts_ok intr0 s" for intr0
proof
  show "owners_ok s \<and> counts_ok intr0 s" if "smp_start s \<and> (\<forall>c. c_intr (cpus s c) = intr0 c)" for s
    using that by (simp add: smp_start_def owners_ok_def counts_ok_def count_ok_def pc_extra_def)
  show "owners_ok s' \<and> counts_ok intr0 s'" if "lock_step s s'" "owners_ok s \<and> counts_ok intr0 s" for s s'
    using that owners_ok_step [of s s'] counts_ok_step [of s s' intr0] by blast
qed

lemma smp_reachable:
  assumes "lock_step\<^sup>*\<^sup>* s s'" "smp_start s"
  shows "owners_ok s' \<and> counts_ok (\<lambda>c. c_intr (cpus s c)) s'"
  by (rule smp_locks.reachable_inv [OF _ assms(1)]) (simp add: assms(2))

text \<open>What a CPU does in \<^verbatim>\<open>acquire\<close> and \<^verbatim>\<open>release\<close> when no other CPU gets in between.\<close>

definition acquired :: "nat \<Rightarrow> nat \<Rightarrow> smp_run \<Rightarrow> smp_run" where
  "acquired c l s =
     (let s = set_pc c (Acq_check l) (push_off c s);
          s = set_pc c (Acq_spin l) s;
          s = set_pc c (Acq_owner l) (set_crit c (insert l (crit s c)) (upd_lock l (\<lambda>k. k\<lparr>lk_locked := True\<rparr>) s))
      in set_pc c Idle (upd_lock l (\<lambda>k. k\<lparr>lk_cpu := Some c\<rparr>) s))"

lemma acquired_steps:
  assumes "pcs s c = Idle" "\<not> lk_locked (locks s l)"
  shows "lock_step\<^sup>*\<^sup>* s (acquired c l s)"
proof -
  let ?s1 = "set_pc c (Acq_check l) (push_off c s)"
  let ?s2 = "set_pc c (Acq_spin l) ?s1"
  let ?s3 = "set_pc c (Acq_owner l) (set_crit c (insert l (crit ?s2 c)) (upd_lock l (\<lambda>k. k\<lparr>lk_locked := True\<rparr>) ?s2))"
  have "lock_step s ?s1" using assms(1) by (rule acquire_call)
  moreover have "lock_step ?s1 ?s2" using assms(2) by (intro acquire_check) (simp_all add: holding_def)
  moreover have "lock_step ?s2 ?s3" using assms(2) by (intro swap_free) simp_all
  moreover have "lock_step ?s3 (acquired c l s)" unfolding acquired_def Let_def by (rule set_owner) simp
  ultimately show ?thesis by (meson converse_rtranclp_into_rtranclp rtranclp.rtrancl_refl)
qed

lemma acquire_Inr:
  assumes "acquire c l s = Inr t"
  shows "\<not> lk_locked (locks s l)" "locks (acquired c l s) = locks t" "cpus (acquired c l s) = cpus t"
    "pcs (acquired c l s) = (pcs s)(c := Idle)" "crit (acquired c l s) = (crit s)(c := insert l (crit s c))"
  using assms by (auto simp: acquire_def acquired_def Let_def fun_eq_iff split: if_splits)

definition smp_boot :: smp_run where
  "smp_boot = \<lparr>cpus = (\<lambda>_. \<lparr>c_noff = 0, c_intena = False, c_intr = True\<rparr>),
     locks = (\<lambda>_. \<lparr>lk_locked = False, lk_cpu = None\<rparr>), pcs = (\<lambda>_. Idle), crit = (\<lambda>_. {})\<rparr>"

lemma smp_boot_run: "smp_start smp_boot" "lock_step\<^sup>*\<^sup>* smp_boot (acquired 1 5 smp_boot)"
    "crit (acquired 1 5 smp_boot) = (\<lambda>_. {})(1 := {5})" "holding 1 5 (acquired 1 5 smp_boot)"
    "pcs (acquired 1 5 smp_boot) 1 = Idle"
  by (simp_all add: smp_start_def acquired_steps smp_boot_def) (simp_all add: acquired_def holding_def Let_def)

text \<open>C14: Mutual exclusion. However the CPUs interleave, no two of them are between the \<^verbatim>\<open>acquire\<close> and the
  \<^verbatim>\<open>release\<close> of the same lock, and a CPU for which \<^verbatim>\<open>holding\<close> is true is the one inside.\<close>

theorem spinlock_mutual_exclusion:
  assumes "smp_start s" "lock_step\<^sup>*\<^sup>* s s'"
  shows "(l \<in> crit s' c \<longrightarrow> l \<in> crit s' d \<longrightarrow> c = d) \<and> (holding c l s' \<longrightarrow> l \<in> crit s' c)"
  using smp_reachable [OF assms(2,1)] by (auto simp: owners_ok_def holding_def)

theorem spinlock_mutual_exclusion_witness:
  "smp_start smp_boot \<and> lock_step\<^sup>*\<^sup>* smp_boot (acquired 1 5 smp_boot) \<and> holding 1 5 (acquired 1 5 smp_boot) \<and>
   5 \<notin> crit (acquired 1 5 smp_boot) 2"
  using spinlock_mutual_exclusion [OF smp_boot_run(1,2), of 5 1 2] smp_boot_run by auto



text \<open>A process that calls \<^verbatim>\<open>sched\<close> with its own lock as the only one it owns, and in another state than
  RUNNING, passes all the checks of \<^verbatim>\<open>sched\<close>; with a second lock it panics.\<close>

lemma sched_checks_pass:
  assumes "smp_start s" "lock_step\<^sup>*\<^sup>* s s'" "pcs s' c = Idle" "holding c l s'" "st \<noteq> RUNNING"
  shows "sched_checks c l st s' = (if crit s' c = {l} then Inr () else Inl (Panic ''sched locks''))"
proof -
  have o: "owners_ok s'" and k: "count_ok (c_intr (cpus s c)) (pcs s' c) (crit s' c) (cpus s' c)"
    using smp_reachable [OF assms(2,1)] by (simp_all add: counts_ok_def)
  have l: "l \<in> crit s' c" using o assms(4) by (simp add: owners_ok_def holding_def)
  have n: "c_noff (cpus s' c) = int (card (crit s' c))" "finite (crit s' c)" "c_noff (cpus s' c) > 0 \<longrightarrow> \<not> c_intr (cpus s' c)"
    using k assms(3) by (simp_all add: count_ok_def pc_extra_def)
  have "card (crit s' c) = 1 \<longleftrightarrow> crit s' c = {l}" using l by (auto simp: card_1_singleton_iff)
  with n assms(4,5) show ?thesis by (auto simp: sched_checks_def)
qed

lemma sched_checks_pass_example: "sched_checks 1 5 SLEEPING (acquired 1 5 smp_boot) = Inr ()"
  using sched_checks_pass [OF smp_boot_run(1,2,5,4), of SLEEPING] smp_boot_run by simp

text \<open>The function \<^verbatim>\<open>acquire\<close> is what the atomic steps of one CPU add up to: where it returns, the steps
  lead to a state with the same locks and CPUs, in which the CPU owns the lock and is idle again.\<close>

lemma acquire_is_its_steps:
  assumes "acquire c l s = Inr t" "pcs s c = Idle"
  shows "\<exists>t'. lock_step\<^sup>*\<^sup>* s t' \<and> locks t' = locks t \<and> cpus t' = cpus t \<and> pcs t' c = Idle \<and> l \<in> crit t' c"
  using acquired_steps [OF assms(2) acquire_Inr(1) [OF assms(1)]] acquire_Inr [OF assms(1)]
  by (intro exI [of _ "acquired c l s"]) simp

lemma acquire_is_its_steps_example:
  "\<exists>t'. lock_step\<^sup>*\<^sup>* smp_boot t' \<and> holding 1 5 t' \<and> 5 \<in> crit t' 1"
proof -
  obtain t where t: "acquire 1 5 smp_boot = Inr t" "holding 1 5 t"
    by (simp add: acquire_def smp_boot_def holding_def Let_def push_off_def upd_cpu_def upd_lock_def)
  have "pcs smp_boot 1 = Idle" by (simp add: smp_boot_def)
  with acquire_is_its_steps [OF t(1)] t(2) show ?thesis by (auto simp: holding_def)
qed

end
