(* ===== verification/Bitmap.thy ===== *)
theory Bitmap
  imports Fs
begin

text \<open>
  The free-block bitmap of \<^verbatim>\<open>kernel/fs.c\<close>: \<^verbatim>\<open>balloc\<close>, \<^verbatim>\<open>bfree\<close> and \<^verbatim>\<open>count_free_blocks\<close> as operations on
  the set of free blocks, inside a transaction of the log.
\<close>

section \<open>Reading and changing one block in a transaction\<close>

text \<open>A transaction with room for \<open>k\<close> more blocks, and no buffer locked.\<close>

definition in_trans :: "nat \<Rightarrow> 'z klog_scheme \<Rightarrow> bool" where
  "in_trans k s \<longleftrightarrow> log_mem_ok {} s \<and> 1 \<le> lg_outstanding (log s) \<and> lh_n (lg_lh (log s)) + int k < lg_size (log s)"

lemma log_room: "log_mem_ok H s \<Longrightarrow> card (set (log_blocks s)) < NBUF"
  using card_length [of "log_blocks s"] length_log_blocks [of s] by (auto simp: log_mem_ok_def log_geom_def)

lemma lh_n_log_blocks: "log_mem_ok H s \<Longrightarrow> lh_n (lg_lh (log s)) = int (length (log_blocks s))"
  by (auto simp: log_mem_ok_def log_geom_def log_blocks_def)

lemma fs_bread:
  assumes "log_mem_ok {} s"
  obtains i s1 where "bread ROOTDEV n s = Inr (i, s1)" "b_data (bufs s1 ! i) = bview s n"
    "log_mem_ok {i} s1" "bview s1 = bview s" "bframe s s1" "holds s1 i n (bview s n)" "log_blocks s1 = log_blocks s"
proof -
  have c: "bcache_ok {} (set (log_blocks s)) s" using assms by (simp add: log_mem_ok_def)
  have room: "n \<in> set (log_blocks s) \<or> card (set (log_blocks s)) + card ({} :: nat set) < NBUF" using log_room [OF assms] by simp
  obtain i s1 where s1: "bread ROOTDEV n s = Inr (i, s1)" "bcache_ok {i} (set (log_blocks s)) s1"
      "bview s1 = bview s" "bframe s s1" "holds s1 i n (bview s n)"
    using bread_rule [OF c room] by auto
  show thesis
    using that [OF s1(1) holds_data [OF s1(5)] log_mem_ok_bframe(1) [OF assms s1(4,2)] s1(3,4,5)
        log_mem_ok_bframe(2) [OF assms s1(4,2)]] .
qed

lemma fs_brelse:
  assumes "log_mem_ok {i} s" "holds s i n d" "n \<in> set (log_blocks s) \<or> d = disk s n"
  obtains s' where "brelse i s = Inr s'" "log_mem_ok {} s'" "bview s' = bview s" "bframe s s'" "log_blocks s' = log_blocks s"
proof -
  have c: "bcache_ok {i} (set (log_blocks s)) s" "cur_ok s" using assms(1) by (simp_all add: log_mem_ok_def)
  obtain s' where s': "brelse i s = Inr s'" "bcache_ok ({i} - {i}) (set (log_blocks s)) s'" "bview s' = bview s" "bframe s s'"
    by (rule brelse_rule [OF c(1) singletonI c(2) assms(2,3)])
  show thesis
    using that [OF s'(1)] log_mem_ok_bframe [OF assms(1) s'(4,2)] s'(3,4) by simp
qed

text \<open>Read a block and let it go; and read it, change it through the log and let it go.\<close>

lemma fs_read:
  assumes ok: "log_mem_ok {} s"
  obtains i s1 s2 where "bread ROOTDEV n s = Inr (i, s1)" "b_data (bufs s1 ! i) = bview s n" "bframe s s1"
    "brelse i s1 = Inr s2" "log_mem_ok {} s2" "bview s2 = bview s" "bframe s s2"
proof -
  obtain i s1 where s1: "bread ROOTDEV n s = Inr (i, s1)" "b_data (bufs s1 ! i) = bview s n"
    "log_mem_ok {i} s1" "bview s1 = bview s" "bframe s s1" "holds s1 i n (bview s n)" "log_blocks s1 = log_blocks s"
    by (rule fs_bread [OF ok])
  have "n \<in> set (log_blocks s1) \<or> bview s n = disk s1 n"
    using bview_clean0 [of "set (log_blocks s)" s n] ok s1(5,7) by (auto simp: log_mem_ok_def bframe_def)
  then obtain s2 where s2: "brelse i s1 = Inr s2" "log_mem_ok {} s2" "bview s2 = bview s1" "bframe s1 s2"
    by (rule fs_brelse [OF s1(3,6)])
  have "bframe s s2" using s1(5) s2(4) by (rule bframe_trans)
  with that s1 s2 show thesis by simp
qed

lemma in_trans_bframe: "in_trans k s \<Longrightarrow> bframe s s' \<Longrightarrow> log_mem_ok {} s' \<Longrightarrow> in_trans k s'"
  using bframe_log [of s s'] by (simp add: in_trans_def)

text \<open>
  The same while one more buffer is locked, as in \<^verbatim>\<open>bmap\<close>, which allocates a block while it has the indirect block: the buffer,
  its block and the contents it shows.
\<close>

type_synonym held = "(nat \<times> uint \<times> block) option"

definition held_set :: "held \<Rightarrow> nat set" where
  "held_set h = (case h of None \<Rightarrow> {} | Some (j, m, d) \<Rightarrow> {j})"

definition held_ok :: "held \<Rightarrow> 'z kbio_scheme \<Rightarrow> bool" where
  "held_ok h s \<longleftrightarrow> (case h of None \<Rightarrow> True | Some (j, m, d) \<Rightarrow> holds s j m d)"

definition held_off :: "held \<Rightarrow> uint \<Rightarrow> bool" where
  "held_off h n \<longleftrightarrow> (case h of None \<Rightarrow> True | Some (j, m, d) \<Rightarrow> m \<noteq> n)"

lemma held_simps [simp]:
  "held_set None = {}" "held_set (Some (j, m, d)) = {j}" "held_ok None s" "held_ok (Some (j, m, d)) s = holds s j m d"
  "held_off None n" "held_off (Some (j, m, d)) n \<longleftrightarrow> m \<noteq> n"
  by (simp_all add: held_set_def held_ok_def held_off_def)

lemma held_card: "card (held_set h) \<le> 1"
  by (auto simp: held_set_def split: option.split)

lemma held_blockno: "held_ok h s \<Longrightarrow> held_off h n \<Longrightarrow> i \<in> held_set h \<Longrightarrow> b_blockno (bufs s ! i) \<noteq> n"
  by (auto simp: held_set_def held_ok_def held_off_def dest: holds_blockno split: option.splits)

lemma held_ok_cong: "(\<And>j m d. j \<in> held_set h \<Longrightarrow> holds s' j m d = holds s j m d) \<Longrightarrow> held_ok h s' = held_ok h s"
  by (auto simp: held_set_def held_ok_def split: option.splits)

definition in_trans_with :: "held \<Rightarrow> nat \<Rightarrow> 'z klog_scheme \<Rightarrow> bool" where
  "in_trans_with h k s \<longleftrightarrow> log_mem_ok (held_set h) s \<and> held_ok h s \<and> 1 \<le> lg_outstanding (log s) \<and>
     lh_n (lg_lh (log s)) + int k < lg_size (log s)"

lemma in_trans_with_None [simp]: "in_trans_with None k s = in_trans k s"
  by (simp add: in_trans_with_def in_trans_def)

lemma in_trans_with_mono: "in_trans_with h k s \<Longrightarrow> j \<le> k \<Longrightarrow> in_trans_with h j s"
  by (simp add: in_trans_with_def)

lemma with_room:
  assumes "in_trans_with h (Suc k) s"
  shows "card (set (log_blocks s)) + card (held_set h) < NBUF"
proof -
  have "lh_n (lg_lh (log s)) + 1 < 30" using assms by (auto simp: in_trans_with_def log_mem_ok_def log_geom_def)
  then have "length (log_blocks s) < 29" using assms lh_n_log_blocks [of "held_set h" s] by (simp add: in_trans_with_def)
  then show ?thesis using card_length [of "log_blocks s"] held_card [of h] by simp
qed

lemma with_bread:
  assumes tr: "in_trans_with h (Suc k) s" and off: "held_off h n"
  obtains i s1 where "bread ROOTDEV n s = Inr (i, s1)" "b_data (bufs s1 ! i) = bview s n" "i \<notin> held_set h"
    "log_mem_ok (insert i (held_set h)) s1" "bview s1 = bview s" "bframe s s1" "holds s1 i n (bview s n)" "log_blocks s1 = log_blocks s"
    "held_ok h s1"
proof -
  have ok: "log_mem_ok (held_set h) s" and ho: "held_ok h s" using tr by (simp_all add: in_trans_with_def)
  have c: "bcache_ok (held_set h) (set (log_blocks s)) s" using ok by (simp add: log_mem_ok_def)
  obtain i s1 where s1: "bread ROOTDEV n s = Inr (i, s1)" "i \<notin> held_set h" "bcache_ok (insert i (held_set h)) (set (log_blocks s)) s1"
      "bview s1 = bview s" "bframe s s1" "holds s1 i n (bview s n)" "\<And>j m d. j \<in> held_set h \<Longrightarrow> holds s1 j m d = holds s j m d"
    using bread_rule [OF c disjI2 [OF with_room [OF tr]], of n] held_blockno [OF ho off] by metis
  have "held_ok h s1" using held_ok_cong [of h s1 s] s1(7) ho by blast
  then show thesis
    using that [OF s1(1) holds_data [OF s1(6)] s1(2) log_mem_ok_bframe(1) [OF ok s1(5,3)] s1(4,5,6)
        log_mem_ok_bframe(2) [OF ok s1(5,3)]] by simp
qed

lemma with_brelse:
  assumes "log_mem_ok (insert i (held_set h)) s" "i \<notin> held_set h" "holds s i n d" "n \<in> set (log_blocks s) \<or> d = disk s n" "held_ok h s"
  obtains s' where "brelse i s = Inr s'" "log_mem_ok (held_set h) s'" "bview s' = bview s" "bframe s s'" "log_blocks s' = log_blocks s" "held_ok h s'"
proof -
  have c: "bcache_ok (insert i (held_set h)) (set (log_blocks s)) s" "cur_ok s" using assms(1) by (simp_all add: log_mem_ok_def)
  obtain s' where s': "brelse i s = Inr s'" "bcache_ok (insert i (held_set h) - {i}) (set (log_blocks s)) s'" "bview s' = bview s" "bframe s s'"
      "\<And>j m d. holds s' j m d = holds s j m d"
    using brelse_rule [OF c(1) insertI1 c(2) assms(3,4)] by metis
  have "insert i (held_set h) - {i} = held_set h" using assms(2) by auto
  then show thesis
    using that [OF s'(1)] log_mem_ok_bframe [OF assms(1) s'(4), of "held_set h"] s'(2-4) held_ok_cong [of h s' s] s'(5) assms(5) by simp
qed

lemma with_clean:
  assumes "log_mem_ok (held_set h) s" "held_ok h s" "held_off h n"
  shows "n \<in> set (log_blocks s) \<or> bview s n = disk s n"
  using bview_clean [of "held_set h" "set (log_blocks s)" s n] held_blockno [OF assms(2,3)] assms(1) by (auto simp: log_mem_ok_def)

lemma with_read:
  assumes tr: "in_trans_with h (Suc k) s" and off: "held_off h n"
  obtains i s1 s2 where "bread ROOTDEV n s = Inr (i, s1)" "b_data (bufs s1 ! i) = bview s n" "bframe s s1"
    "brelse i s1 = Inr s2" "in_trans_with h (Suc k) s2" "bview s2 = bview s" "bframe s s2"
proof -
  have ok: "log_mem_ok (held_set h) s" and ho: "held_ok h s" using tr by (simp_all add: in_trans_with_def)
  obtain i s1 where s1: "bread ROOTDEV n s = Inr (i, s1)" "b_data (bufs s1 ! i) = bview s n" "i \<notin> held_set h"
    "log_mem_ok (insert i (held_set h)) s1" "bview s1 = bview s" "bframe s s1" "holds s1 i n (bview s n)" "log_blocks s1 = log_blocks s"
    "held_ok h s1"
    by (rule with_bread [OF tr off])
  have "n \<in> set (log_blocks s1) \<or> bview s n = disk s1 n"
    using with_clean [OF ok ho off] s1(6,8) by (auto simp: bframe_def)
  then obtain s2 where s2: "brelse i s1 = Inr s2" "log_mem_ok (held_set h) s2" "bview s2 = bview s1" "bframe s1 s2" "held_ok h s2"
    by (rule with_brelse [OF s1(4,3,7) _ s1(9)])
  have f: "bframe s s2" using s1(6) s2(4) by (rule bframe_trans)
  then have "in_trans_with h (Suc k) s2" using tr s2(2,5) bframe_log [OF f] by (simp add: in_trans_with_def)
  with that s1 s2 f show thesis by simp
qed

lemma with_modify:
  assumes tr: "in_trans_with h (Suc k) s" and off: "held_off h n" and nl: "\<not> in_log (log s) n"
  obtains i s1 s2 s3 where "bread ROOTDEV n s = Inr (i, s1)" "b_data (bufs s1 ! i) = bview s n" "bframe s s1"
    "log_write i (bmod i g s1) = Inr s2" "brelse i s2 = Inr s3" "in_trans_with h k s3"
    "bview s3 = (bview s)(n := g (bview s n))" "lframe s s3"
proof -
  have ok: "log_mem_ok (held_set h) s" using tr by (simp add: in_trans_with_def)
  obtain i s1 where s1: "bread ROOTDEV n s = Inr (i, s1)" "b_data (bufs s1 ! i) = bview s n" "i \<notin> held_set h"
    "log_mem_ok (insert i (held_set h)) s1" "bview s1 = bview s" "bframe s s1" "holds s1 i n (bview s n)" "log_blocks s1 = log_blocks s"
    "held_ok h s1"
    by (rule with_bread [OF tr off])
  let ?t = "bmod i g s1" and ?d = "g (bview s n)" and ?H = "insert i (held_set h)"
  have t: "bcache_ok ?H (set (log_blocks s1)) ?t" "bview ?t = (bview s)(n := ?d)" "bframe s1 ?t" "holds ?t i n ?d"
      "\<And>j m d. j \<noteq> i \<Longrightarrow> holds ?t j m d = holds s1 j m d"
    using bmod_rule [OF _ insertI1 s1(7), where g = g and P = "set (log_blocks s1)"] s1(4,5) by (auto simp: log_mem_ok_def)
  note ok2 = log_mem_ok_bframe [OF s1(4) t(3,1)]
  have lg: "log ?t = log s" using bframe_log [OF s1(6)] bframe_log [OF t(3)] by simp
  have room: "lh_n (lg_lh (log ?t)) + 1 < lg_size (log ?t)" "1 \<le> lg_outstanding (log ?t)" "\<not> in_log (log ?t) n"
    using tr nl lg by (simp_all add: in_trans_with_def)
  obtain s2 where s2: "log_write i ?t = Inr s2" "log_mem_ok ?H s2" "bview s2 = bview ?t" "lframe ?t s2"
      "log_blocks s2 = (if n \<in> set (log_blocks ?t) then log_blocks ?t else log_blocks ?t @ [n])" "holds s2 i n ?d"
      "\<And>j m d. holds s2 j m d = holds ?t j m d"
    using log_write_ok [OF ok2(1) insertI1 t(4) room(3,1,2)] t(4) by auto
  have ho: "held_ok h s2" using held_ok_cong [of h s2 s1] s2(7) t(5) s1(3,9) by metis
  have "n \<in> set (log_blocks s2) \<or> ?d = disk s2 n" using s2(5) by simp
  then obtain s3 where s3: "brelse i s2 = Inr s3" "log_mem_ok (held_set h) s3" "bview s3 = bview s2" "bframe s2 s3"
      "log_blocks s3 = log_blocks s2" "held_ok h s3"
    by (rule with_brelse [OF s2(2) s1(3) s2(6) _ ho])
  have f: "lframe s s3"
    using lframe_trans [OF lframe_trans [OF lframe_bframe [OF bframe_trans [OF s1(6) t(3)]] s2(4)] lframe_bframe [OF s3(4)]] .
  have "length (log_blocks s3) \<le> length (log_blocks s) + 1" using s3(5) s2(5) ok2(2) s1(8) by simp
  then have "in_trans_with h k s3"
    using tr s3(2,6) lframe_log [OF f] lh_n_log_blocks [OF s3(2)] lh_n_log_blocks [OF ok] by (simp add: in_trans_with_def)
  with that s1 s2 s3 t f show thesis by simp
qed

lemma with_write_held:
  assumes tr: "in_trans_with (Some (i, n, d)) (Suc k) s" and nl: "\<not> in_log (log s) n"
  obtains s2 s3 where "log_write i (bmod i g s) = Inr s2" "brelse i s2 = Inr s3" "in_trans k s3" "bview s3 = (bview s)(n := g d)" "lframe s s3"
proof -
  have ok: "log_mem_ok {i} s" and h: "holds s i n d" using tr by (simp_all add: in_trans_with_def)
  let ?t = "bmod i g s"
  have t: "bcache_ok {i} (set (log_blocks s)) ?t" "bview ?t = (bview s)(n := g d)" "bframe s ?t" "holds ?t i n (g d)"
    using bmod_rule [OF _ singletonI h, where g = g and P = "set (log_blocks s)"] ok by (auto simp: log_mem_ok_def)
  note ok2 = log_mem_ok_bframe [OF ok t(3,1)]
  have room: "lh_n (lg_lh (log ?t)) + 1 < lg_size (log ?t)" "1 \<le> lg_outstanding (log ?t)" "\<not> in_log (log ?t) n"
    using tr nl bframe_log [OF t(3)] by (simp_all add: in_trans_with_def)
  obtain s2 where s2: "log_write i ?t = Inr s2" "log_mem_ok {i} s2" "bview s2 = bview ?t" "lframe ?t s2"
      "log_blocks s2 = (if n \<in> set (log_blocks ?t) then log_blocks ?t else log_blocks ?t @ [n])" "holds s2 i n (g d)"
    using log_write_ok [OF ok2(1) singletonI t(4) room(3,1,2)] t(4) by auto
  have "n \<in> set (log_blocks s2) \<or> g d = disk s2 n" using s2(5) by simp
  then obtain s3 where s3: "brelse i s2 = Inr s3" "log_mem_ok {} s3" "bview s3 = bview s2" "bframe s2 s3" "log_blocks s3 = log_blocks s2"
    by (rule fs_brelse [OF s2(2,6)])
  have f: "lframe s s3" using lframe_trans [OF lframe_trans [OF lframe_bframe [OF t(3)] s2(4)] lframe_bframe [OF s3(4)]] .
  have "length (log_blocks s3) \<le> length (log_blocks s) + 1" using s3(5) s2(5) ok2(2) by simp
  then have "in_trans k s3"
    using tr s3(2) lframe_log [OF f] lh_n_log_blocks [OF s3(2)] lh_n_log_blocks [OF ok] by (simp add: in_trans_with_def in_trans_def)
  with that s2 s3 t f show thesis by simp
qed

lemma with_release_held:
  assumes tr: "in_trans_with (Some (i, n, d)) k s" and "n \<in> set (log_blocks s) \<or> d = disk s n"
  obtains s' where "brelse i s = Inr s'" "in_trans k s'" "bview s' = bview s" "bframe s s'"
proof -
  have ok: "log_mem_ok {i} s" and h: "holds s i n d" using tr by (simp_all add: in_trans_with_def)
  obtain s' where s': "brelse i s = Inr s'" "log_mem_ok {} s'" "bview s' = bview s" "bframe s s'" "log_blocks s' = log_blocks s"
    by (rule fs_brelse [OF ok h assms(2)])
  then show thesis using that tr bframe_log [OF s'(4)] by (simp add: in_trans_with_def in_trans_def)
qed

lemma fs_modify:
  assumes "in_trans (Suc k) s" "\<not> in_log (log s) n"
  obtains i s1 s2 s3 where "bread ROOTDEV n s = Inr (i, s1)" "b_data (bufs s1 ! i) = bview s n" "bframe s s1"
    "log_write i (bmod i g s1) = Inr s2" "brelse i s2 = Inr s3" "in_trans k s3"
    "bview s3 = (bview s)(n := g (bview s n))" "lframe s s3"
  using with_modify [of None k s n g thesis] assms by auto

lemma lframe_kfs: "lframe s s' \<Longrightarrow> sb s' = sb s \<and> itable s' = itable s"
  by (cases s, cases s') (simp add: lframe_def)

lemma bframe_kfs: "bframe s s' \<Longrightarrow> sb s' = sb s \<and> itable s' = itable s"
  using lframe_bframe lframe_kfs by blast

section \<open>The set of free blocks\<close>

definition is_free :: "'z kfs_scheme \<Rightarrow> nat \<Rightarrow> bool" where
  "is_free s b \<longleftrightarrow> \<not> bit_set (bview s (BBLOCK b (sb s))) (b mod BPB)"

lemma is_free_cong: "bview s' = bview s \<Longrightarrow> sb s' = sb s \<Longrightarrow> is_free s' = is_free s"
  by (rule ext) (simp add: is_free_def)

definition free_blocks :: "'z kfs_scheme \<Rightarrow> nat set" where
  "free_blocks s = {b. b < unat (sb_size (sb s)) \<and> is_free s b}"

text \<open>
  The geometry that \<^verbatim>\<open>mkfs\<close> gives a disk: the blocks of the bitmap and of the log are different,
  and the bitmap marks all of them as in use.
\<close>

definition bitmap_ok :: "'z kfs_scheme \<Rightarrow> bool" where
  "bitmap_ok s \<longleftrightarrow>
     unat (sb_bmapstart (sb s)) + unat (sb_size (sb s)) div BPB < 2 ^ 32 \<and>
     (\<forall>b<unat (sb_size (sb s)). \<not> in_log (log s) (BBLOCK b (sb s)) \<and>
       (is_free s b \<longrightarrow> \<not> in_log (log s) (of_nat b) \<and> b \<noteq> 0 \<and>
         (\<forall>c<unat (sb_size (sb s)). of_nat b \<noteq> BBLOCK c (sb s))))"

lemma bit_uchar: "k < 8 \<Longrightarrow> (x AND push_bit k 1 \<noteq> 0) = bit (x :: uchar) k"
  by (auto simp: bit_iff_and_push_bit_not_eq_0)

lemma bit_set_bit: "bit_set d bi = bit (d (bi div 8)) (bi mod 8)"
  unfolding bit_set_def by (rule bit_uchar) simp

lemma div_mod_eq: "m div k = n div k \<Longrightarrow> m mod k = n mod k \<Longrightarrow> m = (n :: nat)"
  by (metis div_mod_decomp)

lemma bit_set_set [simp]: "bit_set (set_bit_in bi d) bj \<longleftrightarrow> bj = bi \<or> bit_set d bj"
  using div_mod_eq [of bj 8 bi] by (auto simp: bit_set_bit set_bit_in_def bit_simps)

lemma bit_set_clear [simp]: "bit_set (clear_bit_in bi d) bj \<longleftrightarrow> bj \<noteq> bi \<and> bit_set d bj"
  using div_mod_eq [of bj 8 bi] by (auto simp: bit_set_bit clear_bit_in_def bit_simps)

lemma BBLOCK_eq:
  assumes "bitmap_ok s" "b < unat (sb_size (sb s))" "c < unat (sb_size (sb s))"
  shows "BBLOCK b (sb s) = BBLOCK c (sb s) \<longleftrightarrow> b div BPB = c div BPB"
proof -
  have "b div BPB \<le> unat (sb_size (sb s)) div BPB" "c div BPB \<le> unat (sb_size (sb s)) div BPB"
    using assms(2,3) by (simp_all add: div_le_mono)
  moreover have "unat (sb_size (sb s)) div BPB < 2 ^ 32" using assms(1) by (auto simp: bitmap_ok_def)
  ultimately have "unat (of_nat (b div BPB) :: uint) = b div BPB" "unat (of_nat (c div BPB) :: uint) = c div BPB"
    by (simp_all add: unat_of_nat_small)
  then show ?thesis by (metis BBLOCK_def add_right_imp_eq)
qed

text \<open>Changing a bit of the bitmap, and changing a block outside it.\<close>

lemma is_free_bit:
  assumes ok: "bitmap_ok s" and b: "b < unat (sb_size (sb s))" "c < unat (sb_size (sb s))" and sb: "sb s' = sb s"
    and v: "bview s' = (bview s)(BBLOCK b (sb s) := g (bview s (BBLOCK b (sb s))))"
    and g: "\<And>d j. bit_set (g d) j = (if j = b mod BPB then x else bit_set d j)"
  shows "is_free s' c = (if c = b then \<not> x else is_free s c)"
proof (cases "b div BPB = c div BPB")
  case True
  then have "BBLOCK c (sb s) = BBLOCK b (sb s)" by (simp add: BBLOCK_def)
  moreover have "c = b \<longleftrightarrow> c mod BPB = b mod BPB" using True by (metis div_mod_decomp)
  ultimately show ?thesis by (simp add: is_free_def sb v g)
next
  case False
  then have "BBLOCK c (sb s) \<noteq> BBLOCK b (sb s)" using BBLOCK_eq [OF ok b] by metis
  then show ?thesis using False by (auto simp: is_free_def sb v)
qed

lemma is_free_offset:
  assumes "b mod BPB = 0" "bi < BPB"
  shows "is_free s (b + bi) \<longleftrightarrow> \<not> bit_set (bview s (BBLOCK b (sb s))) bi"
proof -
  have "(b + bi) div BPB = b div BPB" "(b + bi) mod BPB = bi"
    using assms by (auto elim!: dvdE simp: mod_eq_0_iff_dvd)
  then show ?thesis by (simp only: is_free_def BBLOCK_def)
qed

lemma clear_bits_card:
  assumes "b mod BPB = 0" "n = unat (sb_size (sb s))"
  shows "clear_bits (bview s (BBLOCK b (sb s))) b n = card {c \<in> free_blocks s. b \<le> c \<and> c < b + BPB}"
proof -
  let ?xs = "filter (\<lambda>bi. \<not> bit_set (bview s (BBLOCK b (sb s))) bi) [0..<min BPB (n - b)]"
  have "{c \<in> free_blocks s. b \<le> c \<and> c < b + BPB} = (+) b ` set ?xs"
  proof (intro set_eqI iffI)
    fix c assume c: "c \<in> {c \<in> free_blocks s. b \<le> c \<and> c < b + BPB}"
    then have "c - b \<in> set ?xs" using is_free_offset [OF assms(1), of "c - b" s] assms(2)
      by (auto simp: free_blocks_def less_diff_conv2)
    then show "c \<in> (+) b ` set ?xs" using c by (intro image_eqI [of _ _ "c - b"]) auto
  next
    fix c assume "c \<in> (+) b ` set ?xs"
    then show "c \<in> {c \<in> free_blocks s. b \<le> c \<and> c < b + BPB}"
      using is_free_offset [OF assms(1)] assms(2) by (auto simp: free_blocks_def)
  qed
  moreover have "distinct ?xs" by simp
  ultimately show ?thesis by (metis clear_bits_def card_image distinct_card inj_on_add)
qed

lemma free_bit_find:
  assumes "b mod BPB = 0"
  shows "free_bit (bview s (BBLOCK b (sb s))) b nblk =
    find (\<lambda>bi. is_free s (b + bi)) [0..<min BPB (nblk - b)]"
  using is_free_offset [OF assms] unfolding free_bit_def by (intro find_cong) auto

lemma find_upt_Some: "find P [0..<n] = Some i \<longleftrightarrow> i < n \<and> P i \<and> (\<forall>j<i. \<not> P j)"
  by (auto simp: find_Some_iff)

definition mark_used :: "nat \<Rightarrow> 'z kfs_scheme \<Rightarrow> uint \<Rightarrow> block" where
  "mark_used c s = (bview s)(BBLOCK c (sb s) := set_bit_in (c mod BPB) (bview s (BBLOCK c (sb s))),
     of_nat c := memset (bview s (of_nat c)) 0 0 BSIZE)"

definition held_clear :: "held \<Rightarrow> 'z kfs_scheme \<Rightarrow> bool" where
  "held_clear h s \<longleftrightarrow> (\<forall>c<unat (sb_size (sb s)). held_off h (BBLOCK c (sb s)) \<and> (is_free s c \<longrightarrow> held_off h (of_nat c)))"

lemma balloc_here:
  assumes tr: "in_trans_with h (Suc (Suc k)) s" and ok: "bitmap_ok s" and clear: "held_clear h s" and c: "c < unat (sb_size (sb s))" "is_free s c"
  obtains i s1 s2 s3 s4 where "bread ROOTDEV (BBLOCK c (sb s)) s = Inr (i, s1)"
    "b_data (bufs s1 ! i) = bview s (BBLOCK c (sb s))"
    "log_write i (bmod i (set_bit_in (c mod BPB)) s1) = Inr s2" "brelse i s2 = Inr s3"
    "bzero ROOTDEV (of_nat c) s3 = Inr s4" "in_trans_with h k s4" "bview s4 = mark_used c s" "lframe s s4"
proof -
  let ?n = "BBLOCK c (sb s)"
  have nl: "\<not> in_log (log s) ?n" "\<not> in_log (log s) (of_nat c)" "of_nat c \<noteq> ?n"
    using ok c by (simp_all add: bitmap_ok_def)
  have off: "held_off h ?n" "held_off h (of_nat c)" using clear c by (simp_all add: held_clear_def)
  obtain i s1 s2 s3 where s3: "bread ROOTDEV ?n s = Inr (i, s1)" "b_data (bufs s1 ! i) = bview s ?n" "bframe s s1"
    "log_write i (bmod i (set_bit_in (c mod BPB)) s1) = Inr s2" "brelse i s2 = Inr s3" "in_trans_with h (Suc k) s3"
    "bview s3 = (bview s)(?n := set_bit_in (c mod BPB) (bview s ?n))" "lframe s s3"
    by (rule with_modify [OF tr off(1) nl(1)])
  have "\<not> in_log (log s3) (of_nat c)" using nl lframe_log [OF s3(8)] by simp
  then obtain j t1 t2 s4 where s4: "bread ROOTDEV (of_nat c) s3 = Inr (j, t1)" "b_data (bufs t1 ! j) = bview s3 (of_nat c)"
    "bframe s3 t1" "log_write j (bmod j (\<lambda>d. memset d 0 0 BSIZE) t1) = Inr t2" "brelse j t2 = Inr s4" "in_trans_with h k s4"
    "bview s4 = (bview s3)(of_nat c := memset (bview s3 (of_nat c)) 0 0 BSIZE)" "lframe s3 s4"
    by (rule with_modify [OF s3(6) off(2)])
  have "bview s4 = mark_used c s" using s4(7) s3(7) nl(3) by (simp add: mark_used_def)
  moreover have "bzero ROOTDEV (of_nat c) s3 = Inr s4" using s4 by (simp add: bzero_def)
  ultimately show thesis using that s3 s4 lframe_trans by blast
qed

lemma balloc_from_spec:
  assumes "in_trans_with h (Suc (Suc k)) s" "bitmap_ok s" "b mod BPB = 0" "n = unat (sb_size (sb s))" "held_clear h s"
  shows "(\<exists>c s'. b \<le> c \<and> c < n \<and> is_free s c \<and> (\<forall>x. b \<le> x \<and> x < c \<longrightarrow> \<not> is_free s x) \<and>
      balloc_from ROOTDEV b n s = Inr (of_nat c, s') \<and> in_trans_with h k s' \<and> lframe s s' \<and> bview s' = mark_used c s) \<or>
    ((\<forall>x. b \<le> x \<and> x < n \<longrightarrow> \<not> is_free s x) \<and>
      (\<exists>s'. balloc_from ROOTDEV b n s = Inr (0, s') \<and> in_trans_with h k s' \<and> bframe s s' \<and> bview s' = bview s))"
  using assms
proof (induction "n - b" arbitrary: b s rule: less_induct)
  case less
  let ?N = "BBLOCK b (sb s)"
  show ?case
  proof (cases "b < n")
    case False
    then show ?thesis using in_trans_with_mono [OF less.prems(1), of k] by (auto simp: balloc_from.simps)
  next
    case b: True
    let ?f = "find (\<lambda>bi. is_free s (b + bi)) [0..<min BPB (n - b)]"
    show ?thesis
    proof (cases ?f)
      case (Some bi)
      then have bi: "bi < BPB" "b + bi < n" "is_free s (b + bi)" "\<forall>j<bi. \<not> is_free s (b + j)"
        by (auto simp only: find_upt_Some)
      have eq: "BBLOCK (b + bi) (sb s) = ?N" "(b + bi) mod BPB = bi"
        using less.prems(3) bi(1) by (auto simp: BBLOCK_def elim!: dvdE simp: mod_eq_0_iff_dvd)
      obtain i s1 s2 s3 s4 where r: "bread ROOTDEV ?N s = Inr (i, s1)" "b_data (bufs s1 ! i) = bview s ?N"
        "log_write i (bmod i (set_bit_in bi) s1) = Inr s2" "brelse i s2 = Inr s3"
        "bzero ROOTDEV (of_nat (b + bi)) s3 = Inr s4" "in_trans_with h k s4" "bview s4 = mark_used (b + bi) s" "lframe s s4"
        by (rule balloc_here [OF less.prems(1,2,5) bi(2) [unfolded less.prems(4)] bi(3), unfolded eq])
      have "balloc_from ROOTDEV b n s = Inr (of_nat (b + bi), s4)"
        using b r Some free_bit_find [OF less.prems(3), of s n] by (simp add: balloc_from.simps [of _ b] Let_def)
      moreover have "\<not> is_free s k" if "b \<le> k" "k < b + bi" for k
        using bi(4) that by (metis add_diff_inverse_nat less_diff_conv2 not_less add.commute)
      ultimately show ?thesis using r bi by (intro disjI1 exI [of _ "b + bi"] exI [of _ s4]) auto
    next
      case None
      obtain i s1 s2 where r: "bread ROOTDEV ?N s = Inr (i, s1)" "b_data (bufs s1 ! i) = bview s ?N" "bframe s s1"
          "brelse i s1 = Inr s2" "in_trans_with h (Suc (Suc k)) s2" "bview s2 = bview s" "bframe s s2"
        by (rule with_read [OF less.prems(1), of ?N]) (use less.prems(4,5) b in \<open>simp add: held_clear_def\<close>)
      have run: "balloc_from ROOTDEV b n s = balloc_from ROOTDEV (b + BPB) n s2"
        using b r None free_bit_find [OF less.prems(3), of s n] by (simp add: balloc_from.simps [of _ b])
      have same: "sb s2 = sb s" "log s2 = log s" using bframe_kfs [OF r(7)] bframe_log [OF r(7)] by simp_all
      note same = this is_free_cong [OF r(6) this(1)]
      have "mark_used c s2 = mark_used c s" for c by (simp add: mark_used_def same r(6))
      moreover have clear: "held_clear h s2" using less.prems(5) by (simp add: held_clear_def same)
      moreover have "bitmap_ok s2" using less.prems(2) by (simp add: bitmap_ok_def same)
      moreover have "n - (b + BPB) < n - b" "(b + BPB) mod BPB = 0" using b less.prems(3) by auto
      ultimately have ih: "(\<exists>c s'. b + BPB \<le> c \<and> c < n \<and> is_free s c \<and> (\<forall>k. b + BPB \<le> k \<and> k < c \<longrightarrow> \<not> is_free s k) \<and>
          balloc_from ROOTDEV (b + BPB) n s2 = Inr (of_nat c, s') \<and> in_trans_with h k s' \<and> lframe s2 s' \<and> bview s' = mark_used c s) \<or>
        ((\<forall>k. b + BPB \<le> k \<and> k < n \<longrightarrow> \<not> is_free s k) \<and>
          (\<exists>s'. balloc_from ROOTDEV (b + BPB) n s2 = Inr (0, s') \<and> in_trans_with h k s' \<and> bframe s2 s' \<and> bview s' = bview s))"
        using less.hyps [of "b + BPB" s2] r(5,6) less.prems(4) same clear by metis
      have low: "\<not> is_free s k" if "b \<le> k" "k < b + BPB" "k < n" for k
        using None that by (auto simp: find_None_iff dest!: spec [of _ "k - b"])
      have fr: "lframe s s'" if "lframe s2 s'" for s' using lframe_trans [OF lframe_bframe [OF r(7)] that] .
      from ih show ?thesis
      proof (elim disjE exE conjE)
        fix c s' assume a: "b + BPB \<le> c" "c < n" "is_free s c" "\<forall>k. b + BPB \<le> k \<and> k < c \<longrightarrow> \<not> is_free s k"
          "balloc_from ROOTDEV (b + BPB) n s2 = Inr (of_nat c, s')" "in_trans_with h k s'" "lframe s2 s'" "bview s' = mark_used c s"
        have "\<not> is_free s k" if "b \<le> k" "k < c" for k
          using low [of k] a(2,4) that by (meson less_trans not_less)
        then show ?thesis using a run fr by (intro disjI1 exI [of _ c] exI [of _ s']) auto
      next
        fix s' assume a: "\<forall>k. b + BPB \<le> k \<and> k < n \<longrightarrow> \<not> is_free s k"
          "balloc_from ROOTDEV (b + BPB) n s2 = Inr (0, s')" "in_trans_with h k s'" "bframe s2 s'" "bview s' = bview s"
        have "\<not> is_free s k" if "b \<le> k" "k < n" for k
          using low [of k] a(1) that by (meson not_less)
        then show ?thesis using a run bframe_trans [OF r(7) a(4)] by (intro disjI2) auto
      qed
    qed
  qed
qed

lemma is_free_mark_used:
  assumes "bitmap_ok s" "b < unat (sb_size (sb s))" "is_free s b" "sb s' = sb s" "bview s' = mark_used b s"
    "c < unat (sb_size (sb s))"
  shows "is_free s' c \<longleftrightarrow> is_free s c \<and> c \<noteq> b"
proof -
  let ?d = "(bview s)(BBLOCK b (sb s) := set_bit_in (b mod BPB) (bview s (BBLOCK b (sb s))))"
  have "of_nat b \<noteq> BBLOCK c (sb s)" using assms(1-3,6) by (simp add: bitmap_ok_def)
  then have "bview s' (BBLOCK c (sb s)) = ?d (BBLOCK c (sb s))" using assms(5) by (simp add: mark_used_def)
  moreover have "BBLOCK c (sb s) = BBLOCK b (sb s) \<Longrightarrow> c mod BPB = b mod BPB \<longleftrightarrow> c = b"
    using BBLOCK_eq [OF assms(1,6,2)] div_mod_eq by blast
  ultimately show ?thesis using assms(3,4) by (auto simp: is_free_def)
qed

lemma count_from_spec:
  assumes "log_mem_ok {} s" "b mod BPB = 0" "x = sb s"
  shows "\<exists>s'. count_from x b f s = Inr (f + of_nat (card {c \<in> free_blocks s. b \<le> c}), s') \<and>
    log_mem_ok {} s' \<and> bview s' = bview s \<and> bframe s s'"
  using assms
proof (induction "unat (sb_size x) - b" arbitrary: b f s rule: less_induct)
  case less
  let ?n = "unat (sb_size x)" and ?N = "BBLOCK b (sb s)"
  show ?case
  proof (cases "b < ?n")
    case False
    then have "{c \<in> free_blocks s. b \<le> c} = {}" using less.prems(3) by (auto simp: free_blocks_def)
    then have "card {c \<in> free_blocks s. b \<le> c} = 0" by (simp only: card.empty)
    then show ?thesis using False less.prems by (simp add: count_from.simps)
  next
    case True
    obtain i s1 s2 where r: "bread ROOTDEV ?N s = Inr (i, s1)" "b_data (bufs s1 ! i) = bview s ?N" "bframe s s1"
        "brelse i s1 = Inr s2" "log_mem_ok {} s2" "bview s2 = bview s" "bframe s s2"
      by (rule fs_read [OF less.prems(1)])
    let ?m = "clear_bits (bview s ?N) b ?n"
    have same: "sb s2 = sb s" "free_blocks s2 = free_blocks s"
      using bframe_kfs [OF r(7)] is_free_cong [OF r(6)] by (simp_all add: free_blocks_def)
    have dec: "?n - (b + BPB) < ?n - b" "(b + BPB) mod BPB = 0" using True less.prems(2) by auto
    obtain s' where s': "count_from x (b + BPB) (f + of_nat ?m) s2 =
        Inr (f + of_nat ?m + of_nat (card {c \<in> free_blocks s. b + BPB \<le> c}), s')" "log_mem_ok {} s'"
        "bview s' = bview s" "bframe s2 s'"
      using less.hyps [OF dec(1) r(5) dec(2), of "f + of_nat ?m"] less.prems(3) r(6) same by auto
    have "?m = card {c \<in> free_blocks s. b \<le> c \<and> c < b + BPB}" 
      using clear_bits_card [OF less.prems(2), of ?n s] less.prems(3) by simp
    moreover have "{c \<in> free_blocks s. b \<le> c} =
        {c \<in> free_blocks s. b \<le> c \<and> c < b + BPB} \<union> {c \<in> free_blocks s. b + BPB \<le> c}" by auto
    moreover have "finite (free_blocks s)" by (simp add: free_blocks_def)
    ultimately have "card {c \<in> free_blocks s. b \<le> c} = ?m + card {c \<in> free_blocks s. b + BPB \<le> c}"
      by (simp add: card_Un_disjoint disjoint_iff)
    moreover have "count_from x b f s = count_from x (b + BPB) (f + of_nat ?m) s2"
      using True r less.prems(3) by (simp add: count_from.simps [of "sb s" b])
    ultimately show ?thesis using s' bframe_trans [OF r(7) s'(4)] by (simp add: add.assoc)
  qed
qed

lemma free_blocks_finite [simp]: "finite (free_blocks s)"
  by (simp add: free_blocks_def)

text \<open>C16: \<^verbatim>\<open>balloc\<close> inside a transaction with room for two blocks. If a block is free it takes the first one
  out of the set of free blocks, returns its number and leaves it zeroed; no other block than this and the one
  of the bitmap changes. If none is free it returns 0 and changes nothing. It never panics.\<close>

theorem balloc_takes_first_free:
  assumes "in_trans 2 s" "bitmap_ok s"
  shows "\<exists>b s'. balloc ROOTDEV s = Inr (b, s') \<and> in_trans 0 s' \<and> sb s' = sb s \<and>
    (if free_blocks s = {} then b = 0 \<and> bview s' = bview s
     else let m = Min (free_blocks s) in b = of_nat m \<and> free_blocks s' = free_blocks s - {m} \<and>
       (\<forall>i<BSIZE. bview s' b i = 0) \<and> (\<forall>n. n \<noteq> b \<and> n \<noteq> BBLOCK m (sb s) \<longrightarrow> bview s' n = bview s n))"
proof -
  let ?n = "unat (sb_size (sb s))"
  consider (found) c s' where "c < ?n" "is_free s c" "\<forall>k<c. \<not> is_free s k" "balloc ROOTDEV s = Inr (of_nat c, s')"
      "in_trans 0 s'" "lframe s s'" "bview s' = mark_used c s"
    | (full) s' where "\<forall>k<?n. \<not> is_free s k" "balloc ROOTDEV s = Inr (0, s')" "in_trans 0 s'" "bframe s s'" "bview s' = bview s"
    using balloc_from_spec [of None 0 s 0 ?n] assms unfolding balloc_def by (auto simp: numeral_2_eq_2 held_clear_def)
  then show ?thesis
  proof cases
    case found
    have "c \<in> free_blocks s" "\<And>k. k \<in> free_blocks s \<Longrightarrow> c \<le> k" using found by (auto simp: free_blocks_def not_less)
    then have m: "Min (free_blocks s) = c" "free_blocks s \<noteq> {}" by (auto intro: Min_eqI)
    have sb: "sb s' = sb s" using lframe_kfs [OF found(6)] by simp
    have "free_blocks s' = free_blocks s - {c}"
      using is_free_mark_used [OF assms(2) found(1,2) sb found(7)] by (auto simp: free_blocks_def sb)
    moreover have "memset d 0 0 BSIZE i = 0" if "i < BSIZE" for i and d :: block
      using that by (auto simp: memset_def memset_from_apply)
    ultimately show ?thesis using found sb m by (auto simp: Let_def mark_used_def)
  next
    case full
    then have "free_blocks s = {}" by (auto simp: free_blocks_def)
    with full bframe_kfs [OF full(4)] show ?thesis by auto
  qed
qed

text \<open>\<^verbatim>\<open>bfree\<close> of a block of the disk panics exactly when the block is free already; otherwise the block
  joins the free blocks and the contents of no block outside the bitmap change.\<close>

lemma bfree_panics_on_double_free:
  assumes "in_trans 1 s" "bitmap_ok s" "b < unat (sb_size (sb s))"
  shows "if b \<in> free_blocks s then bfree ROOTDEV (of_nat b) s = Inl (Panic ''freeing free block'')
    else \<exists>s'. bfree ROOTDEV (of_nat b) s = Inr s' \<and> in_trans 0 s' \<and> sb s' = sb s \<and>
      free_blocks s' = insert b (free_blocks s) \<and> (\<forall>n. n \<noteq> BBLOCK b (sb s) \<longrightarrow> bview s' n = bview s n)"
proof -
  let ?n = "BBLOCK b (sb s)" and ?x = "of_nat b :: uint"
  have "b < 2 ^ 32" using assms(3) unat_uint_less [of "sb_size (sb s)"] by linarith
  then have b: "unat ?x = b" by (simp add: unat_of_nat_small)
  have nl: "\<not> in_log (log s) ?n" using assms(2,3) by (simp add: bitmap_ok_def)
  have tr: "in_trans (Suc 0) s" using assms(1) by simp
  obtain i s1 s2 s3 where r: "bread ROOTDEV ?n s = Inr (i, s1)" "b_data (bufs s1 ! i) = bview s ?n" "bframe s s1"
    "log_write i (bmod i (clear_bit_in (b mod BPB)) s1) = Inr s2" "brelse i s2 = Inr s3" "in_trans 0 s3"
    "bview s3 = (bview s)(?n := clear_bit_in (b mod BPB) (bview s ?n))" "lframe s s3"
    by (rule fs_modify [OF tr nl])
  have sb: "sb s3 = sb s" using lframe_kfs [OF r(8)] by simp
  have "is_free s3 c = (if c = b then True else is_free s c)" if "c < unat (sb_size (sb s))" for c
    using is_free_bit [OF assms(2,3) that sb, where g = "clear_bit_in (b mod BPB)" and x = False] r(7) by simp
  then have "free_blocks s3 = insert b (free_blocks s)" using assms(3) by (auto simp: free_blocks_def sb)
  moreover have "bfree ROOTDEV ?x s = (if is_free s b then Inl (Panic ''freeing free block'') else Inr s3)"
    unfolding bfree_def b using r by (simp add: is_free_def Let_def)
  ultimately show ?thesis using r assms(3) sb by (auto simp: free_blocks_def)
qed


section \<open>A small disk\<close>

text \<open>A machine that has just mounted the disk \<open>dk\<close> and is inside its first transaction.\<close>

definition blank_inode :: inode where
  "blank_inode = \<lparr>i_dev = 0, i_inum = 0, i_ref = 0, i_lock = initsleeplock, i_valid = False, i_type = 0, i_major = 0,
     i_minor = 0, i_nlink = 0, i_size = 0, i_addrs = replicate (Suc NDIRECT) 0\<rparr>"

definition mounted :: "(uint \<Rightarrow> block) \<Rightarrow> kfs" where
  "mounted dk = binit (kbio.extend (boot_kbio\<lparr>disk := dk\<rparr>)
     \<lparr>log = boot_log\<lparr>lg_outstanding := 1\<rparr>, sb = parse_sb (dk 1), itable = replicate NINODE blank_inode\<rparr>)"

lemma mounted_simps [simp]:
  "log (mounted dk) = boot_log\<lparr>lg_outstanding := 1\<rparr>" "sb (mounted dk) = parse_sb (dk 1)"
  "itable (mounted dk) = replicate NINODE blank_inode" "disk (mounted dk) = dk" "cur_ok (mounted dk)"
  "procs (mounted dk) = replicate NPROC blank_proc" "cpu_proc (mounted dk) = Some 0"
  "bview (mounted dk) = dk" "bcache_ok {} {} (mounted dk)"
proof -
  let ?m = "\<lparr>log = boot_log\<lparr>lg_outstanding := 1\<rparr>, sb = parse_sb (dk 1), itable = replicate NINODE blank_inode\<rparr>"
  let ?s = "kbio.extend (boot_kbio\<lparr>disk := dk\<rparr>) ?m"
  have "kbio.more (mounted dk) = ?m" using binit_more [of ?s] by (simp add: mounted_def kbio.extend_def)
  then show "log (mounted dk) = boot_log\<lparr>lg_outstanding := 1\<rparr>" "sb (mounted dk) = parse_sb (dk 1)"
    "itable (mounted dk) = replicate NINODE blank_inode" by (cases "mounted dk"; simp)+
  have f: "bufs ?s = replicate NBUF blank_buf" "procs ?s = replicate NPROC blank_proc" "cpu_proc ?s = Some 0" "disk ?s = dk"
    by (simp_all add: kbio.extend_def boot_kbio_def)
  show d: "disk (mounted dk) = dk" and "procs (mounted dk) = replicate NPROC blank_proc" "cpu_proc (mounted dk) = Some 0"
    using binit_frame [of ?s] f by (simp_all add: mounted_def)
  then show "cur_ok (mounted dk)" by (simp add: cur_ok_def)
  show ok: "bcache_ok {} {} (mounted dk)" using binit_ok [of ?s] f by (simp add: mounted_def blank_buf_def)
  show "bview (mounted dk) = dk" using bview_clean0 [OF ok] d by (simp add: fun_eq_iff)
qed

lemma mounted_trans: "k < 30 \<Longrightarrow> in_trans k (mounted dk)"
  by (simp add: in_trans_def log_mem_ok_def log_geom_def log_blocks_def boot_log_def)

lemma boot_in_log: "in_log boot_log n \<longleftrightarrow> 2 \<le> unat n \<and> unat n < 32"
proof
  assume "in_log boot_log n"
  then show "2 \<le> unat n \<and> unat n < 32"
    by (auto simp: in_log_def log_slot_def boot_log_def unat_word_ariths unat_of_nat)
next
  assume n: "2 \<le> unat n \<and> unat n < 32"
  then have "n = 2 + of_nat (unat n - 2)" by (simp add: of_nat_diff)
  then show "in_log boot_log n"
    using n by (auto simp: in_log_def log_slot_def boot_log_def intro!: exI [of _ "unat n - 2"])
qed

text \<open>Sixty-four blocks, of which the bitmap in block 45 marks the first forty-eight as used.\<close>

definition small_sb :: block where
  "small_sb = set32 (set32 (set32 (set32 (\<lambda>_. 0) 4 64) 12 16) 24 32) 28 45"

definition small_disk :: "uint \<Rightarrow> block" where
  "small_disk n = (if n = 1 then small_sb else if n = 45 then (\<lambda>i. if i < 6 then 255 else 0) else (\<lambda>_. 9))"

lemma small_disk_sb [simp]:
  "sb_size (parse_sb (small_disk 1)) = 64" "sb_bmapstart (parse_sb (small_disk 1)) = 45"
  "sb_ninodes (parse_sb (small_disk 1)) = 16" "sb_inodestart (parse_sb (small_disk 1)) = 32"
  by (simp_all add: small_disk_def small_sb_def parse_sb_def get_set_disj)

lemma small_disk_free: "b < 64 \<Longrightarrow> is_free (mounted small_disk) b \<longleftrightarrow> 48 \<le> b"
proof -
  assume b: "b < 64"
  have "bit (255 :: uchar) k" if "k < 8" for k
    using that by (simp add: bit_iff_odd eval_nat_numeral less_Suc_eq) auto
  moreover have "b div 8 < 6 \<longleftrightarrow> b < 48" by auto
  moreover have "BBLOCK b (parse_sb (small_disk 1)) = 45" using b by (simp add: BBLOCK_def)
  moreover have "small_disk 45 = (\<lambda>i. if i < 6 then 255 else 0)" by (simp add: small_disk_def)
  ultimately show ?thesis using b by (auto simp: is_free_def bit_set_bit)
qed

lemma small_disk_ok: "bitmap_ok (mounted small_disk)" "free_blocks (mounted small_disk) = {48..<64}"
proof -
  show "bitmap_ok (mounted small_disk)"
    using small_disk_free by (auto simp: bitmap_ok_def boot_in_log BBLOCK_def unat_of_nat word_unat_eq_iff)
  show "free_blocks (mounted small_disk) = {48..<64}" using small_disk_free by (auto simp: free_blocks_def)
qed

theorem balloc_takes_first_free_witness:
  "\<exists>s'. balloc ROOTDEV (mounted small_disk) = Inr (48, s') \<and> free_blocks s' = {48..<64} - {48} \<and> bview s' 48 0 = 0"
proof -
  have "Min {48..<64 :: nat} = 48" by (rule Min_eqI) auto
  then show ?thesis
    using balloc_takes_first_free [OF mounted_trans small_disk_ok(1)] by (auto simp: small_disk_ok(2) Let_def)
qed

lemma bfree_panics_on_double_free_example:
  "bfree ROOTDEV 50 (mounted small_disk) = Inl (Panic ''freeing free block'') \<and>
   (\<exists>s'. bfree ROOTDEV 47 (mounted small_disk) = Inr s' \<and> free_blocks s' = insert 47 {48..<64})"
  using bfree_panics_on_double_free [OF mounted_trans small_disk_ok(1), of 50]
    bfree_panics_on_double_free [OF mounted_trans small_disk_ok(1), of 47]
  by (auto simp: small_disk_ok(2))


end
