(* ===== verification/Inodes.thy ===== *)
theory Inodes
  imports Bitmap
begin

text \<open>
  Inodes of \<^verbatim>\<open>kernel/fs.c\<close>: their encoding on disk, the table of inodes in memory and how
  \<^verbatim>\<open>iupdate\<close> and \<^verbatim>\<open>ilock\<close> keep the two in step; and the elements of path names.
\<close>

section \<open>The encoding of an inode\<close>

lemma put_addrs_upto:
  "k < n \<Longrightarrow> get32 (fold (\<lambda>i d. set32 d (off + 12 + 4 * i) (as ! i)) [0..<n] d) (off + 12 + 4 * k) = as ! k"
  by (induction n) (auto simp: get_set_disj less_Suc_eq)

lemma set_outside:
  fixes off :: nat
  shows "x < off \<or> off + 2 \<le> x \<Longrightarrow> set16 d off v x = d x" "x < off \<or> off + 4 \<le> x \<Longrightarrow> set32 d off w x = d x"
  by (auto simp: set16_def set32_def store_bytes_nat)

lemma put_addrs_outside:
  "x < off + 12 \<or> off + 12 + 4 * n \<le> x \<Longrightarrow> fold (\<lambda>i d. set32 d (off + 12 + 4 * i) (as ! i)) [0..<n] d x = d x"
  by (induction n) (auto simp: set_outside)

lemma get_cong:
  fixes off :: nat
  shows "(\<And>i. i < 2 \<Longrightarrow> d (off + i) = d' (off + i)) \<Longrightarrow> get16 d off = get16 d' off"
    "(\<And>i. i < 4 \<Longrightarrow> d (off + i) = d' (off + i)) \<Longrightarrow> get32 d off = get32 d' off"
proof -
  have l: "load_bytes d off n = load_bytes d' off n" if "\<And>i. i < n \<Longrightarrow> d (off + i) = d' (off + i)" for n
    using that by (simp add: load_bytes_def)
  show "(\<And>i. i < 2 \<Longrightarrow> d (off + i) = d' (off + i)) \<Longrightarrow> get16 d off = get16 d' off"
    "(\<And>i. i < 4 \<Longrightarrow> d (off + i) = d' (off + i)) \<Longrightarrow> get32 d off = get32 d' off"
    by (simp_all only: get16_def get32_def l)
qed

lemma put_dinode_outside: "x < off \<or> off + 64 \<le> x \<Longrightarrow> put_dinode i off d x = d x"
  using put_addrs_outside [of x off "Suc NDIRECT"] by (auto simp: put_dinode_def put_addrs_def set_outside Let_def simp del: upt_Suc)

definition same_dinode :: "inode \<Rightarrow> inode \<Rightarrow> bool" where
  "same_dinode i j \<longleftrightarrow> i_type i = i_type j \<and> i_major i = i_major j \<and> i_minor i = i_minor j \<and> i_nlink i = i_nlink j \<and>
     i_size i = i_size j \<and> i_addrs i = i_addrs j"

lemma get_put_dinode:
  assumes "length (i_addrs i) = Suc NDIRECT"
  shows "same_dinode (get_dinode (put_dinode i off d) off j) i"
proof -
  let ?p = "\<lambda>d. put_addrs (i_addrs i) off d"
  have a: "map (\<lambda>k. get32 (?p d) (off + 12 + 4 * k)) [0..<13] = i_addrs i" for d
    using assms put_addrs_upto [of _ "Suc NDIRECT" off "i_addrs i" d] unfolding put_addrs_def
    by (intro nth_equalityI) (auto simp del: upt_Suc)
  have o: "get16 (?p d) (off + k) = get16 d (off + k)" if "k + 2 \<le> 12" for d k
    using that put_addrs_outside [of _ off "Suc NDIRECT" "i_addrs i" d] unfolding put_addrs_def by (intro get_cong) simp
  have o0: "get16 (?p d) off = get16 d off" for d using o [of 0 d] by simp
  have w: "get32 (?p d) (off + 8) = get32 d (off + 8)" for d
    using put_addrs_outside [of _ off "Suc NDIRECT" "i_addrs i" d] unfolding put_addrs_def by (intro get_cong) simp
  show ?thesis
    by (simp add: same_dinode_def get_dinode_def put_dinode_def Let_def a o o0 w get_set_disj del: upt_Suc add_2_eq_Suc')
qed

lemma get_dinode_frame:
  assumes "off' + 64 \<le> off \<or> off + 64 \<le> off'"
  shows "get_dinode (put_dinode i off d) off' j = get_dinode d off' j"
proof -
  have x: "put_dinode i off d (off' + k) = d (off' + k)" if "k < 64" for k
    using assms that by (intro put_dinode_outside) auto
  have h: "get16 (put_dinode i off d) (off' + k) = get16 d (off' + k)" if "k + 2 \<le> 64" for k
    using x that by (intro get_cong) (simp add: add.assoc)
  have "get32 (put_dinode i off d) (off' + k) = get32 d (off' + k)" if "k + 4 \<le> 64" for k
    using x that by (intro get_cong) (simp add: add.assoc)
  moreover have "get16 (put_dinode i off d) off' = get16 d off'" using h [of 0] by simp
  ultimately show ?thesis by (simp add: get_dinode_def add.assoc h del: upt_Suc add_2_eq_Suc')
qed

section \<open>iupdate and ilock\<close>

lemma upd_inode_simps [simp]:
  "log (upd_inode ip f s) = log s" "sb (upd_inode ip f s) = sb s"
  "itable (upd_inode ip f s) = (itable s)[ip := f (itable s ! ip)]" "length (itable (upd_inode ip f s)) = length (itable s)"
  "bufs (upd_inode ip f s) = bufs s" "disk (upd_inode ip f s) = disk s" "procs (upd_inode ip f s) = procs s"
  "cpu_proc (upd_inode ip f s) = cpu_proc s" "myproc (upd_inode ip f s) = myproc s" "cur_ok (upd_inode ip f s) = cur_ok s"
  "bnext (upd_inode ip f s) = bnext s" "bprev (upd_inode ip f s) = bprev s"
  by (simp_all add: upd_inode_def myproc_def cur_ok_def)

lemma cache_upd_inode [simp]:
  "bview (upd_inode ip f s) = bview s" "log_mem_ok H (upd_inode ip f s) = log_mem_ok H s"
  "holds (upd_inode ip f s) i n d = holds s i n d" "log_blocks (upd_inode ip f s) = log_blocks s"
proof -
  have c: "bcache_ok H P (upd_inode ip f s) = bcache_ok H P s" "bview (upd_inode ip f s) = bview s"
      "cached (upd_inode ip f s) = cached s" for P
    by (rule bcache_cong; simp)+
  then show "bview (upd_inode ip f s) = bview s" "log_mem_ok H (upd_inode ip f s) = log_mem_ok H s"
    "holds (upd_inode ip f s) i n d = holds s i n d" "log_blocks (upd_inode ip f s) = log_blocks s"
    by (simp_all add: log_mem_ok_def log_blocks_def holds_def)
qed

lemma in_trans_upd_inode [simp]: "in_trans k (upd_inode ip f s) = in_trans k s"
  by (simp add: in_trans_def)

lemma ino_upd [simp]: "ip < length (itable s) \<Longrightarrow> ino (upd_inode ip f s) ip = f (ino s ip)"
  by (simp add: ino_def)

lemma iupdate_writes:
  assumes "in_trans (Suc k) s" "i_dev (ino s ip) = ROOTDEV" "\<not> in_log (log s) (IBLOCK (i_inum (ino s ip)) (sb s))"
  obtains s' where "iupdate ip s = Inr s'" "in_trans k s'" "lframe s s'"
    "bview s' = (bview s)(IBLOCK (i_inum (ino s ip)) (sb s) :=
       put_dinode (ino s ip) (dinode_off (i_inum (ino s ip))) (bview s (IBLOCK (i_inum (ino s ip)) (sb s))))"
proof -
  let ?n = "IBLOCK (i_inum (ino s ip)) (sb s)" and ?g = "put_dinode (ino s ip) (dinode_off (i_inum (ino s ip)))"
  obtain i s1 s2 s3 where r: "bread ROOTDEV ?n s = Inr (i, s1)" "b_data (bufs s1 ! i) = bview s ?n" "bframe s s1"
    "log_write i (bmod i ?g s1) = Inr s2" "brelse i s2 = Inr s3" "in_trans k s3"
    "bview s3 = (bview s)(?n := ?g (bview s ?n))" "lframe s s3"
    by (rule fs_modify [OF assms(1,3)])
  have "ino s1 ip = ino s ip" using bframe_kfs [OF r(3)] by (simp add: ino_def)
  then have "iupdate ip s = Inr s3" using r assms(2) by (simp add: iupdate_def Let_def)
  with that r show thesis by blast
qed

lemma ilock_loads:
  assumes "log_mem_ok {} s" "ip < length (itable s)" "i_dev (ino s ip) = ROOTDEV" "1 \<le> i_ref (ino s ip)"
    "\<not> sl_locked (i_lock (ino s ip))" "\<not> i_valid (ino s ip)"
    "get16 (bview s (IBLOCK (i_inum (ino s ip)) (sb s))) (dinode_off (i_inum (ino s ip))) \<noteq> 0"
  obtains s' where "ilock ip s = Inr s'" "log_mem_ok {} s'" "bview s' = bview s" "i_valid (ino s' ip)"
    "same_dinode (ino s' ip) (get_dinode (bview s (IBLOCK (i_inum (ino s ip)) (sb s))) (dinode_off (i_inum (ino s ip))) (ino s ip))"
    "sl_locked (i_lock (ino s' ip))"
proof -
  let ?n = "IBLOCK (i_inum (ino s ip)) (sb s)" and ?off = "dinode_off (i_inum (ino s ip))"
  let ?lk = "(i_lock (ino s ip))\<lparr>sl_locked := True, sl_pid := p_pid (myproc s)\<rparr>"
  let ?s = "upd_inode ip (\<lambda>i. i\<lparr>i_lock := ?lk\<rparr>) s"
  have ok: "log_mem_ok {} ?s" using assms(1) by simp
  obtain i s1 where s1: "bread ROOTDEV ?n ?s = Inr (i, s1)" "b_data (bufs s1 ! i) = bview ?s ?n"
    "log_mem_ok {i} s1" "bview s1 = bview ?s" "bframe ?s s1" "holds s1 i ?n (bview ?s ?n)" "log_blocks s1 = log_blocks ?s"
    by (rule fs_bread [OF ok])
  have it: "itable s1 = itable ?s" using bframe_kfs [OF s1(5)] by simp
  then have ip: "ino s1 ip = (ino s ip)\<lparr>i_lock := ?lk\<rparr>" using assms(2) by (simp add: ino_def)
  let ?g = "get_dinode (bview s ?n) ?off"
  let ?t = "upd_inode ip ?g s1"
  have "?n \<in> set (log_blocks s1) \<or> bview s ?n = disk s1 ?n"
    using bview_clean0 [of "set (log_blocks s)" s ?n] assms(1) s1(5,7) by (auto simp: log_mem_ok_def bframe_def)
  then have "?n \<in> set (log_blocks ?t) \<or> bview s ?n = disk ?t ?n" by simp
  moreover have "log_mem_ok {i} ?t" "holds ?t i ?n (bview s ?n)" using s1(3,6) by simp_all
  ultimately obtain s2 where s2: "brelse i ?t = Inr s2" "log_mem_ok {} s2" "bview s2 = bview ?t" "bframe ?t s2"
      "log_blocks s2 = log_blocks ?t"
    using fs_brelse by blast
  let ?s' = "upd_inode ip (\<lambda>i. i\<lparr>i_valid := True\<rparr>) s2"
  have it2: "itable s2 = itable ?t" using bframe_kfs [OF s2(4)] by simp
  have l: "ip < length (itable s2)" using it it2 assms(2) by simp
  have i2: "ino ?s' ip = (?g (ino s1 ip))\<lparr>i_valid := True\<rparr>" using l it2 it assms(2) by (simp add: ino_def)
  have "ilock ip s = Inr ?s'"
    using assms(2-7) s1(1,2) s2(1) ip i2
    by (simp add: ilock_def lock_inode_def acquiresleep_def Let_def get_dinode_def ino_def)
  then show thesis
    using that s2(2,3) s1(4) i2 ip by (simp add: same_dinode_def get_dinode_def)
qed

text \<open>C18: what \<^verbatim>\<open>iupdate\<close> writes is what \<^verbatim>\<open>ilock\<close> reads. After \<^verbatim>\<open>iupdate\<close> of an inode with a type, \<^verbatim>\<open>ilock\<close> of any table
  entry \<open>x\<close> for the same inode that has been evicted in between gets back the same type, numbers, link count, size and
  block addresses; the other inodes of the block and all other blocks are as they were.\<close>

theorem iupdate_ilock_roundtrip:
  assumes "in_trans 1 s" "ip < length (itable s)" "i_dev (ino s ip) = ROOTDEV" "i_type (ino s ip) \<noteq> 0"
    and "length (i_addrs (ino s ip)) = Suc NDIRECT" "\<not> in_log (log s) (IBLOCK (i_inum (ino s ip)) (sb s))"
    and "i_dev x = ROOTDEV" "i_inum x = i_inum (ino s ip)" "1 \<le> i_ref x" "\<not> i_valid x" "\<not> sl_locked (i_lock x)"
  shows "\<exists>s1 s2. iupdate ip s = Inr s1 \<and> ilock ip (upd_inode ip (\<lambda>_. x) s1) = Inr s2 \<and>
    same_dinode (ino s2 ip) (ino s ip) \<and> i_valid (ino s2 ip) \<and>
    (\<forall>n. n \<noteq> IBLOCK (i_inum (ino s ip)) (sb s) \<longrightarrow> bview s2 n = bview s n) \<and>
    (\<forall>k j. dinode_off k \<noteq> dinode_off (i_inum (ino s ip)) \<longrightarrow>
      get_dinode (bview s2 (IBLOCK (i_inum (ino s ip)) (sb s))) (dinode_off k) j =
      get_dinode (bview s (IBLOCK (i_inum (ino s ip)) (sb s))) (dinode_off k) j)"
proof -
  let ?i = "ino s ip"
  let ?n = "IBLOCK (i_inum ?i) (sb s)" and ?off = "dinode_off (i_inum ?i)"
  have tr: "in_trans (Suc 0) s" using assms(1) by simp
  obtain s1 where s1: "iupdate ip s = Inr s1" "in_trans 0 s1" "lframe s s1"
      "bview s1 = (bview s)(?n := put_dinode ?i ?off (bview s ?n))"
    by (rule iupdate_writes [OF tr assms(3,6)])
  have k: "sb s1 = sb s" "itable s1 = itable s" using lframe_kfs [OF s1(3)] by simp_all
  let ?s = "upd_inode ip (\<lambda>_. x) s1"
  have x: "ino ?s ip = x" using assms(2) k by (simp add: ino_def)
  have get: "same_dinode (get_dinode (bview ?s ?n) ?off x) ?i"
    using get_put_dinode [OF assms(5)] s1(4) by simp
  then have "get16 (bview ?s ?n) ?off \<noteq> 0" using assms(4) by (simp add: same_dinode_def get_dinode_def)
  then obtain s2 where s2: "ilock ip ?s = Inr s2" "bview s2 = bview ?s" "i_valid (ino s2 ip)"
      "same_dinode (ino s2 ip) (get_dinode (bview ?s ?n) ?off x)"
    using ilock_loads [of ?s ip] s1(2) assms(2,7-11) x k by (auto simp: in_trans_def)
  have "dinode_off k + 64 \<le> ?off \<or> ?off + 64 \<le> dinode_off k" if "dinode_off k \<noteq> ?off" for k
    using that by (auto simp: dinode_off_def)
  then have "get_dinode (bview s2 ?n) (dinode_off k) j = get_dinode (bview s ?n) (dinode_off k) j"
    if "dinode_off k \<noteq> ?off" for k j
    using get_dinode_frame that s2(2) s1(4) by simp
  moreover have "same_dinode (ino s2 ip) ?i" using get s2(4) by (simp add: same_dinode_def)
  ultimately show ?thesis using s1 s2 by auto
qed

section \<open>The inode table\<close>

definition in_use :: "'z kfs_scheme \<Rightarrow> uint \<Rightarrow> uint \<Rightarrow> nat \<Rightarrow> bool" where
  "in_use s dev inum i \<longleftrightarrow> i < NINODE \<and> 0 < i_ref (ino s i) \<and> i_dev (ino s i) = dev \<and> i_inum (ino s i) = inum"

definition itable_ok :: "'z kfs_scheme \<Rightarrow> bool" where
  "itable_ok s \<longleftrightarrow> length (itable s) = NINODE \<and> (\<forall>i<NINODE. 0 \<le> i_ref (ino s i)) \<and>
     (\<forall>dev inum i j. in_use s dev inum i \<longrightarrow> in_use s dev inum j \<longrightarrow> i = j)"

lemma in_use_unique: "itable_ok s \<Longrightarrow> in_use s dev inum i \<Longrightarrow> in_use s dev inum j \<Longrightarrow> i = j"
  unfolding itable_ok_def by blast

lemma iget_hit:
  assumes "itable_ok s" "in_use s dev inum ip"
  shows "iget dev inum s = Inr (ip, upd_inode ip (\<lambda>i. i\<lparr>i_ref := i_ref i + 1\<rparr>) s)"
proof -
  have "find (\<lambda>i. i_ref (ino s i) > 0 \<and> i_dev (ino s i) = dev \<and> i_inum (ino s i) = inum) [0..<NINODE] = Some ip"
    unfolding find_upt_Some
  proof (intro conjI allI impI notI)
    fix j assume "j < ip" "0 < i_ref (ino s j) \<and> i_dev (ino s j) = dev \<and> i_inum (ino s j) = inum"
    then have "in_use s dev inum j" using assms(2) by (simp add: in_use_def)
    with assms in_use_unique \<open>j < ip\<close> show False by blast
  qed (use assms(2) in \<open>simp_all add: in_use_def\<close>)
  then show ?thesis by (simp add: iget_def)
qed

lemma iget_miss:
  assumes "\<not> (\<exists>i. in_use s dev inum i)"
  shows "iget dev inum s =
    (case find (\<lambda>i. i_ref (ino s i) = 0) [0..<NINODE] of
       None \<Rightarrow> Inl (Panic ''iget: no inodes'')
     | Some ip \<Rightarrow> Inr (ip, upd_inode ip (\<lambda>i. i\<lparr>i_dev := dev, i_inum := inum, i_ref := 1, i_valid := False\<rparr>) s))"
proof -
  have "find (\<lambda>i. i_ref (ino s i) > 0 \<and> i_dev (ino s i) = dev \<and> i_inum (ino s i) = inum) [0..<NINODE] = None"
    using assms by (auto simp: find_None_iff in_use_def simp del: upt_Suc)
  then show ?thesis by (simp add: iget_def)
qed

lemma ino_upd_eq: "ip < length (itable s) \<Longrightarrow> ino (upd_inode ip f s) j = (if j = ip then f (ino s ip) else ino s j)"
  by (simp add: ino_def)

lemma itable_ok_upd:
  assumes ok: "itable_ok s" and ip: "ip < NINODE" and f: "0 \<le> i_ref (f (ino s ip))"
    and new: "\<And>j. in_use s (i_dev (f (ino s ip))) (i_inum (f (ino s ip))) j \<Longrightarrow> j = ip"
  shows "itable_ok (upd_inode ip f s)"
proof -
  have l: "ip < length (itable s)" "length (itable s) = NINODE" using ok ip by (simp_all add: itable_ok_def)
  have u: "in_use (upd_inode ip f s) dev inum j \<longleftrightarrow>
      (if j = ip then 0 < i_ref (f (ino s ip)) \<and> i_dev (f (ino s ip)) = dev \<and> i_inum (f (ino s ip)) = inum
       else in_use s dev inum j)" for dev inum j
    using l(1) ip by (simp add: in_use_def ino_upd_eq)
  have "\<forall>i<NINODE. 0 \<le> i_ref (ino s i)" using ok by (simp add: itable_ok_def)
  moreover have "i = j" if "in_use (upd_inode ip f s) dev inum i" "in_use (upd_inode ip f s) dev inum j" for dev inum i j
    using that new in_use_unique [OF ok] unfolding u by (metis (full_types))
  ultimately show ?thesis using l f by (simp add: itable_ok_def ino_upd_eq)
qed

text \<open>C19: the table never holds an inode twice. \<^verbatim>\<open>iget\<close> returns the entry in use for the inode with one more
  reference, or else takes an entry with no references and marks it as not read yet; it panics only if every
  entry is referenced; all other entries stay as they are, and the table stays free of duplicates.\<close>

theorem iget_unique:
  assumes "itable_ok s"
  shows "case iget dev inum s of
      Inl e \<Rightarrow> e = Panic ''iget: no inodes'' \<and> (\<forall>i<NINODE. 0 < i_ref (ino s i)) \<and> \<not> (\<exists>i. in_use s dev inum i)
    | Inr (ip, s') \<Rightarrow> itable_ok s' \<and> in_use s' dev inum ip \<and> (\<forall>j<NINODE. j \<noteq> ip \<longrightarrow> ino s' j = ino s j) \<and>
        (if \<exists>i. in_use s dev inum i then in_use s dev inum ip \<and> ino s' ip = (ino s ip)\<lparr>i_ref := i_ref (ino s ip) + 1\<rparr>
         else i_ref (ino s ip) = 0 \<and> i_ref (ino s' ip) = 1 \<and> \<not> i_valid (ino s' ip))"
proof (cases "\<exists>i. in_use s dev inum i")
  case True
  then obtain ip where ip: "in_use s dev inum ip" by blast
  then have l: "ip < length (itable s)" using assms by (simp add: in_use_def itable_ok_def)
  let ?s = "upd_inode ip (\<lambda>i. i\<lparr>i_ref := i_ref i + 1\<rparr>) s"
  have u: "ip < NINODE" "0 < i_ref (ino s ip)" "i_dev (ino s ip) = dev" "i_inum (ino s ip) = inum"
    using ip by (simp_all add: in_use_def)
  have "itable_ok ?s"
    by (rule itable_ok_upd [OF assms u(1)]) (use u in_use_unique [OF assms _ ip] in simp_all)
  moreover have "in_use ?s dev inum ip" using u l by (simp add: in_use_def ino_upd_eq)
  ultimately show ?thesis using True ip l iget_hit [OF assms ip] by (simp add: ino_upd_eq)
next
  case False
  show ?thesis
  proof (cases "find (\<lambda>i. i_ref (ino s i) = 0) [0..<NINODE]")
    case None
    then have "0 < i_ref (ino s i)" if "i < NINODE" for i
      using assms that by (force simp: find_None_iff itable_ok_def simp del: upt_Suc)
    then show ?thesis using iget_miss [OF False] None False by simp
  next
    case (Some ip)
    then have ip: "ip < NINODE" "i_ref (ino s ip) = 0" by (simp_all add: find_upt_Some del: upt_Suc)
    then have l: "ip < length (itable s)" using assms by (simp add: itable_ok_def)
    let ?s = "upd_inode ip (\<lambda>i. i\<lparr>i_dev := dev, i_inum := inum, i_ref := 1, i_valid := False\<rparr>) s"
    have "itable_ok ?s" using False by (intro itable_ok_upd [OF assms ip(1)]) auto
    moreover have "in_use ?s dev inum ip" using ip l by (simp add: in_use_def ino_upd_eq)
    ultimately show ?thesis using False ip l Some iget_miss [OF False] by (simp add: ino_upd_eq)
  qed
qed

definition dir_inode :: inode where
  "dir_inode = blank_inode\<lparr>i_dev := ROOTDEV, i_inum := 3, i_ref := 1, i_valid := True, i_type := T_DIR, i_size := 512,
     i_addrs := 48 # replicate 12 0\<rparr>"

theorem iupdate_ilock_roundtrip_witness:
  "\<exists>s1 s2. iupdate 7 (upd_inode 7 (\<lambda>_. dir_inode) (mounted small_disk)) = Inr s1 \<and>
    ilock 7 (upd_inode 7 (\<lambda>_. blank_inode\<lparr>i_dev := ROOTDEV, i_inum := 3, i_ref := 1\<rparr>) s1) = Inr s2 \<and>
    i_addrs (ino s2 7) = 48 # replicate 12 0"
proof -
  let ?s = "upd_inode 7 (\<lambda>_. dir_inode) (mounted small_disk)"
  let ?x = "blank_inode\<lparr>i_dev := ROOTDEV, i_inum := 3, i_ref := 1\<rparr>"
  have ino: "ino ?s 7 = dir_inode" by (simp add: ino_def)
  have "sb_inodestart (parse_sb (small_disk 1)) = 32"
    by (simp add: small_disk_def small_sb_def parse_sb_def get_set_disj)
  then have "\<not> in_log (log ?s) (IBLOCK 3 (sb ?s))" by (simp add: IBLOCK_def boot_in_log)
  then show ?thesis
    using iupdate_ilock_roundtrip [of ?s 7 ?x] mounted_trans [of 1 small_disk] ino
    by (auto simp: dir_inode_def blank_inode_def initsleeplock_def same_dinode_def)
qed

theorem iget_unique_witness:
  "\<exists>ip s' s''. iget ROOTDEV 3 (mounted small_disk) = Inr (ip, s') \<and> iget ROOTDEV 3 s' = Inr (ip, s'') \<and> i_ref (ino s'' ip) = 2"
proof -
  let ?s = "mounted small_disk"
  have r: "ino ?s i = blank_inode" if "i < NINODE" for i using that by (simp add: ino_def)
  have ok: "itable_ok ?s" by (auto simp: itable_ok_def in_use_def r blank_inode_def)
  have no: "\<not> (\<exists>i. in_use ?s ROOTDEV 3 i)" by (auto simp: in_use_def r blank_inode_def)
  obtain ip s' where s': "iget ROOTDEV 3 ?s = Inr (ip, s')" "itable_ok s'" "in_use s' ROOTDEV 3 ip" "i_ref (ino s' ip) = 1"
  proof (cases "iget ROOTDEV 3 ?s")
    case (Inl e)
    then have "0 < i_ref (ino ?s 0)" using iget_unique [OF ok, of ROOTDEV 3] by simp
    then show thesis by (simp add: r blank_inode_def)
  next
    case (Inr q)
    then show thesis using that iget_unique [OF ok, of ROOTDEV 3] no by (auto split: prod.splits)
  qed
  then show ?thesis using iget_hit [OF s'(2,3)] s'(2) by (auto simp: ino_def in_use_def itable_ok_def)
qed

section \<open>Elements of a path\<close>

text \<open>The reference: cut the path at the slashes, drop empty pieces and keep the first \<^verbatim>\<open>DIRSIZ\<close> bytes of each.\<close>

fun split_at :: "uchar \<Rightarrow> uchar list \<Rightarrow> uchar list list" where
  "split_at x [] = [[]]"
| "split_at x (c # cs) =
     (if c = x then [] # split_at x cs else case split_at x cs of e # es \<Rightarrow> (c # e) # es | [] \<Rightarrow> [[c]])"

definition path_elems :: "uchar list \<Rightarrow> uchar list list" where
  "path_elems path = map (take DIRSIZ) (filter (\<lambda>e. e \<noteq> []) (split_at slash path))"

text \<open>The loop of \<^verbatim>\<open>namex\<close> over \<^verbatim>\<open>skipelem\<close>, collecting the string in the name buffer.\<close>

definition name_str :: "(nat \<Rightarrow> uchar) \<Rightarrow> uchar list" where
  "name_str name = takeWhile (\<lambda>c. c \<noteq> 0) (map name [0..<DIRSIZ])"

function skip_all :: "uchar list \<Rightarrow> (nat \<Rightarrow> uchar) \<Rightarrow> uchar list list" where
  "skip_all path name = (case skipelem path name of None \<Rightarrow> [] | Some (rest, name) \<Rightarrow> name_str name # skip_all rest name)"
  by pat_completeness auto
termination by (relation "measure (\<lambda>(path, name). length path)") (auto dest: skipelem_shorter)

declare skip_all.simps [simp del]

lemma split_at_not_Nil [simp]: "split_at x cs \<noteq> []"
  by (induction cs) (auto split: list.splits)

lemma split_at_span:
  "split_at x cs = takeWhile (\<lambda>c. c \<noteq> x) cs #
     (case dropWhile (\<lambda>c. c \<noteq> x) cs of [] \<Rightarrow> [] | _ # rest \<Rightarrow> split_at x rest)"
  by (induction cs) auto

lemma path_elems_slash: "path_elems (slash # cs) = path_elems cs"
  by (simp add: path_elems_def)

lemma path_elems_slashes: "path_elems (dropWhile (\<lambda>c. c = slash) cs) = path_elems cs"
  by (induction cs) (simp_all add: path_elems_def)

lemma path_elems_step:
  assumes "cs \<noteq> []" "hd cs \<noteq> slash"
  shows "path_elems cs = take DIRSIZ (takeWhile (\<lambda>c. c \<noteq> slash) cs) #
    path_elems (dropWhile (\<lambda>c. c = slash) (dropWhile (\<lambda>c. c \<noteq> slash) cs))"
proof -
  define r where "r = dropWhile (\<lambda>c. c \<noteq> slash) cs"
  have "takeWhile (\<lambda>c. c \<noteq> slash) cs \<noteq> []" using assms by (cases cs) auto
  moreover have "split_at slash cs = takeWhile (\<lambda>c. c \<noteq> slash) cs # (case r of [] \<Rightarrow> [] | _ # rest \<Rightarrow> split_at slash rest)"
    unfolding r_def by (rule split_at_span)
  ultimately have "path_elems cs = take DIRSIZ (takeWhile (\<lambda>c. c \<noteq> slash) cs) #
      (case r of [] \<Rightarrow> [] | _ # rest \<Rightarrow> path_elems rest)"
    by (cases r) (simp_all add: path_elems_def)
  moreover have "(case r of [] \<Rightarrow> [] | _ # rest \<Rightarrow> path_elems rest) = path_elems r"
  proof (cases r)
    case (Cons a list)
    then have "a = slash" using hd_dropWhile [of "\<lambda>c. c \<noteq> slash" cs] by (auto simp: r_def)
    then show ?thesis using Cons path_elems_slash by simp
  qed (simp add: path_elems_def)
  ultimately show ?thesis unfolding r_def [symmetric] path_elems_slashes by simp
qed

lemma name_str_elem:
  assumes "0 \<notin> set e"
  shows "name_str (if length e \<ge> DIRSIZ then store_bytes name 0 (take DIRSIZ e) else (store_bytes name 0 e)(length e := 0)) =
    take DIRSIZ e"
proof (cases "length e \<ge> DIRSIZ")
  case True
  then have "map (store_bytes name 0 (take DIRSIZ e)) [0..<DIRSIZ] = take DIRSIZ e"
    by (intro nth_equalityI) (auto simp: store_bytes_nat simp del: upt_Suc)
  moreover have "takeWhile (\<lambda>c. c \<noteq> 0) (take DIRSIZ e) = take DIRSIZ e"
    using assms by (auto simp: takeWhile_eq_all_conv dest: in_set_takeD)
  ultimately show ?thesis using True by (simp add: name_str_def)
next
  case False
  let ?n = "(store_bytes name 0 e)(length e := 0)"
  have "[0..<DIRSIZ] = [0..<length e] @ length e # [Suc (length e)..<DIRSIZ]"
    using False by (metis le_add_same_cancel1 le_add_diff_inverse less_imp_le_nat not_less upt_add_eq_append upt_conv_Cons zero_le)
  moreover have "map ?n [0..<length e] = e" by (intro nth_equalityI) (auto simp: store_bytes_nat)
  ultimately have "map ?n [0..<DIRSIZ] = e @ 0 # map ?n [Suc (length e)..<DIRSIZ]" by simp
  moreover have "takeWhile (\<lambda>c. c \<noteq> 0) (e @ 0 # zs) = e" for zs using assms by (induction e) auto
  ultimately show ?thesis using False by (simp add: name_str_def)
qed

text \<open>C20: iterating \<^verbatim>\<open>skipelem\<close> as \<^verbatim>\<open>namex\<close> does yields exactly the elements of the path: the non-empty pieces between
  slashes, cut to \<^verbatim>\<open>DIRSIZ\<close> bytes, whatever was in the name buffer before.\<close>

theorem skipelem_enumerates_path:
  assumes "0 \<notin> set path"
  shows "skip_all path name = path_elems path"
  using assms
proof (induction path name rule: skip_all.induct)
  case (1 path name)
  let ?p = "dropWhile (\<lambda>c. c = slash) path"
  let ?e = "takeWhile (\<lambda>c. c \<noteq> slash) ?p" and ?r = "dropWhile (\<lambda>c. c = slash) (dropWhile (\<lambda>c. c \<noteq> slash) ?p)"
  let ?n = "if length ?e \<ge> DIRSIZ then store_bytes name 0 (take DIRSIZ ?e) else (store_bytes name 0 ?e)(length ?e := 0)"
  show ?case
  proof (cases "?p = []")
    case True
    then have "skipelem path name = None" by (simp add: skipelem_def)
    moreover have "path_elems path = []" 
      unfolding path_elems_slashes [of path, symmetric] True by (simp add: path_elems_def)
    ultimately show ?thesis by (simp add: skip_all.simps)
  next
    case False
    then have s: "skipelem path name = Some (?r, ?n)" by (simp add: skipelem_def Let_def)
    have z: "0 \<notin> set ?e" "0 \<notin> set ?r" using 1(2) by (meson set_takeWhileD set_dropWhileD)+
    have "hd ?p \<noteq> slash" using False by (metis (full_types) hd_dropWhile)
    then have "path_elems path = take DIRSIZ ?e # path_elems ?r"
      using path_elems_step [OF False] path_elems_slashes [of path] by simp
    moreover have "skip_all path name = name_str ?n # skip_all ?r ?n"
      by (subst skip_all.simps) (simp only: s option.case prod.case)
    ultimately show ?thesis using name_str_elem [OF z(1)] 1(1) [OF s refl z(2)] by simp
  qed
qed

theorem skipelem_enumerates_path_witness:
  "skip_all [47, 97, 47, 47, 98, 99, 47] (\<lambda>_. 120) = [[97], [98, 99]]"
  using skipelem_enumerates_path [of "[47, 97, 47, 47, 98, 99, 47]" "\<lambda>_. 120"] by (simp add: path_elems_def)

end
