(* ===== verification/Files.thy ===== *)
theory Files
  imports Inodes
begin

text \<open>
  The contents of files: \<^verbatim>\<open>bmap\<close>, \<^verbatim>\<open>readi\<close> and \<^verbatim>\<open>writei\<close> of \<^verbatim>\<open>kernel/fs.c\<close> as operations on byte sequences. A file is a
  function from offsets to bytes, zero where no block is allocated. The blocks of the files of a set of inodes are
  all different, in use in the bitmap, and outside the log, the bitmap and the inode blocks; allocating a block for one of them
  changes the bytes of none.
\<close>

section \<open>The blocks of a file\<close>

text \<open>
  The block of each slot of an inode, as \<open>V\<close> shows the disk: the data blocks, and at \<^const>\<open>MAXFILE\<close> the indirect block.
\<close>

definition islot :: "(uint \<Rightarrow> block) \<Rightarrow> uint list \<Rightarrow> nat \<Rightarrow> uint" where
  "islot V as k =
     (if k < NDIRECT then as ! k else if k = MAXFILE then as ! NDIRECT
      else if as ! NDIRECT = 0 then 0 else get32 (V (as ! NDIRECT)) (4 * (k - NDIRECT)))"

definition ibyte :: "(uint \<Rightarrow> block) \<Rightarrow> uint list \<Rightarrow> nat \<Rightarrow> uchar" where
  "ibyte V as off =
     (let b = islot V as (off div BSIZE) in if off < MAXFILE * BSIZE \<and> b \<noteq> 0 then V b (off mod BSIZE) else 0)"

lemma off_slot: "off < MAXFILE * BSIZE \<Longrightarrow> off div BSIZE < MAXFILE"
  by (simp add: less_mult_imp_div_less)

text \<open>Only the blocks of the file matter.\<close>

lemma islot_cong:
  assumes "as ! NDIRECT \<noteq> 0 \<Longrightarrow> V' (as ! NDIRECT) = V (as ! NDIRECT)"
  shows "islot V' as = islot V as"
  using assms by (intro ext) (auto simp: islot_def)

lemma ibyte_cong:
  assumes "\<And>k. k \<le> MAXFILE \<Longrightarrow> islot V as k \<noteq> 0 \<Longrightarrow> V' (islot V as k) = V (islot V as k)"
  shows "islot V' as = islot V as" "ibyte V' as = ibyte V as"
proof -
  show s: "islot V' as = islot V as" using assms [of MAXFILE] by (intro islot_cong) (simp add: islot_def)
  show "ibyte V' as = ibyte V as"
  proof
    fix off
    show "ibyte V' as off = ibyte V as off"
      using assms [of "off div BSIZE"] off_slot [of off] by (auto simp: ibyte_def s Let_def simp del: BSIZE_def MAXFILE_def)
  qed
qed

text \<open>A new block that is all zero, at a direct slot or as the indirect block.\<close>

lemma get32_zero:
  assumes "\<forall>i<BSIZE. d i = 0" "4 * j + 4 \<le> BSIZE"
  shows "get32 d (4 * j) = 0"
proof -
  have "get32 d (4 * j) = get32 (\<lambda>_. 0 :: uchar) (4 * j)" using assms by (intro get_cong) auto
  also have "\<dots> = 0" by (simp add: get32_def load_bytes_def upt_rec)
  finally show ?thesis .
qed

lemma link_direct:
  assumes "length as = Suc NDIRECT" "k \<le> NDIRECT" "as ! k = 0" "c \<noteq> 0" "\<forall>i<BSIZE. V c i = 0"
  defines "k' \<equiv> (if k < NDIRECT then k else MAXFILE)"
  shows "j \<le> MAXFILE \<Longrightarrow> islot V (as[k := c]) j = (if j = k' then c else islot V as j)" "ibyte V (as[k := c]) = ibyte V as"
proof -
  show s: "islot V (as[k := c]) j = (if j = k' then c else islot V as j)" if "j \<le> MAXFILE" for j
  proof (cases "k < NDIRECT")
    case True
    then show ?thesis using assms(1) by (auto simp: islot_def k'_def)
  next
    case False
    then have k: "k = NDIRECT" "k' = MAXFILE" using assms(2) by (simp_all add: k'_def)
    have "get32 (V c) (4 * (j - NDIRECT)) = 0" if "j < MAXFILE" "NDIRECT \<le> j"
      using that by (intro get32_zero [OF assms(5)]) simp
    then show ?thesis using assms(1,3) k \<open>j \<le> MAXFILE\<close> by (auto simp: islot_def)
  qed
  show "ibyte V (as[k := c]) = ibyte V as"
  proof
    fix off
    have "islot V as k' = 0" using assms(2,3) by (auto simp: islot_def k'_def)
    then show "ibyte V (as[k := c]) off = ibyte V as off"
      using s [of "off div BSIZE"] off_slot [of off] assms(5) by (auto simp: ibyte_def Let_def simp del: MAXFILE_def)
  qed
qed

text \<open>A new block at an entry of the indirect block.\<close>

lemma link_indirect:
  assumes m: "m = as ! NDIRECT" "m \<noteq> 0" and j: "j < NINDIRECT" and c: "c \<noteq> 0" "c \<noteq> m" "\<forall>i<BSIZE. V c i = 0"
    and free: "islot V as (NDIRECT + j) = 0" and own: "\<And>k. k < MAXFILE \<Longrightarrow> islot V as k \<noteq> m"
  defines "V' \<equiv> V(m := set32 (V m) (4 * j) c)"
  shows "k \<le> MAXFILE \<Longrightarrow> islot V' as k = (if k = NDIRECT + j then c else islot V as k)" "ibyte V' as = ibyte V as"
proof -
  show s: "islot V' as k = (if k = NDIRECT + j then c else islot V as k)" if "k \<le> MAXFILE" for k
  proof -
    have "get32 (set32 (V m) (4 * j) c) (4 * l) = get32 (V m) (4 * l)" if "l \<noteq> j" for l
      using that by (intro get_set_disj) auto
    then show ?thesis using m j \<open>k \<le> MAXFILE\<close> by (auto simp: islot_def V'_def)
  qed
  show "ibyte V' as = ibyte V as"
  proof
    fix off
    show "ibyte V' as off = ibyte V as off"
      using s [of "off div BSIZE"] off_slot [of off] free c own [of "off div BSIZE"]
      by (auto simp: ibyte_def Let_def V'_def simp del: MAXFILE_def NDIRECT_def)
  qed
qed

declare MAXFILE_def [simp del] NDIRECT_def [simp del] NINDIRECT_def [simp del] BSIZE_def [simp del]

section \<open>The files of a set of inodes\<close>

definition fslot :: "'z kfs_scheme \<Rightarrow> nat \<Rightarrow> nat \<Rightarrow> uint" where
  "fslot s ip = islot (bview s) (i_addrs (ino s ip))"

definition fbyte :: "'z kfs_scheme \<Rightarrow> nat \<Rightarrow> nat \<Rightarrow> uchar" where
  "fbyte s ip = ibyte (bview s) (i_addrs (ino s ip))"

definition meta_block :: "superblock \<Rightarrow> uint \<Rightarrow> bool" where
  "meta_block x b \<longleftrightarrow> (\<exists>c<unat (sb_size x). b = BBLOCK c x) \<or> (\<exists>i. unat i < unat (sb_ninodes x) \<and> b = IBLOCK i x)"

definition data_block :: "'z kfs_scheme \<Rightarrow> uint \<Rightarrow> bool" where
  "data_block s b \<longleftrightarrow> unat b < unat (sb_size (sb s)) \<and> \<not> is_free s (unat b) \<and> \<not> in_log (log s) b \<and> \<not> meta_block (sb s) b"

text \<open>The inode blocks are apart from the log, the bitmap and the free blocks.\<close>

definition disk_ok :: "'z kfs_scheme \<Rightarrow> bool" where
  "disk_ok s \<longleftrightarrow> bitmap_ok s \<and>
     (\<forall>i. unat i < unat (sb_ninodes (sb s)) \<longrightarrow> \<not> in_log (log s) (IBLOCK i (sb s)) \<and>
       (\<forall>c<unat (sb_size (sb s)). IBLOCK i (sb s) \<noteq> BBLOCK c (sb s) \<and> (is_free s c \<longrightarrow> IBLOCK i (sb s) \<noteq> of_nat c)))"

definition files_ok :: "nat set \<Rightarrow> 'z kfs_scheme \<Rightarrow> bool" where
  "files_ok I s \<longleftrightarrow> disk_ok s \<and>
     (\<forall>ip\<in>I. ip < length (itable s) \<and> i_dev (ino s ip) = ROOTDEV \<and> unat (i_inum (ino s ip)) < unat (sb_ninodes (sb s)) \<and>
       length (i_addrs (ino s ip)) = Suc NDIRECT) \<and>
     (\<forall>ip\<in>I. \<forall>k\<le>MAXFILE. fslot s ip k \<noteq> 0 \<longrightarrow> data_block s (fslot s ip k)) \<and>
     (\<forall>ip\<in>I. \<forall>jp\<in>I. \<forall>k\<le>MAXFILE. \<forall>l\<le>MAXFILE. fslot s ip k \<noteq> 0 \<longrightarrow> fslot s ip k = fslot s jp l \<longrightarrow> ip = jp \<and> k = l)"

lemma files_okD:
  assumes "files_ok I s" "ip \<in> I"
  shows "ip < length (itable s)" "i_dev (ino s ip) = ROOTDEV" "unat (i_inum (ino s ip)) < unat (sb_ninodes (sb s))"
    "length (i_addrs (ino s ip)) = Suc NDIRECT" "disk_ok s" "bitmap_ok s"
    "k \<le> MAXFILE \<Longrightarrow> fslot s ip k \<noteq> 0 \<Longrightarrow> data_block s (fslot s ip k)"
    "jp \<in> I \<Longrightarrow> k \<le> MAXFILE \<Longrightarrow> l \<le> MAXFILE \<Longrightarrow> fslot s ip k \<noteq> 0 \<Longrightarrow> fslot s ip k = fslot s jp l \<Longrightarrow> ip = jp \<and> k = l"
  using assms by (auto simp: files_ok_def disk_ok_def)

lemma disk_ok_mono:
  assumes "disk_ok s" "sb s' = sb s" "in_log (log s') = in_log (log s)"
    "\<And>b. b < unat (sb_size (sb s)) \<Longrightarrow> is_free s' b \<Longrightarrow> is_free s b"
  shows "disk_ok s'"
  using assms unfolding disk_ok_def bitmap_ok_def by auto

lemma fslot_same:
  assumes "\<And>k. k \<le> MAXFILE \<Longrightarrow> fslot s ip k \<noteq> 0 \<Longrightarrow> bview s' (fslot s ip k) = bview s (fslot s ip k)" "i_addrs (ino s' ip) = i_addrs (ino s ip)"
  shows "fslot s' ip = fslot s ip" "fbyte s' ip = fbyte s ip"
  using ibyte_cong [of "bview s" "i_addrs (ino s ip)" "bview s'"] assms unfolding fslot_def fbyte_def by simp_all

text \<open>A step that changes no block of a file and frees no block.\<close>

lemma files_same:
  assumes ok: "files_ok I s" and fr: "sb s' = sb s" "in_log (log s') = in_log (log s)" "itable s' = itable s"
    and free: "\<And>b. b < unat (sb_size (sb s)) \<Longrightarrow> is_free s' b \<Longrightarrow> is_free s b"
    and blocks: "\<And>b. data_block s b \<Longrightarrow> bview s' b = bview s b"
  shows "files_ok I s'" "ip \<in> I \<Longrightarrow> fslot s' ip = fslot s ip" "ip \<in> I \<Longrightarrow> fbyte s' ip = fbyte s ip"
proof -
  have ino: "ino s' ip = ino s ip" for ip using fr(3) by (simp add: ino_def)
  have sl: "fslot s' ip = fslot s ip" "fbyte s' ip = fbyte s ip" if "ip \<in> I" for ip
    by (rule fslot_same; use files_okD(7) [OF ok that] blocks ino in simp)+
  then show "ip \<in> I \<Longrightarrow> fslot s' ip = fslot s ip" "ip \<in> I \<Longrightarrow> fbyte s' ip = fbyte s ip" by blast+
  have "data_block s' b" if "data_block s b" for b using that free fr unfolding data_block_def by auto
  then show "files_ok I s'" using ok sl disk_ok_mono [OF _ fr(1,2) free] fr unfolding files_ok_def ino by auto
qed

text \<open>A new block at the slot \<open>k0\<close> of the file \<open>ip\<close>.\<close>

lemma files_link:
  assumes ok: "files_ok I s" and ip: "ip \<in> I" and fr: "sb s' = sb s" "in_log (log s') = in_log (log s)"
      "\<And>b. b < unat (sb_size (sb s)) \<Longrightarrow> is_free s' b = is_free s b"
    and tab: "length (itable s') = length (itable s)" "\<And>jp. jp \<noteq> ip \<Longrightarrow> ino s' jp = ino s jp"
      "ino s' ip = (ino s ip)\<lparr>i_addrs := i_addrs (ino s' ip)\<rparr>" "length (i_addrs (ino s' ip)) = Suc NDIRECT"
    and c: "data_block s c" "\<And>jp k. jp \<in> I \<Longrightarrow> k \<le> MAXFILE \<Longrightarrow> fslot s jp k \<noteq> c"
    and slot: "\<And>k. k \<le> MAXFILE \<Longrightarrow> fslot s' ip k = (if k = k0 then c else fslot s ip k)"
      "\<And>jp. jp \<in> I \<Longrightarrow> jp \<noteq> ip \<Longrightarrow> fslot s' jp = fslot s jp"
  shows "files_ok I s'"
proof -
  have sl: "fslot s' jp k = (if jp = ip \<and> k = k0 then c else fslot s jp k)" if "jp \<in> I" "k \<le> MAXFILE" for jp k
    using slot that by (cases "jp = ip") auto
  have db: "data_block s' b = data_block s b" for b using fr by (auto simp: data_block_def)
  have ino: "i_dev (ino s' jp) = i_dev (ino s jp)" "i_inum (ino s' jp) = i_inum (ino s jp)" for jp
    using tab(2) [of jp] arg_cong [OF tab(3), of i_dev] arg_cong [OF tab(3), of i_inum] by (cases "jp = ip"; simp)+
  show ?thesis unfolding files_ok_def
  proof (intro conjI ballI allI impI)
    show "disk_ok s'" by (rule disk_ok_mono [OF files_okD(5) [OF ok ip] fr(1,2)]) (use fr(3) in simp)
  next
    fix jp assume "jp \<in> I"
    then show "length (i_addrs (ino s' jp)) = Suc NDIRECT" using files_okD(4) [OF ok] tab(2,4) by (cases "jp = ip") auto
  next
    fix jp k assume "jp \<in> I" "k \<le> MAXFILE" "fslot s' jp k \<noteq> 0"
    then show "data_block s' (fslot s' jp k)" using files_okD(7) [OF ok] sl c(1) db by (cases "jp = ip \<and> k = k0") auto
  next
    fix jp lp k l assume a: "jp \<in> I" "lp \<in> I" "k \<le> MAXFILE" "l \<le> MAXFILE" "fslot s' jp k \<noteq> 0" "fslot s' jp k = fslot s' lp l"
    have e: "(if jp = ip \<and> k = k0 then c else fslot s jp k) = (if lp = ip \<and> l = k0 then c else fslot s lp l)"
      "(if jp = ip \<and> k = k0 then c else fslot s jp k) \<noteq> 0" using a(5,6) unfolding sl [OF a(1,3)] sl [OF a(2,4)] by blast+
    have "jp = lp \<and> k = l"
    proof (cases "jp = ip \<and> k = k0")
      case True
      then show ?thesis using e(1) c(2) [OF a(2,4)] by (cases "lp = ip \<and> l = k0") simp_all
    next
      case False
      then have "fslot s jp k = (if lp = ip \<and> l = k0 then c else fslot s lp l)" "fslot s jp k \<noteq> 0" using e unfolding if_not_P [OF False] by blast+
      then show ?thesis using c(2) [OF a(1,3)] files_okD(8) [OF ok a(1,2,3,4)] by (cases "lp = ip \<and> l = k0") simp_all
    qed
    then show "jp = lp" "k = l" by simp_all
  qed (use files_okD(1-3) [OF ok] tab(1) fr ino in auto)
qed

section \<open>Allocation\<close>

lemma free_blocks_le: "c < unat (sb_size (sb s)) \<Longrightarrow> unat (of_nat c :: uint) = c"
  using unat_uint_less [of "sb_size (sb s)"] by (simp add: unat_of_nat_small)

lemma balloc_files [consumes 4, case_names found full]:
  assumes tr: "in_trans_with h (Suc (Suc k)) s" and ok: "files_ok I s" "disk_ok s" and clear: "held_clear h s"
  obtains (found) c s' where "balloc ROOTDEV s = Inr (c, s')" "c \<noteq> 0" "in_trans_with h k s'" "lframe s s'" "files_ok I s'"
      "\<And>ip. ip \<in> I \<Longrightarrow> fslot s' ip = fslot s ip" "\<And>ip. ip \<in> I \<Longrightarrow> fbyte s' ip = fbyte s ip"
      "data_block s' c" "\<forall>i<BSIZE. bview s' c i = 0" "\<And>ip k. ip \<in> I \<Longrightarrow> k \<le> MAXFILE \<Longrightarrow> fslot s ip k \<noteq> c"
      "unat c \<in> free_blocks s" "free_blocks s' = free_blocks s - {unat c}" "\<And>b. data_block s b \<Longrightarrow> bview s' b = bview s b"
    | (full) s' where "balloc ROOTDEV s = Inr (0, s')" "free_blocks s = {}" "in_trans_with h k s'" "bframe s s'" "bview s' = bview s"
proof -
  have bm: "bitmap_ok s" using ok(2) by (simp add: disk_ok_def)
  let ?n = "unat (sb_size (sb s))"
  consider (a) c s' where "c < ?n" "is_free s c" "balloc ROOTDEV s = Inr (of_nat c, s')"
      "in_trans_with h k s'" "lframe s s'" "bview s' = mark_used c s"
    | (b) s' where "\<forall>k<?n. \<not> is_free s k" "balloc ROOTDEV s = Inr (0, s')" "in_trans_with h k s'" "bframe s s'" "bview s' = bview s"
    using balloc_from_spec [OF tr bm, of 0 ?n] clear unfolding balloc_def by auto
  then show thesis
  proof cases
    case a
    note fr = lframe_kfs [OF a(5)] lframe_log [OF a(5)]
    have c: "unat (of_nat c :: uint) = c" using free_blocks_le [OF a(1)] .
    have c0: "(of_nat c :: uint) \<noteq> 0" "\<not> in_log (log s) (of_nat c)" "\<forall>x<?n. of_nat c \<noteq> BBLOCK x (sb s)"
      using bm a(1,2) c by (auto simp: bitmap_ok_def dest: arg_cong [of _ _ unat])
    have isf: "is_free s' x \<longleftrightarrow> is_free s x \<and> x \<noteq> c" if "x < ?n" for x
      using is_free_mark_used [OF bm a(1,2) _ a(6) that] fr by simp
    have nd: "\<not> data_block s (of_nat c)" using a(2) c by (simp add: data_block_def)
    have same: "bview s' b = bview s b" if "data_block s b" for b
      using that nd a(1,6) by (auto simp: mark_used_def data_block_def meta_block_def)
    note keep = files_same [OF ok(1), of s'] 
    have k: "files_ok I s'" "\<And>ip. ip \<in> I \<Longrightarrow> fslot s' ip = fslot s ip" "\<And>ip. ip \<in> I \<Longrightarrow> fbyte s' ip = fbyte s ip"
      using keep fr isf same by blast+
    have mb: "\<not> meta_block (sb s) (of_nat c)"
      using c0(3) ok(2) a(1,2) unfolding meta_block_def disk_ok_def by metis
    have db: "data_block s' (of_nat c)" using a(1) c c0 isf mb fr by (simp add: data_block_def)
    have z: "\<forall>i<BSIZE. bview s' (of_nat c) i = 0" using a(6) by (simp add: mark_used_def memset_def memset_from_apply BSIZE_def)
    have ns: "fslot s ip j \<noteq> of_nat c" if "ip \<in> I" "j \<le> MAXFILE" for ip j
      using files_okD(7) [OF ok(1) that] nd c0(1) by metis
    have "free_blocks s' = free_blocks s - {unat (of_nat c :: uint)}" "unat (of_nat c :: uint) \<in> free_blocks s"
      using isf a(1,2) fr c by (auto simp: free_blocks_def)
    then show thesis using found [OF a(3) c0(1) a(4,5) k db z ns _ _ same] by blast
  next
    case b
    then show thesis using full [of s'] by (auto simp: free_blocks_def)
  qed
qed

text \<open>
  What happens while blocks are allocated for the file \<open>ip\<close>: up to \<open>n\<close> blocks leave the bitmap, the slots that are in use stay
  as they are, the table entry changes only in its addresses, and the bytes of no file change.
\<close>

definition grows :: "nat \<Rightarrow> nat set \<Rightarrow> nat \<Rightarrow> 'z kfs_scheme \<Rightarrow> 'z kfs_scheme \<Rightarrow> bool" where
  "grows n I ip s s' \<longleftrightarrow> files_ok I s' \<and> sb s' = sb s \<and> in_log (log s') = in_log (log s) \<and> mem s' = mem s \<and> myproc s' = myproc s \<and>
     length (itable s') = length (itable s) \<and> (\<forall>jp. jp \<noteq> ip \<longrightarrow> ino s' jp = ino s jp) \<and>
     ino s' ip = (ino s ip)\<lparr>i_addrs := i_addrs (ino s' ip)\<rparr> \<and> (\<forall>jp\<in>I. fbyte s' jp = fbyte s jp) \<and>
     (\<forall>jp\<in>I. \<forall>k\<le>MAXFILE. fslot s jp k \<noteq> 0 \<longrightarrow> fslot s' jp k = fslot s jp k) \<and>
     free_blocks s' \<subseteq> free_blocks s \<and> card (free_blocks s) \<le> card (free_blocks s') + n"

lemma growsD:
  assumes "grows n I ip s s'"
  shows "files_ok I s'" "sb s' = sb s" "in_log (log s') = in_log (log s)" "mem s' = mem s" "myproc s' = myproc s" "length (itable s') = length (itable s)"
    "jp \<noteq> ip \<Longrightarrow> ino s' jp = ino s jp" "ino s' ip = (ino s ip)\<lparr>i_addrs := i_addrs (ino s' ip)\<rparr>" "jp \<in> I \<Longrightarrow> fbyte s' jp = fbyte s jp"
    "jp \<in> I \<Longrightarrow> k \<le> MAXFILE \<Longrightarrow> fslot s jp k \<noteq> 0 \<Longrightarrow> fslot s' jp k = fslot s jp k"
    "free_blocks s' \<subseteq> free_blocks s" "card (free_blocks s) \<le> card (free_blocks s') + n"
  using assms by (simp_all add: grows_def)

lemma grows_trans:
  assumes "grows m I ip s s'" "grows n I ip s' s''"
  shows "grows (m + n) I ip s s''"
proof -
  have "ino s'' ip = (ino s ip)\<lparr>i_addrs := i_addrs (ino s'' ip)\<rparr>"
    using growsD(8) [OF assms(1)] growsD(8) [OF assms(2)] by (metis inode.update_convs(11) inode.surjective)
  moreover have "fslot s'' jp k = fslot s jp k" if "jp \<in> I" "k \<le> MAXFILE" "fslot s jp k \<noteq> 0" for jp k
    using growsD(10) [OF assms(1) that] growsD(10) [OF assms(2) that(1,2)] that(3) by simp
  ultimately show ?thesis using assms unfolding grows_def by (auto simp del: inode.update_convs)
qed

lemma grows_mono: "grows m I ip s s' \<Longrightarrow> m \<le> n \<Longrightarrow> grows n I ip s s'"
  by (auto simp: grows_def)

lemma grows_frame:
  assumes "files_ok I s" "lframe s s'" "cur_ok s" "bview s' = bview s"
  shows "grows 0 I ip s s'"
proof -
  note f = lframe_kfs [OF assms(2)] lframe_log [OF assms(2)] lframe_cur [OF assms(2,3)]
  have i: "is_free s' = is_free s" using is_free_cong [OF assms(4)] f by blast
  have ino: "ino s' jp = ino s jp" for jp using f by (simp add: ino_def)
  have sl: "fslot s' jp = fslot s jp" "fbyte s' jp = fbyte s jp" for jp by (simp_all add: fslot_def fbyte_def ino assms(4))
  have "files_ok I s'" by (rule files_same(1) [OF assms(1)]) (use f i assms(4) in auto)
  moreover have "mem s' = mem s" using assms(2) by (simp add: lframe_def)
  ultimately show ?thesis using f i sl ino by (simp add: grows_def free_blocks_def)
qed

section \<open>bmap\<close>

lemma free_blocks_cong: "bview s' = bview s \<Longrightarrow> sb s' = sb s \<Longrightarrow> free_blocks s' = free_blocks s"
  using is_free_cong [of s' s] by (simp add: free_blocks_def)

lemma grows_link_direct:
  assumes ok: "files_ok I s" and ip: "ip \<in> I" and x: "x \<le> NDIRECT" "i_addrs (ino s ip) ! x = 0"
    and c: "c \<noteq> 0" "data_block s c" "\<forall>i<BSIZE. bview s c i = 0" "\<And>jp k. jp \<in> I \<Longrightarrow> k \<le> MAXFILE \<Longrightarrow> fslot s jp k \<noteq> c"
  defines "s' \<equiv> upd_inode ip (\<lambda>i. i\<lparr>i_addrs := (i_addrs i)[x := c]\<rparr>) s"
  shows "grows 0 I ip s s'"
proof -
  note d = files_okD [OF ok ip]
  have ino: "ino s' jp = (if jp = ip then (ino s ip)\<lparr>i_addrs := (i_addrs (ino s ip))[x := c]\<rparr> else ino s jp)" for jp
    using d(1) by (simp add: s'_def ino_def nth_list_update)
  have v: "bview s' = bview s" "sb s' = sb s" "log s' = log s" "mem s' = mem s" "myproc s' = myproc s" "length (itable s') = length (itable s)"
    by (simp_all add: s'_def) (simp add: upd_inode_def)
  let ?k = "if x < NDIRECT then x else MAXFILE"
  note l = link_direct [where V = "bview s" and c = c, OF d(4) x c(1,3)]
  have sl: "fslot s' ip k = (if k = ?k then c else fslot s ip k)" if "k \<le> MAXFILE" for k
    using l(1) [OF that] by (simp add: fslot_def ino v)
  have other: "fslot s' jp = fslot s jp" "fbyte s' jp = fbyte s jp" if "jp \<noteq> ip" for jp
    using that by (simp_all add: fslot_def fbyte_def ino v)
  have fb: "fbyte s' jp = fbyte s jp" for jp using l(2) other(2) [of jp] by (cases "jp = ip") (simp_all add: fbyte_def ino v)
  have i: "is_free s' = is_free s" using is_free_cong [OF v(1,2)] .
  have "fslot s ip ?k = 0" using x by (auto simp: fslot_def islot_def MAXFILE_def)
  then have keep: "fslot s' jp k = fslot s jp k" if "k \<le> MAXFILE" "fslot s jp k \<noteq> 0" for jp k
    using sl [OF that(1)] other(1) [of jp] that(2) by (cases "jp = ip") auto
  have "files_ok I s'"
    by (rule files_link [OF ok ip v(2) _ _ v(6) _ _ _ c(2,4) sl other(1)]) (use v d(4) i in \<open>simp_all add: ino\<close>)
  then show ?thesis using v fb keep ino free_blocks_cong [OF v(1,2)] by (simp add: grows_def)
qed

lemma bmap_direct_ok:
  assumes tr: "in_trans (Suc (Suc k)) s" and ok: "files_ok I s" and ip: "ip \<in> I" and x: "x \<le> NDIRECT"
  obtains a s' where "bmap_direct ip x s = Inr (a, s')" "in_trans k s'" "grows 1 I ip s s'" "a = i_addrs (ino s' ip) ! x" "a = 0 \<longrightarrow> free_blocks s' = {}"
proof -
  note d = files_okD [OF ok ip]
  have cur: "cur_ok s" using tr by (simp add: in_trans_def log_mem_ok_def)
  show thesis
  proof (cases "i_addrs (ino s ip) ! x = 0")
    case False
    then show thesis using that [of "i_addrs (ino s ip) ! x" s] in_trans_with_mono [of None "Suc (Suc k)" s k] tr
        grows_mono [OF grows_frame [OF ok lframe_refl cur refl], of 1] by (simp add: bmap_direct_def Let_def)
  next
    case True
    have tr': "in_trans_with None (Suc (Suc k)) s" "held_clear None s" using tr by (simp_all add: held_clear_def)
    from tr'(1) ok d(5) tr'(2) show thesis
    proof (cases rule: balloc_files)
      case (found c s1)
      have it: "itable s1 = itable s" "sb s1 = sb s" using lframe_kfs [OF found(4)] by simp_all
      then have ino: "ino s1 jp = ino s jp" for jp by (simp add: ino_def)
      let ?s = "upd_inode ip (\<lambda>i. i\<lparr>i_addrs := (i_addrs i)[x := c]\<rparr>) s1"
      have g0: "grows 0 I ip s1 ?s"
        by (rule grows_link_direct [OF found(5) ip x _ found(2,8,9)]) (use True ino found(6,10) in simp_all)
      have m: "mem s1 = mem s" "myproc s1 = myproc s" "in_log (log s1) = in_log (log s)"
        using found(4) lframe_cur [OF found(4) cur] lframe_log [OF found(4)] by (simp_all add: lframe_def)
      have "card (free_blocks s) \<le> card (free_blocks s1) + 1" using found(11,12) by (simp add: card_Diff_singleton)
      then have "grows 1 I ip s s1" using found(5-7,12) it m ino by (auto simp: grows_def)
      then have g: "grows 1 I ip s ?s" using grows_trans [OF _ g0] by simp
      have a: "i_addrs (ino ?s ip) ! x = c" using d(1,4) x it ino by (simp add: ino_def)
      have "bmap_direct ip x s = Inr (c, ?s)" using found(1,2) True d(2) by (simp add: bmap_direct_def Let_def)
      then show thesis using that [of c ?s] g a found(2,3) by simp
    next
      case (full s1)
      have ino: "ino s1 ip = ino s ip" using bframe_kfs [OF full(4)] by (simp add: ino_def)
      have "free_blocks s1 = {}" using full(2) free_blocks_cong [OF full(5)] bframe_kfs [OF full(4)] by simp
      moreover have "bmap_direct ip x s = Inr (0, s1)" using full(1) True d(2) by (simp add: bmap_direct_def Let_def)
      ultimately show thesis using that [of 0 s1] full(3) grows_mono [OF grows_frame [OF ok lframe_bframe [OF full(4)] cur full(5)], of 1] True ino by simp
    qed
  qed
qed

lemma grows_link_indirect:
  assumes ok: "files_ok I s" and ip: "ip \<in> I" and m: "m = i_addrs (ino s ip) ! NDIRECT" "m \<noteq> 0" and j: "j < NINDIRECT"
    and free: "fslot s ip (NDIRECT + j) = 0" and cur: "cur_ok s"
    and c: "c \<noteq> 0" "data_block s c" "\<forall>i<BSIZE. bview s c i = 0" "\<And>jp k. jp \<in> I \<Longrightarrow> k \<le> MAXFILE \<Longrightarrow> fslot s jp k \<noteq> c"
    and s': "lframe s s'" "bview s' = (bview s)(m := set32 (bview s m) (4 * j) c)"
  shows "grows 0 I ip s s'" "fslot s' ip (NDIRECT + j) = c"
proof -
  note d = files_okD [OF ok ip] and f = lframe_kfs [OF s'(1)] lframe_log [OF s'(1)] lframe_cur [OF s'(1) cur]
  have ino: "ino s' jp = ino s jp" for jp using f by (simp add: ino_def)
  have ms: "fslot s ip MAXFILE = m" by (simp add: fslot_def islot_def m(1) MAXFILE_def)
  have mm: "data_block s m" "m \<noteq> c" using d(7) [of MAXFILE] c(4) [OF ip, of MAXFILE] ms m(2) by auto
  have uniq: "fslot s jp k \<noteq> m" if "jp \<in> I" "k \<le> MAXFILE" "jp \<noteq> ip \<or> k \<noteq> MAXFILE" for jp k
    using files_okD(8) [OF ok ip that(1) le_refl that(2)] ms m(2) that(3) by auto
  note l = link_indirect [where V = "bview s" and c = c and as = "i_addrs (ino s ip)", OF m j c(1) mm(2) [symmetric] c(3)]
  have own: "islot (bview s) (i_addrs (ino s ip)) k \<noteq> m" if "k < MAXFILE" for k using uniq [OF ip, of k] that by (simp add: fslot_def)
  have sl: "fslot s' ip k = (if k = NDIRECT + j then c else fslot s ip k)" if "k \<le> MAXFILE" for k
    using l(1) [OF free [unfolded fslot_def] own that] by (simp add: fslot_def ino s'(2))
  have other: "fslot s' jp = fslot s jp" "fbyte s' jp = fbyte s jp" if "jp \<in> I" "jp \<noteq> ip" for jp
    by (rule fslot_same; use uniq [OF that(1)] that(2) in \<open>simp add: ino s'(2)\<close>)+
  have "fbyte s' ip = fbyte s ip" using l(2) [OF free [unfolded fslot_def] own] by (simp add: fbyte_def ino s'(2))
  then have fb: "fbyte s' jp = fbyte s jp" if "jp \<in> I" for jp using that other(2) by (cases "jp = ip") simp_all
  have keep: "fslot s' jp k = fslot s jp k" if "jp \<in> I" "k \<le> MAXFILE" "fslot s jp k \<noteq> 0" for jp k
    using sl [OF that(2)] other(1) [OF that(1)] that(3) free by (cases "jp = ip") auto
  have "m \<noteq> BBLOCK x (sb s)" if "x < unat (sb_size (sb s))" for x using mm(1) that by (auto simp: data_block_def meta_block_def)
  then have i: "is_free s' x = is_free s x" if "x < unat (sb_size (sb s))" for x using that s'(2) f by (auto simp: is_free_def)
  have "files_ok I s'"
    by (rule files_link [OF ok ip _ _ i _ _ _ _ c(2,4) sl other(1)]) (use f d(4) in \<open>simp_all add: ino\<close>)
  moreover have "free_blocks s' = free_blocks s" using i f by (auto simp: free_blocks_def)
  moreover have "mem s' = mem s" using s'(1) by (simp add: lframe_def)
  ultimately show "grows 0 I ip s s'" using f fb keep by (simp add: grows_def ino)
  show "fslot s' ip (NDIRECT + j) = c" using sl [of "NDIRECT + j"] j by (simp add: MAXFILE_def)
qed

lemma fslot_bframe: "bframe s s' \<Longrightarrow> bview s' = bview s \<Longrightarrow> fslot s' = fslot s \<and> ino s' = ino s"
  using bframe_kfs [of s s'] by (intro conjI ext) (simp_all add: fslot_def ino_def)

lemma grows_bframe:
  "files_ok I s \<Longrightarrow> log_mem_ok H s \<Longrightarrow> bframe s s' \<Longrightarrow> bview s' = bview s \<Longrightarrow> grows 0 I ip s s'"
  using grows_frame [of I s s' ip] lframe_bframe by (auto simp: log_mem_ok_def)

text \<open>The entry of the indirect block, once there is one.\<close>

lemma bmap_entry_ok:
  assumes tr: "in_trans (Suc (Suc (Suc k))) s" and ok: "files_ok I s" and ip: "ip \<in> I" and j: "j < NINDIRECT"
    and m: "m = i_addrs (ino s ip) ! NDIRECT" "m \<noteq> 0"
  obtains a s' where "bmap_entry ROOTDEV m j s = Inr (a, s')"
    "in_trans k s'" "grows 1 I ip s s'" "a = fslot s' ip (NDIRECT + j)" "a = 0 \<longrightarrow> free_blocks s' = {}"
proof -
  note d = files_okD [OF ok ip]
  have lm: "log_mem_ok {} s" using tr by (simp add: in_trans_def)
  obtain bp s1 where s1: "bread ROOTDEV m s = Inr (bp, s1)" "b_data (bufs s1 ! bp) = bview s m" "log_mem_ok {bp} s1" "bview s1 = bview s"
      "bframe s s1" "holds s1 bp m (bview s m)" "log_blocks s1 = log_blocks s"
    by (rule fs_bread [OF lm])
  let ?h = "Some (bp, m, bview s m)" and ?a = "get32 (bview s m) (4 * j)"
  have a: "fslot s ip (NDIRECT + j) = ?a" using j m by (simp add: fslot_def islot_def MAXFILE_def)
  have ms: "fslot s ip MAXFILE = m" by (simp add: fslot_def islot_def m(1) MAXFILE_def)
  then have mm: "data_block s m" using d(7) [of MAXFILE] m(2) by simp
  have tr1: "in_trans_with ?h (Suc (Suc (Suc k))) s1" using tr s1(3,6) bframe_log [OF s1(5)] by (simp add: in_trans_with_def in_trans_def)
  have clean: "m \<in> set (log_blocks s1) \<or> bview s m = disk s1 m"
    using bview_clean0 [of "set (log_blocks s)" s m] lm s1(5,7) by (auto simp: log_mem_ok_def bframe_def)
  have g1: "grows 0 I ip s s1" by (rule grows_bframe [OF ok lm s1(5,4)])
  note f1 = fslot_bframe [OF s1(5,4)] bframe_kfs [OF s1(5)]
  show thesis
  proof (cases "?a = 0")
    case False
    have tr0: "in_trans_with ?h k s1" using in_trans_with_mono [OF tr1] by simp
    obtain s2 where s2: "brelse bp s1 = Inr s2" "in_trans k s2" "bview s2 = bview s1" "bframe s1 s2"
      by (rule with_release_held [OF tr0 clean])
    have "grows 0 I ip s1 s2" by (rule grows_bframe [OF growsD(1) [OF g1] s1(3) s2(4,3)])
    then have "grows 1 I ip s s2" using grows_trans [OF g1] grows_mono by fastforce
    moreover have "fslot s2 ip (NDIRECT + j) = ?a" using a f1 fslot_bframe [OF s2(4,3)] by simp
    moreover have "bmap_entry ROOTDEV m j s = Inr (?a, s2)" using False s2(1) s1(1,2) by (simp add: bmap_entry_def)
    ultimately show thesis using that s2(2) False by metis
  next
    case True
    have "held_clear ?h s1" using mm f1 is_free_cong [OF s1(4)]
      by (auto simp: held_clear_def data_block_def meta_block_def free_blocks_le)
    with tr1 growsD(1) [OF g1] files_okD(5) [OF growsD(1) [OF g1] ip] show thesis
    proof (cases rule: balloc_files)
      case (found c s2)
      have cur: "cur_ok s1" "cur_ok s2" using s1(3) found(3) by (simp_all add: log_mem_ok_def in_trans_with_def)
      note f2 = lframe_kfs [OF found(4)] lframe_log [OF found(4)]
      have m2: "data_block s1 m" using mm f1 is_free_cong [OF s1(4)] bframe_log [OF s1(5)] by (simp add: data_block_def)
      then have v2: "bview s2 m = bview s m" using found(13) s1(4) by simp
      have nl: "\<not> in_log (log s2) m" using m2 f2 by (simp add: data_block_def)
      obtain s3 s4 where s4: "log_write bp (bmod bp (\<lambda>d. set32 d (4 * j) c) s2) = Inr s3" "brelse bp s3 = Inr s4" "in_trans k s4"
          "bview s4 = (bview s2)(m := set32 (bview s m) (4 * j) c)" "lframe s2 s4"
        by (rule with_write_held [OF found(3) nl])
      have ino: "ino s2 ip = ino s ip" using f2 f1 by (simp add: ino_def)
      have g4: "grows 0 I ip s2 s4" "fslot s4 ip (NDIRECT + j) = c"
        using grows_link_indirect [OF found(5) ip _ m(2) j _ cur(2) found(2,8,9) _ s4(5)] s4(4) v2 m(1) ino found(6,10) f1 a True ip by auto
      have "card (free_blocks s1) \<le> card (free_blocks s2) + 1" using found(11,12) by (simp add: card_Diff_singleton)
      moreover have "mem s2 = mem s1" "myproc s2 = myproc s1" using found(4) lframe_cur [OF found(4) cur(1)] by (simp_all add: lframe_def)
      ultimately have "grows 1 I ip s1 s2" using found(5-7,12) f2 by (auto simp: grows_def ino_def)
      then have "grows 1 I ip s s4" using grows_trans [OF grows_trans [OF g1] g4(1)] by simp
      moreover have "bmap_entry ROOTDEV m j s = Inr (c, s4)" using True found(1,2) s4(1,2) s1(1,2) by (simp add: bmap_entry_def)
      ultimately show thesis using that s4(3) g4(2) found(2) by metis
    next
      case (full s2)
      have l2: "log_blocks s2 = log_blocks s1" "disk s2 = disk s1" using full(4) bframe_log [OF full(4)] by (simp_all add: log_blocks_def bframe_def)
      have tr2: "in_trans_with ?h k s2" using in_trans_with_mono [OF full(3)] by simp
      obtain s3 where s3: "brelse bp s2 = Inr s3" "in_trans k s3" "bview s3 = bview s2" "bframe s2 s3"
        by (rule with_release_held [OF tr2]) (use clean l2 in simp)
      have fr: "bframe s1 s3" "bview s3 = bview s1" using bframe_trans [OF full(4) s3(4)] full(5) s3(3) by simp_all
      have "grows 0 I ip s1 s3" by (rule grows_bframe [OF growsD(1) [OF g1] s1(3) fr])
      then have "grows 1 I ip s s3" using grows_trans [OF g1] grows_mono by fastforce
      moreover have "fslot s3 ip (NDIRECT + j) = 0" using a f1 fslot_bframe [OF fr] True by simp
      moreover have "free_blocks s3 = {}" using full(2) free_blocks_cong [OF fr(2)] bframe_kfs [OF fr(1)] by simp
      moreover have "bmap_entry ROOTDEV m j s = Inr (0, s3)" using True full(1) s3(1) s1(1,2) by (simp add: bmap_entry_def)
      ultimately show thesis using that s3(2) by metis
    qed
  qed
qed

text \<open>
  \<^verbatim>\<open>bmap\<close> in a transaction with room for five blocks. It returns the block of the slot, allocating it and the
  indirect block when they are missing, and 0 only when the disk is full. It keeps every file well-formed, changes the bytes of none and
  the blocks already assigned of none.
\<close>

lemma bmap_ok:
  assumes tr: "in_trans (k + 5) s" and ok: "files_ok I s" and ip: "ip \<in> I" and bn: "bn < MAXFILE"
  obtains a s' where "bmap ip bn s = Inr (a, s')" "in_trans k s'" "grows 2 I ip s s'" "a = fslot s' ip bn" "a = 0 \<longrightarrow> free_blocks s' = {}"
proof (cases "bn < NDIRECT")
  case True
  have t2: "in_trans (Suc (Suc k)) s" using tr in_trans_with_mono [of None "k + 5" s "Suc (Suc k)"] by simp
  obtain a s' where r: "bmap_direct ip bn s = Inr (a, s')" "in_trans k s'" "grows 1 I ip s s'" "a = i_addrs (ino s' ip) ! bn" "a = 0 \<longrightarrow> free_blocks s' = {}"
    by (rule bmap_direct_ok [OF t2 ok ip, of bn]) (use True in simp)
  have "fslot s' ip bn = a" using r(4) True by (simp add: fslot_def islot_def)
  then show thesis using that [of a s'] r True grows_mono [OF r(3), of 2] by (simp add: bmap_def)
next
  case False
  then have j: "bn - NDIRECT < NINDIRECT" "NDIRECT + (bn - NDIRECT) = bn" using bn by (simp_all add: MAXFILE_def)
  have t5: "in_trans (Suc (Suc (Suc (Suc (Suc k))))) s" using tr by (simp add: eval_nat_numeral)
  obtain a s1 where r: "bmap_direct ip NDIRECT s = Inr (a, s1)" "in_trans (Suc (Suc (Suc k))) s1" "grows 1 I ip s s1" "a = i_addrs (ino s1 ip) ! NDIRECT"
      "a = 0 \<longrightarrow> free_blocks s1 = {}"
    by (rule bmap_direct_ok [OF t5 ok ip le_refl])
  have dev: "i_dev (ino s1 ip) = ROOTDEV" using files_okD(2) [OF growsD(1) [OF r(3)] ip] .
  show thesis
  proof (cases "a = 0")
    case True
    have "in_trans k s1" using r(2) in_trans_with_mono [of None "Suc (Suc (Suc k))" s1 k] by simp
    moreover have "fslot s1 ip bn = 0" using r(4) True False bn by (simp add: fslot_def islot_def)
    moreover have "bmap ip bn s = Inr (0, s1)" using False j r(1) True by (simp add: bmap_def)
    ultimately show thesis using that r(5) True grows_mono [OF r(3), of 2] by simp
  next
    case a: False
    obtain b s2 where r2: "bmap_entry ROOTDEV a (bn - NDIRECT) s1 = Inr (b, s2)" "in_trans k s2" "grows 1 I ip s1 s2"
        "b = fslot s2 ip (NDIRECT + (bn - NDIRECT))" "b = 0 \<longrightarrow> free_blocks s2 = {}"
      by (rule bmap_entry_ok [OF r(2) growsD(1) [OF r(3)] ip j(1) r(4) a])
    have "bmap ip bn s = Inr (b, s2)" using False j r(1) r2(1) a dev by (simp add: bmap_def)
    moreover have "grows 2 I ip s s2" using grows_trans [OF r(3) r2(3)] by (simp only: one_add_one)
    ultimately show thesis using that r2 j(2) by simp
  qed
qed

section \<open>readi\<close>

lemma bmap_present:
  assumes ok: "log_mem_ok {} s" and dev: "i_dev (ino s ip) = ROOTDEV" and bn: "bn < MAXFILE" "fslot s ip bn \<noteq> 0"
  obtains s' where "bmap ip bn s = Inr (fslot s ip bn, s')" "log_mem_ok {} s'" "bview s' = bview s" "bframe s s'"
proof (cases "bn < NDIRECT")
  case True
  then have "bmap ip bn s = Inr (fslot s ip bn, s)" using bn(2) by (simp add: bmap_def bmap_direct_def fslot_def islot_def Let_def)
  then show thesis using that ok by simp
next
  case False
  let ?m = "i_addrs (ino s ip) ! NDIRECT" and ?j = "bn - NDIRECT"
  have m: "?m \<noteq> 0" "fslot s ip bn = get32 (bview s ?m) (4 * ?j)" using bn False by (auto simp: fslot_def islot_def split: if_splits)
  obtain i s1 s2 where r: "bread ROOTDEV ?m s = Inr (i, s1)" "b_data (bufs s1 ! i) = bview s ?m" "bframe s s1"
      "brelse i s1 = Inr s2" "log_mem_ok {} s2" "bview s2 = bview s" "bframe s s2"
    by (rule fs_read [OF ok])
  have "bmap_entry ROOTDEV ?m ?j s = Inr (fslot s ip bn, s2)" using r(1,2,4) m bn(2) by (simp add: bmap_entry_def)
  moreover have "?j < NINDIRECT" using bn False by (simp add: MAXFILE_def)
  ultimately have "bmap ip bn s = Inr (fslot s ip bn, s2)" using False m(1) dev by (simp add: bmap_def bmap_direct_def Let_def)
  then show thesis using that r by blast
qed

lemma chunk_div:
  assumes "i < block_chunk off rest"
  shows "(off + i) div BSIZE = off div BSIZE" "(off + i) mod BSIZE = off mod BSIZE + i"
proof -
  have "off mod BSIZE + i < BSIZE" using assms unfolding block_chunk_def min_less_iff_conj by linarith
  moreover have "off + i = (off mod BSIZE + i) + off div BSIZE * BSIZE" using div_mult_mod_eq [of off BSIZE] by linarith
  moreover have "BSIZE \<noteq> 0" by (simp add: BSIZE_def)
  ultimately show "(off + i) div BSIZE = off div BSIZE" "(off + i) mod BSIZE = off mod BSIZE + i"
    using div_mult_self1 [of BSIZE "off mod BSIZE + i" "off div BSIZE"] mod_mult_self1 [of "off mod BSIZE + i" "off div BSIZE" BSIZE] by simp_all
qed

lemma chunk_bytes:
  assumes "off + rest \<le> MAXFILE * BSIZE" "fslot s ip (off div BSIZE) \<noteq> 0"
  shows "load_bytes (bview s (fslot s ip (off div BSIZE))) (off mod BSIZE) (block_chunk off rest) = map (fbyte s ip) [off..<off + block_chunk off rest]"
proof (rule nth_equalityI)
  fix i assume "i < length (load_bytes (bview s (fslot s ip (off div BSIZE))) (off mod BSIZE) (block_chunk off rest))"
  then have i: "i < block_chunk off rest" by simp
  then have "off + i < MAXFILE * BSIZE" using block_chunk_le [of off rest] assms(1) by linarith
  then show "load_bytes (bview s (fslot s ip (off div BSIZE))) (off mod BSIZE) (block_chunk off rest) ! i = map (fbyte s ip) [off..<off + block_chunk off rest] ! i"
    using i chunk_div [OF i] assms(2) by (simp add: fbyte_def ibyte_def fslot_def)
qed simp

lemma readi_from_ok:
  assumes "log_mem_ok {} s" "i_dev (ino s ip) = ROOTDEV" "off + rest \<le> MAXFILE * BSIZE"
    and "\<And>x. off \<le> x \<Longrightarrow> x < off + rest \<Longrightarrow> fslot s ip (x div BSIZE) \<noteq> 0"
  shows "\<exists>s'. readi_from ip False dst off tot rest s = Inr (int (tot + rest), map (fbyte s ip) [off..<off + rest], s') \<and>
    log_mem_ok {} s' \<and> bview s' = bview s \<and> bframe s s'"
  using assms
proof (induction rest arbitrary: dst off tot s rule: less_induct)
  case (less rest)
  show ?case
  proof (cases "rest = 0")
    case True
    then show ?thesis using less.prems(1) by (simp add: readi_from.simps)
  next
    case False
    let ?bn = "off div BSIZE" and ?m = "block_chunk off rest"
    have m: "0 < ?m" "?m \<le> rest" using False block_chunk_le by simp_all
    have bn: "?bn < MAXFILE" "fslot s ip ?bn \<noteq> 0" using less.prems(3) less.prems(4) [of off] False off_slot [of off] by simp_all
    obtain s1 where s1: "bmap ip ?bn s = Inr (fslot s ip ?bn, s1)" "log_mem_ok {} s1" "bview s1 = bview s" "bframe s s1"
      by (rule bmap_present [OF less.prems(1,2) bn])
    obtain i s2 s3 where s3: "bread ROOTDEV (fslot s ip ?bn) s1 = Inr (i, s2)" "b_data (bufs s2 ! i) = bview s1 (fslot s ip ?bn)" "bframe s1 s2"
        "brelse i s2 = Inr s3" "log_mem_ok {} s3" "bview s3 = bview s1" "bframe s1 s3"
      by (rule fs_read [OF s1(2)])
    have fr: "bframe s s3" "bview s3 = bview s" using bframe_trans [OF s1(4) s3(7)] s1(3) s3(6) by simp_all
    have fs: "fslot s3 = fslot s" "ino s3 = ino s" "fbyte s3 ip = fbyte s ip" "ino s1 = ino s"
      using fslot_bframe [OF fr] fslot_bframe [OF s1(4,3)] fr(2) by (simp_all add: fbyte_def)
    have dev: "i_dev (ino s1 ip) = ROOTDEV" "i_dev (ino s3 ip) = ROOTDEV" using less.prems(2) fs by simp_all
    have bs: "load_bytes (b_data (bufs s2 ! i)) (off mod BSIZE) ?m = map (fbyte s ip) [off..<off + ?m]"
      using chunk_bytes [OF less.prems(3) bn(2)] s3(2) s1(3) by simp
    have hyps: "off + ?m + (rest - ?m) \<le> MAXFILE * BSIZE" "\<And>x. off + ?m \<le> x \<Longrightarrow> x < off + ?m + (rest - ?m) \<Longrightarrow> fslot s3 ip (x div BSIZE) \<noteq> 0"
      using m less.prems(3,4) fs by simp_all
    obtain s4 where s4: "readi_from ip False (dst + of_nat ?m) (off + ?m) (tot + ?m) (rest - ?m) s3 =
        Inr (int (tot + ?m + (rest - ?m)), map (fbyte s3 ip) [off + ?m..<off + ?m + (rest - ?m)], s4)" "log_mem_ok {} s4" "bview s4 = bview s3" "bframe s3 s4"
      using less.IH [of "rest - ?m" s3 "off + ?m" "dst + of_nat ?m" "tot + ?m"] m s3(5) dev(2) hyps by auto
    have "map (fbyte s ip) [off..<off + ?m] @ map (fbyte s ip) [off + ?m..<off + rest] = map (fbyte s ip) [off..<off + rest]"
      using upt_add_eq_append [of off "off + ?m" "rest - ?m"] m by simp
    then have "readi_from ip False dst off tot rest s = Inr (int (tot + rest), map (fbyte s ip) [off..<off + rest], s4)"
      using False s1(1) s3(1,4) s4(1) bn(2) dev bs fs m by (simp add: readi_from.simps [of ip False dst off] either_copyout_def Let_def)
    then show ?thesis using s4 fr bframe_trans [OF fr(1) s4(4)] by simp
  qed
qed

section \<open>writei\<close>

text \<open>The number of blocks that a range of bytes touches, and so the number of turns of the loops.\<close>

definition nchunks :: "nat \<Rightarrow> nat \<Rightarrow> nat" where
  "nchunks off rest = (if rest = 0 then 0 else (off + rest - 1) div BSIZE - off div BSIZE + 1)"

lemma nchunks_step:
  assumes "0 < rest"
  shows "nchunks off rest = Suc (nchunks (off + block_chunk off rest) (rest - block_chunk off rest))"
proof (cases "rest \<le> BSIZE - off mod BSIZE")
  case True
  then have "block_chunk off rest = rest" by (simp add: block_chunk_def)
  then show ?thesis using assms chunk_div(1) [of "rest - 1" off rest] by (simp add: nchunks_def)
next
  case False
  let ?m = "BSIZE - off mod BSIZE"
  have m: "block_chunk off rest = ?m" "?m < rest" using False by (simp_all add: block_chunk_def)
  have B: "0 < BSIZE" by (simp add: BSIZE_def)
  have "off + ?m = off div BSIZE * BSIZE + BSIZE" using div_mult_mod_eq [of off BSIZE] mod_less_divisor [OF B, of off] by linarith
  then have e: "off + ?m = (off div BSIZE + 1) * BSIZE" by (simp only: add_mult_distrib mult_1)
  have d: "(off + ?m) div BSIZE = off div BSIZE + 1" unfolding e using B by simp
  have "(off + ?m) div BSIZE \<le> (off + rest - 1) div BSIZE" using m(2) by (intro div_le_mono) simp
  moreover have "off + ?m + (rest - ?m) - 1 = off + rest - 1" "rest - ?m \<noteq> 0" using m(2) by simp_all
  ultimately show ?thesis using assms d by (simp add: nchunks_def m(1))
qed

text \<open>The source shows \<open>data\<close>, for as long as the memory and the process stay what they are.\<close>

definition reads_source :: "bool \<Rightarrow> uint64 \<Rightarrow> uchar list \<Rightarrow> uchar list \<Rightarrow> 'z kproc_scheme \<Rightarrow> bool" where
  "reads_source user_src src kbuf data s \<longleftrightarrow>
     (\<forall>(t :: 'z kproc_scheme) i m. mem t = mem s \<longrightarrow> myproc t = myproc s \<longrightarrow> i + m \<le> length data \<longrightarrow>
       either_copyin user_src (src + of_nat i) (drop i kbuf) m t = Inr (0, take m (drop i data)))"

lemma reads_source_kernel: "reads_source False src kbuf (take n kbuf) s"
  by (simp add: reads_source_def either_copyin_def drop_take min_def)

lemma reads_source_step:
  fixes s s' :: "'z kproc_scheme"
  assumes "reads_source u src kbuf data s" "m \<le> length data" "mem s' = mem s" "myproc s' = myproc s"
  shows "reads_source u (src + of_nat m) (drop m kbuf) (drop m data) s'"
  unfolding reads_source_def
proof (intro allI impI)
  fix t :: "'z kproc_scheme" and i n assume a: "mem t = mem s'" "myproc t = myproc s'" "i + n \<le> length (drop m data)"
  have "either_copyin u (src + of_nat (m + i)) (drop (m + i) kbuf) n t = Inr (0, take n (drop (m + i) data))"
    by (rule assms(1) [unfolded reads_source_def, rule_format]) (use a assms(2-4) in simp_all)
  then show "either_copyin u (src + of_nat m + of_nat i) (drop i (drop m kbuf)) n t = Inr (0, take n (drop i (drop m data)))"
    by (simp add: ac_simps)
qed

definition extends :: "nat \<Rightarrow> nat set \<Rightarrow> nat \<Rightarrow> 'z kfs_scheme \<Rightarrow> 'z kfs_scheme \<Rightarrow> bool" where
  "extends n I ip s s' \<longleftrightarrow> files_ok I s' \<and> sb s' = sb s \<and> in_log (log s') = in_log (log s) \<and> mem s' = mem s \<and> myproc s' = myproc s \<and>
     length (itable s') = length (itable s) \<and> (\<forall>jp. jp \<noteq> ip \<longrightarrow> ino s' jp = ino s jp) \<and>
     ino s' ip = (ino s ip)\<lparr>i_addrs := i_addrs (ino s' ip)\<rparr> \<and> (\<forall>jp\<in>I. jp \<noteq> ip \<longrightarrow> fbyte s' jp = fbyte s jp) \<and>
     (\<forall>jp\<in>I. \<forall>k\<le>MAXFILE. fslot s jp k \<noteq> 0 \<longrightarrow> fslot s' jp k = fslot s jp k) \<and>
     free_blocks s' \<subseteq> free_blocks s \<and> card (free_blocks s) \<le> card (free_blocks s') + n"

lemma grows_extends: "grows n I ip s s' \<Longrightarrow> extends n I ip s s'"
  by (simp add: grows_def extends_def)

lemma extendsD:
  assumes "extends n I ip s s'"
  shows "files_ok I s'" "sb s' = sb s" "in_log (log s') = in_log (log s)" "mem s' = mem s" "myproc s' = myproc s" "length (itable s') = length (itable s)"
    "jp \<noteq> ip \<Longrightarrow> ino s' jp = ino s jp" "ino s' ip = (ino s ip)\<lparr>i_addrs := i_addrs (ino s' ip)\<rparr>" "jp \<in> I \<Longrightarrow> jp \<noteq> ip \<Longrightarrow> fbyte s' jp = fbyte s jp"
    "jp \<in> I \<Longrightarrow> k \<le> MAXFILE \<Longrightarrow> fslot s jp k \<noteq> 0 \<Longrightarrow> fslot s' jp k = fslot s jp k"
    "free_blocks s' \<subseteq> free_blocks s" "card (free_blocks s) \<le> card (free_blocks s') + n"
  using assms by (simp_all add: extends_def)

lemma extends_trans:
  assumes "extends m I ip s s'" "extends n I ip s' s''"
  shows "extends (m + n) I ip s s''"
proof -
  have "ino s'' ip = (ino s ip)\<lparr>i_addrs := i_addrs (ino s'' ip)\<rparr>"
    using extendsD(8) [OF assms(1)] extendsD(8) [OF assms(2)] by (metis inode.update_convs(11) inode.surjective)
  moreover have "fslot s'' jp k = fslot s jp k" if "jp \<in> I" "k \<le> MAXFILE" "fslot s jp k \<noteq> 0" for jp k
    using extendsD(10) [OF assms(1) that] extendsD(10) [OF assms(2) that(1,2)] that(3) by simp
  ultimately show ?thesis using assms unfolding extends_def by (auto simp del: inode.update_convs)
qed

lemma write_block:
  assumes ok: "files_ok I s" and ip: "ip \<in> I" and bn: "bn < MAXFILE" "fslot s ip bn \<noteq> 0" and cur: "cur_ok s" and bs: "q + length bs \<le> BSIZE"
    and s': "lframe s s'" "bview s' = (bview s)(fslot s ip bn := store_bytes (bview s (fslot s ip bn)) q bs)"
  shows "extends 0 I ip s s'" "fbyte s' ip = store_bytes (fbyte s ip) (bn * BSIZE + q) bs"
proof -
  let ?a = "fslot s ip bn"
  note f = lframe_kfs [OF s'(1)] lframe_log [OF s'(1)] lframe_cur [OF s'(1) cur]
  have ino: "ino s' jp = ino s jp" for jp using f by (simp add: ino_def)
  have uniq: "fslot s jp k = ?a \<longleftrightarrow> jp = ip \<and> k = bn" if "jp \<in> I" "k \<le> MAXFILE" for jp k
    using files_okD(8) [OF ok ip that(1) less_imp_le [OF bn(1)] that(2) bn(2)] by metis
  have sl: "fslot s' jp = fslot s jp" if "jp \<in> I" for jp
    unfolding fslot_def ino by (rule islot_cong) (use uniq [OF that, of MAXFILE] bn(1) in \<open>simp add: s'(2) fslot_def islot_def MAXFILE_def\<close>)
  have other: "fbyte s' jp = fbyte s jp" if "jp \<in> I" "jp \<noteq> ip" for jp
    by (rule fslot_same(2)) (use uniq [OF that(1)] that(2) in \<open>simp_all add: ino s'(2)\<close>)
  have db: "data_block s ?a" using files_okD(7) [OF ok ip] bn by simp
  then have na: "?a \<noteq> BBLOCK x (sb s)" if "x < unat (sb_size (sb s))" for x using that by (auto simp: data_block_def meta_block_def)
  have i: "is_free s' x = is_free s x" if "x < unat (sb_size (sb s))" for x using na [OF that, symmetric] s'(2) f by (simp add: is_free_def)
  then have db': "data_block s' b = data_block s b" for b using f by (auto simp: data_block_def)
  have "disk_ok s'" by (rule disk_ok_mono [OF files_okD(5) [OF ok ip]]) (use f i in simp_all)
  then have "files_ok I s'" using ok sl f by (simp add: files_ok_def ino db')
  moreover have "free_blocks s' = free_blocks s" using i f by (auto simp: free_blocks_def)
  moreover have "mem s' = mem s" using s'(1) by (simp add: lframe_def)
  ultimately show "extends 0 I ip s s'" using f other sl by (simp add: extends_def ino)
  show "fbyte s' ip = store_bytes (fbyte s ip) (bn * BSIZE + q) bs"
  proof
    fix x
    let ?k = "x div BSIZE"
    have B: "0 < BSIZE" by (simp add: BSIZE_def)
    have x: "x = ?k * BSIZE + x mod BSIZE" "x mod BSIZE < BSIZE" using B by simp_all
    have byte: "fbyte s ip x = (if x < MAXFILE * BSIZE \<and> fslot s ip ?k \<noteq> 0 then bview s (fslot s ip ?k) (x mod BSIZE) else 0)"
        "fbyte s' ip x = (if x < MAXFILE * BSIZE \<and> fslot s ip ?k \<noteq> 0 then bview s' (fslot s ip ?k) (x mod BSIZE) else 0)"
      using sl [OF ip] by (simp_all add: fbyte_def ibyte_def fslot_def Let_def)
    show "fbyte s' ip x = store_bytes (fbyte s ip) (bn * BSIZE + q) bs x"
    proof (cases "?k = bn")
      case True
      then have "x < MAXFILE * BSIZE" using bn(1) div_less_iff_less_mult [OF B, of x MAXFILE] by simp
      moreover have "x = bn * BSIZE + x mod BSIZE" using x(1) unfolding True .
      then have "bn * BSIZE + q \<le> x \<longleftrightarrow> q \<le> x mod BSIZE" "x - (bn * BSIZE + q) = x mod BSIZE - q"
          "x < bn * BSIZE + q + length bs \<longleftrightarrow> x mod BSIZE < q + length bs" by linarith+
      ultimately show ?thesis using byte bn(2) unfolding True store_bytes_nat by (simp add: s'(2) store_bytes_nat)
    next
      case False
      have "\<not> (bn * BSIZE + q \<le> x \<and> x < bn * BSIZE + q + length bs)"
      proof
        assume "bn * BSIZE + q \<le> x \<and> x < bn * BSIZE + q + length bs"
        then have "bn * BSIZE \<le> x" "x < (bn + 1) * BSIZE" using bs by auto
        then have "?k = bn" using B by (intro div_nat_eqI) (simp_all add: mult.commute)
        with False show False by simp
      qed
      moreover have "fslot s ip ?k \<noteq> ?a" if "x < MAXFILE * BSIZE" using uniq [OF ip, of ?k] off_slot [OF that] False by simp
      ultimately show ?thesis using byte by (auto simp: s'(2) store_bytes_nat)
    qed
  qed
qed

lemma store_bytes_append: "store_bytes (store_bytes f (a :: nat) xs) (a + length xs) ys = store_bytes f a (xs @ ys)"
  by (rule ext) (auto simp: store_bytes_nat nth_append)

lemma chunk_end: "block_chunk off rest < rest \<Longrightarrow> BSIZE dvd off + block_chunk off rest"
proof -
  assume "block_chunk off rest < rest"
  then have m: "block_chunk off rest = BSIZE - off mod BSIZE" by (auto simp: block_chunk_def)
  have "off mod BSIZE < BSIZE" by (simp add: BSIZE_def)
  then have "off + (BSIZE - off mod BSIZE) = off div BSIZE * BSIZE + BSIZE" using div_mult_mod_eq [of off BSIZE] by linarith
  then show ?thesis unfolding m by simp
qed

text \<open>One turn of the loop: the disk is full, or a chunk is written.\<close>

lemma writei_turn [consumes 7, case_names full written]:
  assumes tr: "in_trans (Suc k + 5) s" and ok: "files_ok I s" and ip: "ip \<in> I" and lim: "off + rest \<le> MAXFILE * BSIZE" "0 < rest"
    and data: "reads_source u src kbuf data s" "length data = rest"
  obtains (full) s' where "writei_from ip u src kbuf off tot rest s = Inr (tot, off, s')" "in_trans k s'" "grows 2 I ip s s'" "free_blocks s' = {}"
        "fslot s' ip (off div BSIZE) = 0"
    | (written) s' where "writei_from ip u src kbuf off tot rest s =
          writei_from ip u (src + of_nat (block_chunk off rest)) (drop (block_chunk off rest) kbuf) (off + block_chunk off rest)
            (tot + block_chunk off rest) (rest - block_chunk off rest) s'" "in_trans k s'" "extends 2 I ip s s'"
        "fbyte s' ip = store_bytes (fbyte s ip) off (take (block_chunk off rest) data)" "fslot s' ip (off div BSIZE) \<noteq> 0"
proof -
  let ?bn = "off div BSIZE" and ?m = "block_chunk off rest"
  let ?bs = "take ?m data"
  have m: "?m \<le> length data" using block_chunk_le [of off rest] data(2) by simp
  have bn: "?bn < MAXFILE" using lim off_slot [of off] by simp
  obtain a s1 where s1: "bmap ip ?bn s = Inr (a, s1)" "in_trans (Suc k) s1" "grows 2 I ip s s1" "a = fslot s1 ip ?bn" "a = 0 \<longrightarrow> free_blocks s1 = {}"
    by (rule bmap_ok [OF tr ok ip bn])
  note g1 = growsD [OF s1(3)]
  show thesis
  proof (cases "a = 0")
    case True
    have "in_trans k s1" using s1(2) in_trans_with_mono [of None "Suc k" s1 k] by simp
    then show thesis using full [of s1] s1 True lim(2) by (simp add: writei_from.simps [of ip u src kbuf off])
  next
    case a: False
    have nl: "\<not> in_log (log s1) a" using files_okD(7) [OF g1(1) ip] bn s1(4) a by (simp add: data_block_def)
    obtain i s2 s3 s4 where s4: "bread ROOTDEV a s1 = Inr (i, s2)" "b_data (bufs s2 ! i) = bview s1 a" "bframe s1 s2"
        "log_write i (bmod i (\<lambda>d. store_bytes d (off mod BSIZE) ?bs) s2) = Inr s3" "brelse i s3 = Inr s4" "in_trans k s4"
        "bview s4 = (bview s1)(a := store_bytes (bview s1 a) (off mod BSIZE) ?bs)" "lframe s1 s4"
      by (rule fs_modify [OF s1(2) nl])
    have cur1: "cur_ok s1" using s1(2) by (simp add: in_trans_def log_mem_ok_def)
    have fit: "off mod BSIZE + length ?bs \<le> BSIZE" using m mod_less_divisor [of BSIZE off] by (simp add: block_chunk_def BSIZE_def)
    have w: "extends 0 I ip s1 s4" "fbyte s4 ip = store_bytes (fbyte s1 ip) (?bn * BSIZE + off mod BSIZE) ?bs"
      using write_block [OF g1(1) ip bn _ cur1 fit s4(8)] s4(7) s1(4) a by simp_all
    have mp: "mem s2 = mem s" "myproc s2 = myproc s"
      using s4(3) g1(4,5) kframe_cur [OF bframe_kframe [OF s4(3)]] cur1 by (simp_all add: bframe_def kframe_def)
    have copy: "either_copyin u src kbuf ?m s2 = Inr (0, ?bs)"
      using data(1) [unfolded reads_source_def, rule_format, of s2 0 ?m] mp m by simp
    have dev: "i_dev (ino s1 ip) = ROOTDEV" using files_okD(2) [OF g1(1) ip] .
    have "extends 2 I ip s s4" using extends_trans [OF grows_extends [OF s1(3)] w(1)] by simp
    moreover have "fbyte s4 ip = store_bytes (fbyte s ip) off ?bs" using w(2) g1(9) [OF ip] by simp
    moreover have "fslot s4 ip ?bn \<noteq> 0" using extendsD(10) [OF w(1) ip, of ?bn] s1(4) a bn by simp
    ultimately show thesis
      using written [of s4] lim(2) s1(1) a dev s4(1,4,5,6) copy by (simp add: writei_from.simps [of ip u src kbuf off] Let_def)
  qed
qed

lemma writei_from_ok:
  assumes "in_trans (6 * nchunks off rest + k) s" "files_ok I s" "ip \<in> I" "off + rest \<le> MAXFILE * BSIZE"
    and "reads_source u src kbuf data s" "length data = rest"
  shows "\<exists>w s'. w \<le> rest \<and> writei_from ip u src kbuf off tot rest s = Inr (tot + w, off + w, s') \<and> in_trans k s' \<and>
    extends (2 * nchunks off rest) I ip s s' \<and> fbyte s' ip = store_bytes (fbyte s ip) off (take w data) \<and>
    (w < rest \<longrightarrow> free_blocks s' = {} \<and> (w = 0 \<or> BSIZE dvd off + w) \<and> fslot s' ip ((off + w) div BSIZE) = 0) \<and> (\<forall>x. off \<le> x \<longrightarrow> x < off + w \<longrightarrow> fslot s' ip (x div BSIZE) \<noteq> 0)"
  using assms
proof (induction rest arbitrary: src kbuf off tot data s rule: less_induct)
  case (less rest)
  have cur: "cur_ok s" using less.prems(1) by (simp add: in_trans_def log_mem_ok_def)
  show ?case
  proof (cases "rest = 0")
    case True
    then show ?thesis using less.prems grows_extends [OF grows_frame [OF less.prems(2) lframe_refl cur refl]]
      by (intro exI [of _ 0] exI [of _ s]) (simp add: writei_from.simps nchunks_def)
  next
    case False
    let ?m = "block_chunk off rest" and ?bn = "off div BSIZE"
    let ?off = "off + ?m" and ?rest = "rest - ?m"
    have m: "0 < ?m" "?m \<le> rest" "?m \<le> length data" using False block_chunk_le [of off rest] less.prems(6) by simp_all
    have n: "nchunks off rest = Suc (nchunks ?off ?rest)" using nchunks_step False by simp
    let ?k = "6 * nchunks ?off ?rest + k"
    have tr: "in_trans (Suc ?k + 5) s" using less.prems(1) by (simp add: n add.assoc)
    have pos: "0 < rest" using False by simp
    from tr less.prems(2-4) pos less.prems(5,6) show ?thesis
    proof (cases rule: writei_turn [where tot = tot])
      case (full s1)
      have "in_trans k s1" using full(2) in_trans_with_mono [of None ?k s1 k] by simp
      moreover have "extends (2 * nchunks off rest) I ip s s1" using grows_extends [OF grows_mono [OF full(3)]] by (simp add: n)
      ultimately show ?thesis using full growsD(9) [OF full(3) less.prems(3)] by (intro exI [of _ 0] exI [of _ s1]) simp
    next
      case (written s4)
      note e4 = extendsD [OF written(3)]
      have src: "reads_source u (src + of_nat ?m) (drop ?m kbuf) (drop ?m data) s4"
        by (rule reads_source_step [OF less.prems(5) m(3) e4(4,5)])
      obtain w' s' where r: "w' \<le> ?rest" "writei_from ip u (src + of_nat ?m) (drop ?m kbuf) ?off (tot + ?m) ?rest s4 = Inr (tot + ?m + w', ?off + w', s')"
          "in_trans k s'" "extends (2 * nchunks ?off ?rest) I ip s4 s'" "fbyte s' ip = store_bytes (fbyte s4 ip) ?off (take w' (drop ?m data))"
          "w' < ?rest \<longrightarrow> free_blocks s' = {} \<and> (w' = 0 \<or> BSIZE dvd ?off + w') \<and> fslot s' ip ((?off + w') div BSIZE) = 0" "\<forall>x. ?off \<le> x \<longrightarrow> x < ?off + w' \<longrightarrow> fslot s' ip (x div BSIZE) \<noteq> 0"
        using less.IH [of ?rest ?off s4 "src + of_nat ?m" "drop ?m kbuf" "drop ?m data" "tot + ?m"] m written(2) e4(1) less.prems(3,4,6) src by auto
      have ext: "extends (2 * nchunks off rest) I ip s s'" using extends_trans [OF written(3) r(4)] by (simp add: n)
      have "fbyte s' ip = store_bytes (store_bytes (fbyte s ip) off (take ?m data)) (off + length (take ?m data)) (take w' (drop ?m data))"
        using r(5) written(4) m(3) by simp
      then have bt: "fbyte s' ip = store_bytes (fbyte s ip) off (take (?m + w') data)" by (simp only: store_bytes_append take_add)
      have slot: "fslot s' ip (x div BSIZE) \<noteq> 0" if "off \<le> x" "x < off + (?m + w')" for x
      proof (cases "x < ?off")
        case True
        then have "x div BSIZE = ?bn" using chunk_div(1) [of "x - off" off rest] that(1) by simp
        moreover have "?bn \<le> MAXFILE" using less.prems(4) False off_slot [of off] by simp
        ultimately show ?thesis using extendsD(10) [OF r(4) less.prems(3) _ written(5)] written(5) by simp
      next
        case False
        then show ?thesis using r(7) that(2) by simp
      qed
      have full: "free_blocks s' = {} \<and> BSIZE dvd off + (?m + w') \<and> fslot s' ip ((off + (?m + w')) div BSIZE) = 0" if "?m + w' < rest"
        using r(6) that chunk_end [of off rest] by (auto simp: add.assoc)
      show ?thesis using written(1) r(1,2,3) full ext bt slot m by (intro exI [of _ "?m + w'"] exI [of _ s']) (auto simp: add.assoc)
    qed
  qed
qed

section \<open>Files as lists of bytes\<close>

definition file_of :: "'z kfs_scheme \<Rightarrow> nat \<Rightarrow> uchar list" where
  "file_of s ip = map (fbyte s ip) [0..<unat (i_size (ino s ip))]"

definition file_write :: "uchar list \<Rightarrow> nat \<Rightarrow> uchar list \<Rightarrow> uchar list" where
  "file_write f off bs = take off f @ bs @ drop (off + length bs) f"

text \<open>No file has a hole: every byte below its size is in a block.\<close>

definition files_inv :: "nat set \<Rightarrow> 'z kfs_scheme \<Rightarrow> bool" where
  "files_inv I s \<longleftrightarrow> files_ok I s \<and>
     (\<forall>ip\<in>I. unat (i_size (ino s ip)) \<le> MAXFILE * BSIZE \<and> (\<forall>x<unat (i_size (ino s ip)). fslot s ip (x div BSIZE) \<noteq> 0))"

lemma files_invD:
  assumes "files_inv I s" "ip \<in> I"
  shows "files_ok I s" "unat (i_size (ino s ip)) \<le> MAXFILE * BSIZE" "x < unat (i_size (ino s ip)) \<Longrightarrow> fslot s ip (x div BSIZE) \<noteq> 0"
  using assms by (simp_all add: files_inv_def)

lemma length_file_of [simp]: "length (file_of s ip) = unat (i_size (ino s ip))"
  by (simp add: file_of_def)

lemma slice_file_of: "take n (drop off (file_of s ip)) = map (fbyte s ip) [off..<off + min n (unat (i_size (ino s ip)) - off)]"
proof -
  have "take n [off..<m] = [off..<off + min n (m - off)]" for m
    by (rule nth_equalityI) (auto simp: less_diff_conv add.commute)
  then show ?thesis by (simp add: file_of_def take_map drop_map)
qed

lemma length_file_write: "off \<le> length f \<Longrightarrow> length (file_write f off bs) = max (length f) (off + length bs)"
  by (simp add: file_write_def)

lemma file_write_bytes:
  assumes "fbyte s' ip = store_bytes (fbyte s ip) off bs" "unat (i_size (ino s' ip)) = max (unat (i_size (ino s ip))) (off + length bs)"
    "off \<le> unat (i_size (ino s ip))"
  shows "file_of s' ip = file_write (file_of s ip) off bs"
proof (rule nth_equalityI)
  show "length (file_of s' ip) = length (file_write (file_of s ip) off bs)" using assms(2,3) by (simp add: length_file_write)
  fix i assume "i < length (file_of s' ip)"
  then have i: "i < max (unat (i_size (ino s ip))) (off + length bs)" using assms(2) by simp
  then have "file_of s' ip ! i = store_bytes (fbyte s ip) off bs i" using assms(1,2) by (simp add: file_of_def)
  also have "\<dots> = file_write (file_of s ip) off bs ! i"
    using i assms(3) by (auto simp: file_write_def store_bytes_nat nth_append file_of_def)
  finally show "file_of s' ip ! i = file_write (file_of s ip) off bs ! i" .
qed

lemma MAXFILE_bytes: "MAXFILE * BSIZE < 2 ^ 32"
  by (simp add: MAXFILE_def NDIRECT_def NINDIRECT_def BSIZE_def)

lemma readi_ok:
  assumes "log_mem_ok {} s" "files_inv I s" "ip \<in> I" "unat off + unat n < 2 ^ 32"
  obtains s' where "readi ip False dst off n s =
      Inr (int (length (take (unat n) (drop (unat off) (file_of s ip)))), take (unat n) (drop (unat off) (file_of s ip)), s')"
    "log_mem_ok {} s'" "bview s' = bview s" "bframe s s'"
proof (cases "i_size (ino s ip) < off")
  case True
  then show thesis using that [of s] assms(1) by (simp add: readi_def word_less_nat_alt)
next
  case False
  let ?sz = "i_size (ino s ip)"
  let ?n = "if ?sz < off + n then ?sz - off else n"
  have sz: "unat off \<le> unat ?sz" using False by (simp add: not_less word_le_nat_alt)
  have sum: "unat (off + n) = unat off + unat n" using assms(4) by (simp add: unat_word_ariths)
  have n: "unat ?n = min (unat n) (unat ?sz - unat off)"
    using sz sum unat_sub [of off ?sz] by (auto simp: word_less_nat_alt word_le_nat_alt min_def)
  have "unat off + unat ?n \<le> unat ?sz" using n sz by simp
  moreover note d = files_invD [OF assms(2,3)]
  moreover have "i_dev (ino s ip) = ROOTDEV" using files_okD(2) [OF d(1) assms(3)] .
  ultimately obtain s' where s': "readi_from ip False dst (unat off) 0 (unat ?n) s = Inr (int (0 + unat ?n), map (fbyte s ip) [unat off..<unat off + unat ?n], s')"
      "log_mem_ok {} s'" "bview s' = bview s" "bframe s s'"
    using readi_from_ok [OF assms(1), of ip "unat off" "unat ?n" dst 0] d(3) by (meson le_trans less_le_trans)
  have "\<not> off + n < off" using sum by (simp add: word_less_nat_alt)
  then have "readi ip False dst off n s = Inr (int (unat ?n), take (unat n) (drop (unat off) (file_of s ip)), s')"
    using s'(1) False slice_file_of [of "unat n" "unat off" s ip] n by (simp add: readi_def Let_def)
  then show thesis using that s' n by simp
qed


lemma grows_iupdate:
  assumes ok: "files_ok I s" and ip: "ip \<in> I" and tr: "in_trans (Suc k) s"
  obtains s' where "iupdate ip s = Inr s'" "in_trans k s'" "grows 0 I ip s s'" "itable s' = itable s" "fslot s' ip = fslot s ip"
    "same_dinode (get_dinode (bview s' (IBLOCK (i_inum (ino s ip)) (sb s))) (dinode_off (i_inum (ino s ip))) x) (ino s ip)"
proof -
  note d = files_okD [OF ok ip]
  let ?n = "IBLOCK (i_inum (ino s ip)) (sb s)"
  have n: "\<not> in_log (log s) ?n" "\<And>c. c < unat (sb_size (sb s)) \<Longrightarrow> ?n \<noteq> BBLOCK c (sb s)" "meta_block (sb s) ?n"
    using d(3,5) by (auto simp: disk_ok_def meta_block_def)
  obtain s' where s': "iupdate ip s = Inr s'" "in_trans k s'" "lframe s s'"
      "bview s' = (bview s)(?n := put_dinode (ino s ip) (dinode_off (i_inum (ino s ip))) (bview s ?n))"
    by (rule iupdate_writes [OF tr d(2) n(1)])
  have cur: "cur_ok s" using tr by (simp add: in_trans_def log_mem_ok_def)
  note f = lframe_kfs [OF s'(3)] lframe_log [OF s'(3)] lframe_cur [OF s'(3) cur]
  have i: "is_free s' b = is_free s b" if "b < unat (sb_size (sb s))" for b using n(2) [OF that, symmetric] s'(4) f by (simp add: is_free_def)
  have bl: "bview s' b = bview s b" if "data_block s b" for b using that n(3) s'(4) by (auto simp: data_block_def)
  note same = files_same [where s' = s', OF ok]
  have sm: "files_ok I s'" "\<And>jp. jp \<in> I \<Longrightarrow> fslot s' jp = fslot s jp" "\<And>jp. jp \<in> I \<Longrightarrow> fbyte s' jp = fbyte s jp"
    by (rule same; use f i bl in simp)+
  have "free_blocks s' = free_blocks s" using i f by (auto simp: free_blocks_def)
  moreover have "mem s' = mem s" using s'(3) by (simp add: lframe_def)
  moreover have "ino s' jp = ino s jp" for jp using f by (simp add: ino_def)
  ultimately have "grows 0 I ip s s'" using sm f by (simp add: grows_def)
  then show thesis using that [of s'] s' f sm(2) [OF ip] get_put_dinode [OF d(4)] by simp
qed

lemma set_size:
  assumes "files_ok I s" "ip \<in> I"
  shows "files_ok I (upd_inode ip (\<lambda>i. i\<lparr>i_size := z\<rparr>) s)" "fslot (upd_inode ip (\<lambda>i. i\<lparr>i_size := z\<rparr>) s) = fslot s"
    "fbyte (upd_inode ip (\<lambda>i. i\<lparr>i_size := z\<rparr>) s) = fbyte s" "free_blocks (upd_inode ip (\<lambda>i. i\<lparr>i_size := z\<rparr>) s) = free_blocks s"
proof -
  let ?s = "upd_inode ip (\<lambda>i. i\<lparr>i_size := z\<rparr>) s"
  have ino: "ino ?s jp = (if jp = ip then (ino s ip)\<lparr>i_size := z\<rparr> else ino s jp)" for jp
    by (rule ino_upd_eq [OF files_okD(1) [OF assms]])
  show sl: "fslot ?s = fslot s" "fbyte ?s = fbyte s" by (simp_all add: fun_eq_iff fslot_def fbyte_def ino)
  have v: "bview ?s = bview s" "sb ?s = sb s" "log ?s = log s" by simp_all
  have i: "is_free ?s = is_free s" by (rule is_free_cong [OF v(1,2)])
  show "free_blocks ?s = free_blocks s" by (rule free_blocks_cong [OF v(1,2)])
  have "disk_ok ?s = disk_ok s" "data_block ?s b = data_block s b" for b
    by (simp_all add: disk_ok_def bitmap_ok_def data_block_def i v)
  then show "files_ok I ?s" using assms(1) unfolding files_ok_def sl by (simp add: ino)
qed

text \<open>The end of \<^verbatim>\<open>writei\<close>: the new size, and the inode on disk.\<close>

lemma writei_end:
  assumes inv: "files_inv I s" and ip: "ip \<in> I" and e: "extends N I ip s s1" and tr: "in_trans (Suc 0) s1"
    and fb: "fbyte s1 ip = store_bytes (fbyte s ip) off bs" and off: "off \<le> unat (i_size (ino s ip))" "off + length bs \<le> MAXFILE * BSIZE"
    and slots: "\<And>x. off \<le> x \<Longrightarrow> x < off + length bs \<Longrightarrow> fslot s1 ip (x div BSIZE) \<noteq> 0"
  defines "s2 \<equiv> if off + length bs > unat (i_size (ino s1 ip)) then upd_inode ip (\<lambda>i. i\<lparr>i_size := of_nat (off + length bs)\<rparr>) s1 else s1"
  obtains s' where "iupdate ip s2 = Inr s'" "in_trans 0 s'" "files_inv I s'" "file_of s' ip = file_write (file_of s ip) off bs"
    "\<And>jp. jp \<in> I \<Longrightarrow> jp \<noteq> ip \<Longrightarrow> file_of s' jp = file_of s jp" "free_blocks s' \<subseteq> free_blocks s1"
    "\<And>jp. jp \<noteq> ip \<Longrightarrow> ino s' jp = ino s jp" "i_type (ino s' ip) = i_type (ino s ip)"
    "same_dinode (get_dinode (bview s' (IBLOCK (i_inum (ino s ip)) (sb s))) (dinode_off (i_inum (ino s ip))) x) (ino s' ip)"
proof -
  note d = files_invD [OF inv] and e = extendsD [OF e]
  let ?sz = "i_size (ino s ip)"
  have sz1: "i_size (ino s1 ip) = ?sz" "i_inum (ino s1 ip) = i_inum (ino s ip)" "i_type (ino s1 ip) = i_type (ino s ip)"
    using arg_cong [OF e(8), of i_size] arg_cong [OF e(8), of i_inum] arg_cong [OF e(8), of i_type] by simp_all
  define z where "z = (if off + length bs > unat ?sz then of_nat (off + length bs) else ?sz)"
  have z: "unat z = max (unat ?sz) (off + length bs)" using off(2) MAXFILE_bytes by (simp add: z_def unat_of_nat max_def del: of_nat_add)
  have "upd_inode ip (\<lambda>i. i\<lparr>i_size := i_size (ino s1 ip)\<rparr>) s1 = s1" by (simp add: upd_inode_def ino_def)
  then have s2: "s2 = upd_inode ip (\<lambda>i. i\<lparr>i_size := z\<rparr>) s1" by (simp add: s2_def z_def sz1)
  have ss: "files_ok I s2" "fslot s2 = fslot s1" "fbyte s2 = fbyte s1" "free_blocks s2 = free_blocks s1" unfolding s2 by (rule set_size [OF e(1) ip])+
  have ino2: "ino s2 jp = (if jp = ip then (ino s1 ip)\<lparr>i_size := z\<rparr> else ino s1 jp)" for jp
    unfolding s2 by (rule ino_upd_eq [OF files_okD(1) [OF e(1) ip]])
  have tr2: "in_trans (Suc 0) s2" "sb s2 = sb s" using tr e(2) by (simp_all add: s2)
  obtain s3 where s3: "iupdate ip s2 = Inr s3" "in_trans 0 s3" "grows 0 I ip s2 s3" "itable s3 = itable s2"
      "same_dinode (get_dinode (bview s3 (IBLOCK (i_inum (ino s2 ip)) (sb s2))) (dinode_off (i_inum (ino s2 ip))) x) (ino s2 ip)"
    by (rule grows_iupdate [OF ss(1) ip tr2(1)])
  note g = growsD [OF s3(3)]
  have ino3: "ino s3 = ino s2" using s3(4) by (simp add: fun_eq_iff ino_def)
  have own: "file_of s3 ip = file_write (file_of s ip) off bs"
    by (rule file_write_bytes) (use g(9) [OF ip] ss(3) fb z off in \<open>simp_all add: ino3 ino2\<close>)
  have other: "file_of s3 jp = file_of s jp" if "jp \<in> I" "jp \<noteq> ip" for jp
    using g(9) [OF that(1)] ss(3) e(7,9) that by (simp add: file_of_def ino3 ino2)
  have slot1: "fslot s1 jp (x div BSIZE) \<noteq> 0" if "jp \<in> I" "x < unat (i_size (ino s2 jp))" "x < off \<or> jp \<noteq> ip \<or> off + length bs \<le> x" for jp x
  proof -
    have "x < unat (i_size (ino s jp))" using that z off(1) e(7) [of jp] by (auto simp: ino2 split: if_splits)
    then have "fslot s jp (x div BSIZE) \<noteq> 0" "x div BSIZE \<le> MAXFILE" using d(2,3) [OF that(1)] off_slot [of x] by (auto intro: less_imp_le)
    then show ?thesis using e(10) [OF that(1)] by simp
  qed
  have slot3: "fslot s3 jp (x div BSIZE) = fslot s1 jp (x div BSIZE)" if "jp \<in> I" "x < unat (i_size (ino s2 jp))" "fslot s1 jp (x div BSIZE) \<noteq> 0" for jp x
  proof -
    have "x < MAXFILE * BSIZE" using that z off e(7) [of jp] d(2) [OF that(1)] by (auto simp: ino2 split: if_splits)
    then show ?thesis using g(10) [OF that(1) less_imp_le [OF off_slot]] that(3) ss(2) by simp
  qed
  have "fslot s3 jp (x div BSIZE) \<noteq> 0" if "jp \<in> I" "x < unat (i_size (ino s2 jp))" for jp x
    using that slots [of x] slot1 [OF that] slot3 [OF that] by (metis not_less)
  then have "files_inv I s3" using g(1) d(2) z off e(7) ip by (auto simp: files_inv_def ino3 ino2)
  then show thesis using that [of s3] own other s3 g(11) ss(4) tr2(2) sz1 e(7) by (simp add: ino2 ino3)
qed

lemma writei_ok:
  assumes "in_trans (6 * nchunks (unat off) (unat n) + 1) s" "files_inv I s" "ip \<in> I"
    and "off \<le> i_size (ino s ip)" "unat off + unat n \<le> MAXFILE * BSIZE"
    and "reads_source u src kbuf data s" "length data = unat n"
  obtains w s' where "writei ip u src kbuf off n s = Inr (int w, s')" "w \<le> unat n" "in_trans 0 s'" "files_inv I s'"
    "file_of s' ip = file_write (file_of s ip) (unat off) (take w data)" "\<And>jp. jp \<in> I \<Longrightarrow> jp \<noteq> ip \<Longrightarrow> file_of s' jp = file_of s jp"
    "w < unat n \<longrightarrow> free_blocks s' = {} \<and> unat (i_size (ino s ip)) \<le> unat off + w \<and> (w = 0 \<or> BSIZE dvd unat off + w) \<and> card (free_blocks s) \<le> 2 * nchunks (unat off) (unat n)"
    "\<And>jp. jp \<noteq> ip \<Longrightarrow> ino s' jp = ino s jp" "i_type (ino s' ip) = i_type (ino s ip)"
    "same_dinode (get_dinode (bview s' (IBLOCK (i_inum (ino s ip)) (sb s))) (dinode_off (i_inum (ino s ip))) x) (ino s' ip)"
proof -
  let ?off = "unat off" and ?n = "unat n"
  let ?N = "nchunks ?off ?n"
  have sum: "unat (off + n) = ?off + ?n" using assms(5) MAXFILE_bytes by (simp add: unat_word_ariths)
  have off: "?off \<le> unat (i_size (ino s ip))" using assms(4) by (simp add: word_le_nat_alt)
  have tr: "in_trans (6 * ?N + Suc 0) s" using assms(1) by simp
  from writei_from_ok [OF tr files_invD(1) [OF assms(2,3)] assms(3,5,6,7), of 0]
  obtain w s1 where s1: "w \<le> ?n" "writei_from ip u src kbuf ?off 0 ?n s = Inr (w, ?off + w, s1)" "in_trans (Suc 0) s1"
      "extends (2 * ?N) I ip s s1" "fbyte s1 ip = store_bytes (fbyte s ip) ?off (take w data)" "w < ?n \<longrightarrow> free_blocks s1 = {} \<and> (w = 0 \<or> BSIZE dvd ?off + w) \<and> fslot s1 ip ((?off + w) div BSIZE) = 0"
      "\<forall>x. ?off \<le> x \<longrightarrow> x < ?off + w \<longrightarrow> fslot s1 ip (x div BSIZE) \<noteq> 0"
    by auto
  have w: "length (take w data) = w" "?off + length (take w data) \<le> MAXFILE * BSIZE" using s1(1) assms(5,7) by simp_all
  obtain s' where s': "iupdate ip (if ?off + length (take w data) > unat (i_size (ino s1 ip))
          then upd_inode ip (\<lambda>i. i\<lparr>i_size := of_nat (?off + length (take w data))\<rparr>) s1 else s1) = Inr s'" "in_trans 0 s'" "files_inv I s'"
      "file_of s' ip = file_write (file_of s ip) ?off (take w data)" "\<And>jp. jp \<in> I \<Longrightarrow> jp \<noteq> ip \<Longrightarrow> file_of s' jp = file_of s jp"
      "free_blocks s' \<subseteq> free_blocks s1" "\<And>jp. jp \<noteq> ip \<Longrightarrow> ino s' jp = ino s jp" "i_type (ino s' ip) = i_type (ino s ip)"
      "same_dinode (get_dinode (bview s' (IBLOCK (i_inum (ino s ip)) (sb s))) (dinode_off (i_inum (ino s ip))) x) (ino s' ip)"
    by (rule writei_end [OF assms(2,3) s1(4,3,5) off w(2), of x]) (use s1(7) w(1) in simp_all)
  have "writei ip u src kbuf off n s = Inr (int w, s')"
    using s1(2) s'(1) [unfolded w(1)] assms(4,5) sum
    by (cases "?off + w > unat (i_size (ino s1 ip))") (simp_all add: writei_def Let_def word_less_nat_alt not_less [symmetric] del: of_nat_add)
  moreover have "unat (i_size (ino s ip)) \<le> ?off + w" if "w < ?n"
  proof (rule ccontr)
    assume "\<not> unat (i_size (ino s ip)) \<le> ?off + w"
    then have "fslot s ip ((?off + w) div BSIZE) \<noteq> 0" "(?off + w) div BSIZE \<le> MAXFILE"
      using files_invD(2,3) [OF assms(2,3)] off_slot [of "?off + w"] by simp_all
    then show False using extendsD(10) [OF s1(4) assms(3)] s1(6) that by simp
  qed
  moreover have "card (free_blocks s) \<le> 2 * ?N" if "w < ?n" using extendsD(12) [OF s1(4)] s1(6) that by simp
  ultimately show thesis using that [of w s'] s' s1(1,6) by auto
qed

text \<open>C37: \<^verbatim>\<open>writei\<close> writes a file. In a transaction with room for it, \<^verbatim>\<open>writei\<close> of a range that starts inside the file or at its end and
  stays below the largest file size writes a prefix of the data, at the offset, growing the file where needed; it returns the
  length of the prefix. The prefix is all of the data unless the disk is out of free blocks; then it ends at a block boundary and at
  or after the old end of the file. No other file changes, block sharing
  and holes do not arise, and the inode on disk is the one in memory.\<close>

theorem writei_refines:
  assumes "in_trans (6 * nchunks (unat off) (unat n) + 1) s" "files_inv I s" "ip \<in> I"
    and "off \<le> i_size (ino s ip)" "unat off + unat n \<le> MAXFILE * BSIZE"
    and "reads_source u src kbuf data s" "length data = unat n"
  shows "\<exists>w s'. writei ip u src kbuf off n s = Inr (int w, s') \<and> w \<le> unat n \<and> in_trans 0 s' \<and> files_inv I s' \<and>
    file_of s' ip = file_write (file_of s ip) (unat off) (take w data) \<and> (\<forall>jp\<in>I. jp \<noteq> ip \<longrightarrow> file_of s' jp = file_of s jp) \<and>
    (w < unat n \<longrightarrow> free_blocks s' = {} \<and> unat (i_size (ino s ip)) \<le> unat off + w \<and> (w = 0 \<or> BSIZE dvd unat off + w) \<and> card (free_blocks s) \<le> 2 * nchunks (unat off) (unat n)) \<and>
    same_dinode (get_dinode (bview s' (IBLOCK (i_inum (ino s ip)) (sb s))) (dinode_off (i_inum (ino s ip))) x) (ino s' ip)"
  by (rule writei_ok [OF assms, of x]) auto

section \<open>An example\<close>

text \<open>A file or directory with one block, all nines.\<close>

definition nines_inode :: "ushort \<Rightarrow> uint \<Rightarrow> inode" where
  "nines_inode ty sz = blank_inode\<lparr>i_dev := ROOTDEV, i_inum := 3, i_ref := 1, i_valid := True, i_type := ty, i_size := sz,
     i_addrs := 40 # replicate 12 0\<rparr>"

definition nines :: "ushort \<Rightarrow> uint \<Rightarrow> kfs" where
  "nines ty sz = upd_inode 7 (\<lambda>_. nines_inode ty sz) (mounted small_disk)"

lemma nines_ok:
  assumes sz: "sz \<le> 1024"
  shows "files_inv {7} (nines ty sz)" "file_of (nines ty sz) 7 = replicate (unat sz) 9" "free_blocks (nines ty sz) = {48..<64}"
    "k < 30 \<Longrightarrow> in_trans k (nines ty sz)"
proof -
  let ?s = "nines ty sz"

  have ino: "ino ?s 7 = nines_inode ty sz" by (simp add: nines_def ino_def)
  have v: "bview ?s = small_disk" "sb ?s = parse_sb (small_disk 1)" "log ?s = boot_log\<lparr>lg_outstanding := 1\<rparr>"
    by (simp_all add: nines_def)
  have sl: "fslot ?s 7 k = (if k = 0 then 40 else 0)" if "k \<le> MAXFILE" for k
    using that by (auto simp: fslot_def islot_def ino v nines_inode_def nth_Cons MAXFILE_def NDIRECT_def NINDIRECT_def split: nat.splits)
  have free: "is_free ?s = is_free (mounted small_disk)" by (rule is_free_cong) (simp_all add: v)
  show "free_blocks ?s = {48..<64}" using free small_disk_ok(2) by (simp add: free_blocks_def v)
  show "k < 30 \<Longrightarrow> in_trans k ?s" using mounted_trans by (simp add: nines_def)
  have ib: "IBLOCK i (parse_sb (small_disk 1)) = 32" if "unat i < 16" for i
  proof -
    have "i div 16 = 0" using that by (simp add: word_unat_eq_iff unat_div)
    then show ?thesis by (simp add: IBLOCK_def v BSIZE_def)
  qed
  have bb: "BBLOCK c (parse_sb (small_disk 1)) = 45" if "c < 64" for c using that by (simp add: BBLOCK_def v BSIZE_def)
  have "bitmap_ok ?s" using small_disk_ok(1) by (simp add: bitmap_ok_def free v)
  then have "disk_ok ?s"
    using small_disk_free by (auto simp: disk_ok_def free v ib bb boot_in_log word_unat_eq_iff unat_of_nat)
  moreover have "data_block ?s 40"
    using small_disk_free [of 40] by (auto simp: data_block_def free v meta_block_def ib bb boot_in_log)
  ultimately have "files_ok {7} ?s"
    using sl by (auto simp: files_ok_def ino v nines_inode_def NDIRECT_def) (simp add: nines_def)
  moreover have n: "unat sz \<le> 1024" using sz by (simp add: word_le_nat_alt)
  then have k: "x div BSIZE = 0" if "x < unat sz" for x using that by (simp add: BSIZE_def)
  ultimately show "files_inv {7} ?s" using sl n by (auto simp: files_inv_def ino nines_inode_def MAXFILE_def NDIRECT_def NINDIRECT_def BSIZE_def)
  have "fbyte ?s 7 x = 9" if "x < unat sz" for x
    using sl [of 0] k [OF that] that n by (simp add: fbyte_def ibyte_def fslot_def v MAXFILE_def NDIRECT_def NINDIRECT_def BSIZE_def small_disk_def)
  then show "file_of ?s 7 = replicate (unat sz) 9" by (intro nth_equalityI) (simp_all add: file_of_def ino nines_inode_def)
qed

lemma replicate_three: "replicate 3 x = [x, x, x]"
  by (simp add: numeral_3_eq_3)


theorem writei_refines_witness:
  "\<exists>s'. writei 7 False 0 [1, 2] 3 2 (nines T_FILE 3) = Inr (2, s') \<and> file_of s' 7 = [9, 9, 9, 1, 2]"
proof -
  let ?s = "nines T_FILE 3"
  have n: "nchunks 3 2 = 1" by (simp add: nchunks_def BSIZE_def)
  have ok: "files_inv {7} ?s" "file_of ?s 7 = [9, 9, 9]" "free_blocks ?s = {48..<64}" "in_trans (6 * nchunks 3 2 + 1) ?s"
    using nines_ok(1-3) [of 3 T_FILE] nines_ok(4) [of 3 7 T_FILE] by (simp_all add: n replicate_three)
  moreover have "i_size (ino ?s 7) = 3" by (simp add: nines_def ino_def nines_inode_def)
  ultimately obtain w s' where w: "writei 7 False 0 [1, 2] 3 2 ?s = Inr (int w, s')" "w \<le> 2" "file_of s' 7 = [9, 9, 9] @ take w [1, 2]" "\<not> w < 2"
    using writei_refines [of 3 2 ?s "{7}" 7 False 0 "[1, 2]" "[1, 2]" blank_inode] reads_source_kernel [of 0 "[1, 2]" 2 ?s] n
    by (auto simp: file_write_def MAXFILE_def NDIRECT_def NINDIRECT_def BSIZE_def)
  then have "w = 2" by simp
  with w show ?thesis by simp
qed

end
