(* ===== verification/Dirs.thy ===== *)
theory Dirs
  imports Files
begin

text \<open>
  Directories as maps from names to inode numbers: \<^verbatim>\<open>dirlookup\<close>, \<^verbatim>\<open>dirlink\<close> and \<^verbatim>\<open>dirunlink\<close> of \<^verbatim>\<open>kernel/fs.c\<close>.
  A directory is a file of 16-byte entries; an entry with inode number zero is empty, and no two other entries
  have the same name. The loops of the three functions share their shape, which is a locale here.
\<close>

declare DIRSIZ_def [simp del] dirent_size_def [simp del]

section \<open>The entries of a directory\<close>

definition dirent_at :: "uchar list \<Rightarrow> nat \<Rightarrow> uchar list" where
  "dirent_at f i = take dirent_size (drop (dirent_size * i) f)"

definition nents :: "uchar list \<Rightarrow> nat" where
  "nents f = length f div dirent_size"

definition dir_map :: "uchar list \<Rightarrow> (uchar list \<rightharpoonup> ushort)" where
  "dir_map f nm = map_option (\<lambda>i. de_inum (dirent_at f i))
     (find (\<lambda>i. de_inum (dirent_at f i) \<noteq> 0 \<and> cstr (de_name (dirent_at f i)) DIRSIZ = nm) [0..<nents f])"

definition dir_ok :: "uchar list \<Rightarrow> bool" where
  "dir_ok f \<longleftrightarrow> dirent_size dvd length f \<and>
     (\<forall>i<nents f. \<forall>j<nents f. de_inum (dirent_at f i) \<noteq> 0 \<longrightarrow> de_inum (dirent_at f j) \<noteq> 0 \<longrightarrow>
       cstr (de_name (dirent_at f i)) DIRSIZ = cstr (de_name (dirent_at f j)) DIRSIZ \<longrightarrow> i = j)"

lemma dir_mapI:
  assumes "dir_ok f" "i < nents f" "de_inum (dirent_at f i) \<noteq> 0"
  shows "dir_map f (cstr (de_name (dirent_at f i)) DIRSIZ) = Some (de_inum (dirent_at f i))"
proof -
  let ?P = "\<lambda>j. de_inum (dirent_at f j) \<noteq> 0 \<and> cstr (de_name (dirent_at f j)) DIRSIZ = cstr (de_name (dirent_at f i)) DIRSIZ"
  have "find ?P [0..<nents f] = Some i"
    unfolding find_upt_Some using assms unfolding dir_ok_def by (metis le0 less_imp_not_eq less_trans)
  then show ?thesis by (simp add: dir_map_def)
qed

lemma dir_map_Some:
  assumes "dir_ok f"
  shows "dir_map f nm = Some x \<longleftrightarrow> x \<noteq> 0 \<and> (\<exists>i<nents f. de_inum (dirent_at f i) = x \<and> cstr (de_name (dirent_at f i)) DIRSIZ = nm)"
  (is "_ \<longleftrightarrow> ?R")
proof
  assume "dir_map f nm = Some x"
  then show ?R by (auto simp: dir_map_def find_upt_Some simp del: upt_Suc)
next
  assume ?R
  then show "dir_map f nm = Some x" using dir_mapI [OF assms] by auto
qed

lemma dir_map_None: "dir_map f nm = None \<longleftrightarrow> (\<forall>i<nents f. de_inum (dirent_at f i) \<noteq> 0 \<longrightarrow> cstr (de_name (dirent_at f i)) DIRSIZ \<noteq> nm)"
  by (auto simp: dir_map_def find_None_iff)

section \<open>Writing an entry\<close>

lemma mk_dirent_simps:
  "length (mk_dirent x nm) = dirent_size" "de_inum (mk_dirent x nm) = x" "cstr (de_name (mk_dirent x nm)) DIRSIZ = cstr nm DIRSIZ"
proof -
  show "length (mk_dirent x nm) = dirent_size" by (simp add: mk_dirent_def DIRSIZ_def dirent_size_def)
  have "load_bytes (str_view (mk_dirent x nm)) 0 2 = to_le 2 (unat x)"
    by (rule nth_equalityI) (auto simp: mk_dirent_def str_view_def nth_append DIRSIZ_def)
  then show "de_inum (mk_dirent x nm) = x" by (simp add: de_inum_def get16_def word_of_nat_of_le_to_le)
  show "cstr (de_name (mk_dirent x nm)) DIRSIZ = cstr nm DIRSIZ"
    by (rule cstr_cong) (simp add: de_name_def mk_dirent_def str_view_def nth_append)
qed

lemma dirent_at_write:
  assumes "dirent_size dvd length f" "i \<le> nents f" "length e = dirent_size"
  shows "nents (file_write f (dirent_size * i) e) = max (nents f) (Suc i)" "dirent_size dvd length (file_write f (dirent_size * i) e)"
    "j \<noteq> i \<Longrightarrow> j < nents f \<Longrightarrow> dirent_at (file_write f (dirent_size * i) e) j = dirent_at f j"
    "dirent_at (file_write f (dirent_size * i) e) i = e"
proof -
  let ?f = "file_write f (dirent_size * i) e"
  have n: "length f = dirent_size * nents f" using assms(1) by (simp add: nents_def)
  then have le: "dirent_size * i \<le> length f" using assms(2) by simp
  have "length ?f = dirent_size * max (nents f) (Suc i)" using length_file_write [OF le, of e] n assms(3) by (simp add: max_def dirent_size_def)
  then show "nents ?f = max (nents f) (Suc i)" "dirent_size dvd length ?f" by (simp_all add: nents_def dirent_size_def)
  show "dirent_at ?f i = e" using le assms(3) by (simp add: dirent_at_def file_write_def)
  assume j: "j \<noteq> i" "j < nents f"
  show "dirent_at ?f j = dirent_at f j"
  proof (cases "j < i")
    case True
    then have "dirent_size * j + dirent_size \<le> dirent_size * i" by (simp add: dirent_size_def)
    then show ?thesis using le by (simp add: dirent_at_def file_write_def take_drop)
  next
    case False
    then have "dirent_size * i + dirent_size \<le> dirent_size * j" using j by (simp add: dirent_size_def)
    moreover from this have "dirent_size * i \<le> dirent_size * j" by linarith
    then have "drop (dirent_size * j) (take (dirent_size * i) f) = []" "dirent_size * i - dirent_size * j = 0" by (auto simp: min_le_iff_disj)
    ultimately show ?thesis using le assms(3) by (simp add: dirent_at_def file_write_def)
  qed
qed

lemma dir_link:
  assumes ok: "dir_ok f" and nm: "dir_map f (cstr nm DIRSIZ) = None" and i: "i = nents f \<or> i < nents f \<and> de_inum (dirent_at f i) = 0" and x: "x \<noteq> 0"
  defines "f' \<equiv> file_write f (dirent_size * i) (mk_dirent x nm)"
  shows "dir_ok f'" "dir_map f' = (dir_map f)(cstr nm DIRSIZ \<mapsto> x)"
proof -
  note m = mk_dirent_simps [of x nm]
  have w: "nents f' = max (nents f) (Suc i)" "dirent_size dvd length f'"
      "\<And>j. j \<noteq> i \<Longrightarrow> j < nents f \<Longrightarrow> dirent_at f' j = dirent_at f j" "dirent_at f' i = mk_dirent x nm"
    using dirent_at_write [of f i "mk_dirent x nm"] ok i m(1) by (auto simp: dir_ok_def f'_def)
  have j: "j < nents f' \<longleftrightarrow> j < nents f \<or> j = i" for j using w(1) i by auto
  show ok': "dir_ok f'"
    unfolding dir_ok_def
  proof (intro conjI w(2) allI impI)
    fix a b assume ab: "a < nents f'" "b < nents f'" "de_inum (dirent_at f' a) \<noteq> 0" "de_inum (dirent_at f' b) \<noteq> 0"
      "cstr (de_name (dirent_at f' a)) DIRSIZ = cstr (de_name (dirent_at f' b)) DIRSIZ"
    have new: "cstr (de_name (dirent_at f' k)) DIRSIZ \<noteq> cstr nm DIRSIZ" if "k < nents f'" "de_inum (dirent_at f' k) \<noteq> 0" "k \<noteq> i" for k
      using that j w(3) nm unfolding dir_map_None by metis
    show "a = b"
    proof (cases "a = i \<or> b = i")
      case True
      then show ?thesis using new ab w(4) m(3) by metis
    next
      case False
      then have "dirent_at f' a = dirent_at f a" "dirent_at f' b = dirent_at f b" "a < nents f" "b < nents f" using ab j w(3) by blast+
      then show ?thesis using ok ab(3-5) unfolding dir_ok_def by metis
    qed
  qed
  show "dir_map f' = (dir_map f)(cstr nm DIRSIZ \<mapsto> x)"
  proof
    fix n
    show "dir_map f' n = ((dir_map f)(cstr nm DIRSIZ \<mapsto> x)) n"
    proof (cases "n = cstr nm DIRSIZ")
      case True
      then show ?thesis using dir_mapI [OF ok', of i] w(4) j m x by simp
    next
      case False
      have "dir_map f' n = Some y \<longleftrightarrow> dir_map f n = Some y" for y
      proof -
        have "k \<noteq> i" if "k < nents f" "de_inum (dirent_at f k) \<noteq> 0" for k using that i by auto
        then have "dirent_at f' k = dirent_at f k" if "k < nents f" "de_inum (dirent_at f k) \<noteq> 0" for k using that w(3) by blast
        moreover have "k \<noteq> i" if "cstr (de_name (dirent_at f' k)) DIRSIZ = n" for k using that w(4) m(3) False by metis
        then have "k < nents f \<and> dirent_at f' k = dirent_at f k" if "k < nents f'" "cstr (de_name (dirent_at f' k)) DIRSIZ = n" for k
          using that j w(3) by blast
        ultimately show ?thesis unfolding dir_map_Some [OF ok] dir_map_Some [OF ok'] using j by metis
      qed
      then show ?thesis using False by (metis fun_upd_other option.exhaust)
    qed
  qed
qed

lemma dir_unlink:
  assumes ok: "dir_ok f" and i: "i < nents f" "de_inum (dirent_at f i) \<noteq> 0"
  defines "f' \<equiv> file_write f (dirent_size * i) (mk_dirent 0 (de_name (dirent_at f i)))"
  shows "dir_ok f'" "dir_map f' = (dir_map f)(cstr (de_name (dirent_at f i)) DIRSIZ := None)"
proof -
  note m = mk_dirent_simps [of 0 "de_name (dirent_at f i)"]
  have w: "nents f' = nents f" "dirent_size dvd length f'"
      "\<And>j. j \<noteq> i \<Longrightarrow> j < nents f \<Longrightarrow> dirent_at f' j = dirent_at f j" "de_inum (dirent_at f' i) = 0"
    using dirent_at_write [of f i "mk_dirent 0 (de_name (dirent_at f i))"] ok i m(1,2) by (auto simp: dir_ok_def f'_def)
  show ok': "dir_ok f'" using ok w unfolding dir_ok_def by metis
  show "dir_map f' = (dir_map f)(cstr (de_name (dirent_at f i)) DIRSIZ := None)"
  proof
    fix n
    show "dir_map f' n = ((dir_map f)(cstr (de_name (dirent_at f i)) DIRSIZ := None)) n"
    proof (cases "n = cstr (de_name (dirent_at f i)) DIRSIZ")
      case True
      have "dir_map f' n = None" unfolding dir_map_None using ok i w True unfolding dir_ok_def by metis
      then show ?thesis using True by simp
    next
      case False
      have "dir_map f' n = Some y \<longleftrightarrow> dir_map f n = Some y" for y
      proof -
        have "dirent_at f' k = dirent_at f k" if "k < nents f" "de_inum (dirent_at f' k) \<noteq> 0 \<or> cstr (de_name (dirent_at f k)) DIRSIZ = n" for k
          using that w(3,4) False by metis
        then show ?thesis unfolding dir_map_Some [OF ok] dir_map_Some [OF ok'] using w(1) by metis
      qed
      then show ?thesis using False by (metis fun_upd_other option.exhaust)
    qed
  qed
qed

section \<open>The loops over a directory\<close>

lemma files_bframe:
  assumes "bframe s s'" "bview s' = bview s" "log_mem_ok {} s" "files_inv I s"
  shows "files_inv I s'" "file_of s' = file_of s" "ino s' = ino s"
proof -
  have f: "fslot s' = fslot s" "ino s' = ino s" using fslot_bframe [OF assms(1,2)] by simp_all
  then show "ino s' = ino s" by simp
  show "file_of s' = file_of s" by (rule ext) (simp add: file_of_def fbyte_def f(2) assms(2))
  have "cur_ok s" using assms(3) by (simp add: log_mem_ok_def)
  then have "files_ok I s'"
    using grows_frame [OF _ lframe_bframe [OF assms(1)] _ assms(2), of I undefined] assms(4) by (auto simp: files_inv_def dest: growsD(1))
  then show "files_inv I s'" using assms(4) f by (simp add: files_inv_def)
qed

lemma read_dirent:
  assumes "log_mem_ok {} s" "files_inv I s" "dp \<in> I" "dirent_size dvd length (file_of s dp)" "k < nents (file_of s dp)"
  obtains s' where "readi dp False 0 (of_nat (dirent_size * k)) (of_nat dirent_size) s = Inr (int dirent_size, dirent_at (file_of s dp) k, s')"
    "log_mem_ok {} s'" "bview s' = bview s" "bframe s s'"
proof -
  let ?f = "file_of s dp"
  have n: "length ?f = dirent_size * nents ?f" using assms(4) by (simp add: nents_def)
  then have k: "dirent_size * k + dirent_size \<le> length ?f" using assms(5) by (simp add: dirent_size_def)
  moreover have "length ?f \<le> MAXFILE * BSIZE" using files_invD(2) [OF assms(2,3)] by simp
  moreover note MAXFILE_bytes
  ultimately have "unat (of_nat (dirent_size * k) :: uint) = dirent_size * k" "dirent_size * k + dirent_size < 2 ^ 32"
    by (simp_all add: unat_of_nat del: of_nat_mult)
  moreover have "unat (of_nat dirent_size :: uint) = dirent_size" by (simp add: dirent_size_def)
  moreover have "length (dirent_at ?f k) = dirent_size" using k by (simp add: dirent_at_def)
  ultimately show thesis
    using that by (rule_tac readi_ok [OF assms(1,2,3), of "of_nat (dirent_size * k)" "of_nat dirent_size" 0])
      (simp_all add: dirent_at_def del: of_nat_mult length_take)
qed

text \<open>
  A loop that reads the entries from an offset on: it panics on a short read, stops at the first entry that is a hit, or runs to the end.
\<close>

locale dir_scan =
  fixes loop :: "nat \<Rightarrow> nat \<Rightarrow> nat \<Rightarrow> 'z kfs_scheme \<Rightarrow> 'r res"
    and bad :: kerror
    and hit :: "uchar list \<Rightarrow> bool"
    and found :: "nat \<Rightarrow> nat \<Rightarrow> uchar list \<Rightarrow> 'z kfs_scheme \<Rightarrow> 'r res"
    and none :: "nat \<Rightarrow> 'z kfs_scheme \<Rightarrow> 'r res"
  assumes step: "loop dp off sz s =
    (if off < sz then
       rbind (readi dp False 0 (of_nat off) (of_nat dirent_size) s) (\<lambda>(r, de, s).
       if r \<noteq> int dirent_size then Inl bad
       else if hit de then found dp off de s
       else loop dp (off + dirent_size) sz s)
     else none off s)"
begin

lemma scan_from:
  assumes "log_mem_ok {} s" "files_inv I s" "dp \<in> I" "dirent_size dvd length (file_of s dp)" "k \<le> nents (file_of s dp)"
  shows "\<exists>s'. log_mem_ok {} s' \<and> bview s' = bview s \<and> bframe s s' \<and>
    loop dp (dirent_size * k) (length (file_of s dp)) s =
      (case find (\<lambda>i. hit (dirent_at (file_of s dp) i)) [k..<nents (file_of s dp)] of
         None \<Rightarrow> none (length (file_of s dp)) s'
       | Some i \<Rightarrow> found dp (dirent_size * i) (dirent_at (file_of s dp) i) s')"
  using assms
proof (induction "nents (file_of s dp) - k" arbitrary: k s)
  case 0
  then have "dirent_size * k = length (file_of s dp)" "[k..<nents (file_of s dp)] = []" by (simp_all add: nents_def)
  then show ?case using 0(2) step [of dp "dirent_size * k" "length (file_of s dp)" s] by auto
next
  case (Suc d)
  let ?f = "file_of s dp"
  have k: "k < nents ?f" "d = nents ?f - Suc k" using Suc(2) by simp_all
  obtain s1 where s1: "readi dp False 0 (of_nat (dirent_size * k)) (of_nat dirent_size) s = Inr (int dirent_size, dirent_at ?f k, s1)"
      "log_mem_ok {} s1" "bview s1 = bview s" "bframe s s1"
    by (rule read_dirent [OF Suc.prems(1-4) k(1)])
  have f1: "files_inv I s1" "file_of s1 = file_of s" using files_bframe [OF s1(4,3) Suc.prems(1,2)] by simp_all
  have lt: "dirent_size * k < length ?f" using k(1) Suc.prems(4) by (auto simp: nents_def dirent_size_def)
  have fi: "[k..<nents ?f] = k # [Suc k..<nents ?f]" using k(1) by (rule upt_conv_Cons)
  show ?case
  proof (cases "hit (dirent_at ?f k)")
    case True
    then show ?thesis using s1 lt step [of dp "dirent_size * k" "length ?f" s] by (auto simp: fi simp del: of_nat_mult)
  next
    case False
    obtain s' where s': "log_mem_ok {} s'" "bview s' = bview s1" "bframe s1 s'"
        "loop dp (dirent_size * Suc k) (length ?f) s1 =
          (case find (\<lambda>i. hit (dirent_at ?f i)) [Suc k..<nents ?f] of
             None \<Rightarrow> none (length ?f) s' | Some i \<Rightarrow> found dp (dirent_size * i) (dirent_at ?f i) s')"
      using Suc(1) [of s1 "Suc k", unfolded f1(2)] k s1(2) f1(1) Suc.prems(3,4) by auto
    then show ?thesis
      using False s1 lt step [of dp "dirent_size * k" "length ?f" s] bframe_trans [OF s1(4) s'(3)] by (auto simp: fi add.commute simp del: of_nat_mult)
  qed
qed

end

interpretation lookup_scan: dir_scan "\<lambda>dp. dirlookup_from dp name" "Panic ''dirlookup read''"
  "\<lambda>de. de_inum de \<noteq> 0 \<and> namecmp name (de_name de) = 0"
  "\<lambda>dp off de s. rbind (iget (i_dev (ino s dp)) (ucast (de_inum de)) s) (\<lambda>(ip, s). Inr (Some (ip, of_nat off), s))" "\<lambda>off s. Inr (None, s)" for name
  by unfold_locales (rule dirlookup_from.simps)

interpretation empty_scan: dir_scan empty_dirent "Panic ''dirlink read''" "\<lambda>de. de_inum de = 0" "\<lambda>dp off de s. Inr (off, s)" "\<lambda>off s. Inr (off, s)"
  by unfold_locales (rule empty_dirent.simps)

interpretation unlink_scan: dir_scan "\<lambda>dp. dirunlink_from dp name" "Panic ''dirunlink read''"
  "\<lambda>de. strncmp (de_name de) name DIRSIZ = 0 \<and> de_inum de \<noteq> 0"
  "\<lambda>dp off de s. rbind (writei dp False 0 (mk_dirent 0 (de_name de)) (of_nat off) (of_nat dirent_size) s)
     (\<lambda>(r, s). if r \<noteq> int dirent_size then Inr (- 1, s) else Inr (0, s))" "\<lambda>off s. Inr (- 1, s)" for name
  by unfold_locales (rule dirunlink_from.simps)

section \<open>The operations\<close>

text \<open>An entry lies within one block.\<close>

lemma dirent_chunk:
  "nchunks (dirent_size * i) dirent_size = 1"
  "BSIZE dvd dirent_size * i + w \<Longrightarrow> w < dirent_size \<Longrightarrow> w = 0"
proof -
  have B: "BSIZE = dirent_size * 64" by (simp add: BSIZE_def dirent_size_def)
  have "(dirent_size * i + dirent_size - 1) div BSIZE = dirent_size * i div BSIZE"
    unfolding B div_mult2_eq by (simp add: dirent_size_def)
  then show "nchunks (dirent_size * i) dirent_size = 1" by (simp add: nchunks_def dirent_size_def)
  assume w: "BSIZE dvd dirent_size * i + w" "w < dirent_size"
  from w(1) have "dirent_size dvd dirent_size * i + w" unfolding B by (rule dvd_mult_left)
  then have "dirent_size dvd w" using dvd_add_right_iff [of dirent_size "dirent_size * i" w] by simp
  with w(2) show "w = 0" by (auto dest: dvd_imp_le)
qed

lemma write_dirent [consumes 7, case_names written full]:
  assumes tr: "in_trans 7 s" and inv: "files_inv I s" and dp: "dp \<in> I" and f: "dirent_size dvd length (file_of s dp)" "i \<le> nents (file_of s dp)"
    and lim: "dirent_size * i + dirent_size \<le> MAXFILE * BSIZE" and e: "length e = dirent_size"
  obtains (written) s' where "writei dp False 0 e (of_nat (dirent_size * i)) (of_nat dirent_size) s = Inr (int dirent_size, s')" "files_inv I s'" "in_trans 0 s'"
      "file_of s' dp = file_write (file_of s dp) (dirent_size * i) e" "\<And>jp. jp \<in> I \<Longrightarrow> jp \<noteq> dp \<Longrightarrow> file_of s' jp = file_of s jp"
      "\<And>jp. jp \<noteq> dp \<Longrightarrow> ino s' jp = ino s jp" "i_type (ino s' dp) = i_type (ino s dp)"
    | (full) s' where "writei dp False 0 e (of_nat (dirent_size * i)) (of_nat dirent_size) s = Inr (0, s')" "files_inv I s'" "in_trans 0 s'"
      "\<And>jp. jp \<in> I \<Longrightarrow> file_of s' jp = file_of s jp" "free_blocks s' = {}" "i = nents (file_of s dp)" "card (free_blocks s) \<le> 2"
      "\<And>jp. jp \<noteq> dp \<Longrightarrow> ino s' jp = ino s jp" "i_type (ino s' dp) = i_type (ino s dp)"
proof -
  let ?off = "of_nat (dirent_size * i) :: uint" and ?n = "of_nat dirent_size :: uint" and ?f = "file_of s dp"
  have u: "unat ?off = dirent_size * i" "unat ?n = dirent_size"
    using lim MAXFILE_bytes by (simp_all add: unat_of_nat dirent_size_def del: of_nat_mult)
  note n = dirent_chunk(1) [of i]
  have len: "length ?f = dirent_size * nents ?f" using f(1) by (simp add: nents_def)
  then have le: "dirent_size * i \<le> length ?f" using f(2) by simp
  have tr': "in_trans (6 * nchunks (unat ?off) (unat ?n) + 1) s" using tr by (simp add: u n del: of_nat_mult)
  have src: "reads_source False 0 e e s" using reads_source_kernel [of 0 e dirent_size s] e by simp
  obtain w s' where w: "writei dp False 0 e ?off ?n s = Inr (int w, s')" "w \<le> unat ?n" "in_trans 0 s'" "files_inv I s'"
    "file_of s' dp = file_write ?f (unat ?off) (take w e)" "\<And>jp. jp \<in> I \<Longrightarrow> jp \<noteq> dp \<Longrightarrow> file_of s' jp = file_of s jp"
    "w < unat ?n \<longrightarrow> free_blocks s' = {} \<and> unat (i_size (ino s dp)) \<le> unat ?off + w \<and> (w = 0 \<or> BSIZE dvd unat ?off + w) \<and> card (free_blocks s) \<le> 2 * nchunks (unat ?off) (unat ?n)"
    "\<And>jp. jp \<noteq> dp \<Longrightarrow> ino s' jp = ino s jp" "i_type (ino s' dp) = i_type (ino s dp)"
    by (rule writei_ok [OF tr' inv dp _ _ src]) (use le lim e u in \<open>simp_all add: word_le_nat_alt del: of_nat_mult\<close>)
  show thesis
  proof (cases "w < dirent_size")
    case True
    then have "w = 0 \<or> BSIZE dvd dirent_size * i + w" "free_blocks s' = {}" using w(7) u by simp_all
    then have "w = 0" using dirent_chunk(2) True by blast
    then have "i = nents ?f" using w(7) True u f(2) len by (auto simp: dirent_size_def)
    moreover have "file_of s' dp = ?f" using w(5) \<open>w = 0\<close> by (simp add: file_write_def)
    moreover have "card (free_blocks s) \<le> 2" using w(7) True u n by simp
    ultimately show thesis using full [of s'] w True \<open>w = 0\<close> u by (simp del: of_nat_mult) metis
  next
    case False
    then have "w = dirent_size" using w(2) u by simp
    then show thesis using written [of s'] w e u by (simp del: of_nat_mult)
  qed
qed

lemma dirlookup_ok [consumes 5, case_names absent present]:
  assumes "log_mem_ok {} s" "files_inv I s" "dp \<in> I" "i_type (ino s dp) = T_DIR" "dirent_size dvd length (file_of s dp)"
  obtains (absent) s' where "dirlookup dp name s = Inr (None, s')" "dir_map (file_of s dp) (cstr name DIRSIZ) = None"
      "log_mem_ok {} s'" "bview s' = bview s" "bframe s s'"
    | (present) i x s' where "dirlookup dp name s = rbind (iget ROOTDEV (ucast x) s') (\<lambda>(ip, s). Inr (Some (ip, of_nat (dirent_size * i)), s))"
      "dir_map (file_of s dp) (cstr name DIRSIZ) = Some x" "log_mem_ok {} s'" "bview s' = bview s" "bframe s s'"
      "i < nents (file_of s dp)" "x = de_inum (dirent_at (file_of s dp) i)" "x \<noteq> 0" "cstr (de_name (dirent_at (file_of s dp) i)) DIRSIZ = cstr name DIRSIZ"
proof -
  let ?f = "file_of s dp"
  have hit: "namecmp name (de_name de) = 0 \<longleftrightarrow> cstr (de_name de) DIRSIZ = cstr name DIRSIZ" for de
    by (auto simp: namecmp_def strncmp_0_iff)
  let ?find = "find (\<lambda>i. de_inum (dirent_at ?f i) \<noteq> 0 \<and> cstr (de_name (dirent_at ?f i)) DIRSIZ = cstr name DIRSIZ) [0..<nents ?f]"
  obtain s' where s': "log_mem_ok {} s'" "bview s' = bview s" "bframe s s'"
      "dirlookup_from dp name 0 (length ?f) s = (case ?find of
         None \<Rightarrow> Inr (None, s')
       | Some i \<Rightarrow> rbind (iget (i_dev (ino s' dp)) (ucast (de_inum (dirent_at ?f i))) s') (\<lambda>(ip, s). Inr (Some (ip, of_nat (dirent_size * i)), s)))"
    using lookup_scan.scan_from [OF assms(1,2,3,5), of 0 name, unfolded hit] by auto
  have "i_dev (ino s' dp) = ROOTDEV"
    using files_okD(2) [OF files_invD(1) [OF assms(2,3)] assms(3)] files_bframe(3) [OF s'(3,2) assms(1,2)] by simp
  then have run: "dirlookup dp name s = (case ?find of
         None \<Rightarrow> Inr (None, s')
       | Some i \<Rightarrow> rbind (iget ROOTDEV (ucast (de_inum (dirent_at ?f i))) s') (\<lambda>(ip, s). Inr (Some (ip, of_nat (dirent_size * i)), s)))"
    using s'(4) assms(4) by (simp only: dirlookup_def length_file_of [symmetric]) simp
  show thesis
  proof (cases ?find)
    case None
    have "dirlookup dp name s = Inr (None, s')" unfolding run None by simp
    moreover have "dir_map ?f (cstr name DIRSIZ) = None" unfolding dir_map_def None by simp
    ultimately show thesis using absent s' by blast
  next
    case (Some i)
    have "dirlookup dp name s = rbind (iget ROOTDEV (ucast (de_inum (dirent_at ?f i))) s') (\<lambda>(ip, s). Inr (Some (ip, of_nat (dirent_size * i)), s))"
      unfolding run Some by simp
    moreover have "dir_map ?f (cstr name DIRSIZ) = Some (de_inum (dirent_at ?f i))" unfolding dir_map_def Some by simp
    ultimately show thesis using present [of "de_inum (dirent_at ?f i)" s' i] s' Some unfolding find_upt_Some by simp
  qed
qed

text \<open>C38: \<^verbatim>\<open>dirlookup\<close> looks a name up in the map that the directory is. For a name that the directory has, it returns what \<^verbatim>\<open>iget\<close> returns
  for the inode number of the entry, and the offset of the entry; for any other name it returns no inode. Blocks and inode table are the ones before the call.\<close>

theorem dirlookup_refines:
  assumes "log_mem_ok {} s" "files_inv I s" "dp \<in> I" "i_type (ino s dp) = T_DIR" "dir_ok (file_of s dp)"
  shows "\<exists>s'. bview s' = bview s \<and> itable s' = itable s \<and>
    (case dir_map (file_of s dp) (cstr name DIRSIZ) of
       None \<Rightarrow> dirlookup dp name s = Inr (None, s')
     | Some x \<Rightarrow> \<exists>i<nents (file_of s dp). de_inum (dirent_at (file_of s dp) i) = x \<and> cstr (de_name (dirent_at (file_of s dp) i)) DIRSIZ = cstr name DIRSIZ \<and>
         dirlookup dp name s = rbind (iget ROOTDEV (ucast x) s') (\<lambda>(ip, s). Inr (Some (ip, of_nat (dirent_size * i)), s)))"
proof -
  have d: "dirent_size dvd length (file_of s dp)" using assms(5) by (simp add: dir_ok_def)
  from assms(1-4) d show ?thesis
  proof (cases rule: dirlookup_ok [where name = name])
    case (absent s')
    then show ?thesis using bframe_kfs [OF absent(5)] by auto
  next
    case (present i x s')
    then show ?thesis using bframe_kfs [OF present(5)] by auto
  qed
qed

section \<open>Adding a name\<close>

lemma files_inv_cong:
  assumes "files_inv I s" "bview s' = bview s" "sb s' = sb s" "in_log (log s') = in_log (log s)" "length (itable s') = length (itable s)"
    "\<And>jp. jp \<in> I \<Longrightarrow> ino s' jp = ino s jp"
  shows "files_inv I s'" "jp \<in> I \<Longrightarrow> file_of s' jp = file_of s jp"
proof -
  have sl: "fslot s' jp = fslot s jp" "fbyte s' jp = fbyte s jp" if "jp \<in> I" for jp
    using assms(2,6) that by (simp_all add: fslot_def fbyte_def)
  then show "jp \<in> I \<Longrightarrow> file_of s' jp = file_of s jp" using assms(6) by (simp add: file_of_def)
  have "is_free s' = is_free s" by (rule is_free_cong [OF assms(2,3)])
  then have "disk_ok s' = disk_ok s" "data_block s' = data_block s"
    using assms(3,4) by (simp_all add: disk_ok_def bitmap_ok_def data_block_def fun_eq_iff)
  then show "files_inv I s'" using assms(1,3,5,6) sl by (simp add: files_inv_def files_ok_def)
qed

text \<open>A reference that is taken and dropped again.\<close>

lemma iget_iput:
  assumes "itable_ok s" "iget dev inum s = Inr (ip, s1)"
  obtains s' where "iput ip s1 = Inr s'" "bview s' = bview s" "sb s' = sb s" "log s' = log s" "length (itable s') = length (itable s)"
    "\<And>jp. 0 < i_ref (ino s jp) \<Longrightarrow> ino s' jp = ino s jp"
proof (cases "\<exists>i. in_use s dev inum i")
  case True
  then obtain i where i: "in_use s dev inum i" by blast
  then have ip: "ip = i" "s1 = upd_inode i (\<lambda>i. i\<lparr>i_ref := i_ref i + 1\<rparr>) s" using iget_hit [OF assms(1) i] assms(2) by simp_all
  have l: "i < length (itable s)" "0 < i_ref (ino s i)" using i assms(1) by (simp_all add: in_use_def itable_ok_def)
  have "iput ip s1 = Inr (upd_inode i (\<lambda>i. i\<lparr>i_ref := i_ref i - 1\<rparr>) s1)" using l by (simp add: iput_def ip)
  moreover have "ino (upd_inode i (\<lambda>i. i\<lparr>i_ref := i_ref i - 1\<rparr>) s1) jp = ino s jp" for jp using l by (simp add: ip ino_upd_eq)
  ultimately show thesis using that by (simp add: ip)
next
  case False
  then obtain ip: "i_ref (ino s ip) = 0" "ip < NINODE"
      "s1 = upd_inode ip (\<lambda>i. i\<lparr>i_dev := dev, i_inum := inum, i_ref := 1, i_valid := False\<rparr>) s"
    using iget_miss [OF False] assms(2) by (auto simp: find_upt_Some simp del: upt_Suc split: option.splits)
  have l: "ip < length (itable s)" using ip(2) assms(1) by (simp add: itable_ok_def)
  have "iput ip s1 = Inr (upd_inode ip (\<lambda>i. i\<lparr>i_ref := i_ref i - 1\<rparr>) s1)" using l by (simp add: iput_def ip(3))
  moreover have "ino (upd_inode ip (\<lambda>i. i\<lparr>i_ref := i_ref i - 1\<rparr>) s1) jp = ino s jp" if "0 < i_ref (ino s jp)" for jp
    using l that ip(1) by (auto simp: ip(3) ino_upd_eq)
  ultimately show thesis using that by (simp add: ip(3))
qed

text \<open>The first entry that is empty, or the end.\<close>

lemma empty_ok:
  assumes "log_mem_ok {} s" "files_inv I s" "dp \<in> I" "dirent_size dvd length (file_of s dp)"
  obtains i s' where "empty_dirent dp 0 (length (file_of s dp)) s = Inr (dirent_size * i, s')" "log_mem_ok {} s'" "bview s' = bview s" "bframe s s'"
    "i = nents (file_of s dp) \<or> i < nents (file_of s dp) \<and> de_inum (dirent_at (file_of s dp) i) = 0"
proof -
  let ?f = "file_of s dp"
  obtain s' where s': "log_mem_ok {} s'" "bview s' = bview s" "bframe s s'"
      "empty_dirent dp 0 (length ?f) s = (case find (\<lambda>i. de_inum (dirent_at ?f i) = 0) [0..<nents ?f] of
         None \<Rightarrow> Inr (length ?f, s') | Some i \<Rightarrow> Inr (dirent_size * i, s'))"
    using empty_scan.scan_from [OF assms(1-4), of 0] by auto
  show thesis
  proof (cases "find (\<lambda>i. de_inum (dirent_at ?f i) = 0) [0..<nents ?f]")
    case None
    moreover have "length ?f = dirent_size * nents ?f" using assms(4) by (simp add: nents_def)
    ultimately show thesis using that [of "nents ?f" s'] s' by simp
  next
    case (Some i)
    have "empty_dirent dp 0 (length ?f) s = Inr (dirent_size * i, s')" using s'(4) unfolding Some by simp
    then show thesis using that [of i s'] s' Some unfolding find_upt_Some by simp
  qed
qed

lemma dirlink_new:
  assumes tr: "in_trans 7 s" and inv: "files_inv I s" "dp \<in> I" and ok: "dir_ok (file_of s dp)"
    and room: "unat (i_size (ino s dp)) + dirent_size \<le> MAXFILE * BSIZE" and x: "(ucast inum :: ushort) \<noteq> 0"
    and new: "dirlookup dp name s = Inr (None, s1)" "dir_map (file_of s dp) (cstr name DIRSIZ) = None" "log_mem_ok {} s1" "bview s1 = bview s" "bframe s s1"
  obtains (linked) s' where "dirlink dp name inum s = Inr (0, s')" "files_inv I s'" "dir_ok (file_of s' dp)"
      "\<And>jp. jp \<in> I \<Longrightarrow> jp \<noteq> dp \<Longrightarrow> file_of s' jp = file_of s jp" "dir_map (file_of s' dp) = (dir_map (file_of s dp))(cstr name DIRSIZ \<mapsto> ucast inum)"
    | (full) s' where "dirlink dp name inum s = Inr (- 1, s')" "files_inv I s'" "free_blocks s' = {} \<and> card (free_blocks s) \<le> 2" "\<And>jp. jp \<in> I \<Longrightarrow> file_of s' jp = file_of s jp"
proof -
  let ?f = "file_of s dp"
  have mem: "log_mem_ok {} s" and d: "dirent_size dvd length ?f" using tr ok by (simp_all add: in_trans_def dir_ok_def)
  note f1 = files_bframe [OF new(5,4) mem inv(1)]
  have d1: "dirent_size dvd length (file_of s1 dp)" using d unfolding f1(2) .
  obtain i s2 where s2: "empty_dirent dp 0 (length (file_of s1 dp)) s1 = Inr (dirent_size * i, s2)" "log_mem_ok {} s2" "bview s2 = bview s1" "bframe s1 s2"
      "i = nents (file_of s1 dp) \<or> i < nents (file_of s1 dp) \<and> de_inum (dirent_at (file_of s1 dp) i) = 0"
    by (rule empty_ok [OF new(3) f1(1) inv(2) d1])
  note f2 = files_bframe [OF s2(4,3) new(3) f1(1)]
  have fr: "file_of s2 = file_of s" "in_trans 7 s2" "free_blocks s2 = free_blocks s"
    using f1 f2 free_blocks_cong [of s2 s] bframe_kfs [OF new(5)] bframe_kfs [OF s2(4)] new(4) s2(3) in_trans_bframe [OF tr bframe_trans [OF new(5) s2(4)] s2(2)] by simp_all
  let ?de = "mk_dirent (ucast inum) (strncpy (\<lambda>_. 0) name DIRSIZ)"
  have link: "dirlink dp name inum s = rbind (writei dp False 0 ?de (of_nat (dirent_size * i)) (of_nat dirent_size) s2)
      (\<lambda>(r, s). if r \<noteq> int dirent_size then Inr (- 1, s) else Inr (0, s))"
    using new(1) s2(1) f1(3) by (simp add: dirlink_def Let_def del: of_nat_mult)
  have i: "i \<le> nents ?f" "i = nents ?f \<or> i < nents ?f \<and> de_inum (dirent_at ?f i) = 0" using s2(5) unfolding f1(2) by auto
  have len: "length ?f = dirent_size * nents ?f" using d by (simp add: nents_def)
  have lim: "dirent_size * i + dirent_size \<le> MAXFILE * BSIZE" using room len i(1) by (simp add: dirent_size_def)
  have dl: "dir_ok (file_write ?f (dirent_size * i) ?de)" "dir_map (file_write ?f (dirent_size * i) ?de) = (dir_map ?f)(cstr name DIRSIZ \<mapsto> ucast inum)"
    using dir_link [OF ok _ i(2) x, of "strncpy (\<lambda>_. 0) name DIRSIZ"] new(2) by (simp_all add: cstr_strncpy)
  have "dirent_size dvd length (file_of s2 dp)" "i \<le> nents (file_of s2 dp)" using d i(1) unfolding fr(1) by simp_all
  from fr(2) f2(1) inv(2) this lim mk_dirent_simps(1) show thesis
  proof (cases rule: write_dirent [where e = "mk_dirent (ucast inum) (strncpy (\<lambda>_. 0) name DIRSIZ)"])
    case (written s')
    then have "dirlink dp name inum s = Inr (0, s')" "file_of s' dp = file_write ?f (dirent_size * i) ?de"
      using link fr(1) by simp_all
    then show thesis using linked [of s'] written(2,5) dl fr(1) by simp
  next
    case (full s')
    then have "dirlink dp name inum s = Inr (- 1, s')" using link by (simp add: dirent_size_def)
    then show thesis using that(2) [of s'] full fr by simp
  qed
qed

lemma dirlink_duplicate:
  assumes "files_inv I s" "itable_ok s" "\<forall>jp\<in>I. 0 < i_ref (ino s jp)" "log_mem_ok {} s"
    and "dirlookup dp name s = rbind (iget ROOTDEV x s1) (\<lambda>(ip, s). Inr (Some (ip, off), s))" "log_mem_ok {} s1" "bview s1 = bview s" "bframe s s1"
  shows "dirlink dp name inum s = Inl (Panic ''iget: no inodes'') \<or>
    (\<exists>s'. dirlink dp name inum s = Inr (- 1, s') \<and> files_inv I s' \<and> (\<forall>jp\<in>I. file_of s' jp = file_of s jp))"
proof -
  note f1 = files_bframe [OF assms(8,7,4,1)]
  have it: "itable_ok s1" using assms(2) bframe_kfs [OF assms(8)] f1(3) by (simp add: itable_ok_def in_use_def)
  show ?thesis
  proof (cases "iget ROOTDEV x s1")
    case (Inl e)
    then have "e = Panic ''iget: no inodes''" by (simp add: iget_def split: option.splits)
    then show ?thesis using Inl assms(5) by (simp add: dirlink_def)
  next
    case (Inr q)
    then obtain ip s2 where q: "iget ROOTDEV x s1 = Inr (ip, s2)" by (cases q) simp
    obtain s' where s': "iput ip s2 = Inr s'" "bview s' = bview s1" "sb s' = sb s1" "log s' = log s1" "length (itable s') = length (itable s1)"
        "\<And>jp. 0 < i_ref (ino s1 jp) \<Longrightarrow> ino s' jp = ino s1 jp"
      by (rule iget_iput [OF it q]) blast
    have "files_inv I s'" "\<And>jp. jp \<in> I \<Longrightarrow> file_of s' jp = file_of s1 jp"
      by (rule files_inv_cong [OF f1(1) s'(2,3) _ s'(5)]; use s'(4,6) assms(3) f1(3) in simp)+
    then show ?thesis using q s'(1) assms(5) f1(2) by (simp add: dirlink_def)
  qed
qed

text \<open>C39: \<^verbatim>\<open>dirlink\<close> adds a name to a directory. In a transaction with room for it, a name that the directory does not have is added with its
  inode number, and the other names and the other files stay as they are; if the disk runs out of free blocks, which takes fewer than
  three, the result is -1 and nothing changes. A name that the directory has gives -1 and changes nothing; the only panic is an inode table with no free entry
  when that name is looked up. No name ever appears twice.\<close>

theorem dirlink_refines:
  assumes "in_trans 7 s" "files_inv I s" "dp \<in> I" "i_type (ino s dp) = T_DIR" "dir_ok (file_of s dp)"
    and "unat (i_size (ino s dp)) + dirent_size \<le> MAXFILE * BSIZE" "(ucast inum :: ushort) \<noteq> 0" "itable_ok s" "\<forall>jp\<in>I. 0 < i_ref (ino s jp)"
  shows "case dirlink dp name inum s of
      Inl e \<Rightarrow> e = Panic ''iget: no inodes'' \<and> dir_map (file_of s dp) (cstr name DIRSIZ) \<noteq> None
    | Inr (r, s') \<Rightarrow> files_inv I s' \<and> dir_ok (file_of s' dp) \<and> (\<forall>jp\<in>I. jp \<noteq> dp \<longrightarrow> file_of s' jp = file_of s jp) \<and>
        (r = 0 \<and> dir_map (file_of s dp) (cstr name DIRSIZ) = None \<and> dir_map (file_of s' dp) = (dir_map (file_of s dp))(cstr name DIRSIZ \<mapsto> ucast inum) \<or>
         r = - 1 \<and> file_of s' dp = file_of s dp \<and> (dir_map (file_of s dp) (cstr name DIRSIZ) = None \<longrightarrow> free_blocks s' = {} \<and> card (free_blocks s) \<le> 2))"
proof -
  let ?f = "file_of s dp" and ?nm = "cstr name DIRSIZ"
  have mem: "log_mem_ok {} s" and d: "dirent_size dvd length ?f" using assms(1,5) by (simp_all add: in_trans_def dir_ok_def)
  from mem assms(2-4) d show ?thesis
  proof (cases rule: dirlookup_ok [where name = name])
    case (absent s1)
    show ?thesis by (rule dirlink_new [OF assms(1-3,5-7) absent]) (use absent(2) assms(3,5) in simp_all)
  next
    case (present i x s1)
    then show ?thesis using dirlink_duplicate [OF assms(2,8,9) mem present(1,3-5), of inum] assms(3,5) by auto
  qed
qed

section \<open>Removing a name\<close>

lemma dirunlink_scan [consumes 4, case_names absent present]:
  assumes "log_mem_ok {} s" "files_inv I s" "dp \<in> I" "dirent_size dvd length (file_of s dp)"
  obtains (absent) s' where "dirunlink dp name s = Inr (- 1, s')" "dir_map (file_of s dp) (cstr name DIRSIZ) = None"
      "log_mem_ok {} s'" "bview s' = bview s" "bframe s s'"
    | (present) i s' where "dirunlink dp name s =
        rbind (writei dp False 0 (mk_dirent 0 (de_name (dirent_at (file_of s dp) i))) (of_nat (dirent_size * i)) (of_nat dirent_size) s')
           (\<lambda>(r, s). if r \<noteq> int dirent_size then Inr (- 1, s) else Inr (0, s))"
      "dir_map (file_of s dp) (cstr name DIRSIZ) = Some (de_inum (dirent_at (file_of s dp) i))" "log_mem_ok {} s'" "bview s' = bview s" "bframe s s'"
      "i < nents (file_of s dp)" "de_inum (dirent_at (file_of s dp) i) \<noteq> 0" "cstr (de_name (dirent_at (file_of s dp) i)) DIRSIZ = cstr name DIRSIZ"
proof -
  let ?f = "file_of s dp" and ?nm = "cstr name DIRSIZ"
  have hit: "strncmp (de_name de) name DIRSIZ = 0 \<and> de_inum de \<noteq> 0 \<longleftrightarrow> de_inum de \<noteq> 0 \<and> cstr (de_name de) DIRSIZ = ?nm" for de
    by (auto simp: strncmp_0_iff)
  let ?find = "find (\<lambda>i. de_inum (dirent_at ?f i) \<noteq> 0 \<and> cstr (de_name (dirent_at ?f i)) DIRSIZ = ?nm) [0..<nents ?f]"
  obtain s1 where s1: "log_mem_ok {} s1" "bview s1 = bview s" "bframe s s1" "dirunlink_from dp name 0 (length ?f) s = (case ?find of
         None \<Rightarrow> Inr (- 1, s1)
       | Some i \<Rightarrow> rbind (writei dp False 0 (mk_dirent 0 (de_name (dirent_at ?f i))) (of_nat (dirent_size * i)) (of_nat dirent_size) s1)
           (\<lambda>(r, s). if r \<noteq> int dirent_size then Inr (- 1, s) else Inr (0, s)))"
    using unlink_scan.scan_from [OF assms, of 0 name, unfolded hit] by auto
  show thesis
  proof (cases ?find)
    case None
    have "dirunlink dp name s = Inr (- 1, s1)" using s1(4) unfolding None by (simp add: dirunlink_def)
    moreover have "dir_map ?f ?nm = None" unfolding dir_map_def None by simp
    ultimately show thesis using absent s1 by blast
  next
    case (Some i)
    have "dir_map ?f ?nm = Some (de_inum (dirent_at ?f i))" unfolding dir_map_def Some by simp
    moreover have "i < nents ?f" "de_inum (dirent_at ?f i) \<noteq> 0" "cstr (de_name (dirent_at ?f i)) DIRSIZ = ?nm" using Some unfolding find_upt_Some by simp_all
    moreover note s1(4) [unfolded Some]
    ultimately show thesis using present [of i s1] s1(1-3) by (simp add: dirunlink_def)
  qed
qed

text \<open>C40: \<^verbatim>\<open>dirunlink\<close> removes a name from a directory. In a transaction with room for it, a name that the directory has is removed and the
  result is 0, whatever space there is on the disk; any other name gives -1 and changes nothing. The other names and the other files stay as they are.\<close>

theorem dirunlink_refines:
  assumes "in_trans 7 s" "files_inv I s" "dp \<in> I" "dir_ok (file_of s dp)"
  shows "\<exists>s'. dirunlink dp name s = Inr (if dir_map (file_of s dp) (cstr name DIRSIZ) = None then - 1 else 0, s') \<and> files_inv I s' \<and>
    dir_ok (file_of s' dp) \<and> (\<forall>jp\<in>I. jp \<noteq> dp \<longrightarrow> file_of s' jp = file_of s jp) \<and>
    dir_map (file_of s' dp) = (dir_map (file_of s dp))(cstr name DIRSIZ := None)"
proof -
  let ?f = "file_of s dp" and ?nm = "cstr name DIRSIZ"
  have mem: "log_mem_ok {} s" and d: "dirent_size dvd length ?f" using assms(1,4) by (simp_all add: in_trans_def dir_ok_def)
  from mem assms(2,3) d show ?thesis
  proof (cases rule: dirunlink_scan [where name = name])
    case (absent s1)
    then show ?thesis using files_bframe [OF absent(5,4) mem assms(2)] assms(4) by (auto simp: fun_upd_idem)
  next
    case (present i s1)
    note f1 = files_bframe [OF present(5,4) mem assms(2)]
    let ?de = "mk_dirent 0 (de_name (dirent_at ?f i))"
    have g: "dirent_size dvd length (file_of s1 dp)" "i \<le> nents (file_of s1 dp)" using d present(6) unfolding f1(2) by simp_all
    have "length ?f = dirent_size * nents ?f" using d by (simp add: nents_def)
    then have "dirent_size * i + dirent_size \<le> MAXFILE * BSIZE" using present(6) files_invD(2) [OF assms(2,3)] by (simp add: dirent_size_def)
    with in_trans_bframe [OF assms(1) present(5,3)] f1(1) assms(3) g show ?thesis
      using mk_dirent_simps(1) [of 0 "de_name (dirent_at ?f i)"]
    proof (cases rule: write_dirent [where e = ?de])
      case (written s')
      then have "file_of s' dp = file_write ?f (dirent_size * i) ?de" unfolding f1(2) by simp
      then show ?thesis using written dir_unlink [OF assms(4) present(6,7)] present(1,2,8) f1(2) by simp
    next
      case (full s')
      then show ?thesis using present(6) f1(2) by simp
    qed
  qed
qed

section \<open>An example\<close>

declare T_DIR_def [simp del]

lemma nines_dir:
  "dir_ok (replicate 16 9)" "nents (replicate 16 9) = 1" "dir_map (replicate 16 9) = [replicate 14 9 \<mapsto> 2313]"
proof -
  have n: "nents (replicate 16 9) = 1" by (simp add: nents_def dirent_size_def)
  have e: "dirent_at (replicate 16 9) 0 = replicate 16 9" by (simp add: dirent_at_def dirent_size_def)
  have i: "de_inum (replicate 16 9) = 2313" by code_simp
  have "map (de_name (replicate 16 9)) [0..<DIRSIZ] = replicate 14 9" by (rule nth_equalityI) (simp_all add: de_name_def str_view_def DIRSIZ_def)
  then have c: "cstr (de_name (replicate 16 9)) DIRSIZ = replicate 14 9" by (simp add: cstr_def takeWhile_eq_all_conv)
  show "nents (replicate 16 9) = 1" by (rule n)
  show "dir_ok (replicate 16 9)" by (simp add: dir_ok_def n dirent_size_def)
  show "dir_map (replicate 16 9) = [replicate 14 9 \<mapsto> 2313]" by (rule ext) (auto simp: dir_map_def n e i c)
qed

lemma nines_dir_state:
  "log_mem_ok {} (nines T_DIR 16)" "files_inv {7} (nines T_DIR 16)" "i_type (ino (nines T_DIR 16) 7) = T_DIR" "i_size (ino (nines T_DIR 16) 7) = 16"
  "file_of (nines T_DIR 16) 7 = replicate 16 9" "in_trans 7 (nines T_DIR 16)" "itable_ok (nines T_DIR 16)" "i_ref (ino (nines T_DIR 16) 7) = 1"
  "card (free_blocks (nines T_DIR 16)) = 16"
proof -
  let ?s = "nines T_DIR 16"
  have ino: "ino ?s i = (if i = 7 then nines_inode T_DIR 16 else blank_inode)" if "i < NINODE" for i
    using that by (simp add: nines_def ino_def nth_list_update)
  show "i_type (ino ?s 7) = T_DIR" "i_size (ino ?s 7) = 16" "i_ref (ino ?s 7) = 1" by (simp_all add: ino nines_inode_def)
  show "files_inv {7} ?s" "file_of ?s 7 = replicate 16 9" "in_trans 7 ?s" "card (free_blocks ?s) = 16"
    using nines_ok(1-3) [of 16 T_DIR] nines_ok(4) [of 16 7 T_DIR] by simp_all
  then show "log_mem_ok {} ?s" by (simp add: in_trans_def)
  show "itable_ok ?s" unfolding itable_ok_def in_use_def
    by (auto simp: ino nines_inode_def blank_inode_def split: if_splits) (simp add: nines_def)
qed

definition letter_a :: "nat \<Rightarrow> uchar" where
  "letter_a i = (if i = 0 then 97 else 0)"

lemma letter_a: "cstr letter_a DIRSIZ = [97]" "[97] \<noteq> replicate 14 (9 :: uchar)" "replicate 14 (9 :: uchar) \<noteq> [97]"
  by (simp_all add: cstr_def letter_a_def DIRSIZ_def upt_rec) (auto dest: arg_cong [of _ _ length])

theorem dirlookup_refines_witness:
  "(\<exists>s'. dirlookup 7 letter_a (nines T_DIR 16) = Inr (None, s')) \<and>
   (\<exists>s'. dirlookup 7 (\<lambda>_. 9) (nines T_DIR 16) = rbind (iget ROOTDEV 2313 s') (\<lambda>(ip, s). Inr (Some (ip, 0), s)))"
proof -
  have "cstr (\<lambda>_. 9) DIRSIZ = replicate 14 9" by (simp add: cstr_def DIRSIZ_def takeWhile_eq_all_conv map_replicate_const)
  then show ?thesis
    using dirlookup_refines [of "nines T_DIR 16" "{7}" 7 letter_a] dirlookup_refines [of "nines T_DIR 16" "{7}" 7 "\<lambda>_. 9"] nines_dir nines_dir_state
    by (auto simp: letter_a)
qed

theorem dirlink_refines_witness:
  "\<exists>s'. dirlink 7 letter_a 5 (nines T_DIR 16) = Inr (0, s') \<and> dir_map (file_of s' 7) = [replicate 14 9 \<mapsto> 2313, [97] \<mapsto> 5]"
  using dirlink_refines [of "nines T_DIR 16" "{7}" 7 5 letter_a] nines_dir nines_dir_state
  by (auto simp: letter_a MAXFILE_def NDIRECT_def NINDIRECT_def BSIZE_def dirent_size_def split: sum.splits prod.splits)

theorem dirunlink_refines_witness:
  "\<exists>s'. dirunlink 7 (\<lambda>_. 9) (nines T_DIR 16) = Inr (0, s') \<and> dir_map (file_of s' 7) = Map.empty"
proof -
  have "cstr (\<lambda>_. 9) DIRSIZ = replicate 14 9" by (simp add: cstr_def DIRSIZ_def takeWhile_eq_all_conv map_replicate_const)
  then show ?thesis using dirunlink_refines [of "nines T_DIR 16" "{7}" 7 "\<lambda>_. 9"] nines_dir nines_dir_state by auto
qed

end
