(* ===== verification/Consio.thy ===== *)
theory Consio
  imports Console Ring Bitmap
begin

text \<open>
  The two ring buffers of the console. The transmit buffer of \<^verbatim>\<open>kernel/uart.c\<close> is shown to be a
  first-in first-out queue between \<^verbatim>\<open>uartputc\<close> and the chip, and the input buffer of
  \<^verbatim>\<open>kernel/console.c\<close> to refine an editor of lines on lists.
\<close>

section \<open>Output arrives in order\<close>

interpretation uart_ring: ring_buffer UART_TX_BUF_SIZE "TYPE(64)"
  by unfold_locales simp_all

definition uart_pending :: "'z kcons_scheme \<Rightarrow> uchar list" where
  "uart_pending s = ring_items UART_TX_BUF_SIZE (uart_tx_buf s) (uart_tx_r s) (uart_tx_w s)"

definition uart_ok :: "'z kcons_scheme \<Rightarrow> bool" where
  "uart_ok s \<longleftrightarrow> length (uart_tx_buf s) = UART_TX_BUF_SIZE \<and> unat (uart_tx_w s - uart_tx_r s) \<le> UART_TX_BUF_SIZE"

lemma wakeup_cons [simp]:
  "uart_out (wakeup ch s) = uart_out s" "uart_room (wakeup ch s) = uart_room s" "uart_tx_buf (wakeup ch s) = uart_tx_buf s"
  "uart_tx_r (wakeup ch s) = uart_tx_r s" "uart_tx_w (wakeup ch s) = uart_tx_w s" "panicked (wakeup ch s) = panicked s"
  "cons_buf (wakeup ch s) = cons_buf s" "cons_r (wakeup ch s) = cons_r s" "cons_w (wakeup ch s) = cons_w s"
  "cons_e (wakeup ch s) = cons_e s"
  by (simp_all add: wakeup_def)

text \<open>\<^verbatim>\<open>uartstart\<close> moves bytes from the buffer to the chip until one is empty or the other full.\<close>

lemma uartstart_moves:
  assumes "uart_ok s"
  shows "uart_ok (uartstart s) \<and> uart_out (uartstart s) @ uart_pending (uartstart s) = uart_out s @ uart_pending s \<and>
    (uart_pending (uartstart s) = [] \<or> uart_room (uartstart s) = 0) \<and> panicked (uartstart s) = panicked s"
  using assms
proof (induction s rule: uartstart.induct)
  case (1 s)
  show ?case
  proof (cases "uart_tx_w s = uart_tx_r s \<or> uart_room s = 0")
    case True
    then have "uartstart s = s" by (auto simp: uartstart.simps [of s])
    then show ?thesis using True 1(2) by (auto simp: uart_pending_def)
  next
    case False
    let ?c = "uart_tx_buf s ! (unat (uart_tx_r s) mod UART_TX_BUF_SIZE)"
    let ?s = "write_thr ?c (wakeup Chan_uart_tx_r (s\<lparr>uart_tx_r := uart_tx_r s + 1\<rparr>))"
    have run: "uartstart s = uartstart ?s" using False by (subst uartstart.simps) (simp add: Let_def)
    have ne: "uart_tx_w s \<noteq> uart_tx_r s" using False by simp
    have "uart_ok ?s" using 1(2) uart_ring.count_down [OF ne] by (simp add: uart_ok_def write_thr_def)
    moreover have "uart_out ?s @ uart_pending ?s = uart_out s @ uart_pending s"
      using uart_ring.items_get [OF ne, of "uart_tx_buf s"] by (simp add: uart_pending_def write_thr_def)
    moreover have "panicked ?s = panicked s" by (simp add: write_thr_def)
    ultimately show ?thesis
      using 1(1) [OF _ _ refl refl refl] False unfolding run by simp
  qed
qed

lemma uartputc_queues:
  assumes "uart_ok s" "uartputc c s = Inr s'"
  shows "uart_ok s' \<and> uart_out s' @ uart_pending s' = uart_out s @ uart_pending s @ [c] \<and>
    (uart_pending s' = [] \<or> uart_room s' = 0)"
proof -
  let ?s = "s\<lparr>uart_tx_buf := (uart_tx_buf s)[unat (uart_tx_w s) mod UART_TX_BUF_SIZE := c], uart_tx_w := uart_tx_w s + 1\<rparr>"
  have r: "\<not> panicked s" "uart_tx_w s \<noteq> uart_tx_r s + of_nat UART_TX_BUF_SIZE" "s' = uartstart ?s"
    using assms(2) by (auto simp: uartputc_def Let_def split: if_splits)
  have lt: "unat (uart_tx_w s - uart_tx_r s) < UART_TX_BUF_SIZE"
  proof -
    have "uart_tx_w s - uart_tx_r s \<noteq> of_nat UART_TX_BUF_SIZE" using r(2) by (metis add.commute diff_add_cancel)
    then have "unat (uart_tx_w s - uart_tx_r s) \<noteq> UART_TX_BUF_SIZE" by (simp add: word_unat_eq_iff)
    then show ?thesis using assms(1) by (simp add: uart_ok_def)
  qed
  have "uart_ok ?s" using assms(1) uart_ring.count_up [OF lt] lt by (simp add: uart_ok_def)
  moreover have "uart_pending ?s = uart_pending s @ [c]"
    using uart_ring.items_put [OF _ lt, of "uart_tx_buf s" c] assms(1) by (simp add: uart_pending_def uart_ok_def)
  ultimately show ?thesis using uartstart_moves [of ?s] r(1,3) by simp
qed

text \<open>A console whose counters are about to wrap around and whose transmitter has room for one byte.\<close>

definition boot_kcons :: kcons where
  "boot_kcons = kfs.extend (mounted (\<lambda>_ _. 0))
     \<lparr>uart_in = [], uart_out = [], uart_room = 1, uart_tx_buf = replicate UART_TX_BUF_SIZE 0,
      uart_tx_w = 0xFFFFFFFFFFFFFFFF, uart_tx_r = 0xFFFFFFFFFFFFFFFF, panicked = False,
      cons_buf = replicate INPUT_BUF_SIZE 0, cons_r = 0xFFFFFFFF, cons_w = 0xFFFFFFFF, cons_e = 0xFFFFFFFF, devsw_tab = []\<rparr>"

lemma boot_kcons_simps [simp]:
  "uart_out boot_kcons = []" "uart_room boot_kcons = 1" "uart_tx_buf boot_kcons = replicate 32 0" "uart_tx_w boot_kcons = 0xFFFFFFFFFFFFFFFF"
  "uart_tx_r boot_kcons = 0xFFFFFFFFFFFFFFFF" "\<not> panicked boot_kcons" "cons_buf boot_kcons = replicate 128 0"
  "cons_r boot_kcons = 0xFFFFFFFF" "cons_w boot_kcons = 0xFFFFFFFF" "cons_e boot_kcons = 0xFFFFFFFF"
  by (simp_all add: boot_kcons_def kfs.extend_def)

text \<open>C21: the serial output keeps its order. After any sequence of \<^verbatim>\<open>uartputc\<close> calls that return, what the chip has
  received followed by what waits in the transmit buffer is what there was before followed by the bytes of the calls, in order;
  and a byte waits only while the transmitter is full.\<close>

theorem uart_output_in_order:
  assumes "rfold uartputc cs s = Inr s'" "uart_ok s" "uart_pending s = [] \<or> uart_room s = 0"
  shows "uart_out s' @ uart_pending s' = uart_out s @ uart_pending s @ cs \<and> length (uart_pending s') \<le> UART_TX_BUF_SIZE \<and>
    (uart_pending s' = [] \<or> uart_room s' = 0)"
  using assms
proof (induction cs arbitrary: s)
  case Nil
  then show ?case by (auto simp: uart_ok_def uart_pending_def)
next
  case (Cons c cs)
  obtain s1 where s1: "uartputc c s = Inr s1" "rfold uartputc cs s1 = Inr s'"
    using Cons.prems(1) by (auto simp: rbind_eq_Inr)
  note q = uartputc_queues [OF Cons.prems(2) s1(1)]
  then show ?case using Cons.IH [OF s1(2)] by simp
qed

theorem uart_output_in_order_witness:
  "\<exists>s. rfold uartputc [104, 105] boot_kcons = Inr s \<and> uart_out s @ uart_pending s = [104, 105] \<and> uart_out s = [104]"
proof -
  obtain s where s: "rfold uartputc [104, 105] boot_kcons = Inr s" "uart_out s = [104]"
    by (simp add: uartputc_def uartstart.simps write_thr_def Let_def rbind_simps)
  have "uart_ok boot_kcons" "uart_pending boot_kcons = []" by (simp_all add: uart_ok_def uart_pending_def ring_items_def)
  then show ?thesis using uart_output_in_order [OF s(1)] s by auto
qed

section \<open>The line editor\<close>

text \<open>
  The console input as two lists: the bytes that a reader may have, and the line that is being
  edited. \<open>line_edit\<close> is what a character from the keyboard does to them.
\<close>

definition line_edit :: "int \<Rightarrow> uchar list \<times> uchar list \<Rightarrow> uchar list \<times> uchar list" where
  "line_edit c = (\<lambda>(q, e).
     if c = Ctrl 80 then (q, e)
     else if c = Ctrl 85 then (q, [])
     else if c = Ctrl 72 \<or> c = 127 then (q, butlast e)
     else if c \<noteq> 0 \<and> length q + length e < INPUT_BUF_SIZE then
       let c = (if c = 13 then 10 else c); e = e @ [word_of_int c] in
       if c = 10 \<or> c = Ctrl 68 \<or> length q + length e = INPUT_BUF_SIZE then (q @ e, []) else (q, e)
     else (q, e))"

definition cons_lines :: "'z kcons_scheme \<Rightarrow> uchar list \<times> uchar list" where
  "cons_lines s = (ring_items INPUT_BUF_SIZE (cons_buf s) (cons_r s) (cons_w s),
     ring_items INPUT_BUF_SIZE (cons_buf s) (cons_w s) (cons_e s))"

definition cons_ok :: "'z kcons_scheme \<Rightarrow> bool" where
  "cons_ok s \<longleftrightarrow> length (cons_buf s) = INPUT_BUF_SIZE \<and>
     unat (cons_w s - cons_r s) + unat (cons_e s - cons_w s) \<le> INPUT_BUF_SIZE \<and> 10 \<notin> set (snd (cons_lines s))"

interpretation cons_ring: ring_buffer INPUT_BUF_SIZE "TYPE(32)"
  by unfold_locales simp_all

text \<open>What printing to the console leaves alone.\<close>

definition same_cons :: "'z kcons_scheme \<Rightarrow> 'z kcons_scheme \<Rightarrow> bool" where
  "same_cons s s' \<longleftrightarrow> cons_buf s' = cons_buf s \<and> cons_r s' = cons_r s \<and> cons_w s' = cons_w s \<and> cons_e s' = cons_e s \<and>
     panicked s' = panicked s"

lemma rfold_same_cons:
  assumes "\<And>x s. \<not> panicked s \<Longrightarrow> \<exists>s'. f x s = Inr s' \<and> same_cons s s'" "\<not> panicked s"
  shows "\<exists>s'. rfold f xs s = Inr s' \<and> same_cons s s'"
  using assms(2)
proof (induction xs arbitrary: s)
  case Nil
  then show ?case by (simp add: same_cons_def)
next
  case (Cons x xs)
  obtain s1 where s1: "f x s = Inr s1" "same_cons s s1" using assms(1) Cons.prems by blast
  then obtain s' where "rfold f xs s1 = Inr s'" "same_cons s1 s'"
    using Cons.IH [of s1] Cons.prems by (auto simp: same_cons_def)
  with s1 show ?case by (auto simp: same_cons_def)
qed

lemma uartputc_sync_same: "\<not> panicked s \<Longrightarrow> \<exists>s'. uartputc_sync c s = Inr s' \<and> same_cons s s'"
  by (simp add: uartputc_sync_def write_thr_def same_cons_def)

lemma consputc_same: "\<not> panicked s \<Longrightarrow> \<exists>s'. consputc c s = Inr s' \<and> same_cons s s'"
proof -
  assume n: "\<not> panicked s"
  have "\<exists>s'. rfold uartputc_sync [8, 32, 8] s = Inr s' \<and> same_cons s s'"
    by (rule rfold_same_cons [OF uartputc_sync_same n])
  then show ?thesis using uartputc_sync_same [OF n] unfolding consputc_def by (cases "c = BACKSPACE") (simp_all only: if_True if_False simp_thms)
qed

lemma kputs_same: "\<not> panicked s \<Longrightarrow> \<exists>s'. kputs cs s = Inr s' \<and> same_cons s s'"
  unfolding kputs_def by (rule rfold_same_cons [OF consputc_same])

lemma printf_same: "kprintf fmt as = Inr t \<Longrightarrow> \<not> panicked s \<Longrightarrow> \<exists>s'. printf fmt as s = Inr s' \<and> same_cons s s'"
  by (simp add: printf_def kputs_same)

lemma procdump_formats:
  "kprintf (bytes ''\<newline>'') [] = Inr [10]"
  "kprintf (bytes ''%d %s %s'') [AInt x, AStr (Some a), AStr (Some b)] = Inr (printint x 10 True @ 32 # a @ 32 # b)"
  by (simp_all add: bytes_def)

lemma procdump_same:
  assumes "\<not> panicked s"
  shows "\<exists>s'. procdump s = Inr s' \<and> same_cons s s'"
proof -
  let ?one = "\<lambda>p s. if p_state p = UNUSED then Inr s
    else rbind (printf (bytes ''%d %s %s'')
        [AInt (word_of_int (p_pid p)), AStr (Some (bytes (state_name (p_state p)))), AStr (Some (cstr (p_name p) 16))] s)
      (\<lambda>s. printf (bytes ''\<newline>'') [] s)"
  have line: "\<exists>s'. ?one p s = Inr s' \<and> same_cons s s'" if n: "\<not> panicked s" for p and s :: "'a kcons_scheme"
  proof (cases "p_state p = UNUSED")
    case False
    obtain s1 where s1: "printf (bytes ''%d %s %s'')
        [AInt (word_of_int (p_pid p)), AStr (Some (bytes (state_name (p_state p)))), AStr (Some (cstr (p_name p) 16))] s = Inr s1"
        "same_cons s s1"
      using printf_same [OF procdump_formats(2) n] by blast
    then obtain s2 where "printf (bytes ''\<newline>'') [] s1 = Inr s2" "same_cons s1 s2"
      using printf_same [OF procdump_formats(1), of s1] n by (auto simp: same_cons_def)
    with s1 False show ?thesis by (auto simp: same_cons_def)
  qed (simp add: same_cons_def)
  obtain s1 where s1: "printf (bytes ''\<newline>'') [] s = Inr s1" "same_cons s s1"
    using printf_same [OF procdump_formats(1) assms] by blast
  have np: "\<not> panicked s1" using s1(2) assms by (simp add: same_cons_def)
  obtain s2 where s2: "rfold ?one (procs s) s1 = Inr s2" "same_cons s1 s2"
    using rfold_same_cons [of ?one, OF line np] by blast
  have "procdump s = Inr s2" using s2(1) unfolding procdump_def s1(1) by (simp only: rbind_simps)
  with s1(2) s2(2) show ?thesis by (auto simp: same_cons_def)
qed

lemma cons_same: "same_cons s s' \<Longrightarrow> cons_lines s' = cons_lines s \<and> cons_ok s' = cons_ok s"
  by (simp add: same_cons_def cons_lines_def cons_ok_def)

lemma cons_drop_last:
  assumes "cons_ok s" "cons_e s \<noteq> cons_w s"
  shows "cons_ok (s\<lparr>cons_e := cons_e s - 1\<rparr>)"
    "cons_lines (s\<lparr>cons_e := cons_e s - 1\<rparr>) = (fst (cons_lines s), butlast (snd (cons_lines s)))"
    "cons_buf s ! (unat (cons_e s - 1) mod INPUT_BUF_SIZE) \<noteq> 10"
proof -
  note u = cons_ring.items_unput [OF assms(2), of "cons_buf s"]
  show l: "cons_lines (s\<lparr>cons_e := cons_e s - 1\<rparr>) = (fst (cons_lines s), butlast (snd (cons_lines s)))"
    using u by (simp add: cons_lines_def)
  have "unat (cons_e s - 1 - cons_w s) \<le> unat (cons_e s - cons_w s)"
    using unat_diff_Suc [OF assms(2)] by (simp add: diff_diff_eq add.commute)
  then show "cons_ok (s\<lparr>cons_e := cons_e s - 1\<rparr>)" using assms(1) l by (auto simp: cons_ok_def dest: in_set_butlastD)
  show "cons_buf s ! (unat (cons_e s - 1) mod INPUT_BUF_SIZE) \<noteq> 10" using assms(1) u by (auto simp: cons_ok_def cons_lines_def)
qed

lemma kill_line_empties:
  assumes "cons_ok s" "\<not> panicked s"
  shows "\<exists>s'. kill_line s = Inr s' \<and> same_cons (s\<lparr>cons_e := cons_w s\<rparr>) s'"
  using assms
proof (induction s rule: kill_line.induct)
  case (1 s)
  show ?case
  proof (cases "cons_e s = cons_w s")
    case True
    then have "s\<lparr>cons_e := cons_w s\<rparr> = s" by (metis kcons.surjective kcons.update_convs(11))
    with True show ?thesis by (simp add: kill_line.simps same_cons_def)
  next
    case False
    let ?s = "s\<lparr>cons_e := cons_e s - 1\<rparr>"
    note d = cons_drop_last [OF 1(2) False]
    obtain s1 where s1: "consputc BACKSPACE ?s = Inr s1" "same_cons ?s s1"
      using consputc_same [of ?s BACKSPACE] 1(3) by auto
    have "cons_ok s1" "\<not> panicked s1" using cons_same [OF s1(2)] d(1) s1(2) 1(3) by (auto simp: same_cons_def)
    then obtain s2 where s2: "kill_line s1 = Inr s2" "same_cons (s1\<lparr>cons_e := cons_w s1\<rparr>) s2"
      using 1(1) [OF _ s1(1)] False d(3) by auto
    have "kill_line s = Inr s2" using False d(3) s1(1) s2(1) by (simp add: kill_line.simps [of s])
    moreover have "same_cons (s\<lparr>cons_e := cons_w s\<rparr>) s2" using s1(2) s2(2) by (simp add: same_cons_def)
    ultimately show ?thesis by blast
  qed
qed

lemma cons_put:
  assumes ok: "cons_ok s" and lt: "unat (cons_e s - cons_r s) < INPUT_BUF_SIZE"
    and s': "s' = s\<lparr>cons_buf := (cons_buf s)[unat (cons_e s) mod INPUT_BUF_SIZE := c], cons_e := cons_e s + 1\<rparr>"
  shows "cons_lines s' = (fst (cons_lines s), snd (cons_lines s) @ [c])"
    "cons_lines (s'\<lparr>cons_w := cons_e s'\<rparr>) = (fst (cons_lines s) @ snd (cons_lines s) @ [c], [])"
    "unat (cons_e s' - cons_r s') = Suc (unat (cons_e s - cons_r s))"
    "unat (cons_w s' - cons_r s') + unat (cons_e s' - cons_w s') = unat (cons_e s' - cons_r s')"
proof -
  let ?r = "cons_r s" and ?w = "cons_w s" and ?e = "cons_e s" and ?b = "cons_buf s" and ?N = INPUT_BUF_SIZE
  let ?b' = "?b[unat ?e mod ?N := c]"
  have len: "length ?b = ?N" and sum: "unat (?w - ?r) + unat (?e - ?w) \<le> ?N" using ok by (simp_all add: cons_ok_def)
  have "?e - ?r = (?w - ?r) + (?e - ?w)" by simp
  then have er: "unat (?e - ?r) = unat (?w - ?r) + unat (?e - ?w)"
    using sum unat_add_lem [of "?w - ?r" "?e - ?w"] by simp
  then have ew: "unat (?e - ?w) < ?N" using lt by simp
  note up = cons_ring.count_up [OF lt] cons_ring.count_up [OF ew]
  have old: "ring_items ?N ?b ?r ?e = ring_items ?N ?b ?r ?w @ ring_items ?N ?b ?w ?e"
    using sum by (intro cons_ring.items_split) simp
  have new: "ring_items ?N ?b' ?r (?e + 1) = ring_items ?N ?b' ?r ?w @ ring_items ?N ?b' ?w (?e + 1)"
    using sum up by (intro cons_ring.items_split) simp
  have all: "ring_items ?N ?b' ?r (?e + 1) = ring_items ?N ?b ?r ?w @ ring_items ?N ?b ?w ?e @ [c]"
    using cons_ring.items_put [OF len lt, of c] old by simp
  have "ring_items ?N ?b' ?r ?w = ring_items ?N ?b ?r ?w" "ring_items ?N ?b' ?w (?e + 1) = ring_items ?N ?b ?w ?e @ [c]"
    using all new by (simp_all del: INPUT_BUF_SIZE_def)
  with all show "cons_lines s' = (fst (cons_lines s), snd (cons_lines s) @ [c])"
    "cons_lines (s'\<lparr>cons_w := cons_e s'\<rparr>) = (fst (cons_lines s) @ snd (cons_lines s) @ [c], [])"
    by (simp_all add: cons_lines_def s')
  show "unat (cons_e s' - cons_r s') = Suc (unat (cons_e s - cons_r s))"
    "unat (cons_w s' - cons_r s') + unat (cons_e s' - cons_w s') = unat (cons_e s' - cons_r s')"
    using up er by (simp_all add: s')
qed

lemma cons_count:
  assumes "cons_ok s"
  shows "unat (cons_e s - cons_r s) = length (fst (cons_lines s)) + length (snd (cons_lines s))"
proof -
  have "cons_e s - cons_r s = (cons_w s - cons_r s) + (cons_e s - cons_w s)" by simp
  then show ?thesis
    using assms unat_add_lem [of "cons_w s - cons_r s" "cons_e s - cons_w s"] by (simp add: cons_ok_def cons_lines_def)
qed

lemma consoleintr_insert:
  assumes ok: "cons_ok s" and np: "\<not> panicked s" and c: "c = 10 \<or> word_of_int c \<noteq> (10 :: uchar)"
    and lt: "unat (cons_e s - cons_r s) < INPUT_BUF_SIZE"
    and run: "consputc c s = Inr s1"
    and s2: "s2 = s1\<lparr>cons_buf := (cons_buf s1)[unat (cons_e s1) mod INPUT_BUF_SIZE := word_of_int c], cons_e := cons_e s1 + 1\<rparr>"
    and s': "s' = (if c = 10 \<or> c = Ctrl 68 \<or> cons_e s2 - cons_r s2 = of_nat INPUT_BUF_SIZE
      then wakeup Chan_cons_r (s2\<lparr>cons_w := cons_e s2\<rparr>) else s2)"
  shows "cons_ok s' \<and> cons_lines s' = (let (q, e) = cons_lines s; e = e @ [word_of_int c] in
    if c = 10 \<or> c = Ctrl 68 \<or> length q + length e = INPUT_BUF_SIZE then (q @ e, []) else (q, e))"
proof -
  obtain q e where qe: "cons_lines s = (q, e)" by (rule prod.exhaust)
  have same: "same_cons s s1" using consputc_same [OF np, of c] run by auto
  have ok1: "cons_ok s1" and l1: "cons_lines s1 = (q, e)" and lt1: "unat (cons_e s1 - cons_r s1) < INPUT_BUF_SIZE"
    using cons_same [OF same] ok qe lt same by (auto simp: same_cons_def)
  note p = cons_put [OF ok1 lt1 s2]
  have n: "unat (cons_e s2 - cons_r s2) = Suc (length q + length e)" using p(3) cons_count [OF ok1] l1 by simp
  then have full: "cons_e s2 - cons_r s2 = of_nat INPUT_BUF_SIZE \<longleftrightarrow> length q + length (e @ [word_of_int c :: uchar]) = INPUT_BUF_SIZE"
    by (simp add: word_unat_eq_iff)
  have len: "length (cons_buf s2) = INPUT_BUF_SIZE" using ok1 by (simp add: s2 cons_ok_def)
  show ?thesis
  proof (cases "c = 10 \<or> c = Ctrl 68 \<or> cons_e s2 - cons_r s2 = of_nat INPUT_BUF_SIZE")
    case True
    let ?t = "s2\<lparr>cons_w := cons_e s2\<rparr>"
    have s: "s' = wakeup Chan_cons_r ?t" using True by (simp only: s' if_True)
    have "cons_lines ?t = (q @ e @ [word_of_int c], [])" using p(2) l1 by simp
    moreover have "cons_lines s' = cons_lines ?t" by (simp add: s cons_lines_def)
    moreover have "cons_ok s'" using p(2) n len lt1 p(3) by (simp add: s cons_ok_def cons_lines_def)
    ultimately show ?thesis using True full by (simp add: qe Let_def)
  next
    case False
    then have s: "s' = s2" by (simp only: s' if_False)
    have "cons_lines s' = (q, e @ [word_of_int c])" using p(1) l1 by (simp add: s)
    moreover have "cons_ok s'"
    proof -
      have "10 \<notin> set (snd (cons_lines s1))" using ok1 by (simp add: cons_ok_def)
      then have "10 \<notin> set (snd (cons_lines s2))" using p(1) c False by auto
      then show ?thesis using len p(3,4) lt1 by (simp add: s cons_ok_def)
    qed
    ultimately show ?thesis using False full by (simp add: qe Let_def)
  qed
qed

text \<open>C22: the console is a line editor. On the input seen as the bytes ready for readers and the line being edited,
  \<^verbatim>\<open>consoleintr\<close> does exactly what \<open>line_edit\<close> says for every character: it deletes a character or the whole line, appends
  to the line while the buffer has room, with a carriage return turned into a newline, and hands the line over at a newline, at end
  of file or when the buffer is full. The indices stay in order and no more than the buffer apart.\<close>

theorem consoleintr_refines_line_edit:
  assumes "cons_ok s" "\<not> panicked s" "0 \<le> c" "c < 256"
  shows "\<exists>s'. consoleintr c s = Inr s' \<and> cons_ok s' \<and> cons_lines s' = line_edit c (cons_lines s)"
proof -
  obtain q e where qe: "cons_lines s = (q, e)" by (rule prod.exhaust)
  have cnt: "unat (cons_e s - cons_r s) = length q + length e" using cons_count [OF assms(1)] qe by simp
  consider "c = Ctrl 80" | "c = Ctrl 85" | "c = Ctrl 72 \<or> c = 127" | "c \<notin> {Ctrl 80, Ctrl 85, Ctrl 72, 127}" "c = 0 \<or> \<not> length q + length e < INPUT_BUF_SIZE"
    | "c \<notin> {Ctrl 80, Ctrl 85, Ctrl 72, 127}" "c \<noteq> 0" "length q + length e < INPUT_BUF_SIZE" by blast
  then show ?thesis
  proof cases
    case 1
    obtain s' where "procdump s = Inr s'" "same_cons s s'" using procdump_same [OF assms(2)] by blast
    with 1 cons_same [OF this(2)] assms(1) show ?thesis by (simp add: consoleintr_def line_edit_def qe)
  next
    case 2
    obtain s' where s': "kill_line s = Inr s'" "same_cons (s\<lparr>cons_e := cons_w s\<rparr>) s'" using kill_line_empties [OF assms(1,2)] by blast
    have "cons_ok (s\<lparr>cons_e := cons_w s\<rparr>)" "cons_lines (s\<lparr>cons_e := cons_w s\<rparr>) = (q, [])"
      using assms(1) qe by (simp_all add: cons_ok_def cons_lines_def)
    with 2 s' cons_same [OF s'(2)] show ?thesis by (simp add: consoleintr_def line_edit_def qe)
  next
    case 3
    show ?thesis
    proof (cases "cons_e s = cons_w s")
      case True
      then have "e = []" using qe by (simp add: cons_lines_def)
      with 3 True assms(1) show ?thesis by (auto simp: consoleintr_def line_edit_def qe)
    next
      case False
      let ?s = "s\<lparr>cons_e := cons_e s - 1\<rparr>"
      obtain s' where s': "consputc BACKSPACE ?s = Inr s'" "same_cons ?s s'" using consputc_same [of ?s] assms(2) by auto
      have "consoleintr c s = Inr s'" using 3 False s'(1) by (auto simp: consoleintr_def)
      moreover have "line_edit c (q, e) = (q, butlast e)" using 3 by (auto simp: line_edit_def)
      ultimately show ?thesis using cons_same [OF s'(2)] cons_drop_last [OF assms(1) False] qe by simp
    qed
  next
    case 4
    then show ?thesis using assms(1) cnt by (auto simp: consoleintr_def line_edit_def qe)
  next
    case 5
    define d where "d = (if c = 13 then 10 else c)"
    have d: "d = 10 \<or> word_of_int d \<noteq> (10 :: uchar)"
      using assms(3,4) by (auto simp: d_def word_uint_eq_iff uint_word_of_int)
    obtain s1 where s1: "consputc d s = Inr s1" using consputc_same [OF assms(2)] by blast
    define s2 where "s2 = s1\<lparr>cons_buf := (cons_buf s1)[unat (cons_e s1) mod INPUT_BUF_SIZE := word_of_int d], cons_e := cons_e s1 + 1\<rparr>"
    define s' where "s' = (if d = 10 \<or> d = Ctrl 68 \<or> cons_e s2 - cons_r s2 = of_nat INPUT_BUF_SIZE
      then wakeup Chan_cons_r (s2\<lparr>cons_w := cons_e s2\<rparr>) else s2)"
    have lt: "unat (cons_e s - cons_r s) < INPUT_BUF_SIZE" using cnt 5 by simp
    have "consoleintr c s = Inr s'"
      using 5 lt s1 unfolding consoleintr_def d_def [symmetric] by (simp add: s2_def s'_def Let_def)
    moreover have "line_edit c (q, e) = (let e = e @ [word_of_int d] in
        if d = 10 \<or> d = Ctrl 68 \<or> length q + length e = INPUT_BUF_SIZE then (q @ e, []) else (q, e))"
      using 5 unfolding line_edit_def d_def [symmetric] by simp
    ultimately show ?thesis using consoleintr_insert [OF assms(1,2) d lt s1 s2_def s'_def] qe by simp
  qed
qed

theorem consoleintr_refines_line_edit_witness:
  "\<exists>s. consoleintr 13 boot_kcons = Inr s \<and> cons_lines s = ([10], [])"
proof -
  have "cons_ok boot_kcons" "cons_lines boot_kcons = ([], [])" by (simp_all add: cons_ok_def cons_lines_def ring_items_def)
  then show ?thesis using consoleintr_refines_line_edit [of boot_kcons 13] by (auto simp: line_edit_def)
qed

end
