(* ===== verification/Machine.thy ===== *)
theory Machine
  imports Layout
begin

text \<open>
  The code that runs below C: the assembly of \<^verbatim>\<open>kernel/entry.S\<close>, \<^verbatim>\<open>kernel/swtch.S\<close>,
  \<^verbatim>\<open>kernel/trampoline.S\<close> and \<^verbatim>\<open>kernel/kernelvec.S\<close> as lists of instructions with an interpreter
  for the part of the RISC-V instruction set that they use, the register accessors of
  \<^verbatim>\<open>kernel/riscv.h\<close>, and the machine-mode start of \<^verbatim>\<open>kernel/start.c\<close>.
\<close>

section \<open>A hart\<close>

datatype reg = x_zero | x_ra | x_sp | x_gp | x_tp | x_t0 | x_t1 | x_t2 | x_s0 | x_s1
  | x_a0 | x_a1 | x_a2 | x_a3 | x_a4 | x_a5 | x_a6 | x_a7
  | x_s2 | x_s3 | x_s4 | x_s5 | x_s6 | x_s7 | x_s8 | x_s9 | x_s10 | x_s11 | x_t3 | x_t4 | x_t5 | x_t6

datatype csr = mhartid | mstatus | mepc | sstatus | mip | sip | sie | mie | sepc | medeleg | mideleg | stvec | mtvec
  | pmpcfg0 | pmpaddr0 | satp | mscratch | sscratch | scause | stval | mcounteren | rtime

datatype mode = User_mode | Supervisor_mode | Machine_mode

text \<open>
  \<open>mmu\<close> is the translation that the hardware performs: it takes the value of \<^verbatim>\<open>satp\<close> and the
  address of a virtual page to the address of a physical page. \<open>delegable\<close> holds the bits of
  \<^verbatim>\<open>mideleg\<close> that the hart implements.
\<close>

record hart =
  regs :: "reg \<Rightarrow> uint64"
  csrs :: "csr \<Rightarrow> uint64"
  hmode :: mode
  pc :: uint64
  ram :: "uint64 \<Rightarrow> uchar"
  mmu :: "uint64 \<Rightarrow> uint64 \<Rightarrow> uint64"
  delegable :: uint64

definition get_reg :: "reg \<Rightarrow> hart \<Rightarrow> uint64" where
  "get_reg r h = (if r = x_zero then 0 else regs h r)"

definition set_reg :: "reg \<Rightarrow> uint64 \<Rightarrow> hart \<Rightarrow> hart" where
  "set_reg r v h = (if r = x_zero then h else h\<lparr>regs := (regs h)(r := v)\<rparr>)"

text \<open>
  The supervisor's status and interrupt registers are views of the machine's: \<^verbatim>\<open>sstatus\<close> of the
  bits of \<^verbatim>\<open>mstatus\<close> below, \<^verbatim>\<open>sie\<close> and \<^verbatim>\<open>sip\<close> of the delegated bits of \<^verbatim>\<open>mie\<close> and \<^verbatim>\<open>mip\<close>,
  of which only the software interrupt can be written through \<^verbatim>\<open>sip\<close>.
\<close>

definition sstatus_bits :: uint64 where [simp]: "sstatus_bits = 0x80000003000DE762"
definition SSIP :: uint64 where [simp]: "SSIP = 2"

definition csr_get :: "csr \<Rightarrow> hart \<Rightarrow> uint64" where
  "csr_get c h = (case c of
       sstatus \<Rightarrow> csrs h mstatus AND sstatus_bits
     | sie \<Rightarrow> csrs h mie AND csrs h mideleg
     | sip \<Rightarrow> csrs h mip AND csrs h mideleg
     | _ \<Rightarrow> csrs h c)"

definition put_bits :: "uint64 \<Rightarrow> uint64 \<Rightarrow> uint64 \<Rightarrow> uint64" where
  "put_bits m v old = (old AND NOT m) OR (v AND m)"

definition csr_set :: "csr \<Rightarrow> uint64 \<Rightarrow> hart \<Rightarrow> hart" where
  "csr_set c v h = (case c of
       sstatus \<Rightarrow> h\<lparr>csrs := (csrs h)(mstatus := put_bits sstatus_bits v (csrs h mstatus))\<rparr>
     | sie \<Rightarrow> h\<lparr>csrs := (csrs h)(mie := put_bits (csrs h mideleg) v (csrs h mie))\<rparr>
     | sip \<Rightarrow> h\<lparr>csrs := (csrs h)(mip := put_bits (csrs h mideleg AND SSIP) v (csrs h mip))\<rparr>
     | mideleg \<Rightarrow> h\<lparr>csrs := (csrs h)(mideleg := v AND delegable h)\<rparr>
     | mhartid \<Rightarrow> h
     | _ \<Rightarrow> h\<lparr>csrs := (csrs h)(c := v)\<rparr>)"

text \<open>Addresses are translated outside machine mode when \<^verbatim>\<open>satp\<close> is not 0.\<close>

definition xlate :: "hart \<Rightarrow> uint64 \<Rightarrow> uint64" where
  "xlate h va = (if hmode h = Machine_mode \<or> csrs h satp = 0 then va
     else mmu h (csrs h satp) (PGROUNDDOWN va) + (va - PGROUNDDOWN va))"

section \<open>Instructions\<close>

datatype instr =
    Sd reg uint64 reg | Ld reg uint64 reg
  | Li reg uint64 | Addi reg reg uint64 | Add reg reg reg | Mul reg reg reg
  | Csrr reg csr | Csrw csr reg | Csrrw reg csr reg | Sfence_vma
  | Jr reg | Call uint64 uint64 | Sret | Mret

definition mstatus_MPIE :: uint64 where [simp]: "mstatus_MPIE = 0x80"
definition mstatus_MIE :: uint64 where [simp]: "mstatus_MIE = 8"
definition mstatus_MPP :: uint64 where [simp]: "mstatus_MPP = 0x1800"
definition status_SPP :: uint64 where [simp]: "status_SPP = 0x100"
definition status_SPIE :: uint64 where [simp]: "status_SPIE = 0x20"
definition status_SIE :: uint64 where [simp]: "status_SIE = 2"

definition mode_of_MPP :: "uint64 \<Rightarrow> mode" where
  "mode_of_MPP x = (if x AND mstatus_MPP = 0 then User_mode else if x AND mstatus_MPP = 0x800 then Supervisor_mode else Machine_mode)"

definition mret :: "hart \<Rightarrow> hart" where
  "mret h =
     (let x = csrs h mstatus;
          y = put_bits mstatus_MIE (if x AND mstatus_MPIE \<noteq> 0 then mstatus_MIE else 0) x;
          y = put_bits mstatus_MPP 0 (y OR mstatus_MPIE)
      in h\<lparr>hmode := mode_of_MPP x, pc := csrs h mepc, csrs := (csrs h)(mstatus := y)\<rparr>)"

definition sret :: "hart \<Rightarrow> hart" where
  "sret h =
     (let x = csrs h mstatus;
          y = put_bits status_SIE (if x AND status_SPIE \<noteq> 0 then status_SIE else 0) x;
          y = put_bits status_SPP 0 (y OR status_SPIE)
      in h\<lparr>hmode := (if x AND status_SPP = 0 then User_mode else Supervisor_mode), pc := csrs h sepc,
           csrs := (csrs h)(mstatus := y)\<rparr>)"

fun step :: "instr \<Rightarrow> hart \<Rightarrow> hart" where
  "step (Sd r off b) h = h\<lparr>ram := set64 (ram h) (xlate h (get_reg b h + off)) (get_reg r h)\<rparr>"
| "step (Ld r off b) h = set_reg r (get64 (ram h) (xlate h (get_reg b h + off))) h"
| "step (Li r v) h = set_reg r v h"
| "step (Addi r a v) h = set_reg r (get_reg a h + v) h"
| "step (Add r a b) h = set_reg r (get_reg a h + get_reg b h) h"
| "step (Mul r a b) h = set_reg r (get_reg a h * get_reg b h) h"
| "step (Csrr r c) h = set_reg r (csr_get c h) h"
| "step (Csrw c r) h = csr_set c (get_reg r h) h"
| "step (Csrrw r c a) h = set_reg r (csr_get c h) (csr_set c (get_reg a h) h)"
| "step Sfence_vma h = h"
| "step (Jr r) h = h\<lparr>pc := get_reg r h\<rparr>"
| "step (Call f ret) h = set_reg x_ra ret (h\<lparr>pc := f\<rparr>)"
| "step Sret h = sret h"
| "step Mret h = mret h"

definition run :: "instr list \<Rightarrow> hart \<Rightarrow> hart" where
  "run is h = fold step is h"

text \<open>How the hardware enters the trap handler of the supervisor and of the machine.\<close>

definition trap_supervisor :: "uint64 \<Rightarrow> hart \<Rightarrow> hart" where
  "trap_supervisor cause h =
     (let x = csrs h mstatus;
          y = put_bits status_SPP (if hmode h = User_mode then 0 else status_SPP) x;
          y = put_bits status_SPIE (if x AND status_SIE \<noteq> 0 then status_SPIE else 0) y;
          y = put_bits status_SIE 0 y
      in h\<lparr>hmode := Supervisor_mode, pc := csrs h stvec, csrs := (csrs h)(mstatus := y, sepc := pc h, scause := cause)\<rparr>)"

definition trap_machine :: "hart \<Rightarrow> hart" where
  "trap_machine h =
     (let x = csrs h mstatus;
          y = put_bits mstatus_MPP (case hmode h of User_mode \<Rightarrow> 0 | Supervisor_mode \<Rightarrow> 0x800 | Machine_mode \<Rightarrow> 0x1800) x;
          y = put_bits mstatus_MPIE (if x AND mstatus_MIE \<noteq> 0 then mstatus_MPIE else 0) y;
          y = put_bits mstatus_MIE 0 y
      in h\<lparr>hmode := Machine_mode, pc := csrs h mtvec, csrs := (csrs h)(mstatus := y, mepc := pc h)\<rparr>)"

section \<open>swtch.S\<close>

definition swtch :: "instr list" where
  "swtch =
    [Sd x_ra 0 x_a0,
     Sd x_sp 8 x_a0,
     Sd x_s0 16 x_a0,
     Sd x_s1 24 x_a0,
     Sd x_s2 32 x_a0,
     Sd x_s3 40 x_a0,
     Sd x_s4 48 x_a0,
     Sd x_s5 56 x_a0,
     Sd x_s6 64 x_a0,
     Sd x_s7 72 x_a0,
     Sd x_s8 80 x_a0,
     Sd x_s9 88 x_a0,
     Sd x_s10 96 x_a0,
     Sd x_s11 104 x_a0,

     Ld x_ra 0 x_a1,
     Ld x_sp 8 x_a1,
     Ld x_s0 16 x_a1,
     Ld x_s1 24 x_a1,
     Ld x_s2 32 x_a1,
     Ld x_s3 40 x_a1,
     Ld x_s4 48 x_a1,
     Ld x_s5 56 x_a1,
     Ld x_s6 64 x_a1,
     Ld x_s7 72 x_a1,
     Ld x_s8 80 x_a1,
     Ld x_s9 88 x_a1,
     Ld x_s10 96 x_a1,
     Ld x_s11 104 x_a1,

     Jr x_ra]"

section \<open>trampoline.S\<close>

definition uservec :: "instr list" where
  "uservec =
    [Csrw sscratch x_a0,
     Li x_a0 TRAPFRAME,

     Sd x_ra 40 x_a0,
     Sd x_sp 48 x_a0,
     Sd x_gp 56 x_a0,
     Sd x_tp 64 x_a0,
     Sd x_t0 72 x_a0,
     Sd x_t1 80 x_a0,
     Sd x_t2 88 x_a0,
     Sd x_s0 96 x_a0,
     Sd x_s1 104 x_a0,
     Sd x_a1 120 x_a0,
     Sd x_a2 128 x_a0,
     Sd x_a3 136 x_a0,
     Sd x_a4 144 x_a0,
     Sd x_a5 152 x_a0,
     Sd x_a6 160 x_a0,
     Sd x_a7 168 x_a0,
     Sd x_s2 176 x_a0,
     Sd x_s3 184 x_a0,
     Sd x_s4 192 x_a0,
     Sd x_s5 200 x_a0,
     Sd x_s6 208 x_a0,
     Sd x_s7 216 x_a0,
     Sd x_s8 224 x_a0,
     Sd x_s9 232 x_a0,
     Sd x_s10 240 x_a0,
     Sd x_s11 248 x_a0,
     Sd x_t3 256 x_a0,
     Sd x_t4 264 x_a0,
     Sd x_t5 272 x_a0,
     Sd x_t6 280 x_a0,

     Csrr x_t0 sscratch,
     Sd x_t0 112 x_a0,
     Ld x_sp 8 x_a0,
     Ld x_tp 32 x_a0,
     Ld x_t0 16 x_a0,
     Ld x_t1 0 x_a0,
     Sfence_vma,
     Csrw satp x_t1,
     Sfence_vma,
     Jr x_t0]"

definition userret :: "instr list" where
  "userret =
    [Sfence_vma,
     Csrw satp x_a0,
     Sfence_vma,
     Li x_a0 TRAPFRAME,

     Ld x_ra 40 x_a0,
     Ld x_sp 48 x_a0,
     Ld x_gp 56 x_a0,
     Ld x_tp 64 x_a0,
     Ld x_t0 72 x_a0,
     Ld x_t1 80 x_a0,
     Ld x_t2 88 x_a0,
     Ld x_s0 96 x_a0,
     Ld x_s1 104 x_a0,
     Ld x_a1 120 x_a0,
     Ld x_a2 128 x_a0,
     Ld x_a3 136 x_a0,
     Ld x_a4 144 x_a0,
     Ld x_a5 152 x_a0,
     Ld x_a6 160 x_a0,
     Ld x_a7 168 x_a0,
     Ld x_s2 176 x_a0,
     Ld x_s3 184 x_a0,
     Ld x_s4 192 x_a0,
     Ld x_s5 200 x_a0,
     Ld x_s6 208 x_a0,
     Ld x_s7 216 x_a0,
     Ld x_s8 224 x_a0,
     Ld x_s9 232 x_a0,
     Ld x_s10 240 x_a0,
     Ld x_s11 248 x_a0,
     Ld x_t3 256 x_a0,
     Ld x_t4 264 x_a0,
     Ld x_t5 272 x_a0,
     Ld x_t6 280 x_a0,

     Ld x_a0 112 x_a0,
     Sret]"

section \<open>kernelvec.S\<close>

text \<open>The handler up to the call of \<^verbatim>\<open>kerneltrap\<close>, and from its return on.\<close>

definition kernelvec_save :: "instr list" where
  "kernelvec_save =
    [Addi x_sp x_sp (- 256),

     Sd x_ra 0 x_sp,
     Sd x_sp 8 x_sp,
     Sd x_gp 16 x_sp,
     Sd x_tp 24 x_sp,
     Sd x_t0 32 x_sp,
     Sd x_t1 40 x_sp,
     Sd x_t2 48 x_sp,
     Sd x_s0 56 x_sp,
     Sd x_s1 64 x_sp,
     Sd x_a0 72 x_sp,
     Sd x_a1 80 x_sp,
     Sd x_a2 88 x_sp,
     Sd x_a3 96 x_sp,
     Sd x_a4 104 x_sp,
     Sd x_a5 112 x_sp,
     Sd x_a6 120 x_sp,
     Sd x_a7 128 x_sp,
     Sd x_s2 136 x_sp,
     Sd x_s3 144 x_sp,
     Sd x_s4 152 x_sp,
     Sd x_s5 160 x_sp,
     Sd x_s6 168 x_sp,
     Sd x_s7 176 x_sp,
     Sd x_s8 184 x_sp,
     Sd x_s9 192 x_sp,
     Sd x_s10 200 x_sp,
     Sd x_s11 208 x_sp,
     Sd x_t3 216 x_sp,
     Sd x_t4 224 x_sp,
     Sd x_t5 232 x_sp,
     Sd x_t6 240 x_sp]"

definition kernelvec_restore :: "instr list" where
  "kernelvec_restore =
    [Ld x_ra 0 x_sp,
     Ld x_sp 8 x_sp,
     Ld x_gp 16 x_sp,
     Ld x_t0 32 x_sp,
     Ld x_t1 40 x_sp,
     Ld x_t2 48 x_sp,
     Ld x_s0 56 x_sp,
     Ld x_s1 64 x_sp,
     Ld x_a0 72 x_sp,
     Ld x_a1 80 x_sp,
     Ld x_a2 88 x_sp,
     Ld x_a3 96 x_sp,
     Ld x_a4 104 x_sp,
     Ld x_a5 112 x_sp,
     Ld x_a6 120 x_sp,
     Ld x_a7 128 x_sp,
     Ld x_s2 136 x_sp,
     Ld x_s3 144 x_sp,
     Ld x_s4 152 x_sp,
     Ld x_s5 160 x_sp,
     Ld x_s6 168 x_sp,
     Ld x_s7 176 x_sp,
     Ld x_s8 184 x_sp,
     Ld x_s9 192 x_sp,
     Ld x_s10 200 x_sp,
     Ld x_s11 208 x_sp,
     Ld x_t3 216 x_sp,
     Ld x_t4 224 x_sp,
     Ld x_t5 232 x_sp,
     Ld x_t6 240 x_sp,

     Addi x_sp x_sp 256,
     Sret]"

definition kernelvec :: "(hart \<Rightarrow> hart) \<Rightarrow> hart \<Rightarrow> hart" where
  "kernelvec kerneltrap h = run kernelvec_restore (kerneltrap (run kernelvec_save h))"

definition timervec :: "instr list" where
  "timervec =
    [Csrrw x_a0 mscratch x_a0,
     Sd x_a1 0 x_a0,
     Sd x_a2 8 x_a0,
     Sd x_a3 16 x_a0,

     Ld x_a1 24 x_a0,
     Ld x_a2 32 x_a0,
     Ld x_a3 0 x_a1,
     Add x_a3 x_a3 x_a2,
     Sd x_a3 0 x_a1,

     Li x_a1 2,
     Csrw sip x_a1,

     Ld x_a3 16 x_a0,
     Ld x_a2 8 x_a0,
     Ld x_a1 0 x_a0,
     Csrrw x_a0 mscratch x_a0,

     Mret]"

section \<open>entry.S\<close>

text \<open>The symbols \<^verbatim>\<open>stack0\<close>, \<^verbatim>\<open>start\<close> and \<^verbatim>\<open>spin\<close>, to which \<^verbatim>\<open>start\<close> would return, are arguments.\<close>

definition entry :: "uint64 \<Rightarrow> uint64 \<Rightarrow> uint64 \<Rightarrow> instr list" where
  "entry stack0 start spin =
    [Li x_sp stack0,
     Li x_a0 (1024 * 4),
     Csrr x_a1 mhartid,
     Addi x_a1 x_a1 1,
     Mul x_a0 x_a0 x_a1,
     Add x_sp x_sp x_a0,
     Call start spin]"

section \<open>riscv.h\<close>

text \<open>The accessors of the control registers, in the order of the file.\<close>

definition r_mhartid :: "hart \<Rightarrow> uint64" where "r_mhartid h = csr_get mhartid h"
definition MSTATUS_MPP_MASK :: uint64 where [simp]: "MSTATUS_MPP_MASK = push_bit 11 3"
definition MSTATUS_MPP_S :: uint64 where [simp]: "MSTATUS_MPP_S = push_bit 11 1"
definition MSTATUS_MIE :: uint64 where [simp]: "MSTATUS_MIE = push_bit 3 1"
definition r_mstatus :: "hart \<Rightarrow> uint64" where "r_mstatus h = csr_get mstatus h"
definition w_mstatus :: "uint64 \<Rightarrow> hart \<Rightarrow> hart" where "w_mstatus x h = csr_set mstatus x h"
definition w_mepc :: "uint64 \<Rightarrow> hart \<Rightarrow> hart" where "w_mepc x h = csr_set mepc x h"
definition r_sstatus :: "hart \<Rightarrow> uint64" where "r_sstatus h = csr_get sstatus h"
definition w_sstatus :: "uint64 \<Rightarrow> hart \<Rightarrow> hart" where "w_sstatus x h = csr_set sstatus x h"
definition r_sip :: "hart \<Rightarrow> uint64" where "r_sip h = csr_get sip h"
definition w_sip :: "uint64 \<Rightarrow> hart \<Rightarrow> hart" where "w_sip x h = csr_set sip x h"
definition SIE_SEIE :: uint64 where [simp]: "SIE_SEIE = push_bit 9 1"
definition SIE_STIE :: uint64 where [simp]: "SIE_STIE = push_bit 5 1"
definition SIE_SSIE :: uint64 where [simp]: "SIE_SSIE = push_bit 1 1"
definition r_sie :: "hart \<Rightarrow> uint64" where "r_sie h = csr_get sie h"
definition w_sie :: "uint64 \<Rightarrow> hart \<Rightarrow> hart" where "w_sie x h = csr_set sie x h"
definition MIE_MTIE :: uint64 where [simp]: "MIE_MTIE = push_bit 7 1"
definition r_mie :: "hart \<Rightarrow> uint64" where "r_mie h = csr_get mie h"
definition w_mie :: "uint64 \<Rightarrow> hart \<Rightarrow> hart" where "w_mie x h = csr_set mie x h"
definition w_sepc :: "uint64 \<Rightarrow> hart \<Rightarrow> hart" where "w_sepc x h = csr_set sepc x h"
definition r_sepc :: "hart \<Rightarrow> uint64" where "r_sepc h = csr_get sepc h"
definition r_medeleg :: "hart \<Rightarrow> uint64" where "r_medeleg h = csr_get medeleg h"
definition w_medeleg :: "uint64 \<Rightarrow> hart \<Rightarrow> hart" where "w_medeleg x h = csr_set medeleg x h"
definition r_mideleg :: "hart \<Rightarrow> uint64" where "r_mideleg h = csr_get mideleg h"
definition w_mideleg :: "uint64 \<Rightarrow> hart \<Rightarrow> hart" where "w_mideleg x h = csr_set mideleg x h"
definition w_stvec :: "uint64 \<Rightarrow> hart \<Rightarrow> hart" where "w_stvec x h = csr_set stvec x h"
definition r_stvec :: "hart \<Rightarrow> uint64" where "r_stvec h = csr_get stvec h"
definition w_mtvec :: "uint64 \<Rightarrow> hart \<Rightarrow> hart" where "w_mtvec x h = csr_set mtvec x h"
definition w_pmpcfg0 :: "uint64 \<Rightarrow> hart \<Rightarrow> hart" where "w_pmpcfg0 x h = csr_set pmpcfg0 x h"
definition w_pmpaddr0 :: "uint64 \<Rightarrow> hart \<Rightarrow> hart" where "w_pmpaddr0 x h = csr_set pmpaddr0 x h"
definition w_satp :: "uint64 \<Rightarrow> hart \<Rightarrow> hart" where "w_satp x h = csr_set satp x h"
definition r_satp :: "hart \<Rightarrow> uint64" where "r_satp h = csr_get satp h"
definition w_mscratch :: "uint64 \<Rightarrow> hart \<Rightarrow> hart" where "w_mscratch x h = csr_set mscratch x h"
definition r_scause :: "hart \<Rightarrow> uint64" where "r_scause h = csr_get scause h"
definition r_stval :: "hart \<Rightarrow> uint64" where "r_stval h = csr_get stval h"
definition w_mcounteren :: "uint64 \<Rightarrow> hart \<Rightarrow> hart" where "w_mcounteren x h = csr_set mcounteren x h"
definition r_mcounteren :: "hart \<Rightarrow> uint64" where "r_mcounteren h = csr_get mcounteren h"
definition r_time :: "hart \<Rightarrow> uint64" where "r_time h = csr_get rtime h"
definition r_sp :: "hart \<Rightarrow> uint64" where "r_sp h = get_reg x_sp h"
definition r_tp :: "hart \<Rightarrow> uint64" where "r_tp h = get_reg x_tp h"
definition w_tp :: "uint64 \<Rightarrow> hart \<Rightarrow> hart" where "w_tp x h = set_reg x_tp x h"
definition r_ra :: "hart \<Rightarrow> uint64" where "r_ra h = get_reg x_ra h"
definition sfence_vma :: "hart \<Rightarrow> hart" where "sfence_vma h = step Sfence_vma h"

lemmas accessors [simp] = r_mhartid_def r_mstatus_def w_mstatus_def w_mepc_def r_sie_def w_sie_def r_mie_def w_mie_def
  w_medeleg_def w_mideleg_def w_mtvec_def w_pmpcfg0_def w_pmpaddr0_def w_satp_def w_mscratch_def w_tp_def

section \<open>start.c\<close>

definition CLINT :: uint64 where [simp]: "CLINT = 0x2000000"
definition CLINT_MTIMECMP :: "uint64 \<Rightarrow> uint64" where [simp]: "CLINT_MTIMECMP hartid = CLINT + 0x4000 + 8 * hartid"
definition CLINT_MTIME :: uint64 where [simp]: "CLINT_MTIME = CLINT + 0xBFF8"

text \<open>
  The hart id is held in an \<^verbatim>\<open>int\<close>: the upper half of the register is lost and the rest sign
  extended. The addresses of \<^verbatim>\<open>timervec\<close>, \<^verbatim>\<open>timer_scratch\<close> and \<^verbatim>\<open>main\<close> are arguments.
\<close>

definition to_int :: "uint64 \<Rightarrow> uint64" where
  "to_int x = scast (ucast x :: uint)"

definition poke :: "uint64 \<Rightarrow> uint64 \<Rightarrow> hart \<Rightarrow> hart" where
  "poke a v h = h\<lparr>ram := set64 (ram h) (xlate h a) v\<rparr>"

definition timerinit :: "uint64 \<Rightarrow> uint64 \<Rightarrow> hart \<Rightarrow> hart" where
  "timerinit tvec timer_scratch h =
     (let id = to_int (r_mhartid h);
          interval = 1000000;
          h = poke (CLINT_MTIMECMP id) (get64 (ram h) (xlate h CLINT_MTIME) + interval) h;
          scratch = timer_scratch + id * (5 * 8);
          h = poke (scratch + 3 * 8) (CLINT_MTIMECMP id) h;
          h = poke (scratch + 4 * 8) interval h;
          h = w_mscratch scratch h;
          h = w_mtvec tvec h;
          h = w_mstatus (r_mstatus h OR MSTATUS_MIE) h
      in w_mie (r_mie h OR MIE_MTIE) h)"

definition start :: "uint64 \<Rightarrow> uint64 \<Rightarrow> uint64 \<Rightarrow> hart \<Rightarrow> hart" where
  "start main tvec timer_scratch h =
     (let x = r_mstatus h;
          x = x AND NOT MSTATUS_MPP_MASK;
          x = x OR MSTATUS_MPP_S;
          h = w_mstatus x h;
          h = w_mepc main h;
          h = w_satp 0 h;
          h = w_medeleg 0xffff h;
          h = w_mideleg 0xffff h;
          h = w_sie (r_sie h OR SIE_SEIE OR SIE_STIE OR SIE_SSIE) h;
          h = w_pmpaddr0 0x3fffffffffffff h;
          h = w_pmpcfg0 0xf h;
          h = timerinit tvec timer_scratch h;
          id = to_int (r_mhartid h);
          h = w_tp id h
      in step Mret h)"

section \<open>Saving and restoring registers\<close>

lemma run_simps [simp]: "run [] h = h" "run (i # is) h = run is (step i h)" "run (is @ js) h = run js (run is h)"
  by (simp_all add: run_def)

lemma xlate_frame [simp]:
  "xlate (h\<lparr>ram := m\<rparr>) = xlate h" "xlate (h\<lparr>regs := r\<rparr>) = xlate h" "xlate (h\<lparr>pc := p\<rparr>) = xlate h"
  by (auto simp: xlate_def)

lemma get_reg_simps [simp]:
  "get_reg r (h\<lparr>ram := m\<rparr>) = get_reg r h" "get_reg r (h\<lparr>csrs := c\<rparr>) = get_reg r h" "get_reg r (h\<lparr>pc := p\<rparr>) = get_reg r h"
  "get_reg r (h\<lparr>hmode := d\<rparr>) = get_reg r h"
  "get_reg r (set_reg q v h) = (if r = q \<and> r \<noteq> x_zero then v else get_reg r h)"
  by (simp_all add: get_reg_def set_reg_def)

lemma set_reg_frame [simp]:
  "ram (set_reg q v h) = ram h" "csrs (set_reg q v h) = csrs h" "hmode (set_reg q v h) = hmode h" "pc (set_reg q v h) = pc h"
  "mmu (set_reg q v h) = mmu h" "delegable (set_reg q v h) = delegable h" "xlate (set_reg q v h) = xlate h"
  by (simp_all add: set_reg_def)

lemma run_saves:
  "run (map (\<lambda>r. Sd r (off r) b) rs) h =
     h\<lparr>ram := fold (\<lambda>r m. set64 m (xlate h (get_reg b h + off r)) (get_reg r h)) rs (ram h)\<rparr>"
  by (induction rs arbitrary: h) simp_all

lemma run_loads:
  assumes "b \<notin> set rs"
  shows "run (map (\<lambda>r. Ld r (off r) b) rs) h =
     h\<lparr>regs := (\<lambda>r. if r \<in> set rs \<and> r \<noteq> x_zero then get64 (ram h) (xlate h (get_reg b h + off r)) else regs h r)\<rparr>"
  using assms
proof (induction rs arbitrary: h)
  case (Cons q rs)
  then show ?case by (auto simp: set_reg_def fun_eq_iff get_reg_def intro!: hart.equality)
qed simp

text \<open>Two doublewords that do not overlap.\<close>

definition apart :: "uint64 \<Rightarrow> uint64 \<Rightarrow> bool" where
  "apart a b \<longleftrightarrow> 8 \<le> unat (a - b) \<and> 8 \<le> unat (b - a)"

lemma get64_apart: "apart a b \<Longrightarrow> get64 (set64 m a v) b = get64 m b"
  by (simp add: apart_def get64_set64_word_disj)

lemma get64_fold_other:
  "\<forall>r\<in>set rs. apart (A r) a \<Longrightarrow> get64 (fold (\<lambda>r m. set64 m (A r) (v r)) rs m) a = get64 m a"
  by (induction rs arbitrary: m) (simp_all add: get64_apart)

lemma get64_fold_saved:
  assumes "q \<in> set rs" "\<forall>r\<in>set rs. r \<noteq> q \<longrightarrow> apart (A r) (A q)"
  shows "get64 (fold (\<lambda>r m. set64 m (A r) (v r)) rs m) (A q) = v q"
  using assms
proof (induction rs arbitrary: m)
  case (Cons r rs)
  show ?case
  proof (cases "q \<in> set rs")
    case True
    with Cons show ?thesis by simp
  next
    case False
    then have "get64 (fold (\<lambda>r m. set64 m (A r) (v r)) rs (set64 m (A q) (v q))) (A q) = v q"
      using Cons.prems by (subst get64_fold_other) auto
    with False Cons.prems(1) show ?thesis by simp
  qed
qed simp

lemma apart_slots:
  assumes "i \<noteq> j" "i < 512" "j < 512"
  shows "apart (p + 8 * of_nat i) (p + 8 * of_nat j)"
proof -
  have u: "unat (8 * of_nat k :: uint64) = 8 * k" if "k < 512" for k
  proof -
    have "unat (of_nat (8 * k) :: uint64) = 8 * k" using that by (intro unat_of_nat_small) simp
    then show ?thesis by simp
  qed
  have "8 \<le> unat (8 * of_nat i - 8 * of_nat j :: uint64)" if "i \<noteq> j" "i < 512" "j < 512" for i j
    unfolding unat_sub_if' u [OF that(2)] u [OF that(3)] using that by auto
  then show ?thesis using assms by (simp add: apart_def)
qed

text \<open>The number of a register; the struct and the stack frame hold the registers in this order.\<close>

fun regnum :: "reg \<Rightarrow> nat" where
  "regnum x_zero = 0" | "regnum x_ra = 1" | "regnum x_sp = 2" | "regnum x_gp = 3" | "regnum x_tp = 4"
| "regnum x_t0 = 5" | "regnum x_t1 = 6" | "regnum x_t2 = 7" | "regnum x_s0 = 8" | "regnum x_s1 = 9"
| "regnum x_a0 = 10" | "regnum x_a1 = 11" | "regnum x_a2 = 12" | "regnum x_a3 = 13" | "regnum x_a4 = 14"
| "regnum x_a5 = 15" | "regnum x_a6 = 16" | "regnum x_a7 = 17" | "regnum x_s2 = 18" | "regnum x_s3 = 19"
| "regnum x_s4 = 20" | "regnum x_s5 = 21" | "regnum x_s6 = 22" | "regnum x_s7 = 23" | "regnum x_s8 = 24"
| "regnum x_s9 = 25" | "regnum x_s10 = 26" | "regnum x_s11 = 27" | "regnum x_t3 = 28" | "regnum x_t4 = 29"
| "regnum x_t5 = 30" | "regnum x_t6 = 31"

definition all_regs :: "reg list" where
  "all_regs = [x_zero, x_ra, x_sp, x_gp, x_tp, x_t0, x_t1, x_t2, x_s0, x_s1,
     x_a0, x_a1, x_a2, x_a3, x_a4, x_a5, x_a6, x_a7,
     x_s2, x_s3, x_s4, x_s5, x_s6, x_s7, x_s8, x_s9, x_s10, x_s11, x_t3, x_t4, x_t5, x_t6]"

lemma nth_regnum: "all_regs ! regnum r = r" "regnum r < 32"
  by (cases r; simp add: all_regs_def)+

lemma regnum_inj [simp]: "regnum r = regnum q \<longleftrightarrow> r = q"
  using nth_regnum(1) by metis

lemma in_all_regs [simp]: "r \<in> set all_regs"
proof -
  have "length all_regs = 32" by (simp add: all_regs_def)
  then have "all_regs ! regnum r \<in> set all_regs" using nth_regnum(2) [of r] by (intro nth_mem) simp
  then show ?thesis by (simp add: nth_regnum)
qed

definition tf_off :: "reg \<Rightarrow> uint64" where
  "tf_off r = 8 * of_nat (4 + regnum r)"

definition user_regs :: "reg list" where
  "user_regs = filter (\<lambda>r. r \<notin> {x_zero, x_a0}) all_regs"

lemma set_user_regs [simp]: "r \<in> set user_regs \<longleftrightarrow> r \<noteq> x_zero \<and> r \<noteq> x_a0"
  by (auto simp: user_regs_def)

lemma uservec_saves:
  "uservec = [Csrw sscratch x_a0, Li x_a0 TRAPFRAME] @ map (\<lambda>r. Sd r (tf_off r) x_a0) user_regs @
     [Csrr x_t0 sscratch, Sd x_t0 (tf_off x_a0) x_a0, Ld x_sp 8 x_a0, Ld x_tp 32 x_a0, Ld x_t0 16 x_a0, Ld x_t1 0 x_a0,
      Sfence_vma, Csrw satp x_t1, Sfence_vma, Jr x_t0]"
  by (simp add: uservec_def user_regs_def all_regs_def tf_off_def)

lemma userret_loads:
  "userret = [Sfence_vma, Csrw satp x_a0, Sfence_vma, Li x_a0 TRAPFRAME] @ map (\<lambda>r. Ld r (tf_off r) x_a0) user_regs @
     [Ld x_a0 (tf_off x_a0) x_a0, Sret]"
  by (simp add: userret_def user_regs_def all_regs_def tf_off_def)

lemma PGROUNDDOWN_offset:
  assumes "page_aligned p" "unat o' < 4096"
  shows "PGROUNDDOWN (p + o') = p"
proof -
  have lt: "unat p + unat o' < 2 ^ 64"
  proof -
    obtain k where "unat p = 4096 * k" using assms(1) by (auto simp: page_aligned_iff mod_eq_0_iff_dvd elim!: dvdE)
    then show ?thesis using unat_uint64_less [of p] assms(2) by simp
  qed
  then have "unat (p + o') = unat p + unat o'" using unat_add_lem [of p o'] by simp
  then have "unat (PGROUNDDOWN (p + o')) = unat p"
    using assms by (auto simp: unat_PGROUNDDOWN page_aligned_iff mod_eq_0_iff_dvd)
  then show ?thesis by (simp add: word_unat_eq_iff)
qed

lemma xlate_page:
  assumes "page_aligned p" "unat o' < 4096" "hmode h \<noteq> Machine_mode" "csrs h satp \<noteq> 0"
  shows "xlate h (p + o') = mmu h (csrs h satp) p + o'"
  using assms by (simp add: xlate_def PGROUNDDOWN_offset)


lemma tf_off_bounds: "unat (tf_off r) = 32 + 8 * regnum r" "unat (tf_off r) < 4096"
proof -
  have "unat (of_nat (8 * (4 + regnum r)) :: uint64) = 8 * (4 + regnum r)" using nth_regnum(2) [of r] by (intro unat_of_nat_small) simp
  then show "unat (tf_off r) = 32 + 8 * regnum r" by (simp add: tf_off_def)
  then show "unat (tf_off r) < 4096" using nth_regnum(2) [of r] by simp
qed

lemma apart_tf: "r \<noteq> q \<Longrightarrow> apart (p + tf_off r) (p + tf_off q)"
  unfolding tf_off_def by (rule apart_slots) (use nth_regnum(2) [of r] nth_regnum(2) [of q] in auto)

lemma apart_tf_kernel:
  assumes "i < 5" "r \<noteq> x_zero"
  shows "apart (p + tf_off r) (p + 8 * of_nat i)"
proof -
  have "regnum r \<noteq> 0" using assms(2) by (cases r) simp_all
  then show ?thesis unfolding tf_off_def
    by (intro apart_slots) (use assms nth_regnum(2) [of r] in auto)
qed

definition on_user_table :: "hart \<Rightarrow> bool" where
  "on_user_table h \<longleftrightarrow> hmode h = Supervisor_mode \<and> csrs h satp \<noteq> 0"

lemma TRAPFRAME_aligned: "page_aligned TRAPFRAME"
  by (simp add: page_aligned_def)

lemma uservec_effect:
  assumes "on_user_table h"
  defines "tf \<equiv> mmu h (csrs h satp) TRAPFRAME"
  defines "t \<equiv> run uservec h"
  shows "r \<noteq> x_zero \<Longrightarrow> get64 (ram t) (tf + tf_off r) = regs h r"
    and "i < 5 \<Longrightarrow> get64 (ram t) (tf + 8 * of_nat i) = get64 (ram h) (tf + 8 * of_nat i)"
    and "csrs t satp = get64 (ram h) tf" "regs t x_sp = get64 (ram h) (tf + 8)"
    and "pc t = get64 (ram h) (tf + 16)" "regs t x_tp = get64 (ram h) (tf + 32)" "mmu t = mmu h" "hmode t = hmode h"
    "csrs t sepc = csrs h sepc"
proof -
  define h1 where "h1 = set_reg x_a0 TRAPFRAME (h\<lparr>csrs := (csrs h)(sscratch := get_reg x_a0 h)\<rparr>)"
  have h1: "csrs h1 = (csrs h)(sscratch := get_reg x_a0 h)" "hmode h1 = Supervisor_mode" "ram h1 = ram h" "mmu h1 = mmu h"
    "get_reg x_a0 h1 = TRAPFRAME" "q \<noteq> x_a0 \<Longrightarrow> get_reg q h1 = get_reg q h" for q
    using assms(1) by (simp_all add: h1_def on_user_table_def)
  have x: "xlate h1 (TRAPFRAME + d) = tf + d" if "unat d < 4096" for d
    using xlate_page [OF TRAPFRAME_aligned that, of h1] h1 assms(1) by (simp add: tf_def on_user_table_def)
  define m where "m = fold (\<lambda>r m. set64 m (tf + tf_off r) (get_reg r h1)) user_regs (ram h)"
  define m' where "m' = set64 m (tf + tf_off x_a0) (regs h x_a0)"
  have "run (map (\<lambda>r. Sd r (tf_off r) x_a0) user_regs) h1 = h1\<lparr>ram := m\<rparr>"
    unfolding run_saves h1(3,5) m_def x [OF tf_off_bounds(2)] ..
  then have t: "t = run [Csrr x_t0 sscratch, Sd x_t0 (tf_off x_a0) x_a0, Ld x_sp 8 x_a0, Ld x_tp 32 x_a0, Ld x_t0 16 x_a0,
      Ld x_t1 0 x_a0, Sfence_vma, Csrw satp x_t1, Sfence_vma, Jr x_t0] (h1\<lparr>ram := m\<rparr>)"
    by (simp add: t_def uservec_saves h1_def csr_set_def del: run_simps(2)) (simp add: csr_set_def)
  have r: "ram t = m'" "csrs t satp = get64 m' tf" "regs t x_sp = get64 m' (tf + 8)" "pc t = get64 m' (tf + 16)"
    "regs t x_tp = get64 m' (tf + 32)" "mmu t = mmu h" "hmode t = hmode h" "csrs t sepc = csrs h sepc"
    using x [of 0] x [of 8] x [of 16] x [of 32] x [OF tf_off_bounds(2), of x_a0] h1 assms(1)
    by (simp_all add: t csr_get_def csr_set_def m'_def get_reg_def on_user_table_def set_reg_def)
  show saved: "get64 (ram t) (tf + tf_off r) = regs h r" if "r \<noteq> x_zero" for r
  proof (cases "r = x_a0")
    case True
    then show ?thesis by (simp add: r m'_def)
  next
    case False
    have "get64 m (tf + tf_off r) = get_reg r h1"
      unfolding m_def by (rule get64_fold_saved) (use False that apart_tf in auto)
    also have "\<dots> = regs h r" using h1(6) [OF False] that by (simp add: get_reg_def)
    finally show ?thesis using False by (simp add: r m'_def get64_apart apart_tf)
  qed
  have k: "get64 m' (tf + 8 * of_nat i) = get64 (ram h) (tf + 8 * of_nat i)" if "i < 5" for i
    unfolding m'_def m_def get64_apart [OF apart_tf_kernel [OF that, of x_a0, simplified]]
    by (rule get64_fold_other) (use apart_tf_kernel [OF that] in auto)
  show "i < 5 \<Longrightarrow> get64 (ram t) (tf + 8 * of_nat i) = get64 (ram h) (tf + 8 * of_nat i)" using k r by simp
  show "csrs t satp = get64 (ram h) tf" "regs t x_sp = get64 (ram h) (tf + 8)" "pc t = get64 (ram h) (tf + 16)"
    "regs t x_tp = get64 (ram h) (tf + 32)" "mmu t = mmu h" "hmode t = hmode h" "csrs t sepc = csrs h sepc"
    using k [of 0] k [of 1] k [of 2] k [of 4] r by simp_all
qed

lemma userret_effect:
  assumes "hmode k = Supervisor_mode" "get_reg x_a0 k \<noteq> 0" "csrs k mstatus AND status_SPP = 0"
  defines "tf \<equiv> mmu k (get_reg x_a0 k) TRAPFRAME"
  shows "r \<noteq> x_zero \<Longrightarrow> regs (run userret k) r = get64 (ram k) (tf + tf_off r)"
    and "hmode (run userret k) = User_mode" "pc (run userret k) = csrs k sepc" "csrs (run userret k) satp = get_reg x_a0 k"
    and "ram (run userret k) = ram k"
proof -
  define h1 where "h1 = set_reg x_a0 TRAPFRAME (k\<lparr>csrs := (csrs k)(satp := get_reg x_a0 k)\<rparr>)"
  have h1: "csrs h1 = (csrs k)(satp := get_reg x_a0 k)" "hmode h1 = Supervisor_mode" "ram h1 = ram k" "mmu h1 = mmu k"
    "get_reg x_a0 h1 = TRAPFRAME"
    using assms(1) by (simp_all add: h1_def)
  have x: "xlate h1 (TRAPFRAME + d) = tf + d" if "unat d < 4096" for d
    using xlate_page [OF TRAPFRAME_aligned that, of h1] h1 assms(2) by (simp add: tf_def)
  define h2 where "h2 = h1\<lparr>regs := (\<lambda>r. if r \<in> set user_regs \<and> r \<noteq> x_zero then get64 (ram k) (tf + tf_off r) else regs h1 r)\<rparr>"
  have "run (map (\<lambda>r. Ld r (tf_off r) x_a0) user_regs) h1 = h2"
    by (subst run_loads) (simp_all add: h2_def h1(3,5) x [OF tf_off_bounds(2)] del: TRAPFRAME_def cong: if_cong)
  then have t: "run userret k = sret (set_reg x_a0 (get64 (ram k) (tf + tf_off x_a0)) h2)"
    using x [OF tf_off_bounds(2), of x_a0] h1
    by (simp add: userret_loads h1_def csr_set_def h2_def get_reg_def)
  show "r \<noteq> x_zero \<Longrightarrow> regs (run userret k) r = get64 (ram k) (tf + tf_off r)"
    "hmode (run userret k) = User_mode" "pc (run userret k) = csrs k sepc" "csrs (run userret k) satp = get_reg x_a0 k"
    "ram (run userret k) = ram k"
    using assms(3) h1 by (simp_all add: t sret_def set_reg_def h2_def Let_def)
qed


lemma trap_supervisor_simps [simp]:
  "regs (trap_supervisor c h) = regs h" "ram (trap_supervisor c h) = ram h" "mmu (trap_supervisor c h) = mmu h"
  "csrs (trap_supervisor c h) satp = csrs h satp" "csrs (trap_supervisor c h) sepc = pc h" "hmode (trap_supervisor c h) = Supervisor_mode"
  by (simp_all add: trap_supervisor_def Let_def)

text \<open>C23: a trap from user space loses no register. \<^verbatim>\<open>uservec\<close> enters the kernel on the stack, hart id, page table and
  handler that the trap frame names, with every user register in its field of \<^verbatim>\<open>struct trapframe\<close> and the
  interrupted instruction in \<^verbatim>\<open>sepc\<close>. When the kernel later gives \<^verbatim>\<open>userret\<close> the same page table and has left those
  fields alone, user code goes on with the registers that it had.\<close>

theorem user_registers_survive_trap:
  fixes h k cause
  defines "t \<equiv> run uservec (trap_supervisor cause h)" and "tf \<equiv> mmu h (csrs h satp) TRAPFRAME"
  assumes user: "hmode h = User_mode" "csrs h satp \<noteq> 0"
    and kernel: "hmode k = Supervisor_mode" "mmu k (csrs h satp) TRAPFRAME = tf" "get_reg x_a0 k = csrs h satp"
      "csrs k mstatus AND status_SPP = 0" "\<And>r. r \<noteq> x_zero \<Longrightarrow> get64 (ram k) (tf + tf_off r) = get64 (ram t) (tf + tf_off r)"
  shows "regs t x_sp = get64 (ram h) (tf + 8) \<and> regs t x_tp = get64 (ram h) (tf + 32) \<and>
      csrs t satp = get64 (ram h) tf \<and> pc t = get64 (ram h) (tf + 16) \<and> csrs t sepc = pc h \<and>
      (\<forall>r. r \<noteq> x_zero \<longrightarrow> get64 (ram t) (tf + tf_off r) = regs h r) \<and>
      (\<forall>r. get_reg r (run userret k) = get_reg r h) \<and>
      hmode (run userret k) = User_mode \<and> pc (run userret k) = csrs k sepc \<and> csrs (run userret k) satp = csrs h satp"
proof -
  have on: "on_user_table (trap_supervisor cause h)" using user by (simp add: on_user_table_def)
  note u = uservec_effect [OF on, unfolded trap_supervisor_simps, folded t_def tf_def]
  note v = userret_effect [of k, unfolded kernel(2,3), OF kernel(1) user(2) kernel(4)]
  have "get_reg r (run userret k) = get_reg r h" for r
    using v(1) [of r] kernel(5) [of r] u(1) [of r] by (simp add: get_reg_def)
  with u v show ?thesis by blast
qed

definition sample_hart :: hart where
  "sample_hart = \<lparr>regs = (\<lambda>r. 1000 + of_nat (regnum r)), csrs = (\<lambda>_. 0)(satp := 0x8000000000087F00), hmode = User_mode,
     pc = 0x1004, ram = (\<lambda>_. 7), mmu = (\<lambda>_ p. if p = TRAPFRAME then 0x87001000 else p), delegable = 0x222\<rparr>"

lemma sample_hart_simps [simp]:
  "regs sample_hart r = 1000 + of_nat (regnum r)" "csrs sample_hart satp = 0x8000000000087F00" "hmode sample_hart = User_mode"
  "pc sample_hart = 0x1004" "mmu sample_hart = (\<lambda>_ p. if p = TRAPFRAME then 0x87001000 else p)"
  by (simp_all add: sample_hart_def)

theorem user_registers_survive_trap_witness:
  "\<exists>k. csrs k sepc = 0x1004 \<and> get_reg x_a7 (run userret k) = 1017 \<and> pc (run userret k) = 0x1004"
proof -
  let ?t = "run uservec (trap_supervisor 8 sample_hart)"
  let ?k = "?t\<lparr>regs := (regs ?t)(x_a0 := 0x8000000000087F00), csrs := (\<lambda>_. 0)(sepc := 0x1004)\<rparr>"
  have on: "on_user_table (trap_supervisor 8 sample_hart)" by (simp add: on_user_table_def)
  note u = uservec_effect(7,8) [OF on]
  have k: "hmode ?k = Supervisor_mode" "mmu ?k (csrs sample_hart satp) TRAPFRAME = mmu sample_hart (csrs sample_hart satp) TRAPFRAME"
    "get_reg x_a0 ?k = csrs sample_hart satp" "csrs ?k mstatus AND status_SPP = 0"
    using u by (simp_all add: get_reg_def)
  have s: "csrs sample_hart satp \<noteq> 0" "ram ?k = ram ?t" by simp_all
  have "get_reg x_a7 (run userret ?k) = get_reg x_a7 sample_hart \<and> pc (run userret ?k) = csrs ?k sepc"
    using user_registers_survive_trap [OF sample_hart_simps(3) s(1) k, of 8, unfolded s(2)] by blast
  moreover have "csrs ?k sepc = 0x1004" "get_reg x_a7 sample_hart = 1017" by (simp_all add: get_reg_def)
  ultimately show ?thesis by (intro exI [of _ ?k]) (simp only: simp_thms)
qed

section \<open>Context switches\<close>

definition ctx_regs :: "reg list" where
  "ctx_regs = [x_ra, x_sp, x_s0, x_s1, x_s2, x_s3, x_s4, x_s5, x_s6, x_s7, x_s8, x_s9, x_s10, x_s11]"

text \<open>The fields of \<^verbatim>\<open>struct context\<close>.\<close>

definition ctx_slot :: "reg \<Rightarrow> nat" where
  "ctx_slot r = (if r = x_ra then 0 else if r = x_sp then 1 else if r = x_s0 then 2 else if r = x_s1 then 3 else regnum r - 14)"

definition ctx_off :: "reg \<Rightarrow> uint64" where
  "ctx_off r = 8 * of_nat (ctx_slot r)"

lemma swtch_saves_loads:
  "swtch = map (\<lambda>r. Sd r (ctx_off r) x_a0) ctx_regs @ map (\<lambda>r. Ld r (ctx_off r) x_a1) ctx_regs @ [Jr x_ra]"
  by (simp add: swtch_def ctx_regs_def ctx_off_def ctx_slot_def)

lemma ctx_slot_less: "r \<in> set ctx_regs \<Longrightarrow> ctx_slot r < 14"
  by (auto simp: ctx_regs_def ctx_slot_def)

lemma ctx_slot_inj: "r \<in> set ctx_regs \<Longrightarrow> q \<in> set ctx_regs \<Longrightarrow> r \<noteq> q \<Longrightarrow> ctx_slot r \<noteq> ctx_slot q"
  by (simp add: ctx_regs_def; elim disjE; simp add: ctx_slot_def)

text \<open>The \<open>n\<close> doublewords at a virtual address are those at a physical address.\<close>

definition spans :: "hart \<Rightarrow> uint64 \<Rightarrow> uint64 \<Rightarrow> nat \<Rightarrow> bool" where
  "spans h va pa n \<longleftrightarrow> (\<forall>i<n. xlate h (va + 8 * of_nat i) = pa + 8 * of_nat i)"

lemma swtch_effect:
  assumes "spans h (get_reg x_a0 h) old 14" "spans h (get_reg x_a1 h) new 14"
    "\<forall>i<14. \<forall>j<14. apart (old + 8 * of_nat i) (new + 8 * of_nat j)"
  shows "r \<in> set ctx_regs \<Longrightarrow> get64 (ram (run swtch h)) (old + ctx_off r) = regs h r"
    and "regs (run swtch h) r = (if r \<in> set ctx_regs then get64 (ram h) (new + ctx_off r) else regs h r)"
    and "pc (run swtch h) = get64 (ram h) (new + ctx_off x_ra)"
proof -
  define m where "m = fold (\<lambda>r m. set64 m (old + ctx_off r) (regs h r)) ctx_regs (ram h)"
  define R where "R r = (if r \<in> set ctx_regs then get64 (ram h) (new + ctx_off r) else regs h r)" for r
  have x: "xlate h (get_reg x_a0 h + ctx_off r) = old + ctx_off r" "xlate h (get_reg x_a1 h + ctx_off r) = new + ctx_off r"
    if "r \<in> set ctx_regs" for r
    using assms(1,2) ctx_slot_less [OF that] by (auto simp: spans_def ctx_off_def)
  have nz: "x_zero \<notin> set ctx_regs" "x_a1 \<notin> set ctx_regs" "x_ra \<in> set ctx_regs" by (simp_all add: ctx_regs_def)
  have g: "get_reg r h = regs h r" if "r \<in> set ctx_regs" for r using that nz by (auto simp: get_reg_def)
  have "fold (\<lambda>r m. set64 m (xlate h (get_reg x_a0 h + ctx_off r)) (get_reg r h)) ctx_regs (ram h) = m"
    unfolding m_def by (rule fold_cong) (simp_all add: x g)
  then have s: "run (map (\<lambda>r. Sd r (ctx_off r) x_a0) ctx_regs) h = h\<lparr>ram := m\<rparr>" by (simp only: run_saves)
  have keep: "get64 m (new + ctx_off r) = get64 (ram h) (new + ctx_off r)" if "r \<in> set ctx_regs" for r
    unfolding m_def by (rule get64_fold_other) (use assms(3) ctx_slot_less that in \<open>auto simp: ctx_off_def\<close>)
  have l: "(\<lambda>r. if r \<in> set ctx_regs \<and> r \<noteq> x_zero then get64 m (xlate h (get_reg x_a1 h + ctx_off r)) else regs h r) = R"
    by (rule ext) (auto simp: R_def x keep nz)
  have "run (map (\<lambda>r. Ld r (ctx_off r) x_a1) ctx_regs) (h\<lparr>ram := m\<rparr>) = h\<lparr>ram := m, regs := R\<rparr>"
    using run_loads [OF nz(2), of ctx_off "h\<lparr>ram := m\<rparr>"] l by (simp cong: if_cong)
  then have t: "run swtch h = h\<lparr>ram := m, regs := R, pc := R x_ra\<rparr>"
    unfolding swtch_saves_loads run_simps(3) s by (simp add: get_reg_def)
  show "get64 (ram (run swtch h)) (old + ctx_off r) = regs h r" if "r \<in> set ctx_regs"
  proof -
    have "get64 m (old + ctx_off r) = regs h r" unfolding m_def
    proof (rule get64_fold_saved [OF that], intro ballI impI)
      fix q assume q: "q \<in> set ctx_regs" "q \<noteq> r"
      show "apart (old + ctx_off q) (old + ctx_off r)" unfolding ctx_off_def
        by (rule apart_slots) (use q that ctx_slot_inj [OF q(1) that q(2)] ctx_slot_less [OF q(1)] ctx_slot_less [OF that] in auto)
    qed
    then show ?thesis by (simp add: t)
  qed
  show "regs (run swtch h) r = (if r \<in> set ctx_regs then get64 (ram h) (new + ctx_off r) else regs h r)"
    "pc (run swtch h) = get64 (ram h) (new + ctx_off x_ra)"
    by (simp_all add: t R_def nz)
qed

text \<open>C24: a context switch comes back to its caller. After \<^verbatim>\<open>swtch\<close> has saved a thread in a context, any later
  \<^verbatim>\<open>swtch\<close> to that context, from another thread and maybe on another CPU, returns to the caller of the first
  with its stack pointer and callee-saved registers, and touches no other register.\<close>

theorem swtch_resumes:
  assumes "spans h (get_reg x_a0 h) old 14" "spans h (get_reg x_a1 h) new 14"
    and "spans k (get_reg x_a0 k) other 14" "spans k (get_reg x_a1 k) old 14"
    and "\<forall>i<14. \<forall>j<14. apart (old + 8 * of_nat i) (new + 8 * of_nat j)"
    and "\<forall>i<14. \<forall>j<14. apart (other + 8 * of_nat i) (old + 8 * of_nat j)"
    and kept: "\<And>r. r \<in> set ctx_regs \<Longrightarrow> get64 (ram k) (old + ctx_off r) = get64 (ram (run swtch h)) (old + ctx_off r)"
  shows "pc (run swtch k) = regs h x_ra \<and>
    (\<forall>r. regs (run swtch k) r = (if r \<in> set ctx_regs then regs h r else regs k r))"
proof -
  have "x_ra \<in> set ctx_regs" by (simp add: ctx_regs_def)
  then show ?thesis
    using swtch_effect(2,3) [OF assms(3,4,6)] swtch_effect(1) [OF assms(1,2,5)] kept by simp
qed

text \<open>Machine-mode addresses are physical, so every range spans itself.\<close>

lemma spans_machine [simp]: "hmode h = Machine_mode \<Longrightarrow> spans h a a n"
  by (simp add: spans_def xlate_def)

lemma apart_ranges:
  assumes "112 \<le> unat (a - b)" "112 \<le> unat (b - a)"
  shows "\<forall>i<14. \<forall>j<14. apart (a + 8 * of_nat i) (b + 8 * of_nat j)"
proof -
  have u: "unat (8 * of_nat k :: uint64) = 8 * k" if "k < 14" for k
  proof -
    have "unat (of_nat (8 * k) :: uint64) = 8 * k" using that by (intro unat_of_nat_small) simp
    then show ?thesis by simp
  qed
  have *: "8 \<le> unat ((a + 8 * of_nat i) - (b + 8 * of_nat j))" if "112 \<le> unat (a - b)" "112 \<le> unat (b - a)" "i < 14" "j < 14" for a b :: uint64 and i j
  proof -
    have s: "unat (a - b) + unat (b - a) = 2 ^ 64"
    proof -
      have "unat a \<noteq> unat b" using that(1) by (auto simp flip: word_unat_eq_iff)
      then show ?thesis using unat_uint64_less [of a] unat_uint64_less [of b] by (simp add: unat_sub_if')
    qed
    have "(a + 8 * of_nat i) - (b + 8 * of_nat j) = (a - b) + 8 * of_nat i - 8 * of_nat j" by simp
    moreover have "unat ((a - b) + 8 * of_nat i) = unat (a - b) + 8 * i"
      using that s u by (subst unat_add_lem [THEN iffD1]) auto
    ultimately show ?thesis using that u by (simp only: unat_sub_if') auto
  qed
  show ?thesis using * assms by (auto simp: apart_def)
qed

theorem swtch_resumes_witness:
  "\<exists>k. regs (run swtch k) x_sp = 1002 \<and> pc (run swtch k) = 1001 \<and> regs (run swtch k) x_a0 = 0x2000"
proof -
  let ?h = "sample_hart\<lparr>hmode := Machine_mode, regs := (regs sample_hart)(x_a0 := 0x1000, x_a1 := 0x2000)\<rparr>"
  let ?k = "?h\<lparr>ram := ram (run swtch ?h), regs := (\<lambda>_. 0)(x_a0 := 0x2000, x_a1 := 0x1000)\<rparr>"
  have a: "\<forall>i<14. \<forall>j<14. apart (0x1000 + 8 * of_nat i) (0x2000 + 8 * of_nat j)"
    "\<forall>i<14. \<forall>j<14. apart (0x2000 + 8 * of_nat i) (0x1000 + 8 * of_nat j)"
    by (rule apart_ranges; simp)+
  have "pc (run swtch ?k) = regs ?h x_ra \<and> (\<forall>r. regs (run swtch ?k) r = (if r \<in> set ctx_regs then regs ?h r else regs ?k r))"
    by (rule swtch_resumes [where old = "0x1000" and new = "0x2000" and other = "0x2000"]) (use a in \<open>simp_all add: get_reg_def\<close>)
  then show ?thesis by (intro exI [of _ ?k]) (simp add: ctx_regs_def)
qed


section \<open>Interrupts in the kernel\<close>

definition kv_off :: "reg \<Rightarrow> uint64" where
  "kv_off r = 8 * of_nat (regnum r - 1)"

definition kv_regs :: "reg list" where
  "kv_regs = filter (\<lambda>r. r \<notin> {x_zero, x_ra, x_sp, x_tp}) all_regs"

lemma set_kv_regs [simp]: "r \<in> set kv_regs \<longleftrightarrow> r \<notin> {x_zero, x_ra, x_sp, x_tp}"
  by (auto simp: kv_regs_def)

lemma kernelvec_saves_loads:
  "kernelvec_save = Addi x_sp x_sp (- 256) # map (\<lambda>r. Sd r (kv_off r) x_sp) (tl all_regs)"
  "kernelvec_restore = [Ld x_ra (kv_off x_ra) x_sp, Ld x_sp (kv_off x_sp) x_sp] @ map (\<lambda>r. Ld r (kv_off r) x_sp) kv_regs @
     [Addi x_sp x_sp 256, Sret]"
  by (simp_all add: kernelvec_save_def kernelvec_restore_def kv_regs_def all_regs_def kv_off_def)

lemma in_tl_all_regs: "r \<in> set (tl all_regs) \<longleftrightarrow> r \<noteq> x_zero"
  by (cases r) (simp_all add: all_regs_def)

lemma kv_slots: "r \<noteq> x_zero \<Longrightarrow> q \<noteq> x_zero \<Longrightarrow> r \<noteq> q \<Longrightarrow> regnum r - 1 \<noteq> regnum q - 1" "regnum r - 1 < 32"
proof -
  have "regnum r \<noteq> 0" if "r \<noteq> x_zero" for r using that by (cases r) simp_all
  moreover assume "r \<noteq> x_zero" "q \<noteq> x_zero" "r \<noteq> q"
  ultimately show "regnum r - 1 \<noteq> regnum q - 1" by (metis Suc_pred' regnum_inj not_gr_zero)
qed (use nth_regnum(2) [of r] in simp)

text \<open>
  What the calling convention says of \<^verbatim>\<open>kerneltrap\<close>, the compiled C function: it returns with the
  stack pointer that it was called with, in supervisor mode, and leaves the caller's stack
  frame alone. The thread may have moved to another CPU.
\<close>

definition keeps_frame :: "(hart \<Rightarrow> hart) \<Rightarrow> hart \<Rightarrow> uint64 \<Rightarrow> bool" where
  "keeps_frame kerneltrap h fr \<longleftrightarrow> get_reg x_sp (kerneltrap h) = get_reg x_sp h \<and> spans (kerneltrap h) (get_reg x_sp h) fr 32 \<and>
     (\<forall>i<32. get64 (ram (kerneltrap h)) (fr + 8 * of_nat i) = get64 (ram h) (fr + 8 * of_nat i))"

text \<open>C25: an interrupt in the kernel is transparent. \<^verbatim>\<open>kernelvec\<close> pushes the registers, calls \<^verbatim>\<open>kerneltrap\<close>, and
  returns to \<^verbatim>\<open>sepc\<close> with every register as it was, except \<^verbatim>\<open>tp\<close>, which is the hart id of the CPU that the thread
  now runs on.\<close>

theorem kernelvec_transparent:
  assumes "spans h (get_reg x_sp h - 256) fr 32"
    and "keeps_frame kerneltrap (run kernelvec_save h) fr"
  shows "get_reg r (kernelvec kerneltrap h) =
      (if r = x_tp then get_reg x_tp (kerneltrap (run kernelvec_save h)) else get_reg r h) \<and>
    pc (kernelvec kerneltrap h) = csrs (kerneltrap (run kernelvec_save h)) sepc"
proof -
  define h1 where "h1 = set_reg x_sp (get_reg x_sp h - 256) h"
  define h2 where "h2 = run kernelvec_save h"
  define k where "k = kerneltrap h2"
  have s1: "get_reg x_sp h1 = get_reg x_sp h - 256" "ram h1 = ram h" "xlate h1 = xlate h" by (simp_all add: h1_def)
  define m where "m = fold (\<lambda>r m. set64 m (fr + kv_off r) (get_reg r h1)) (tl all_regs) (ram h)"
  have x: "xlate h (get_reg x_sp h - 256 + kv_off r) = fr + kv_off r" for r
    using assms(1) kv_slots(2) [of r] unfolding spans_def kv_off_def by blast
  have h2: "h2 = h1\<lparr>ram := m\<rparr>"
    using run_saves [of kv_off x_sp "tl all_regs" h1] by (simp add: h2_def kernelvec_saves_loads h1_def m_def s1 [unfolded h1_def] x)
  have saved: "get64 m (fr + kv_off r) = get_reg r h1" if "r \<noteq> x_zero" for r
    unfolding m_def
  proof (rule get64_fold_saved, simp add: in_tl_all_regs that, intro ballI impI)
    fix q assume q: "q \<in> set (tl all_regs)" "q \<noteq> r"
    show "apart (fr + kv_off q) (fr + kv_off r)" unfolding kv_off_def
      by (rule apart_slots) (use kv_slots(1) [of q r] kv_slots(2) [of q] kv_slots(2) [of r] q that in_tl_all_regs in auto)
  qed
  have k: "get_reg x_sp k = get_reg x_sp h - 256" "xlate k (get_reg x_sp h - 256 + kv_off r) = fr + kv_off r"
    "get64 (ram k) (fr + kv_off r) = get64 m (fr + kv_off r)" for r
    using assms(2) kv_slots(2) [of r] s1(1) unfolding keeps_frame_def spans_def kv_off_def k_def h2_def [symmetric] by (auto simp: h2)
  define k1 where "k1 = set_reg x_sp (get_reg x_sp h - 256) (set_reg x_ra (get_reg x_ra h) k)"
  have k1: "get_reg x_sp k1 = get_reg x_sp h - 256" "ram k1 = ram k" "xlate k1 = xlate k" by (simp_all add: k1_def)
  have "run [Ld x_ra (kv_off x_ra) x_sp, Ld x_sp (kv_off x_sp) x_sp] k = k1"
    using k saved [of x_ra] saved [of x_sp] s1 by (simp add: k1_def) (simp add: h1_def)
  moreover define k2 where "k2 = k1\<lparr>regs := (\<lambda>r. if r \<in> set kv_regs \<and> r \<noteq> x_zero then get64 m (fr + kv_off r) else regs k1 r)\<rparr>"
  moreover have "run (map (\<lambda>r. Ld r (kv_off r) x_sp) kv_regs) k1 = k2"
    by (subst run_loads) (simp_all add: k2_def k1 k cong: if_cong)
  ultimately have t: "kernelvec kerneltrap h = sret (set_reg x_sp (get_reg x_sp h) k2)"
    unfolding kernelvec_def h2_def [symmetric] k_def [symmetric] kernelvec_saves_loads(2) run_simps(3)
    by (simp add: k2_def get_reg_def k1_def set_reg_def)
  have "get_reg r (kernelvec kerneltrap h) = get_reg r (set_reg x_sp (get_reg x_sp h) k2)" for r
    by (simp add: t sret_def Let_def)
  moreover have "get_reg r k2 = (if r = x_tp then get_reg x_tp k else if r = x_sp then get_reg x_sp h - 256 else get_reg r h)" for r
  proof (cases "r \<in> set kv_regs")
    case True
    then show ?thesis using saved [of r] by (simp add: k2_def get_reg_def h1_def set_reg_def)
  next
    case False
    then show ?thesis by (auto simp: k2_def get_reg_def k1_def set_reg_def)
  qed
  moreover have "pc (kernelvec kerneltrap h) = csrs k sepc" by (simp add: t sret_def k2_def k1_def Let_def)
  ultimately show ?thesis by (simp add: k_def h2_def)
qed

theorem kernelvec_transparent_witness:
  "\<exists>kerneltrap h. get_reg x_tp (kernelvec kerneltrap h) = 3 \<and> get_reg x_s3 (kernelvec kerneltrap h) = 1019"
proof -
  let ?h = "sample_hart\<lparr>hmode := Supervisor_mode, csrs := \<lambda>_. 0\<rparr>" and ?k = "\<lambda>g. set_reg x_tp 3 (set_reg x_s3 0 g)"
  have "spans g a a 32" if "csrs g satp = 0" for g a using that by (simp add: spans_def xlate_def)
  moreover have "csrs (run kernelvec_save ?h) satp = 0"
    "get_reg x_sp (run kernelvec_save ?h) = get_reg x_sp ?h - 256"
    using run_saves [of kv_off x_sp "tl all_regs" "set_reg x_sp (get_reg x_sp ?h - 256) ?h"] by (simp_all add: kernelvec_saves_loads)
  ultimately have "get_reg r (kernelvec ?k ?h) = (if r = x_tp then get_reg x_tp (?k (run kernelvec_save ?h)) else get_reg r ?h)" for r
    using kernelvec_transparent [of ?h "get_reg x_sp ?h - 256" ?k r] by (simp add: keeps_frame_def)
  then have "get_reg x_tp (kernelvec ?k ?h) = 3" "get_reg x_s3 (kernelvec ?k ?h) = 1019"
    by (simp_all add: get_reg_def [of x_s3])
  then show ?thesis by blast
qed

section \<open>The timer\<close>

lemma put_bits_and:
  "n AND m = n \<Longrightarrow> put_bits m v x AND n = v AND n" "m AND n = 0 \<Longrightarrow> put_bits m v x AND n = x AND n"
proof -
  show "n AND m = n \<Longrightarrow> put_bits m v x AND n = v AND n"
    unfolding put_bits_def by (rule bit_word_eqI) (metis bit_and_iff bit_not_iff bit_or_iff)
  show "m AND n = 0 \<Longrightarrow> put_bits m v x AND n = x AND n"
    unfolding put_bits_def by (rule bit_word_eqI) (metis bit_0_eq bit_and_iff bit_not_iff bit_or_iff bot_apply bot_bool_def impossible_bit)
qed

text \<open>
  The scratch area of a hart: five doublewords, of which the fourth is the address of the
  hart's compare register and the fifth the interval.
\<close>

definition timer_ready :: "uint64 \<Rightarrow> uint64 \<Rightarrow> hart \<Rightarrow> bool" where
  "timer_ready scratch cmp h \<longleftrightarrow> csrs h mscratch = scratch \<and> get64 (ram h) (scratch + 24) = cmp \<and>
     get64 (ram h) (scratch + 32) = 1000000 \<and> (\<forall>i<5. apart cmp (scratch + 8 * of_nat i) \<and> apart (scratch + 8 * of_nat i) cmp)"

lemma apart_scratch: "i \<noteq> j \<Longrightarrow> i < 5 \<Longrightarrow> j < 5 \<Longrightarrow> apart (p + 8 * of_nat i) (p + 8 * of_nat j)"
  by (rule apart_slots) simp_all

lemma trap_machine_mode: "mode_of_MPP (csrs (trap_machine h) mstatus) = hmode h"
  by (cases "hmode h") (simp_all add: trap_machine_def Let_def mode_of_MPP_def put_bits_and)

lemma timervec_effect:
  assumes "hmode h = Machine_mode" "timer_ready scratch cmp h"
  shows "r \<noteq> x_zero \<Longrightarrow> regs (run timervec h) r = regs h r"
    and "get64 (ram (run timervec h)) cmp = get64 (ram h) cmp + 1000000"
    and "timer_ready scratch cmp (run timervec h)"
    and "hmode (run timervec h) = mode_of_MPP (csrs h mstatus)" "pc (run timervec h) = csrs h mepc"
    and "csrs (run timervec h) mip = put_bits (csrs h mideleg AND SSIP) 2 (csrs h mip)" "csrs (run timervec h) mideleg = csrs h mideleg"
proof -
  have a: "apart (scratch + 8 * of_nat i) (scratch + 8 * of_nat j)" if "i \<noteq> j" "i < 5" "j < 5" for i j
    using that by (rule apart_scratch)
  note aa = a [of 0 1] a [of 0 2] a [of 0 3] a [of 0 4] a [of 1 0] a [of 1 2] a [of 1 3] a [of 1 4]
    a [of 2 0] a [of 2 1] a [of 2 3] a [of 2 4]
  have b: "apart cmp (scratch + 8 * of_nat i)" "apart (scratch + 8 * of_nat i) cmp" if "i < 5" for i
    using assms(2) that by (auto simp: timer_ready_def)
  note bb = b [of 0] b [of 1] b [of 2] b [of 3] b [of 4]
  have s: "csrs h mscratch = scratch" "get64 (ram h) (scratch + 24) = cmp" "get64 (ram h) (scratch + 32) = 1000000"
    using assms(2) by (simp_all add: timer_ready_def)
  have x: "xlate g va = va" if "hmode g = Machine_mode" for g va using that by (simp add: xlate_def)
  define m where "m = set64 (set64 (set64 (ram h) scratch (regs h x_a1)) (scratch + 8) (regs h x_a2)) (scratch + 16) (regs h x_a3)"
  define m' where "m' = set64 m cmp (get64 (ram h) cmp + 1000000)"
  define c where "c = (csrs h)(mip := put_bits (csrs h mideleg AND SSIP) 2 (csrs h mip))"
  have ms: "get64 m (scratch + 24) = cmp" "get64 m (scratch + 32) = 1000000" "get64 m cmp = get64 (ram h) cmp"
    using aa bb s by (simp_all add: m_def get64_apart)
  have ms': "get64 m' scratch = regs h x_a1" "get64 m' (scratch + 8) = regs h x_a2" "get64 m' (scratch + 16) = regs h x_a3"
    "get64 m' (scratch + 24) = cmp" "get64 m' (scratch + 32) = 1000000"
    using aa bb ms by (simp_all add: m'_def get64_apart) (simp_all add: m_def get64_apart)
  let ?g = "h\<lparr>regs := (regs h)(x_a0 := scratch), csrs := (csrs h)(mscratch := regs h x_a0)\<rparr>"
  have 1: "run [Csrrw x_a0 mscratch x_a0, Sd x_a1 0 x_a0, Sd x_a2 8 x_a0, Sd x_a3 16 x_a0] h = ?g\<lparr>ram := m\<rparr>"
    using assms(1) s(1) by (simp add: x csr_get_def csr_set_def set_reg_def get_reg_def m_def)
  have 2: "run [Ld x_a1 24 x_a0, Ld x_a2 32 x_a0, Ld x_a3 0 x_a1, Add x_a3 x_a3 x_a2, Sd x_a3 0 x_a1] (?g\<lparr>ram := m\<rparr>) =
      ?g\<lparr>ram := m', regs := (regs h)(x_a0 := scratch, x_a1 := cmp, x_a2 := 1000000, x_a3 := get64 (ram h) cmp + 1000000)\<rparr>"
    using assms(1) ms by (simp add: x set_reg_def get_reg_def m'_def)
  have 3: "run [Li x_a1 2, Csrw sip x_a1, Ld x_a3 16 x_a0, Ld x_a2 8 x_a0, Ld x_a1 0 x_a0, Csrrw x_a0 mscratch x_a0, Mret]
      (?g\<lparr>ram := m', regs := (regs h)(x_a0 := scratch, x_a1 := cmp, x_a2 := 1000000, x_a3 := get64 (ram h) cmp + 1000000)\<rparr>) =
      mret (h\<lparr>ram := m', csrs := c\<rparr>)"
  proof -
    have "(regs h)(x_a0 := regs h x_a0, x_a1 := regs h x_a1, x_a2 := regs h x_a2, x_a3 := regs h x_a3) = regs h" by simp
    moreover have "c = ((csrs h)(mscratch := scratch))(mip := put_bits (csrs h mideleg AND SSIP) 2 (csrs h mip))"
      using s(1) by (auto simp: c_def fun_eq_iff)
    ultimately show ?thesis
      using assms(1) ms' by (simp add: x set_reg_def get_reg_def csr_get_def csr_set_def fun_upd_twist)
  qed
  have t: "run timervec h = mret (h\<lparr>ram := m', csrs := c\<rparr>)"
  proof -
    have e: "timervec = [Csrrw x_a0 mscratch x_a0, Sd x_a1 0 x_a0, Sd x_a2 8 x_a0, Sd x_a3 16 x_a0] @
      [Ld x_a1 24 x_a0, Ld x_a2 32 x_a0, Ld x_a3 0 x_a1, Add x_a3 x_a3 x_a2, Sd x_a3 0 x_a1] @
      [Li x_a1 2, Csrw sip x_a1, Ld x_a3 16 x_a0, Ld x_a2 8 x_a0, Ld x_a1 0 x_a0, Csrrw x_a0 mscratch x_a0, Mret]"
      by (simp add: timervec_def)
    show ?thesis unfolding e run_simps(3) 1 2 3 ..
  qed
  show "r \<noteq> x_zero \<Longrightarrow> regs (run timervec h) r = regs h r"
    "get64 (ram (run timervec h)) cmp = get64 (ram h) cmp + 1000000"
    "hmode (run timervec h) = mode_of_MPP (csrs h mstatus)" "pc (run timervec h) = csrs h mepc"
    "csrs (run timervec h) mip = put_bits (csrs h mideleg AND SSIP) 2 (csrs h mip)" "csrs (run timervec h) mideleg = csrs h mideleg"
    "timer_ready scratch cmp (run timervec h)"
    using assms(2) ms' by (simp_all add: t mret_def Let_def c_def m'_def timer_ready_def)
qed


lemma to_int_of_nat: "i < 8 \<Longrightarrow> to_int (of_nat i) = of_nat i"
  by (simp add: less_Suc_eq numeral_eq_Suc to_int_def; elim disjE; simp)

text \<open>The linker puts \<^verbatim>\<open>timer_scratch\<close> with the other data of the kernel, above the devices.\<close>

definition in_kernel_data :: "uint64 \<Rightarrow> nat \<Rightarrow> bool" where
  "in_kernel_data a n \<longleftrightarrow> unat KERNBASE \<le> unat a \<and> unat a + n \<le> unat PHYSTOP"

lemma scratch_apart_clint:
  assumes "in_kernel_data scr (8 * 40)" "i < 8" "j < 5"
  shows "apart (CLINT_MTIMECMP (of_nat i)) (scr + of_nat i * 40 + 8 * of_nat j)" "apart (scr + of_nat i * 40 + 8 * of_nat j) (CLINT_MTIMECMP (of_nat i))"
proof -
  let ?k = "40 * i + 8 * j"
  have k: "?k < 320" using assms(2,3) by simp
  have u: "unat (scr + of_nat ?k) = unat scr + ?k"
    using assms(1) k unat_of_nat_small [of ?k, where ?'w = 64]
    by (subst unat_add_lem [THEN iffD1]) (auto simp: in_kernel_data_def)
  have c: "unat (CLINT_MTIMECMP (of_nat i)) = 0x2004000 + 8 * i"
  proof -
    have "unat (of_nat (0x2004000 + 8 * i) :: uint64) = 0x2004000 + 8 * i" using assms(2) by (intro unat_of_nat_small) simp
    then show ?thesis by simp
  qed
  have e: "scr + of_nat i * 40 + 8 * of_nat j = scr + of_nat ?k" by simp
  show "apart (CLINT_MTIMECMP (of_nat i)) (scr + of_nat i * 40 + 8 * of_nat j)" "apart (scr + of_nat i * 40 + 8 * of_nat j) (CLINT_MTIMECMP (of_nat i))"
    unfolding apart_def e unat_sub_if' u c using assms k by (auto simp: in_kernel_data_def)
qed

lemma and_or_absorb: "(v AND y) OR y = (y :: uint64)" "(v OR y) AND y = (y :: uint64)"
  by (rule bit_word_eqI; auto simp: bit_simps)+

lemma or_subset: "y AND n = n \<Longrightarrow> (v OR y) AND n = (n :: uint64)"
  by (metis bit.conj_disj_distrib2 and_or_absorb(1))

lemma timerinit_effect:
  assumes "hmode h = Machine_mode" "csrs h mhartid = of_nat i" "i < NCPU" "in_kernel_data scr (NCPU * 40)"
  defines "cmp \<equiv> CLINT_MTIMECMP (of_nat i)" and "sc \<equiv> scr + of_nat i * 40"
  shows "\<exists>m. timerinit tvec scr h = h\<lparr>ram := m, csrs := (csrs h)(mscratch := sc, mtvec := tvec,
      mstatus := csrs h mstatus OR MSTATUS_MIE, mie := csrs h mie OR MIE_MTIE)\<rparr> \<and>
    get64 m (sc + 24) = cmp \<and> get64 m (sc + 32) = 1000000 \<and> get64 m cmp = get64 (ram h) CLINT_MTIME + 1000000"
proof -
  have id: "to_int (csr_get mhartid h) = of_nat i" using assms(2,3) by (simp add: csr_get_def to_int_of_nat)
  have x: "xlate g va = va" if "hmode g = Machine_mode" for g va using that by (simp add: xlate_def)
  have j: "in_kernel_data scr (8 * 40)" "i < 8" using assms(3,4) by simp_all
  note a = scratch_apart_clint [OF j, of 3] scratch_apart_clint [OF j, of 4] apart_scratch [of 4 3 sc]
  let ?m = "set64 (set64 (set64 (ram h) cmp (get64 (ram h) CLINT_MTIME + 1000000)) (sc + 24) cmp) (sc + 32) 1000000"
  have "timerinit tvec scr h = h\<lparr>ram := ?m, csrs := (csrs h)(mscratch := sc, mtvec := tvec,
      mstatus := csrs h mstatus OR MSTATUS_MIE, mie := csrs h mie OR MIE_MTIE)\<rparr>"
    using assms(1) id by (simp add: timerinit_def Let_def poke_def x csr_set_def csr_get_def cmp_def sc_def)
  moreover have "get64 ?m (sc + 24) = cmp" "get64 ?m (sc + 32) = 1000000" "get64 ?m cmp = get64 (ram h) CLINT_MTIME + 1000000"
    using a by (simp_all add: get64_apart cmp_def sc_def)
  ultimately show ?thesis by blast
qed

lemma start_effect:
  fixes h main tvec scr i
  assumes "hmode h = Machine_mode" "csrs h mhartid = of_nat i" "i < NCPU" "in_kernel_data scr (NCPU * 40)"
    "delegable h AND 0x222 = 0x222" "delegable h AND 0x80 = 0"
  defines "s \<equiv> start main tvec scr h" and "cmp \<equiv> CLINT_MTIMECMP (of_nat i)"
  shows "hmode s = Supervisor_mode" "pc s = main" "regs s x_tp = of_nat i" "csrs s satp = 0" "csrs s mtvec = tvec"
    "timer_ready (scr + of_nat i * 40) cmp s" "get64 (ram s) cmp = get64 (ram h) CLINT_MTIME + 1000000"
    "csrs s mie AND 0x80 \<noteq> 0" "csrs s mideleg AND 0x80 = 0" "csrs s mideleg AND SSIP = SSIP" "csr_get sie s AND 0x222 = 0x222"
proof -
  define d where "d = 0xffff AND delegable h"
  define st where "st = put_bits MSTATUS_MPP_MASK MSTATUS_MPP_S (csrs h mstatus)"
  define ie where "ie = put_bits d ((csrs h mie AND d) OR SIE_SEIE OR SIE_STIE OR SIE_SSIE) (csrs h mie)"
  define g where "g = h\<lparr>csrs := (csrs h)(mstatus := st, mepc := main, satp := 0, medeleg := 0xffff, mideleg := d, mie := ie,
    pmpaddr0 := 0x3fffffffffffff, pmpcfg0 := 0xf)\<rparr>"
  have d: "d AND 0x222 = 0x222" "d AND 0x80 = 0" "d AND 2 = 2"
  proof -
    have e: "d AND n = delegable h AND n" if "0xffff AND n = n" for n
      using that unfolding d_def by (metis and.assoc and.commute)
    show "d AND 0x222 = 0x222" "d AND 0x80 = 0" using assms(5,6) by (simp_all add: e)
    then show "d AND 2 = 2" using and.assoc [of d "0x222" 2] by simp
  qed
  have "start main tvec scr h = step Mret (w_tp (to_int (r_mhartid (timerinit tvec scr g))) (timerinit tvec scr g))"
    unfolding start_def Let_def g_def st_def ie_def d_def
    by (simp add: csr_set_def csr_get_def put_bits_def fun_upd_twist or.assoc)
  moreover obtain m where m: "timerinit tvec scr g = g\<lparr>ram := m, csrs := (csrs g)(mscratch := scr + of_nat i * 40, mtvec := tvec,
      mstatus := csrs g mstatus OR MSTATUS_MIE, mie := csrs g mie OR MIE_MTIE)\<rparr>"
    "get64 m (scr + of_nat i * 40 + 24) = cmp" "get64 m (scr + of_nat i * 40 + 32) = 1000000" "get64 m cmp = get64 (ram h) CLINT_MTIME + 1000000"
    using timerinit_effect [of g i scr tvec] assms(1-4) by (auto simp: g_def cmp_def)
  ultimately have s: "s = mret (set_reg x_tp (of_nat i) (g\<lparr>ram := m, csrs := (csrs g)(mscratch := scr + of_nat i * 40, mtvec := tvec,
      mstatus := st OR MSTATUS_MIE, mie := ie OR MIE_MTIE)\<rparr>))"
    using assms(2,3) by (simp add: s_def csr_get_def g_def to_int_of_nat)
  have "(st OR MSTATUS_MIE) AND mstatus_MPP = 0x800"
    by (simp add: st_def bit.conj_disj_distrib2 put_bits_and)
  then show "hmode s = Supervisor_mode" by (simp add: s mret_def Let_def mode_of_MPP_def g_def)
  show "pc s = main" "regs s x_tp = of_nat i" "csrs s satp = 0" "csrs s mtvec = tvec" "get64 (ram s) cmp = get64 (ram h) CLINT_MTIME + 1000000"
    using m(4) by (simp_all add: s mret_def Let_def set_reg_def g_def)
  show "timer_ready (scr + of_nat i * 40) cmp s"
    using m(2,3) scratch_apart_clint [of scr i] assms(3,4) by (simp add: timer_ready_def s mret_def Let_def g_def cmp_def)
  have e: "csrs s mie = ie OR 0x80" "csrs s mideleg = d" by (simp_all add: s mret_def Let_def g_def)
  show "csrs s mie AND 0x80 \<noteq> 0" "csrs s mideleg AND 0x80 = 0" "csrs s mideleg AND SSIP = SSIP"
    using d by (simp_all add: e and_or_absorb)
  have "ie AND 0x222 = 0x222"
  proof -
    have "0x222 AND d = 0x222" using d(1) by (simp add: and.commute)
    then have "ie AND 0x222 = (csrs h mie AND d OR SIE_SEIE OR SIE_STIE OR SIE_SSIE) AND 0x222" by (simp add: ie_def put_bits_and)
    also have "\<dots> = (csrs h mie AND d OR 0x222) AND 0x222" by (simp add: or.assoc)
    finally show ?thesis by (simp add: and_or_absorb)
  qed
  then have "(ie OR 0x80) AND 0x222 = 0x222" by (simp add: bit.conj_disj_distrib2)
  then show "csr_get sie s AND 0x222 = 0x222" using d(1) e by (simp add: csr_get_def and.assoc)
qed

text \<open>C26: the clock. \<^verbatim>\<open>start\<close> on one of the harts enters \<^verbatim>\<open>main\<close> in supervisor mode, with the hart id in \<^verbatim>\<open>tp\<close>, paging
  off, the supervisor's interrupts enabled and the first timer interrupt 1000000 cycles away. From then on, as long
  as the hart's scratch area is left alone, every timer interrupt, taken in any mode, schedules the next one an interval
  later, raises a software interrupt for the supervisor, and otherwise returns to where it came from with all
  registers as they were.\<close>

theorem clock_ticks:
  fixes h g main tvec scr i
  defines "s \<equiv> start main tvec scr h" and "cmp \<equiv> CLINT_MTIMECMP (of_nat i)" and "t \<equiv> run timervec (trap_machine g)"
  assumes "hmode h = Machine_mode" "csrs h mhartid = of_nat i" "i < NCPU" "in_kernel_data scr (NCPU * 40)"
    and delegation: "delegable h AND 0x222 = 0x222" "delegable h AND 0x80 = 0"
    and kept: "csrs g mscratch = csrs s mscratch" "csrs g mideleg = csrs s mideleg"
      "get64 (ram g) (csrs s mscratch + 24) = get64 (ram s) (csrs s mscratch + 24)"
      "get64 (ram g) (csrs s mscratch + 32) = get64 (ram s) (csrs s mscratch + 32)"
  shows "hmode s = Supervisor_mode \<and> pc s = main \<and> regs s x_tp = of_nat i \<and> csrs s satp = 0 \<and> csrs s mtvec = tvec \<and>
      csr_get sie s AND 0x222 = 0x222 \<and> csrs s mie AND 0x80 \<noteq> 0 \<and> csrs s mideleg AND 0x80 = 0 \<and>
      get64 (ram s) cmp = get64 (ram h) CLINT_MTIME + 1000000 \<and>
      (\<forall>r. get_reg r t = get_reg r g) \<and> pc t = pc g \<and> hmode t = hmode g \<and>
      get64 (ram t) cmp = get64 (ram g) cmp + 1000000 \<and> csr_get sip t AND SSIP \<noteq> 0 \<and> timer_ready (scr + of_nat i * 40) cmp t"
proof -
  note st = start_effect [OF assms(4-9), of main tvec, folded s_def cmp_def]
  have g: "hmode (trap_machine g) = Machine_mode" "timer_ready (scr + of_nat i * 40) cmp (trap_machine g)"
    "csrs (trap_machine g) mepc = pc g" "ram (trap_machine g) = ram g" "regs (trap_machine g) = regs g"
    "csrs (trap_machine g) mideleg = csrs g mideleg"
    using kept st(6) by (simp_all add: trap_machine_def Let_def timer_ready_def)
  note u = timervec_effect [OF g(1,2), folded t_def, unfolded g(3-6) trap_machine_mode]
  have "csr_get sip t AND SSIP = SSIP"
    using st(10) kept(2) by (simp add: csr_get_def u(6,7) and.assoc put_bits_and and.left_commute)
  moreover have "get_reg r t = get_reg r g" for r using u(1) [of r] by (simp add: get_reg_def)
  ultimately show ?thesis using st u by simp
qed


theorem clock_ticks_witness:
  "\<exists>s. hmode s = Supervisor_mode \<and> get_reg x_tp (run timervec (trap_machine s)) = 3 \<and> pc (run timervec (trap_machine s)) = 0x80000a00"
proof -
  let ?h = "sample_hart\<lparr>hmode := Machine_mode, csrs := (\<lambda>_. 0)(mhartid := 3)\<rparr>"
  let ?s = "start 0x80000a00 0x80000100 0x80008000 ?h"
  have "hmode ?s = Supervisor_mode \<and> pc ?s = 0x80000a00 \<and> regs ?s x_tp = of_nat 3 \<and>
    (\<forall>r. get_reg r (run timervec (trap_machine ?s)) = get_reg r ?s) \<and> pc (run timervec (trap_machine ?s)) = pc ?s"
    using clock_ticks [of ?h 3 "0x80008000" ?s "0x80000a00" "0x80000100"]
    by (simp add: in_kernel_data_def sample_hart_def)
  moreover from this have "get_reg x_tp (run timervec (trap_machine ?s)) = 3" by (simp add: get_reg_def [of _ ?s])
  ultimately show ?thesis by (intro exI [of _ ?s]) simp
qed

text \<open>\<^verbatim>\<open>entry\<close> gives every hart the top of its own 4096 bytes of \<^verbatim>\<open>stack0\<close>.\<close>

lemma entry_stack:
  assumes "csrs h mhartid = of_nat i"
  shows "regs (run (entry stack0 st spin) h) x_sp = stack0 + 4096 * of_nat (Suc i)" "pc (run (entry stack0 st spin) h) = st"
  using assms by (simp_all add: entry_def csr_get_def set_reg_def get_reg_def algebra_simps)

end
