(* ===== verification/Ulib.thy ===== *)
theory Ulib
  imports Console
begin

text \<open>
  The library that user programs are linked with: \<^verbatim>\<open>user/ulib.c\<close> and \<^verbatim>\<open>user/printf.c\<close>. A pointer
  into memory that is written is an address in \<open>uint64 \<Rightarrow> uchar\<close>; a string that is only read
  is the list of its bytes before the terminator. A program that makes system calls takes them
  as a record of functions on the state \<open>'s\<close> of the rest of the machine, and returns either
  the status that it exits with or a value; a loop that does not end returns None.
\<close>

section \<open>System calls\<close>

record 's usys =
  u_read :: "int \<Rightarrow> nat \<Rightarrow> 's \<Rightarrow> (int \<times> uchar list) \<times> 's"
  u_write :: "int \<Rightarrow> uchar list \<Rightarrow> 's \<Rightarrow> int \<times> 's"
  u_open :: "uchar list \<Rightarrow> int \<Rightarrow> 's \<Rightarrow> int \<times> 's"
  u_close :: "int \<Rightarrow> 's \<Rightarrow> int \<times> 's"
  u_fstat :: "int \<Rightarrow> 's \<Rightarrow> (int \<times> fstat) \<times> 's"
  u_unlink :: "uchar list \<Rightarrow> 's \<Rightarrow> int \<times> 's"
  u_mkdir :: "uchar list \<Rightarrow> 's \<Rightarrow> int \<times> 's"
  u_link :: "uchar list \<Rightarrow> uchar list \<Rightarrow> 's \<Rightarrow> int \<times> 's"
  u_rename :: "uchar list \<Rightarrow> uchar list \<Rightarrow> 's \<Rightarrow> int \<times> 's"
  u_kill :: "int \<Rightarrow> 's \<Rightarrow> int \<times> 's"
  u_diskspace :: "'s \<Rightarrow> (int \<times> uint \<times> uint) \<times> 's"

type_synonym ('s, 'a) uprog = "'s \<Rightarrow> ((int + 'a) \<times> 's) option"

definition ubind :: "('s, 'a) uprog \<Rightarrow> ('a \<Rightarrow> ('s, 'b) uprog) \<Rightarrow> ('s, 'b) uprog" where
  "ubind p f s = Option.bind (p s) (\<lambda>(r, s). case r of Inl e \<Rightarrow> Some (Inl e, s) | Inr x \<Rightarrow> f x s)"

definition ureturn :: "'a \<Rightarrow> ('s, 'a) uprog" where
  "ureturn x s = Some (Inr x, s)"

definition uexit :: "int \<Rightarrow> ('s, 'a) uprog" where
  "uexit status s = Some (Inl status, s)"

definition ucall :: "('s \<Rightarrow> 'a \<times> 's) \<Rightarrow> ('s, 'a) uprog" where
  "ucall f s = (let (x, s) = f s in Some (Inr x, s))"

lemma ubind_simps [simp]:
  "ubind (ureturn x) f s = f x s" "ubind (uexit e) f s = Some (Inl e, s)" "ubind (ucall g) f s = f (fst (g s)) (snd (g s))"
  by (simp_all add: ubind_def ureturn_def uexit_def ucall_def split_beta)

lemma ubind_Some: "p s = Some (Inr x, s') \<Longrightarrow> ubind p f s = f x s'" "p s = Some (Inl e, s') \<Longrightarrow> ubind p f s = Some (Inl e, s')"
  by (simp_all add: ubind_def)

lemma ubind_mono [partial_function_mono]:
  assumes "mono_option (\<lambda>g. p g s)" "\<And>x s. mono_option (\<lambda>g. f g x s)"
  shows "mono_option (\<lambda>g. ubind (p g) (f g) s)"
proof -
  have "mono_option (\<lambda>g. case y of (r, s) \<Rightarrow> (case r of Inl e \<Rightarrow> Some (Inl e, s) | Inr x \<Rightarrow> f g x s))" for y
    by (cases y; cases "fst y") (simp_all add: assms(2) option.const_mono)
  then show ?thesis unfolding ubind_def by (intro bind_mono assms(1))
qed

fun ueach :: "('x \<Rightarrow> ('s, unit) uprog) \<Rightarrow> 'x list \<Rightarrow> ('s, unit) uprog" where
  "ueach f [] = ureturn ()"
| "ueach f (x # xs) = ubind (f x) (\<lambda>_. ueach f xs)"

section \<open>ulib.c\<close>

partial_function (option) strcpy :: "(uint64 \<Rightarrow> uchar) \<Rightarrow> uint64 \<Rightarrow> uint64 \<Rightarrow> (uint64 \<Rightarrow> uchar) option" where
  "strcpy m s t =
     (let m' = m(s := m t) in if m t \<noteq> 0 then strcpy m' (s + 1) (t + 1) else Some m')"

partial_function (option) strcmp_from :: "(nat \<Rightarrow> uchar) \<Rightarrow> (nat \<Rightarrow> uchar) \<Rightarrow> nat \<Rightarrow> int option" where
  "strcmp_from p q i =
     (if p i \<noteq> 0 \<and> p i = q i then strcmp_from p q (Suc i) else Some (uint (p i) - uint (q i)))"

definition strcmp :: "(nat \<Rightarrow> uchar) \<Rightarrow> (nat \<Rightarrow> uchar) \<Rightarrow> int option" where
  "strcmp p q = strcmp_from p q 0"

partial_function (option) u_strlen_from :: "(nat \<Rightarrow> uchar) \<Rightarrow> nat \<Rightarrow> nat option" where
  "u_strlen_from s n = (if s n = 0 then Some n else u_strlen_from s (Suc n))"

definition u_strlen :: "(nat \<Rightarrow> uchar) \<Rightarrow> nat option" where
  "u_strlen s = u_strlen_from s 0"

fun u_memset :: "(uint64 \<Rightarrow> uchar) \<Rightarrow> uint64 \<Rightarrow> uchar \<Rightarrow> nat \<Rightarrow> (uint64 \<Rightarrow> uchar)" where
  "u_memset m cdst c 0 = m"
| "u_memset m cdst c (Suc n) = u_memset (m(cdst := c)) (cdst + 1) c n"

text \<open>The position of the first occurrence of a character before the terminator.\<close>

fun strchr :: "uchar list \<Rightarrow> uchar \<Rightarrow> nat option" where
  "strchr [] c = None"
| "strchr (x # s) c = (if x = 0 then None else if x = c then Some 0 else map_option Suc (strchr s c))"

text \<open>\<^verbatim>\<open>gets\<close> with room for \<open>n\<close> bytes and the terminator.\<close>

fun gets_from :: "'s usys \<Rightarrow> nat \<Rightarrow> ('s, uchar list) uprog" where
  "gets_from K 0 = ureturn []"
| "gets_from K (Suc n) =
     ubind (ucall (u_read K 0 1)) (\<lambda>(cc, bs).
       if cc < 1 then ureturn []
       else if hd bs = 10 \<or> hd bs = 13 then ureturn [hd bs]
       else ubind (gets_from K n) (\<lambda>l. ureturn (hd bs # l)))"

definition gets :: "'s usys \<Rightarrow> nat \<Rightarrow> ('s, uchar list) uprog" where
  "gets K n = gets_from K (n - 1)"

definition stat :: "'s usys \<Rightarrow> uchar list \<Rightarrow> ('s, int \<times> fstat option) uprog" where
  "stat K n =
     ubind (ucall (u_open K n 0)) (\<lambda>fd.
       if fd < 0 then ureturn (- 1, None)
       else
         ubind (ucall (u_fstat K fd)) (\<lambda>(r, st).
         ubind (ucall (u_close K fd)) (\<lambda>_.
         ureturn (r, if r < 0 then None else Some st))))"

text \<open>\<^verbatim>\<open>int\<close> arithmetic that overflows is undefined.\<close>

fun atoi_from :: "uchar list \<Rightarrow> int \<Rightarrow> int res" where
  "atoi_from [] n = Inr n"
| "atoi_from (c # s) n =
     (if 48 \<le> c \<and> c \<le> 57 then
        if n * 10 + uint c < 2 ^ 31 then atoi_from s (n * 10 + uint c - 48) else Inl (Undef ''overflow'')
      else Inr n)"

definition atoi :: "uchar list \<Rightarrow> int res" where
  "atoi s = atoi_from s 0"

definition u_memmove :: "(uint64 \<Rightarrow> uchar) \<Rightarrow> uint64 \<Rightarrow> uint64 \<Rightarrow> int \<Rightarrow> (uint64 \<Rightarrow> uchar)" where
  "u_memmove m dst src n =
     (if src > dst then copy_up m dst src (nat n)
      else copy_down m (dst + word_of_int n) (src + word_of_int n) (nat n))"

fun u_memcmp_from :: "(nat \<Rightarrow> uchar) \<Rightarrow> (nat \<Rightarrow> uchar) \<Rightarrow> nat \<Rightarrow> nat \<Rightarrow> int" where
  "u_memcmp_from p1 p2 i 0 = 0"
| "u_memcmp_from p1 p2 i (Suc n) =
     (if p1 i \<noteq> p2 i then uint (p1 i) - uint (p2 i) else u_memcmp_from p1 p2 (Suc i) n)"

definition u_memcmp :: "(nat \<Rightarrow> uchar) \<Rightarrow> (nat \<Rightarrow> uchar) \<Rightarrow> uint \<Rightarrow> int" where
  "u_memcmp s1 s2 n = u_memcmp_from s1 s2 0 (unat n)"

definition u_memcpy :: "(uint64 \<Rightarrow> uchar) \<Rightarrow> uint64 \<Rightarrow> uint64 \<Rightarrow> uint \<Rightarrow> (uint64 \<Rightarrow> uchar)" where
  "u_memcpy m dst src n = u_memmove m dst src (sint n)"

section \<open>printf.c\<close>

definition udigits :: "uchar list" where
  "udigits = [48, 49, 50, 51, 52, 53, 54, 55, 56, 57, 65, 66, 67, 68, 69, 70]"

function u_int_digits :: "nat \<Rightarrow> nat \<Rightarrow> uchar list" where
  "u_int_digits base x =
     udigits ! (x mod base) # (if x div base \<noteq> 0 \<and> base > 1 then u_int_digits base (x div base) else [])"
  by pat_completeness auto
termination by (relation "measure snd") (auto simp: div_le_dividend intro!: div_less_dividend Nat.gr0I)

declare u_int_digits.simps [simp del]

definition u_printint_text :: "uint \<Rightarrow> nat \<Rightarrow> bool \<Rightarrow> uchar list" where
  "u_printint_text xx base sg =
     (let neg = sg \<and> sint xx < 0;
          x = (if neg then - xx else xx)
      in rev (u_int_digits base (unat x) @ (if neg then [45] else [])))"

definition putc :: "'s usys \<Rightarrow> int \<Rightarrow> uchar \<Rightarrow> ('s, unit) uprog" where
  "putc K fd c = ubind (ucall (u_write K fd [c])) (\<lambda>_. ureturn ())"

definition u_printint :: "'s usys \<Rightarrow> int \<Rightarrow> uint \<Rightarrow> nat \<Rightarrow> bool \<Rightarrow> ('s, unit) uprog" where
  "u_printint K fd xx base sg = ueach (putc K fd) (u_printint_text xx base sg)"

fun u_ptr_digits :: "nat \<Rightarrow> uint64 \<Rightarrow> uchar list" where
  "u_ptr_digits 0 x = []"
| "u_ptr_digits (Suc n) x = udigits ! unat (drop_bit 60 x) # u_ptr_digits n (push_bit 4 x)"

definition u_printptr :: "'s usys \<Rightarrow> int \<Rightarrow> uint64 \<Rightarrow> ('s, unit) uprog" where
  "u_printptr K fd x = ueach (putc K fd) ([48, 120] @ u_ptr_digits 16 x)"

text \<open>
  \<open>state\<close> says whether the last character was an open \<^verbatim>\<open>%\<close>. \<^verbatim>\<open>%l\<close> passes its 64-bit argument
  to a parameter of type \<^verbatim>\<open>int\<close>. A missing or wrong argument is undefined in C: the program
  does not go on.
\<close>

datatype uarg = UInt uint | ULong uint64 | UPtr uint64 | UStr "uchar list option" | UChar uchar

fun vprintf :: "'s usys \<Rightarrow> int \<Rightarrow> bool \<Rightarrow> uchar list \<Rightarrow> uarg list \<Rightarrow> ('s, unit) uprog" where
  "vprintf K fd state [] as = ureturn ()"
| "vprintf K fd False (c # fmt) as =
     (if c = 37 then vprintf K fd True fmt as
      else ubind (putc K fd c) (\<lambda>_. vprintf K fd False fmt as))"
| "vprintf K fd True (c # fmt) as =
     (if c = 100 then
        (case as of UInt x # as \<Rightarrow> ubind (u_printint K fd x 10 True) (\<lambda>_. vprintf K fd False fmt as) | _ \<Rightarrow> (\<lambda>_. None))
      else if c = 108 then
        (case as of ULong x # as \<Rightarrow> ubind (u_printint K fd (ucast x) 10 False) (\<lambda>_. vprintf K fd False fmt as) | _ \<Rightarrow> (\<lambda>_. None))
      else if c = 120 then
        (case as of UInt x # as \<Rightarrow> ubind (u_printint K fd x 16 False) (\<lambda>_. vprintf K fd False fmt as) | _ \<Rightarrow> (\<lambda>_. None))
      else if c = 112 then
        (case as of UPtr x # as \<Rightarrow> ubind (u_printptr K fd x) (\<lambda>_. vprintf K fd False fmt as) | _ \<Rightarrow> (\<lambda>_. None))
      else if c = 115 then
        (case as of UStr s # as \<Rightarrow>
           ubind (ueach (putc K fd) (case s of None \<Rightarrow> bytes ''(null)'' | Some s \<Rightarrow> s)) (\<lambda>_. vprintf K fd False fmt as)
         | _ \<Rightarrow> (\<lambda>_. None))
      else if c = 99 then
        (case as of UChar x # as \<Rightarrow> ubind (putc K fd x) (\<lambda>_. vprintf K fd False fmt as) | _ \<Rightarrow> (\<lambda>_. None))
      else if c = 37 then ubind (putc K fd c) (\<lambda>_. vprintf K fd False fmt as)
      else ubind (putc K fd 37) (\<lambda>_. ubind (putc K fd c) (\<lambda>_. vprintf K fd False fmt as)))"

definition fprintf :: "'s usys \<Rightarrow> int \<Rightarrow> string \<Rightarrow> uarg list \<Rightarrow> ('s, unit) uprog" where
  "fprintf K fd fmt as = vprintf K fd False (bytes fmt) as"

definition u_printf :: "'s usys \<Rightarrow> string \<Rightarrow> uarg list \<Rightarrow> ('s, unit) uprog" where
  "u_printf K fmt as = vprintf K 1 False (bytes fmt) as"

section \<open>Properties\<close>

lemma u_memmove_moved:
  assumes "unat dst + n \<le> 2 ^ 64" "unat src + n \<le> 2 ^ 64"
  shows "u_memmove m dst src (int n) = moved m dst src n"
  using copy_up_moved [OF assms] copy_down_moved [OF assms] by (auto simp: u_memmove_def not_less less_imp_le)

text \<open>The digits of a number fit the buffer of \<^verbatim>\<open>printint\<close>.\<close>

lemma u_int_digits_length:
  assumes "1 < base" "x < base ^ Suc k"
  shows "length (u_int_digits base x) \<le> Suc k"
  using assms(2)
proof (induction k arbitrary: x)
  case 0
  then show ?case by (simp add: u_int_digits.simps)
next
  case (Suc k)
  have "x div base < base ^ Suc k" using Suc.prems assms(1) by (simp add: less_mult_imp_div_less mult.commute)
  then have "length (u_int_digits base (x div base)) \<le> Suc k" by (rule Suc.IH)
  then show ?case by (subst u_int_digits.simps) simp
qed

lemma udigits_10: "d < 10 \<Longrightarrow> udigits ! d = of_nat (48 + d)"
  by (simp add: less_Suc_eq numeral_eq_Suc udigits_def; elim disjE; simp)

lemma atoi_digits:
  assumes "x + 48 < 2 ^ 31"
  shows "atoi_from (rev (u_int_digits 10 x) @ s) 0 = atoi_from s (int x)"
  using assms
proof (induction x arbitrary: s rule: less_induct)
  case (less x)
  let ?d = "x mod 10"
  have d: "udigits ! ?d = of_nat (48 + ?d)" "?d < 10" by (simp_all add: udigits_10)
  have u: "unat (of_nat (48 + ?d) :: uchar) = 48 + ?d" using d(2) by (intro unat_of_nat_small) simp
  have r: "48 \<le> (of_nat (48 + ?d) :: uchar)" "(of_nat (48 + ?d) :: uchar) \<le> 57" "uint (of_nat (48 + ?d) :: uchar) = 48 + int ?d"
    using u d(2) by (simp_all only: word_le_nat_alt uint_nat) simp_all
  have "atoi_from (of_nat (48 + ?d) # s) (int (x div 10)) = atoi_from s (int x)"
  proof -
    have e: "int (x div 10) * 10 + int ?d = int x" by (metis of_nat_add of_nat_mult of_nat_numeral div_mult_mod_eq)
    have i: "int x + 48 < 2 ^ 31" using less.prems by simp
    have "int (x div 10) * 10 + (48 + int ?d) = int x + 48" using e by simp
    with i have "int (x div 10) * 10 + (48 + int ?d) < 2 ^ 31" "int (x div 10) * 10 + (48 + int ?d) - 48 = int x" by simp_all
    then show ?thesis unfolding atoi_from.simps(2) r(3) using r(1,2) by (simp only: if_True simp_thms)
  qed
  moreover have "atoi_from (rev (u_int_digits 10 (x div 10)) @ t) 0 = atoi_from t (int (x div 10))" if "x div 10 \<noteq> 0" for t
    using less.prems that by (intro less.IH) auto
  ultimately show ?case using d(1) by (subst u_int_digits.simps) auto
qed



end
