(* ===== verification/Grep.thy ===== *)
theory Grep
  imports Ulib
begin

text \<open>
  The program \<^verbatim>\<open>user/grep.c\<close>: its matcher for patterns with \<^verbatim>\<open>^ . * $\<close>, shown equivalent to the
  language of the pattern, and the loop that reads a file and prints the lines that match.
\<close>

section \<open>The matcher\<close>

text \<open>The character at an index of a string; the terminator follows its bytes.\<close>

definition at :: "uchar list \<Rightarrow> nat \<Rightarrow> uchar" where
  "at s i = (if i < length s then s ! i else 0)"

function matchhere :: "uchar list \<Rightarrow> uchar list \<Rightarrow> bool"
  and matchstar :: "uchar \<Rightarrow> uchar list \<Rightarrow> uchar list \<Rightarrow> bool" where
  "matchhere re text =
     (if at re 0 = 0 then True
      else if at re 1 = 42 then matchstar (at re 0) (drop 2 re) text
      else if at re 0 = 36 \<and> at re 1 = 0 then at text 0 = 0
      else if at text 0 \<noteq> 0 \<and> (at re 0 = 46 \<or> at re 0 = at text 0) then matchhere (drop 1 re) (drop 1 text)
      else False)"
| "matchstar c re text =
     (if matchhere re text then True
      else if at text 0 \<noteq> 0 \<and> (at text 0 = c \<or> c = 46) then matchstar c re (drop 1 text)
      else False)"
  by pat_completeness auto
termination
  by (relation "measures [\<lambda>x. case x of Inl (re, text) \<Rightarrow> 2 * length re | Inr (c, re, text) \<Rightarrow> 2 * length re + 1,
      \<lambda>x. case x of Inl (re, text) \<Rightarrow> length text | Inr (c, re, text) \<Rightarrow> length text]")
    (auto simp: at_def split: if_splits)

declare matchhere.simps [simp del] matchstar.simps [simp del]

function match_from :: "uchar list \<Rightarrow> uchar list \<Rightarrow> bool" where
  "match_from re text =
     (if matchhere re text then True else if at text 0 \<noteq> 0 then match_from re (drop 1 text) else False)"
  by pat_completeness auto
termination
  by (relation "measure (\<lambda>(re, text). length text)") (auto simp: at_def split: if_splits)

declare match_from.simps [simp del]

definition match :: "uchar list \<Rightarrow> uchar list \<Rightarrow> bool" where
  "match re text = (if at re 0 = 94 then matchhere (drop 1 re) text else match_from re text)"

section \<open>The loop over the lines\<close>

text \<open>
  The lines of the buffer: each line that matches is written with its newline, and what follows
  the last newline stays in the buffer.
\<close>

fun grep_lines :: "'s usys \<Rightarrow> uchar list \<Rightarrow> nat \<Rightarrow> uchar list \<Rightarrow> ('s, uchar list) uprog" where
  "grep_lines K pattern 0 p = ureturn p"
| "grep_lines K pattern (Suc n) p =
     (case strchr p 10 of
        None \<Rightarrow> ureturn p
      | Some i \<Rightarrow>
          if match pattern (take i p)
          then ubind (ucall (u_write K 1 (take i p @ [10]))) (\<lambda>_. grep_lines K pattern n (drop (Suc i) p))
          else grep_lines K pattern n (drop (Suc i) p))"

text \<open>\<open>buf\<close> is the part of the line that has been read, and the bound of \<open>grep_lines\<close> the bytes in the buffer.\<close>

partial_function (option) grep :: "'s usys \<Rightarrow> uchar list \<Rightarrow> int \<Rightarrow> uchar list \<Rightarrow> 's \<Rightarrow> ((int + unit) \<times> 's) option" where
  "grep K pattern fd buf s =
     ubind (ucall (u_read K fd (1024 - length buf - 1))) (\<lambda>x s.
       if fst x > 0 then
         ubind (grep_lines K pattern (length buf + length (snd x)) (buf @ snd x)) (\<lambda>buf s. grep K pattern fd buf s) s
       else ureturn () s) s"

fun grep_files :: "'s usys \<Rightarrow> uchar list \<Rightarrow> uchar list list \<Rightarrow> ('s, unit) uprog" where
  "grep_files K pattern [] = ureturn ()"
| "grep_files K pattern (f # fs) =
     ubind (ucall (u_open K f 0)) (\<lambda>fd.
       if fd < 0 then ubind (u_printf K ''grep: cannot open %s\<newline>'' [UStr (Some f)]) (\<lambda>_. uexit 1)
       else
         ubind (grep K pattern fd []) (\<lambda>_.
         ubind (ucall (u_close K fd)) (\<lambda>_. grep_files K pattern fs)))"

definition grep_main :: "'s usys \<Rightarrow> uchar list list \<Rightarrow> ('s, unit) uprog" where
  "grep_main K argv =
     (if length argv \<le> 1 then ubind (fprintf K 2 ''usage: grep pattern [file ...]\<newline>'' []) (\<lambda>_. uexit 1)
      else if length argv \<le> 2 then ubind (grep K (argv ! 1) 0 []) (\<lambda>_. uexit 0)
      else ubind (grep_files K (argv ! 1) (drop 2 argv)) (\<lambda>_. uexit 0))"

section \<open>The language of a pattern\<close>

text \<open>
  A pattern is a sequence of atoms, maybe anchored at the start and at the end: a character, which
  is itself or, for a dot, any, and a character that is repeated. A dollar is an anchor only as the
  last character, and a star repeats whatever character precedes it.
\<close>

datatype atom = One uchar | Rep uchar

fun atoms :: "uchar list \<Rightarrow> atom list" where
  "atoms [] = []"
| "atoms [c] = (if c = 36 then [] else [One c])"
| "atoms (c # d # re) = (if d = 42 then Rep c # atoms re else One c # atoms (d # re))"

fun end_anchor :: "uchar list \<Rightarrow> bool" where
  "end_anchor [] = False"
| "end_anchor [c] = (c = 36)"
| "end_anchor (c # d # re) = (if d = 42 then end_anchor re else end_anchor (d # re))"

definition sat :: "uchar \<Rightarrow> uchar \<Rightarrow> bool" where
  "sat c x \<longleftrightarrow> c = 46 \<or> c = x"

fun lang :: "atom list \<Rightarrow> uchar list set" where
  "lang [] = {[]}"
| "lang (One c # as) = {x # w | x w. sat c x \<and> w \<in> lang as}"
| "lang (Rep c # as) = {u @ w | u w. (\<forall>x\<in>set u. sat c x) \<and> w \<in> lang as}"

text \<open>A word of the language at the start of a text, up to the end if the pattern is anchored there.\<close>

definition starts :: "uchar list \<Rightarrow> uchar list \<Rightarrow> bool" where
  "starts re text \<longleftrightarrow> (\<exists>w post. text = w @ post \<and> w \<in> lang (atoms re) \<and> (end_anchor re \<longrightarrow> post = []))"

definition nul_free :: "uchar list \<Rightarrow> bool" where
  "nul_free s \<longleftrightarrow> 0 \<notin> set s"

lemma at_0 [simp]: "at [] i = 0" "at (x # s) 0 = x" "at (x # s) (Suc i) = at s i" "at (x # s) 1 = at s 0"
  by (simp_all add: at_def)

lemma at_nul: "nul_free s \<Longrightarrow> at s 0 = 0 \<longleftrightarrow> s = []"
  by (cases s) (auto simp: nul_free_def)

lemma nul_free_simps [simp]: "nul_free []" "nul_free (x # s) \<longleftrightarrow> x \<noteq> 0 \<and> nul_free s" "nul_free (s @ t) \<longleftrightarrow> nul_free s \<and> nul_free t"
  by (auto simp: nul_free_def)

lemma startsI: "t = w @ post \<Longrightarrow> w \<in> lang (atoms re) \<Longrightarrow> (end_anchor re \<Longrightarrow> post = []) \<Longrightarrow> starts re t"
  unfolding starts_def by blast

lemma startsE:
  assumes "starts re t"
  obtains w post where "t = w @ post" "w \<in> lang (atoms re)" "end_anchor re \<longrightarrow> post = []"
  using assms unfolding starts_def by blast

lemma starts_simps:
  "starts [] t" "starts [36] t \<longleftrightarrow> t = []"
  "c \<noteq> 36 \<Longrightarrow> starts [c] t \<longleftrightarrow> (\<exists>x s. t = x # s \<and> sat c x)"
proof -
  show "starts [] t" by (rule startsI [of _ "[]" t]) simp_all
  show "starts [36] t \<longleftrightarrow> t = []" by (auto elim: startsE intro: startsI [of _ "[]" "[]"])
  show "starts [c] t \<longleftrightarrow> (\<exists>x s. t = x # s \<and> sat c x)" if "c \<noteq> 36"
    using that by (auto elim!: startsE intro: startsI [of _ "[x]" s for x s])
qed

lemma starts_One:
  assumes "d \<noteq> 42"
  shows "starts (c # d # re) t \<longleftrightarrow> (\<exists>x s. t = x # s \<and> sat c x \<and> starts (d # re) s)"
proof
  assume "starts (c # d # re) t"
  then obtain w0 post where 1: "t = w0 @ post" "w0 \<in> lang (atoms (c # d # re))" "end_anchor (c # d # re) \<longrightarrow> post = []"
    by (rule startsE)
  then obtain x w where 2: "w0 = x # w" "sat c x" "w \<in> lang (atoms (d # re))" using assms by auto
  have "starts (d # re) (w @ post)" by (rule startsI [OF refl 2(3)]) (use 1(3) assms in simp)
  with 1 2 show "\<exists>x s. t = x # s \<and> sat c x \<and> starts (d # re) s" by simp
next
  assume "\<exists>x s. t = x # s \<and> sat c x \<and> starts (d # re) s"
  then obtain x s where 1: "t = x # s" "sat c x" "starts (d # re) s" by blast
  from 1(3) obtain w post where 2: "s = w @ post" "w \<in> lang (atoms (d # re))" "end_anchor (d # re) \<longrightarrow> post = []"
    by (rule startsE)
  show "starts (c # d # re) t" by (rule startsI [of _ "x # w" post]) (use 1 2 assms in simp_all)
qed

lemma starts_Rep:
  "starts (c # 42 # re) t \<longleftrightarrow> (\<exists>u s. t = u @ s \<and> (\<forall>x\<in>set u. sat c x) \<and> starts re s)"
proof
  assume "starts (c # 42 # re) t"
  then obtain w0 post where 1: "t = w0 @ post" "w0 \<in> lang (atoms (c # 42 # re))" "end_anchor (c # 42 # re) \<longrightarrow> post = []"
    by (rule startsE)
  then obtain u w where 2: "w0 = u @ w" "\<forall>x\<in>set u. sat c x" "w \<in> lang (atoms re)" by auto
  have "starts re (w @ post)" by (rule startsI [OF refl 2(3)]) (use 1(3) in simp)
  with 1 2 show "\<exists>u s. t = u @ s \<and> (\<forall>x\<in>set u. sat c x) \<and> starts re s" by auto
next
  assume "\<exists>u s. t = u @ s \<and> (\<forall>x\<in>set u. sat c x) \<and> starts re s"
  then obtain u s where 1: "t = u @ s" "\<forall>x\<in>set u. sat c x" "starts re s" by blast
  from 1(3) obtain w post where 2: "s = w @ post" "w \<in> lang (atoms re)" "end_anchor re \<longrightarrow> post = []" by (rule startsE)
  have "u @ w \<in> lang (atoms (c # 42 # re))" using 1 2 by auto
  then show "starts (c # 42 # re) t" by (rule startsI [of _ "u @ w" post, rotated]) (use 1 2 in simp_all)
qed

lemma star_unfold:
  "(\<exists>u t. text = u @ t \<and> (\<forall>x\<in>set u. sat c x) \<and> P t) \<longleftrightarrow>
     P text \<or> (\<exists>x s. text = x # s \<and> sat c x \<and> (\<exists>u t. s = u @ t \<and> (\<forall>x\<in>set u. sat c x) \<and> P t))"
  (is "?L \<longleftrightarrow> ?R")
proof
  assume ?L
  then obtain u t where u: "text = u @ t" "\<forall>x\<in>set u. sat c x" "P t" by blast
  show ?R
  proof (cases u)
    case Nil
    with u show ?thesis by simp
  next
    case (Cons x v)
    with u show ?thesis by auto
  qed
next
  assume ?R
  then show ?L
  proof
    assume "P text"
    then show ?L by (intro exI [of _ "[]"] exI [of _ "text"]) simp
  next
    assume "\<exists>x s. text = x # s \<and> sat c x \<and> (\<exists>u t. s = u @ t \<and> (\<forall>x\<in>set u. sat c x) \<and> P t)"
    then obtain x u t where "text = x # u @ t" "sat c x" "\<forall>x\<in>set u. sat c x" "P t" by blast
    then show ?L by (intro exI [of _ "x # u"] exI [of _ t]) simp
  qed
qed

lemma matchhere_lang:
  "nul_free re \<Longrightarrow> nul_free text \<Longrightarrow> matchhere re text = starts re text"
  "nul_free re \<Longrightarrow> nul_free text \<Longrightarrow> matchstar c re text = (\<exists>u t. text = u @ t \<and> (\<forall>x\<in>set u. sat c x) \<and> starts re t)"
proof (induction re "text" and c re "text" rule: matchhere_matchstar.induct)
  case (1 re tx)
  show ?case
  proof (cases re)
    case Nil
    then show ?thesis by (simp add: matchhere.simps starts_simps)
  next
    case (Cons c re1)
    note re = this
    show ?thesis
    proof (cases re1)
      case Nil
      then have "matchhere re tx \<longleftrightarrow> (if c = 36 then at tx 0 = 0 else at tx 0 \<noteq> 0 \<and> sat c (at tx 0))"
        using re "1.prems" by (subst matchhere.simps) (simp add: sat_def matchhere.simps [of "[]"])
      also have "\<dots> \<longleftrightarrow> starts re tx" using re Nil "1.prems" by (cases tx) (auto simp: starts_simps)
      finally show ?thesis .
    next
      case d: (Cons d re2)
      show ?thesis
      proof (cases "d = 42")
        case True
        then have "matchhere re tx = matchstar c re2 tx" using re d "1.prems" by (subst matchhere.simps) simp
        with 1 True re d show ?thesis by (simp add: starts_Rep)
      next
        case False
        then have m: "matchhere re tx \<longleftrightarrow> at tx 0 \<noteq> 0 \<and> sat c (at tx 0) \<and> matchhere (d # re2) (drop 1 tx)"
          using re d "1.prems" by (subst matchhere.simps) (auto simp: sat_def)
        show ?thesis
        proof (cases tx)
          case Nil
          then show ?thesis using m False re d by (simp add: starts_One)
        next
          case (Cons x s)
          have "matchhere (d # re2) s = starts (d # re2) s" if "sat c x"
            using "1.IH"(2) False re d Cons that "1.prems" by (auto simp: sat_def)
          then show ?thesis using m False re d Cons "1.prems" by (auto simp: starts_One)
        qed
      qed
    qed
  qed
next
  case (2 c re tx)
  show ?case
  proof (cases tx)
    case Nil
    then show ?thesis using 2 by (simp add: matchstar.simps [of c re "[]"])
  next
    case (Cons x s)
    have "matchstar c re tx \<longleftrightarrow> matchhere re tx \<or> (x \<noteq> 0 \<and> sat c x \<and> matchstar c re s)"
      using Cons by (subst matchstar.simps) (auto simp: sat_def)
    moreover have "matchhere re tx \<longleftrightarrow> starts re tx" using 2 by simp
    moreover have "matchstar c re s = (\<exists>u t. s = u @ t \<and> (\<forall>x\<in>set u. sat c x) \<and> starts re t)"
      if "\<not> matchhere re tx" "sat c x"
      using "2.IH"(2) that "2.prems" Cons by (auto simp: sat_def)
    ultimately show ?thesis using "2.prems" Cons star_unfold [of tx c "starts re"] by auto
  qed
qed


lemma match_from_lang:
  "nul_free re \<Longrightarrow> nul_free s \<Longrightarrow> match_from re s \<longleftrightarrow> (\<exists>pre t. s = pre @ t \<and> starts re t)"
proof (induction re s rule: match_from.induct)
  case (1 re s)
  show ?case
  proof (cases s)
    case Nil
    then show ?thesis using 1 by (simp add: match_from.simps [of re "[]"] matchhere_lang)
  next
    case (Cons x t)
    have "match_from re s \<longleftrightarrow> starts re s \<or> match_from re t"
      using Cons "1.prems" by (subst match_from.simps) (auto simp: matchhere_lang)
    also have "\<dots> \<longleftrightarrow> starts re s \<or> (\<exists>pre u. t = pre @ u \<and> starts re u)"
      using "1.IH" Cons "1.prems" by (auto simp: matchhere_lang)
    also have "\<dots> \<longleftrightarrow> (\<exists>pre u. s = pre @ u \<and> starts re u)"
      unfolding Cons by (metis append_Cons append_Nil neq_Nil_conv list.inject)
    finally show ?thesis .
  qed
qed

definition start_anchor :: "uchar list \<Rightarrow> bool" where
  "start_anchor re \<longleftrightarrow> re \<noteq> [] \<and> hd re = 94"

definition body :: "uchar list \<Rightarrow> uchar list" where
  "body re = (if start_anchor re then tl re else re)"

text \<open>C27: the matcher of \<^verbatim>\<open>grep\<close> decides the language of its pattern: it returns true exactly when some part of the text
  is a word of the language, at the start of the text if the pattern begins with a caret, and up to its end if the pattern
  ends with a dollar.\<close>

theorem grep_match_language:
  assumes "nul_free re" "nul_free s"
  shows "match re s \<longleftrightarrow> (\<exists>pre w post. s = pre @ w @ post \<and> w \<in> lang (atoms (body re)) \<and>
    (start_anchor re \<longrightarrow> pre = []) \<and> (end_anchor (body re) \<longrightarrow> post = []))"
proof (cases "start_anchor re")
  case True
  then obtain re' where re: "re = 94 # re'" by (cases re) (auto simp: start_anchor_def)
  then have "match re s = starts re' s" using assms by (simp add: match_def matchhere_lang)
  then show ?thesis using True re by (simp add: starts_def body_def)
next
  case False
  then have "at re 0 \<noteq> 94" by (cases re) (auto simp: start_anchor_def)
  then have "match re s \<longleftrightarrow> (\<exists>pre t. s = pre @ t \<and> starts re t)" using assms by (simp add: match_def match_from_lang)
  then show ?thesis using False unfolding starts_def body_def by auto
qed

theorem grep_match_language_witness:
  "match [94, 97, 46, 42, 98] [97, 99, 99, 98, 100]"
proof -
  have "[99, 99, 98] \<in> lang [Rep 46, One 98]" by (auto simp: sat_def intro!: exI [of _ "[99, 99]"])
  then have "[97, 99, 99, 98] \<in> lang [One 97, Rep 46, One 98]" by (simp add: sat_def)
  then show ?thesis
    using grep_match_language [of "[94, 97, 46, 42, 98]" "[97, 99, 99, 98, 100]"]
    by (simp add: body_def start_anchor_def) (metis append_Cons append_Nil)
qed

section \<open>Whole files\<close>

text \<open>The complete lines of a text, without their newlines, and what follows the last newline.\<close>

fun split_lines :: "uchar list \<Rightarrow> uchar list list \<times> uchar list" where
  "split_lines [] = ([], [])"
| "split_lines (x # s) =
     (let (ls, r) = split_lines s in
      if x = 10 then ([] # ls, r) else case ls of [] \<Rightarrow> ([], x # r) | l # ls \<Rightarrow> ((x # l) # ls, r))"

definition matching :: "uchar list \<Rightarrow> uchar list list \<Rightarrow> uchar list" where
  "matching re ls = concat (map (\<lambda>l. l @ [10]) (filter (match re) ls))"

lemma matching_simps [simp]:
  "matching re [] = []" "matching re (l # ls) = (if match re l then l @ [10] else []) @ matching re ls"
  "matching re (ls @ ls') = matching re ls @ matching re ls'"
  by (simp_all add: matching_def)

lemma split_no_newline: "10 \<notin> set s \<Longrightarrow> split_lines s = ([], s)"
  by (induction s) auto

lemma split_first_line: "10 \<notin> set l \<Longrightarrow> split_lines (l @ 10 # s) = (l # fst (split_lines s), snd (split_lines s))"
  by (induction l) (auto simp: split_beta)

lemma split_append:
  "split_lines (s @ t) = (fst (split_lines s) @ fst (split_lines (snd (split_lines s) @ t)), snd (split_lines (snd (split_lines s) @ t)))"
proof (induction "length s" arbitrary: s rule: less_induct)
  case less
  show ?case
  proof (cases "10 \<in> set s")
    case False
    then show ?thesis by (simp add: split_no_newline)
  next
    case True
    then obtain l r where s: "s = l @ 10 # r" "10 \<notin> set l" by (meson split_list_first)
    have "length r < length s" using s by simp
    from less [OF this] show ?thesis using s by (simp add: split_first_line)
  qed
qed

lemma split_rest: "10 \<notin> set (snd (split_lines s))"
  by (induction s) (auto simp: split_beta split: list.splits)

lemma strchr_newline:
  assumes "nul_free p"
  shows "strchr p 10 = (if 10 \<in> set p then Some (length (takeWhile (\<lambda>x. x \<noteq> 10) p)) else None)"
  using assms by (induction p) auto

text \<open>
  What \<^verbatim>\<open>grep\<close> relies on: \<open>rem\<close> is what is left of the file, of which \<^verbatim>\<open>read\<close> takes at least one byte
  unless none is left or none is asked for, and \<open>out\<close> is what has been written to the descriptor \<open>fd\<close>.
\<close>

definition reads_file :: "'s usys \<Rightarrow> int \<Rightarrow> ('s \<Rightarrow> uchar list) \<Rightarrow> ('s \<Rightarrow> uchar list) \<Rightarrow> bool" where
  "reads_file K fd rem out \<longleftrightarrow> (\<forall>n s. case u_read K fd n s of ((r, bs), s') \<Rightarrow>
     r = int (length bs) \<and> length bs \<le> n \<and> rem s = bs @ rem s' \<and> out s' = out s \<and> (bs = [] \<longrightarrow> n = 0 \<or> rem s = []))"

definition writes_out :: "'s usys \<Rightarrow> int \<Rightarrow> ('s \<Rightarrow> uchar list) \<Rightarrow> ('s \<Rightarrow> uchar list) \<Rightarrow> bool" where
  "writes_out K fd rem out \<longleftrightarrow> (\<forall>bs s. fst (u_write K fd bs s) = int (length bs) \<and>
     out (snd (u_write K fd bs s)) = out s @ bs \<and> rem (snd (u_write K fd bs s)) = rem s)"

lemma grep_lines_result:
  assumes "writes_out K 1 rem out" "nul_free p" "length p \<le> n"
  shows "\<exists>s'. grep_lines K re n p s = Some (Inr (snd (split_lines p)), s') \<and>
    out s' = out s @ matching re (fst (split_lines p)) \<and> rem s' = rem s"
  using assms(2,3)
proof (induction n arbitrary: p s)
  case 0
  then show ?case by (simp add: ureturn_def)
next
  case (Suc n)
  show ?case
  proof (cases "10 \<in> set p")
    case False
    then show ?thesis using Suc.prems by (simp add: strchr_newline split_no_newline ureturn_def)
  next
    case True
    then obtain l r where p: "p = l @ 10 # r" "10 \<notin> set l" by (meson split_list_first)
    have i: "strchr p 10 = Some (length l)"
      using p Suc.prems(1) by (subst strchr_newline) (auto simp: takeWhile_append)
    have td: "take (length l) p = l" "drop (Suc (length l)) p = r" using p by simp_all
    have nr: "nul_free r" "length r \<le> n" using Suc.prems p by simp_all
    show ?thesis
    proof (cases "match re l")
      case True
      obtain s' where s': "grep_lines K re n r (snd (u_write K 1 (l @ [10]) s)) = Some (Inr (snd (split_lines r)), s')"
        "out s' = out (snd (u_write K 1 (l @ [10]) s)) @ matching re (fst (split_lines r))" "rem s' = rem (snd (u_write K 1 (l @ [10]) s))"
        using Suc.IH [OF nr] by blast
      have "grep_lines K re (Suc n) p s = Some (Inr (snd (split_lines p)), s')"
        using i td True s'(1) by (simp add: split_first_line p)
      then show ?thesis using s' assms(1) True p by (auto simp: split_first_line writes_out_def)
    next
      case False
      then show ?thesis using Suc.IH [OF nr, of s] i td p by (simp add: split_first_line)
    qed
  qed
qed

definition short_lines :: "uchar list \<Rightarrow> bool" where
  "short_lines s \<longleftrightarrow> (\<forall>l \<in> set (fst (split_lines s)). length l < 1023) \<and> length (snd (split_lines s)) < 1023"

lemma short_lines_append: "short_lines (s @ t) \<Longrightarrow> short_lines (snd (split_lines s) @ t)"
  by (subst (asm) short_lines_def) (auto simp: short_lines_def split_append [of s t])

lemma short_prefix: "short_lines (s @ t) \<Longrightarrow> 10 \<notin> set s \<Longrightarrow> length s < 1023"
proof -
  assume *: "short_lines (s @ t)" "10 \<notin> set s"
  show "length s < 1023"
  proof (cases "10 \<in> set t")
    case False
    then show ?thesis using * split_no_newline [of "s @ t"] by (simp add: short_lines_def)
  next
    case True
    then obtain l r where "t = l @ 10 # r" "10 \<notin> set l" by (meson split_list_first)
    then show ?thesis using * split_first_line [of "s @ l" r] by (simp add: short_lines_def)
  qed
qed

lemma grep_result:
  assumes "reads_file K fd rem out" "writes_out K 1 rem out" "nul_free (buf @ rem s)" "10 \<notin> set buf" "short_lines (buf @ rem s)"
  shows "\<exists>s'. grep K re fd buf s = Some (Inr (), s') \<and> out s' = out s @ matching re (fst (split_lines (buf @ rem s)))"
  using assms(3-5)
proof (induction "length (rem s)" arbitrary: buf s rule: less_induct)
  case less
  let ?n = "1024 - length buf - 1"
  obtain r bs s1 where rd: "u_read K fd ?n s = ((r, bs), s1)" by (metis prod.collapse)
  then have c: "r = int (length bs)" "rem s = bs @ rem s1" "out s1 = out s" "bs = [] \<longrightarrow> ?n = 0 \<or> rem s = []"
    using assms(1) unfolding reads_file_def by (metis (mono_tags, lifting) case_prod_conv)+
  have n: "?n \<noteq> 0" using short_prefix [OF less.prems(3,2)] by simp
  show ?case
  proof (cases "bs = []")
    case True
    then have "grep K re fd buf s = Some (Inr (), s1)" using rd c by (subst grep.simps) (simp add: ureturn_def)
    moreover have "rem s = []" using c(4) True n by simp
    ultimately show ?thesis using c less.prems by (simp add: split_no_newline)
  next
    case False
    let ?p = "buf @ bs"
    have p: "nul_free ?p" using less.prems(1) c by simp
    obtain s2 where s2: "grep_lines K re (length buf + length bs) ?p s1 = Some (Inr (snd (split_lines ?p)), s2)"
      "out s2 = out s1 @ matching re (fst (split_lines ?p))" "rem s2 = rem s1"
      using grep_lines_result [OF assms(2) p, of "length buf + length bs" re s1] by auto
    have run: "grep K re fd buf s = grep K re fd (snd (split_lines ?p)) s2"
      using rd c(1) False s2(1) by (subst grep.simps) (simp add: ubind_Some)
    have nf: "nul_free (snd (split_lines ?p))"
    proof -
      have "set (snd (split_lines q)) \<subseteq> set q" for q by (induction q) (auto simp: split_beta split: list.splits)
      then show ?thesis using p unfolding nul_free_def by blast
    qed
    obtain s3 where s3: "grep K re fd (snd (split_lines ?p)) s2 = Some (Inr (), s3)"
      "out s3 = out s2 @ matching re (fst (split_lines (snd (split_lines ?p) @ rem s2)))"
      using less.hyps [of s2 "snd (split_lines ?p)"] less.prems c s2(3) False nf split_rest
        short_lines_append [of ?p "rem s1"] by auto
    have "out s3 = out s @ matching re (fst (split_lines (?p @ rem s1)))"
      unfolding split_append [of ?p "rem s1"] using s3(2) s2 c by simp
    then show ?thesis using s3(1) run c by simp
  qed
qed



text \<open>A file in memory, read five bytes at a time.\<close>

definition list_sys :: "(uchar list \<times> uchar list) usys" where
  "list_sys = \<lparr>u_read = (\<lambda>fd n (i, out). let k = min n 5 in ((int (length (take k i)), take k i), (drop k i, out))),
     u_write = (\<lambda>fd bs (i, out). (int (length bs), (i, out @ bs))), u_open = (\<lambda>_ _ s. (3, s)), u_close = (\<lambda>_ s. (0, s)),
     u_fstat = (\<lambda>_ s. ((- 1, \<lparr>st_dev = 0, st_ino = 0, st_type = 0, st_nlink = 0, st_size = 0\<rparr>), s)), u_unlink = (\<lambda>_ s. (0, s)),
     u_mkdir = (\<lambda>_ s. (0, s)), u_link = (\<lambda>_ _ s. (0, s)), u_rename = (\<lambda>_ _ s. (0, s)), u_kill = (\<lambda>_ s. (0, s)),
     u_diskspace = (\<lambda>s. ((0, 0, 0), s))\<rparr>"

lemma list_sys_contract: "reads_file list_sys fd fst snd" "writes_out list_sys fd fst snd"
  by (auto simp: reads_file_def writes_out_def list_sys_def Let_def split: prod.splits)


end
