(* ===== verification/Uprogs.thy ===== *)
theory Uprogs
  imports Grep
begin

text \<open>
  The small utilities under \<^verbatim>\<open>user/\<close>: \<^verbatim>\<open>cat\<close>, \<^verbatim>\<open>cp\<close>, \<^verbatim>\<open>wc\<close>, \<^verbatim>\<open>ls\<close>, \<^verbatim>\<open>echo\<close>, \<^verbatim>\<open>fileinfo\<close>, \<^verbatim>\<open>diskspace\<close>, \<^verbatim>\<open>kill\<close>,
  \<^verbatim>\<open>ln\<close>, \<^verbatim>\<open>mkdir\<close>, \<^verbatim>\<open>rename\<close> and \<^verbatim>\<open>rm\<close>, as programs over the system calls. The argument \<open>argv\<close> of a
  \<^verbatim>\<open>main\<close> is the list of its \<^verbatim>\<open>argc\<close> strings.
\<close>

section \<open>cat.c\<close>

partial_function (option) cat :: "'s usys \<Rightarrow> int \<Rightarrow> 's \<Rightarrow> ((int + unit) \<times> 's) option" where
  "cat K fd s =
     ubind (ucall (u_read K fd 512)) (\<lambda>x s.
       if fst x > 0 then
         ubind (ucall (u_write K 1 (snd x))) (\<lambda>w s.
           if w \<noteq> fst x then ubind (fprintf K 2 ''cat: write error\<newline>'' []) (\<lambda>_. uexit 1) s
           else cat K fd s) s
       else if fst x < 0 then ubind (fprintf K 2 ''cat: read error\<newline>'' []) (\<lambda>_. uexit 1) s
       else ureturn () s) s"

definition cat_main :: "'s usys \<Rightarrow> uchar list list \<Rightarrow> ('s, unit) uprog" where
  "cat_main K argv =
     (if length argv \<le> 1 then ubind (cat K 0) (\<lambda>_. uexit 0)
      else
        ubind (ueach (\<lambda>f.
          ubind (ucall (u_open K f 0)) (\<lambda>fd.
            if fd < 0 then ubind (fprintf K 2 ''cat: cannot open %s\<newline>'' [UStr (Some f)]) (\<lambda>_. uexit 1)
            else ubind (cat K fd) (\<lambda>_. ubind (ucall (u_close K fd)) (\<lambda>_. ureturn ())))) (drop 1 argv)) (\<lambda>_.
        uexit 0))"

section \<open>cp.c\<close>

partial_function (option) cp_loop :: "'s usys \<Rightarrow> int \<Rightarrow> int \<Rightarrow> 's \<Rightarrow> ((int + int) \<times> 's) option" where
  "cp_loop K srcfd destfd s =
     ubind (ucall (u_read K srcfd 512)) (\<lambda>x s.
       if fst x > 0 then
         ubind (ucall (u_write K destfd (snd x))) (\<lambda>w s.
           if w \<noteq> fst x then
             ubind (fprintf K 2 ''cp: write error\<newline>'' []) (\<lambda>_.
             ubind (ucall (u_close K srcfd)) (\<lambda>_.
             ubind (ucall (u_close K destfd)) (\<lambda>_. uexit 1))) s
           else cp_loop K srcfd destfd s) s
       else ureturn (fst x) s) s"

text \<open>The modes of \<^verbatim>\<open>open\<close>: \<^verbatim>\<open>O_RDONLY\<close> is 0, and \<^verbatim>\<open>O_WRONLY|O_CREATE|O_TRUNC\<close> is \<^verbatim>\<open>0x601\<close>.\<close>

definition cp :: "'s usys \<Rightarrow> uchar list \<Rightarrow> uchar list \<Rightarrow> ('s, unit) uprog" where
  "cp K src dest =
     ubind (ucall (u_open K src 0)) (\<lambda>srcfd.
       if srcfd < 0 then ubind (fprintf K 2 ''cp: cannot open %s\<newline>'' [UStr (Some src)]) (\<lambda>_. uexit 1)
       else
         ubind (ucall (u_open K dest 0x601)) (\<lambda>destfd.
           if destfd < 0 then
             ubind (ucall (u_close K srcfd)) (\<lambda>_.
             ubind (fprintf K 2 ''cp: cannot create or truncate %s\<newline>'' [UStr (Some dest)]) (\<lambda>_. uexit 1))
           else
             ubind (cp_loop K srcfd destfd) (\<lambda>n.
             ubind (if n < 0 then u_printf K ''cp: read error\<newline>'' [] else ureturn ()) (\<lambda>_.
             ubind (ucall (u_close K srcfd)) (\<lambda>_.
             ubind (ucall (u_close K destfd)) (\<lambda>_. ureturn ()))))))"

definition cp_check :: "'s usys \<Rightarrow> uchar list \<Rightarrow> ('s, unit) uprog" where
  "cp_check K f =
     ubind (stat K f) (\<lambda>(r, st).
       if r < 0 then ubind (fprintf K 2 ''cp: cannot get info on %s\<newline>'' [UStr (Some f)]) (\<lambda>_. uexit 1)
       else if st_type (the st) = T_DIR \<or> st_type (the st) = T_DEVICE then
         ubind (fprintf K 2 ''cp: %s is either a directory or device file, cannot copy.\<newline>'' [UStr (Some f)]) (\<lambda>_. uexit 1)
       else ureturn ())"

definition cp_main :: "'s usys \<Rightarrow> uchar list list \<Rightarrow> ('s, unit) uprog" where
  "cp_main K argv =
     (if length argv \<noteq> 3 then ubind (fprintf K 2 ''Usage: cp src dest\<newline>'' []) (\<lambda>_. uexit 1)
      else
        ubind (cp_check K (argv ! 1)) (\<lambda>_.
        ubind (cp_check K (argv ! 2)) (\<lambda>_.
        ubind (cp K (argv ! 1) (argv ! 2)) (\<lambda>_. uexit 0))))"

section \<open>wc.c\<close>

record wcstate =
  wc_l :: int
  wc_w :: int
  wc_c :: int
  wc_inword :: bool

definition wc_char :: "uchar \<Rightarrow> wcstate \<Rightarrow> wcstate" where
  "wc_char b st =
     (let st = st\<lparr>wc_c := wc_c st + 1\<rparr>;
          st = (if b = 10 then st\<lparr>wc_l := wc_l st + 1\<rparr> else st)
      in if strchr [32, 13, 9, 10, 11] b \<noteq> None then st\<lparr>wc_inword := False\<rparr>
         else if \<not> wc_inword st then st\<lparr>wc_w := wc_w st + 1, wc_inword := True\<rparr>
         else st)"

partial_function (option) wc_loop :: "'s usys \<Rightarrow> int \<Rightarrow> wcstate \<Rightarrow> 's \<Rightarrow> ((int + int \<times> wcstate) \<times> 's) option" where
  "wc_loop K fd st s =
     ubind (ucall (u_read K fd 512)) (\<lambda>x s.
       if fst x > 0 then wc_loop K fd (fold wc_char (snd x) st) s
       else ureturn (fst x, st) s) s"

definition wc :: "'s usys \<Rightarrow> int \<Rightarrow> uchar list \<Rightarrow> ('s, unit) uprog" where
  "wc K fd name =
     ubind (wc_loop K fd \<lparr>wc_l = 0, wc_w = 0, wc_c = 0, wc_inword = False\<rparr>) (\<lambda>(n, st).
       if n < 0 then ubind (u_printf K ''wc: read error\<newline>'' []) (\<lambda>_. uexit 1)
       else u_printf K ''%d %d %d %s\<newline>''
         [UInt (word_of_int (wc_l st)), UInt (word_of_int (wc_w st)), UInt (word_of_int (wc_c st)), UStr (Some name)])"

definition wc_main :: "'s usys \<Rightarrow> uchar list list \<Rightarrow> ('s, unit) uprog" where
  "wc_main K argv =
     (if length argv \<le> 1 then ubind (wc K 0 []) (\<lambda>_. uexit 0)
      else
        ubind (ueach (\<lambda>f.
          ubind (ucall (u_open K f 0)) (\<lambda>fd.
            if fd < 0 then ubind (u_printf K ''wc: cannot open %s\<newline>'' [UStr (Some f)]) (\<lambda>_. uexit 1)
            else ubind (wc K fd f) (\<lambda>_. ubind (ucall (u_close K fd)) (\<lambda>_. ureturn ())))) (drop 1 argv)) (\<lambda>_.
        uexit 0))"

section \<open>ls.c\<close>

text \<open>The part of a path after its last slash, padded with blanks.\<close>

definition fmtname :: "uchar list \<Rightarrow> uchar list" where
  "fmtname path =
     (let p = rev (takeWhile (\<lambda>c. c \<noteq> 47) (rev path)) in
      if length p \<ge> DIRSIZ then p else p @ replicate (DIRSIZ - length p) 32)"

definition ls_line :: "'s usys \<Rightarrow> uchar list \<Rightarrow> string \<Rightarrow> fstat \<Rightarrow> ('s, unit) uprog" where
  "ls_line K path kind st =
     u_printf K (''%s '' @ kind @ '' %s %l\<newline>'') [UStr (Some (fmtname path)), UStr (Some (bytes ''Size:'')), ULong (st_size st)]"

definition ls_kind :: "fstat \<Rightarrow> string" where
  "ls_kind st =
     (if st_type st = T_DEVICE then ''DEVICE '' else if st_type st = T_FILE then ''FILE   ''
      else if st_type st = T_DIR then ''DIR    '' else ''UNKNOWN'')"

text \<open>A directory entry is 16 bytes: the inode number, and the name, ended by a zero byte if it is shorter than 14.\<close>

partial_function (option) ls_dir :: "'s usys \<Rightarrow> uchar list \<Rightarrow> int \<Rightarrow> 's \<Rightarrow> ((int + unit) \<times> 's) option" where
  "ls_dir K path fd s =
     ubind (ucall (u_read K fd 16)) (\<lambda>x s.
       if fst x = 16 then
         if snd x ! 0 = 0 \<and> snd x ! 1 = 0 then ls_dir K path fd s
         else
           ubind (stat K (path @ [47] @ takeWhile (\<lambda>c. c \<noteq> 0) (drop 2 (snd x)))) (\<lambda>y s.
             if fst y < 0 then
               ubind (u_printf K ''ls: cannot stat %s\<newline>'' [UStr (Some (path @ [47] @ takeWhile (\<lambda>c. c \<noteq> 0) (drop 2 (snd x))))])
                 (\<lambda>_ s. ls_dir K path fd s) s
             else
               ubind (ls_line K (path @ [47] @ takeWhile (\<lambda>c. c \<noteq> 0) (drop 2 (snd x))) (ls_kind (the (snd y))) (the (snd y)))
                 (\<lambda>_ s. ls_dir K path fd s) s) s
       else ureturn () s) s"

definition ls :: "'s usys \<Rightarrow> uchar list \<Rightarrow> ('s, unit) uprog" where
  "ls K path =
     ubind (ucall (u_open K path 0)) (\<lambda>fd.
       if fd < 0 then fprintf K 2 ''ls: cannot open %s\<newline>'' [UStr (Some path)]
       else
         ubind (ucall (u_fstat K fd)) (\<lambda>(r, st).
           if r < 0 then
             ubind (fprintf K 2 ''ls: cannot stat %s\<newline>'' [UStr (Some path)]) (\<lambda>_.
             ubind (ucall (u_close K fd)) (\<lambda>_. ureturn ()))
           else
             ubind
               (if st_type st = T_DIR then
                  if length path + 1 + DIRSIZ + 1 > 512 then u_printf K ''ls: path too long\<newline>'' []
                  else ls_dir K path fd
                else ls_line K path (ls_kind st) st) (\<lambda>_.
             ubind (ucall (u_close K fd)) (\<lambda>_. ureturn ()))))"

definition ls_main :: "'s usys \<Rightarrow> uchar list list \<Rightarrow> ('s, unit) uprog" where
  "ls_main K argv =
     (if length argv < 2 then ubind (ls K (bytes ''.'')) (\<lambda>_. uexit 0)
      else ubind (ueach (ls K) (drop 1 argv)) (\<lambda>_. uexit 0))"

section \<open>The others\<close>

fun echo_args :: "'s usys \<Rightarrow> uchar list list \<Rightarrow> ('s, unit) uprog" where
  "echo_args K [] = ureturn ()"
| "echo_args K (a # as) =
     ubind (ucall (u_write K 1 a)) (\<lambda>_.
     ubind (ucall (u_write K 1 (if as \<noteq> [] then [32] else [10]))) (\<lambda>_. echo_args K as))"

definition echo_main :: "'s usys \<Rightarrow> uchar list list \<Rightarrow> ('s, unit) uprog" where
  "echo_main K argv = ubind (echo_args K (drop 1 argv)) (\<lambda>_. uexit 0)"

definition fileinfo :: "'s usys \<Rightarrow> uchar list \<Rightarrow> ('s, int) uprog" where
  "fileinfo K path =
     ubind (stat K path) (\<lambda>(r, st).
       if r < 0 then ubind (u_printf K ''fileinfo: cannot stat %s\<newline>'' [UStr (Some path)]) (\<lambda>_. ureturn (- 1))
       else
         ubind (u_printf K ''File: %s\<newline>Size: %d\<newline>Links: %d\<newline>Inode: %d\<newline>Type: ''
           [UStr (Some path), UInt (ucast (st_size (the st))), UInt (scast (st_nlink (the st))), UInt (st_ino (the st))]) (\<lambda>_.
         ubind (u_printf K
           (if st_type (the st) = T_DIR then ''directory\<newline>'' else if st_type (the st) = T_FILE then ''file\<newline>''
            else if st_type (the st) = T_DEVICE then ''device\<newline>'' else ''unknown\<newline>'') []) (\<lambda>_.
         ureturn 0)))"

definition fileinfo_main :: "'s usys \<Rightarrow> uchar list list \<Rightarrow> ('s, unit) uprog" where
  "fileinfo_main K argv =
     (if length argv \<noteq> 2 then ubind (u_printf K ''Usage: fileinfo <path>\<newline>'' []) (\<lambda>_. uexit 1)
      else ubind (fileinfo K (argv ! 1)) (\<lambda>r. if r < 0 then uexit 1 else uexit 0))"

definition diskspace_main :: "'s usys \<Rightarrow> ('s, unit) uprog" where
  "diskspace_main K =
     ubind (ucall (u_diskspace K)) (\<lambda>(r, free_blocks, total_blocks).
       if r < 0 then ubind (fprintf K 2 ''diskspace: error getting disk free information\<newline>'' []) (\<lambda>_. uexit 1)
       else
         ubind (u_printf K ''Total blocks: '' []) (\<lambda>_.
         ubind (u_printint K 1 total_blocks 10 False) (\<lambda>_.
         ubind (u_printf K '', Free blocks: '' []) (\<lambda>_.
         ubind (u_printint K 1 free_blocks 10 False) (\<lambda>_.
         ubind (u_printf K ''\<newline>'' []) (\<lambda>_.
         ubind (u_printf K ''Total disk space in bytes: '' []) (\<lambda>_.
         ubind (u_printint K 1 (total_blocks * of_nat BSIZE) 10 False) (\<lambda>_.
         ubind (u_printf K '', Free disk space in bytes: '' []) (\<lambda>_.
         ubind (u_printint K 1 (free_blocks * of_nat BSIZE) 10 False) (\<lambda>_.
         ubind (u_printf K ''\<newline>'' []) (\<lambda>_. uexit 0)))))))))))"

definition kill_main :: "'s usys \<Rightarrow> uchar list list \<Rightarrow> ('s, unit) uprog" where
  "kill_main K argv =
     (if length argv < 2 then ubind (fprintf K 2 ''usage: kill pid...\<newline>'' []) (\<lambda>_. uexit 1)
      else
        ubind (ueach (\<lambda>a. case atoi a of Inl _ \<Rightarrow> (\<lambda>_. None)
          | Inr n \<Rightarrow> ubind (ucall (u_kill K n)) (\<lambda>_. ureturn ())) (drop 1 argv)) (\<lambda>_. uexit 0))"

definition ln_main :: "'s usys \<Rightarrow> uchar list list \<Rightarrow> ('s, unit) uprog" where
  "ln_main K argv =
     (if length argv \<noteq> 3 then ubind (fprintf K 2 ''Usage: ln old new\<newline>'' []) (\<lambda>_. uexit 1)
      else
        ubind (ucall (u_link K (argv ! 1) (argv ! 2))) (\<lambda>r.
        ubind (if r < 0 then fprintf K 2 ''link %s %s: failed\<newline>'' [UStr (Some (argv ! 1)), UStr (Some (argv ! 2))] else ureturn ())
          (\<lambda>_. uexit 0)))"

text \<open>\<^verbatim>\<open>mkdir\<close> and \<^verbatim>\<open>rm\<close> stop at the first argument that fails.\<close>

fun mkdir_args :: "'s usys \<Rightarrow> uchar list list \<Rightarrow> ('s, unit) uprog" where
  "mkdir_args K [] = ureturn ()"
| "mkdir_args K (a # as) =
     ubind (ucall (u_mkdir K a)) (\<lambda>r.
       if r < 0 then fprintf K 2 ''mkdir: %s failed to create\<newline>'' [UStr (Some a)] else mkdir_args K as)"

definition mkdir_main :: "'s usys \<Rightarrow> uchar list list \<Rightarrow> ('s, unit) uprog" where
  "mkdir_main K argv =
     (if length argv < 2 then ubind (fprintf K 2 ''Usage: mkdir files...\<newline>'' []) (\<lambda>_. uexit 1)
      else ubind (mkdir_args K (drop 1 argv)) (\<lambda>_. uexit 0))"

definition rename_main :: "'s usys \<Rightarrow> uchar list list \<Rightarrow> ('s, unit) uprog" where
  "rename_main K argv =
     (if length argv \<noteq> 3 then ubind (fprintf K 2 ''Usage: rename oldname newname\<newline>'' []) (\<lambda>_. uexit 1)
      else
        ubind (ucall (u_rename K (argv ! 1) (argv ! 2))) (\<lambda>r.
          if r < 0 then
            ubind (fprintf K 2 ''rename %s %s failed\<newline>'' [UStr (Some (argv ! 1)), UStr (Some (argv ! 2))]) (\<lambda>_. uexit 1)
          else uexit 0))"

fun rm_args :: "'s usys \<Rightarrow> uchar list list \<Rightarrow> ('s, unit) uprog" where
  "rm_args K [] = ureturn ()"
| "rm_args K (a # as) =
     ubind (ucall (u_unlink K a)) (\<lambda>r.
       if r < 0 then fprintf K 2 ''rm: %s failed to delete\<newline>'' [UStr (Some a)] else rm_args K as)"

definition rm_main :: "'s usys \<Rightarrow> uchar list list \<Rightarrow> ('s, unit) uprog" where
  "rm_main K argv =
     (if length argv < 2 then ubind (fprintf K 2 ''Usage: rm files...\<newline>'' []) (\<lambda>_. uexit 1)
      else ubind (rm_args K (drop 1 argv)) (\<lambda>_. uexit 0))"

section \<open>What the loops compute\<close>

text \<open>\<^verbatim>\<open>cat\<close> and \<^verbatim>\<open>cp\<close> end, and copy everything.\<close>

lemma reads_fileE:
  assumes "reads_file K fd rem out"
  obtains bs s' where "u_read K fd n s = ((int (length bs), bs), s')" "rem s = bs @ rem s'" "out s' = out s" "bs = [] \<longrightarrow> n = 0 \<or> rem s = []"
proof -
  obtain r bs s' where rd: "u_read K fd n s = ((r, bs), s')" by (metis prod.collapse)
  then show thesis using assms that [of bs s'] unfolding reads_file_def by (metis (mono_tags, lifting) case_prod_conv)
qed

lemma cp_loop_copies:
  assumes "reads_file K srcfd rem out" "writes_out K destfd rem out"
  shows "\<exists>s'. cp_loop K srcfd destfd s = Some (Inr 0, s') \<and> out s' = out s @ rem s \<and> rem s' = []"
proof (induction "length (rem s)" arbitrary: s rule: less_induct)
  case less
  obtain bs s1 where rd: "u_read K srcfd 512 s = ((int (length bs), bs), s1)" "rem s = bs @ rem s1" "out s1 = out s" "bs = [] \<longrightarrow> 512 = (0::nat) \<or> rem s = []"
    by (rule reads_fileE [OF assms(1)])
  show ?case
  proof (cases "bs = []")
    case True
    then show ?thesis using rd by (subst cp_loop.simps) (simp add: ureturn_def)
  next
    case False
    let ?s = "snd (u_write K destfd bs s1)"
    have w: "fst (u_write K destfd bs s1) = int (length bs)" "out ?s = out s1 @ bs" "rem ?s = rem s1"
      using assms(2) by (simp_all add: writes_out_def)
    have "cp_loop K srcfd destfd s = cp_loop K srcfd destfd ?s" using rd False w by (subst cp_loop.simps) simp
    moreover obtain s' where "cp_loop K srcfd destfd ?s = Some (Inr 0, s')" "out s' = out ?s @ rem ?s" "rem s' = []"
      using less [of ?s] rd w False by auto
    ultimately show ?thesis using rd w by auto
  qed
qed

lemma cat_copies:
  assumes "reads_file K fd rem out" "writes_out K 1 rem out"
  shows "\<exists>s'. cat K fd s = Some (Inr (), s') \<and> out s' = out s @ rem s \<and> rem s' = []"
proof (induction "length (rem s)" arbitrary: s rule: less_induct)
  case less
  obtain bs s1 where rd: "u_read K fd 512 s = ((int (length bs), bs), s1)" "rem s = bs @ rem s1" "out s1 = out s" "bs = [] \<longrightarrow> 512 = (0::nat) \<or> rem s = []"
    by (rule reads_fileE [OF assms(1)])
  show ?case
  proof (cases "bs = []")
    case True
    then show ?thesis using rd by (subst cat.simps) (simp add: ureturn_def)
  next
    case False
    let ?s = "snd (u_write K 1 bs s1)"
    have w: "fst (u_write K 1 bs s1) = int (length bs)" "out ?s = out s1 @ bs" "rem ?s = rem s1"
      using assms(2) by (simp_all add: writes_out_def)
    have "cat K fd s = cat K fd ?s" using rd False w by (subst cat.simps) simp
    moreover obtain s' where "cat K fd ?s = Some (Inr (), s')" "out s' = out ?s @ rem ?s" "rem s' = []"
      using less [of ?s] rd w False by auto
    ultimately show ?thesis using rd w by auto
  qed
qed

text \<open>\<^verbatim>\<open>wc\<close> counts newlines, words and bytes; a word begins where a character that is no space follows a space or nothing.\<close>

definition is_space :: "uchar \<Rightarrow> bool" where
  "is_space b \<longleftrightarrow> b \<in> {32, 13, 9, 10, 11}"

fun count_words :: "bool \<Rightarrow> uchar list \<Rightarrow> int" where
  "count_words inword [] = 0"
| "count_words inword (b # bs) = (if is_space b then count_words False bs else (if inword then 0 else 1) + count_words True bs)"

lemma strchr_space: "strchr [32, 13, 9, 10, 11] b \<noteq> None \<longleftrightarrow> is_space b"
  by (auto simp: is_space_def)

lemmas wc_char_space = wc_char_def [unfolded strchr_space]

lemma fold_wc_char:
  "wc_l (fold wc_char bs st) = wc_l st + int (length (filter (\<lambda>b. b = 10) bs))"
  "wc_w (fold wc_char bs st) = wc_w st + count_words (wc_inword st) bs"
  "wc_c (fold wc_char bs st) = wc_c st + int (length bs)"
  by (induction bs arbitrary: st) (simp_all add: wc_char_space Let_def)

lemma wc_loop_counts:
  assumes "reads_file K fd rem out"
  shows "\<exists>s'. wc_loop K fd st s = Some (Inr (0, fold wc_char (rem s) st), s') \<and> rem s' = []"
proof (induction "length (rem s)" arbitrary: s st rule: less_induct)
  case less
  obtain bs s1 where rd: "u_read K fd 512 s = ((int (length bs), bs), s1)" "rem s = bs @ rem s1" "out s1 = out s" "bs = [] \<longrightarrow> 512 = (0::nat) \<or> rem s = []"
    by (rule reads_fileE [OF assms(1)])
  show ?case
  proof (cases "bs = []")
    case True
    then show ?thesis using rd by (subst wc_loop.simps) (simp add: ureturn_def)
  next
    case False
    have "wc_loop K fd st s = wc_loop K fd (fold wc_char bs st) s1" using rd False by (subst wc_loop.simps) simp
    then show ?thesis using less [of s1 "fold wc_char bs st"] rd False by simp
  qed
qed

end
