(* ===== verification/Shell.thy ===== *)
theory Shell
  imports Grep
begin

text \<open>
  The shell, \<^verbatim>\<open>user/sh.c\<close>. The parser works on positions in the command line, as the code works on
  pointers into its buffer; \<open>at\<close> reads the character at a position, and the terminator at the end.
  \<^verbatim>\<open>panic\<close> is the error \<open>Panic\<close>, whose message is printed when the error is handled; the text that is left
  over is not printed. A loop or a recursive call takes one unit of fuel. What a command
  does is the tree of the system calls that its process makes, with both sides of a \<^verbatim>\<open>fork\<close>.
\<close>

section \<open>Commands\<close>

definition MAXARGS :: nat where [simp]: "MAXARGS = 10"
definition TOKEN_2GT :: nat where [simp]: "TOKEN_2GT = 50 * 256 + 62"
definition TOKEN_2GTGT :: nat where [simp]: "TOKEN_2GTGT = 50 * 65536 + 62 * 256 + 62"

text \<open>
  A word is the position of its first character and the position after its last one. The
  fields of a redirection are \<^verbatim>\<open>file\<close>, \<^verbatim>\<open>efile\<close>, \<^verbatim>\<open>mode\<close> and \<^verbatim>\<open>fd\<close>.
\<close>

datatype cmd =
    EXEC "(nat \<times> nat) list"
  | REDIR cmd nat nat int int
  | PIPE cmd cmd
  | LIST cmd cmd
  | BACK cmd

section \<open>The parser\<close>

definition whitespace :: "uchar list" where "whitespace = [32, 9, 13, 10, 11]"
definition symbols :: "uchar list" where "symbols = [60, 124, 62, 38, 59, 40, 41]"

definition is_ws :: "uchar \<Rightarrow> bool" where "is_ws c \<longleftrightarrow> strchr whitespace c \<noteq> None"
definition is_sym :: "uchar \<Rightarrow> bool" where "is_sym c \<longleftrightarrow> strchr symbols c \<noteq> None"

function skip_ws :: "uchar list \<Rightarrow> nat \<Rightarrow> nat" where
  "skip_ws b s = (if s < length b \<and> is_ws (at b s) then skip_ws b (s + 1) else s)"
  by pat_completeness auto
termination by (relation "measure (\<lambda>(b, s). length b - s)") auto

function skip_word :: "uchar list \<Rightarrow> nat \<Rightarrow> nat" where
  "skip_word b s = (if s < length b \<and> \<not> is_ws (at b s) \<and> \<not> is_sym (at b s) then skip_word b (s + 1) else s)"
  by pat_completeness auto
termination by (relation "measure (\<lambda>(b, s). length b - s)") auto

declare skip_ws.simps [simp del] skip_word.simps [simp del]

text \<open>The \<^verbatim>\<open>switch\<close> of \<^verbatim>\<open>gettoken\<close>: the token at a position, and the position after it.\<close>

definition token_at :: "uchar list \<Rightarrow> nat \<Rightarrow> nat \<times> nat" where
  "token_at b s =
     (let c = at b s in
      if c = 0 then (0, s)
      else if c = 50 then
        if s + 2 < length b \<and> at b (s + 1) = 62 \<and> at b (s + 2) = 62 then (TOKEN_2GTGT, s + 3)
        else if at b (s + 1) = 62 then (TOKEN_2GT, s + 2)
        else (97, skip_word b s)
      else if c \<in> {124, 40, 41, 59, 38, 60} then (unat c, s + 1)
      else if c = 62 then if at b (s + 1) = 62 then (43, s + 2) else (62, s + 1)
      else (97, skip_word b s))"

text \<open>The token, its first position, the position after it, and where the next one starts.\<close>

definition gettoken :: "uchar list \<Rightarrow> nat \<Rightarrow> nat \<times> nat \<times> nat \<times> nat" where
  "gettoken b ps =
     (let q = skip_ws b ps; (ret, eq) = token_at b q in (ret, q, eq, skip_ws b eq))"

definition peek :: "uchar list \<Rightarrow> nat \<Rightarrow> uchar list \<Rightarrow> nat \<times> bool" where
  "peek b ps toks = (let s = skip_ws b ps in (s, at b s \<noteq> 0 \<and> strchr toks (at b s) \<noteq> None))"

text \<open>
  A redirection wraps the command before it. In \<^verbatim>\<open>parseexec\<close> the command inside goes on growing
  after it has been wrapped, so \<^verbatim>\<open>parseredirs\<close> returns the redirections, and \<open>wrap\<close> puts them around
  the finished command.
\<close>

type_synonym redir = "nat \<times> nat \<times> int \<times> int"

definition redircmd :: "nat \<Rightarrow> nat \<Rightarrow> nat \<Rightarrow> redir" where
  "redircmd tok q eq =
     (if tok = 60 then (q, eq, 0, 0)
      else if tok = 62 then (q, eq, 0x601, 1)
      else if tok = 43 then (q, eq, 0x201, 1)
      else if tok = TOKEN_2GT then (q, eq, 0x601, 2)
      else (q, eq, 0x201, 2))"

definition wrap :: "redir list \<Rightarrow> cmd \<Rightarrow> cmd" where
  "wrap rs c = fold (\<lambda>(q, eq, mode, fd) c. REDIR c q eq mode fd) rs c"

fun parseredirs :: "nat \<Rightarrow> uchar list \<Rightarrow> nat \<Rightarrow> (redir list \<times> nat) res" where
  "parseredirs 0 b ps = Inl Fuel"
| "parseredirs (Suc n) b ps =
     (let (ps, more) = peek b ps [60, 62, 50] in
      if \<not> more then Inr ([], ps)
      else
        let (tok, _, _, ps1) = gettoken b ps in
        if tok \<in> {60, 62, 43, TOKEN_2GT, TOKEN_2GTGT} then
          let (tok2, q, eq, ps2) = gettoken b ps1 in
          if tok2 \<noteq> 97 then Inl (Panic ''missing file for redirection'')
          else rbind (parseredirs n b ps2) (\<lambda>(rs, ps). Inr (redircmd tok q eq # rs, ps))
        else Inr ([], ps))"

text \<open>The loop of \<^verbatim>\<open>parseexec\<close>.\<close>

fun parseargs :: "nat \<Rightarrow> uchar list \<Rightarrow> nat \<Rightarrow> nat \<Rightarrow> ((nat \<times> nat) list \<times> redir list \<times> nat) res" where
  "parseargs 0 b ps argc = Inl Fuel"
| "parseargs (Suc n) b ps argc =
     (let (ps, stop) = peek b ps [124, 41, 38, 59] in
      if stop then Inr ([], [], ps)
      else
        let (tok, q, eq, ps1) = gettoken b ps in
        if tok = 0 then Inr ([], [], ps1)
        else if tok \<noteq> 97 then Inl (Panic ''syntax'')
        else if argc + 1 \<ge> MAXARGS then Inl (Panic ''too many args'')
        else
          rbind (parseredirs n b ps1) (\<lambda>(rs, ps2).
          rbind (parseargs n b ps2 (argc + 1)) (\<lambda>(args, rs', ps3).
          Inr ((q, eq) # args, rs @ rs', ps3))))"

text \<open>The loop of \<^verbatim>\<open>parseline\<close> over ampersands.\<close>

fun parsebacks :: "nat \<Rightarrow> uchar list \<Rightarrow> cmd \<Rightarrow> nat \<Rightarrow> (cmd \<times> nat) res" where
  "parsebacks 0 b c ps = Inl Fuel"
| "parsebacks (Suc n) b c ps =
     (let (ps, amp) = peek b ps [38] in
      if amp then let (_, _, _, ps) = gettoken b ps in parsebacks n b (BACK c) ps else Inr (c, ps))"

fun parseline :: "nat \<Rightarrow> uchar list \<Rightarrow> nat \<Rightarrow> (cmd \<times> nat) res"
  and parsepipe :: "nat \<Rightarrow> uchar list \<Rightarrow> nat \<Rightarrow> (cmd \<times> nat) res"
  and parseblock :: "nat \<Rightarrow> uchar list \<Rightarrow> nat \<Rightarrow> (cmd \<times> nat) res"
  and parseexec :: "nat \<Rightarrow> uchar list \<Rightarrow> nat \<Rightarrow> (cmd \<times> nat) res" where
  "parseline 0 b ps = Inl Fuel"
| "parseline (Suc n) b ps =
     rbind (parsepipe n b ps) (\<lambda>(c, ps).
     rbind (parsebacks n b c ps) (\<lambda>(c, ps).
       let (ps, semi) = peek b ps [59] in
       if semi then
         let (_, _, _, ps) = gettoken b ps in
         rbind (parseline n b ps) (\<lambda>(c', ps). Inr (LIST c c', ps))
       else Inr (c, ps)))"
| "parsepipe 0 b ps = Inl Fuel"
| "parsepipe (Suc n) b ps =
     rbind (parseexec n b ps) (\<lambda>(c, ps).
       let (ps, bar) = peek b ps [124] in
       if bar then
         let (_, _, _, ps) = gettoken b ps in
         rbind (parsepipe n b ps) (\<lambda>(c', ps). Inr (PIPE c c', ps))
       else Inr (c, ps))"
| "parseblock 0 b ps = Inl Fuel"
| "parseblock (Suc n) b ps =
     (let (ps, open) = peek b ps [40] in
      if \<not> open then Inl (Panic ''parseblock'')
      else
        let (_, _, _, ps) = gettoken b ps in
        rbind (parseline n b ps) (\<lambda>(c, ps).
          let (ps, close) = peek b ps [41] in
          if \<not> close then Inl (Panic ''syntax - missing )'')
          else
            let (_, _, _, ps) = gettoken b ps in
            rbind (parseredirs n b ps) (\<lambda>(rs, ps). Inr (wrap rs c, ps))))"
| "parseexec 0 b ps = Inl Fuel"
| "parseexec (Suc n) b ps =
     (let (ps, open) = peek b ps [40] in
      if open then parseblock n b ps
      else
        rbind (parseredirs n b ps) (\<lambda>(rs, ps).
        rbind (parseargs n b ps 0) (\<lambda>(args, rs', ps).
        Inr (wrap (rs @ rs') (EXEC args), ps))))"

fun nulterminate :: "cmd \<Rightarrow> uchar list \<Rightarrow> uchar list" where
  "nulterminate (EXEC args) b = fold (\<lambda>(q, eq) b. b[eq := 0]) args b"
| "nulterminate (REDIR c q eq mode fd) b = (nulterminate c b)[eq := 0]"
| "nulterminate (PIPE l r) b = nulterminate r (nulterminate l b)"
| "nulterminate (LIST l r) b = nulterminate r (nulterminate l b)"
| "nulterminate (BACK c) b = nulterminate c b"

text \<open>\<^verbatim>\<open>parsecmd\<close> of the string \<open>b\<close>; the buffer that it returns has the terminator as its last byte.\<close>

definition parsecmd :: "nat \<Rightarrow> uchar list \<Rightarrow> (cmd \<times> uchar list) res" where
  "parsecmd n b =
     rbind (parseline n b 0) (\<lambda>(c, ps).
       let (ps, _) = peek b ps [] in
       if ps \<noteq> length b then Inl (Panic ''syntax'')
       else Inr (c, nulterminate c (b @ [0])))"

section \<open>Running a command\<close>

text \<open>
  The system calls of the shell's processes, each with what follows it. \<open>Exec\<close> goes on only if it
  fails; the arguments of \<open>Fork\<close> are the child, the parent, and the parent after a failed \<^verbatim>\<open>fork\<close>; those
  of \<open>Pipe\<close> what follows with the two descriptors, and after a failure. \<open>Chdir\<close> has a success and a failure.
\<close>

datatype prog =
    Exit int
  | Print int string "uchar list" prog
  | Exec "uchar list" "uchar list list" prog
  | Close int prog
  | Dup int prog
  | Open "uchar list" int "int \<Rightarrow> prog"
  | Pipe "int \<Rightarrow> int \<Rightarrow> prog" prog
  | Fork prog prog prog
  | Wait prog
  | Chdir "uchar list" prog prog

definition sh_panic :: "string \<Rightarrow> prog" where
  "sh_panic msg = Print 2 ''%s\<newline>'' (bytes msg) (Exit 1)"

definition fork1 :: "prog \<Rightarrow> prog \<Rightarrow> prog" where
  "fork1 child parent = Fork child parent (sh_panic ''fork'')"

definition cstring :: "uchar list \<Rightarrow> nat \<Rightarrow> uchar list" where
  "cstring b q = takeWhile (\<lambda>c. c \<noteq> 0) (drop q b)"

fun runcmd :: "uchar list \<Rightarrow> cmd \<Rightarrow> prog" where
  "runcmd b (EXEC args) =
     (case args of
        [] \<Rightarrow> Exit 1
      | (q, eq) # _ \<Rightarrow>
          Exec (cstring b q) (map (\<lambda>(q, eq). cstring b q) args) (Print 2 ''exec %s failed\<newline>'' (cstring b q) (Exit 0)))"
| "runcmd b (REDIR c q eq mode fd) =
     Close fd (Open (cstring b q) mode (\<lambda>r.
       if r < 0 then Print 2 ''open %s failed\<newline>'' (cstring b q) (Exit 1) else runcmd b c))"
| "runcmd b (LIST l r) = fork1 (runcmd b l) (Wait (runcmd b r))"
| "runcmd b (PIPE l r) =
     Pipe (\<lambda>p0 p1.
       fork1 (Close 1 (Dup p1 (Close p0 (Close p1 (runcmd b l)))))
         (fork1 (Close 0 (Dup p0 (Close p0 (Close p1 (runcmd b r)))))
           (Close p0 (Close p1 (Wait (Wait (Exit 0)))))))
       (sh_panic ''pipe'')"
| "runcmd b (BACK c) = fork1 (runcmd b c) (Exit 0)"

definition getcmd :: "'s usys \<Rightarrow> nat \<Rightarrow> ('s, int \<times> uchar list) uprog" where
  "getcmd K nbuf =
     ubind (ucall (u_write K 2 (bytes ''$ ''))) (\<lambda>_.
     ubind (gets K nbuf) (\<lambda>buf. ureturn (if at buf 0 = 0 then - 1 else 0, buf)))"

text \<open>
  \<^verbatim>\<open>main\<close>: the descriptors are opened first, at most as many as a process can have. Then each line that
  \<^verbatim>\<open>getcmd\<close> returns is a change of directory or a command for a child.
\<close>

fun open_console :: "nat \<Rightarrow> prog \<Rightarrow> prog" where
  "open_console 0 k = k"
| "open_console (Suc n) k =
     Open (bytes ''console'') 2 (\<lambda>fd. if fd < 0 then k else if fd \<ge> 3 then Close fd k else open_console n k)"

definition sh_line :: "uchar list \<Rightarrow> prog \<Rightarrow> prog" where
  "sh_line buf next =
     (if at buf 0 = 99 \<and> at buf 1 = 100 \<and> at buf 2 = 32 then
        Chdir (drop 3 (butlast buf)) next (Print 2 ''cannot cd %s\<newline>'' (drop 3 (butlast buf)) next)
      else
        fork1
          (case parsecmd (4 * length buf + 4) buf of
             Inr (c, b) \<Rightarrow> runcmd b c
           | Inl e \<Rightarrow> (case e of Panic msg \<Rightarrow> sh_panic msg | _ \<Rightarrow> Exit 1))
          (Wait next))"

fun sh_lines :: "uchar list list \<Rightarrow> prog" where
  "sh_lines [] = Exit 0"
| "sh_lines (buf # rest) = sh_line buf (sh_lines rest)"

definition sh_main :: "uchar list list \<Rightarrow> prog" where
  "sh_main rest = open_console (NOFILE + 1) (sh_lines rest)"

section \<open>What the processes of a command are connected to\<close>

text \<open>
  A table of open files, of which the kernel gives out the lowest free entry. The end of a pipe is
  named by the position in the tree of processes of the one that made the pipe. \<open>execs\<close> collects the
  programs that the processes of a command run, with their tables, when the system calls succeed.
\<close>

datatype fobj = Inherited nat | Opened "uchar list" int | PipeR "bool list" | PipeW "bool list"

type_synonym fdtab = "fobj option list"

fun lowest :: "fdtab \<Rightarrow> nat" where
  "lowest [] = 0"
| "lowest (f # t) = (if f = None then 0 else Suc (lowest t))"

definition fd_alloc :: "fobj option \<Rightarrow> fdtab \<Rightarrow> fdtab" where
  "fd_alloc f t = t[lowest t := f]"

primrec execs :: "prog \<Rightarrow> fdtab \<Rightarrow> bool list \<Rightarrow> (uchar list list \<times> fdtab) list" where
  "execs (Exit n) t p = []"
| "execs (Print fd fmt a k) t p = execs k t p"
| "execs (Exec name argv k) t p = [(argv, t)]"
| "execs (Close fd k) t p = execs k (t[nat fd := None]) p"
| "execs (Dup fd k) t p = execs k (fd_alloc (t ! nat fd) t) p"
| "execs (Open name mode k) t p = execs (k (int (lowest t))) (fd_alloc (Some (Opened name mode)) t) p"
| "execs (Pipe k f) t p =
     execs (k (int (lowest t)) (int (lowest (fd_alloc (Some (PipeR p)) t)))) (fd_alloc (Some (PipeW p)) (fd_alloc (Some (PipeR p)) t)) p"
| "execs (Fork child parent f) t p = execs child t (True # p) @ execs parent t (False # p)"
| "execs (Wait k) t p = execs k t p"
| "execs (Chdir name k f) t p = execs k t p"

text \<open>What a command means: the standard descriptors of each of its programs.\<close>

fun wiring :: "uchar list \<Rightarrow> cmd \<Rightarrow> fdtab \<Rightarrow> bool list \<Rightarrow> (uchar list list \<times> fdtab) list" where
  "wiring b (EXEC args) t p = (if args = [] then [] else [(map (\<lambda>(q, eq). cstring b q) args, t)])"
| "wiring b (REDIR c q eq mode fd) t p = wiring b c (t[nat fd := Some (Opened (cstring b q) mode)]) p"
| "wiring b (LIST l r) t p = wiring b l t (True # p) @ wiring b r t (False # p)"
| "wiring b (PIPE l r) t p =
     wiring b l (t[1 := Some (PipeW p)]) (True # p) @ wiring b r (t[0 := Some (PipeR p)]) (True # False # p)"
| "wiring b (BACK c) t p = wiring b c t (True # p)"

text \<open>Only the three standard descriptors are open.\<close>

definition std_only :: "fdtab \<Rightarrow> bool" where
  "std_only t \<longleftrightarrow> (\<exists>a b c. t = [Some a, Some b, Some c] @ replicate (NOFILE - 3) None)"

fun redirs_std :: "cmd \<Rightarrow> bool" where
  "redirs_std (EXEC args) = True"
| "redirs_std (REDIR c q eq mode fd) = (fd \<in> {0, 1, 2} \<and> redirs_std c)"
| "redirs_std (LIST l r) = (redirs_std l \<and> redirs_std r)"
| "redirs_std (PIPE l r) = (redirs_std l \<and> redirs_std r)"
| "redirs_std (BACK c) = redirs_std c"

lemma std_only_update: "std_only t \<Longrightarrow> i < 3 \<Longrightarrow> std_only (t[i := Some f])"
  by (auto simp: std_only_def less_Suc_eq numeral_3_eq_3)

lemma free_entries: "replicate 13 (None :: fobj option) = None # None # replicate 11 None"
  by (simp add: numeral_eq_Suc)

lemma execs_runcmd:
  "std_only t \<Longrightarrow> redirs_std c \<Longrightarrow> execs (runcmd b c) t p = wiring b c t p"
proof (induction c arbitrary: t p)
  case (EXEC args)
  then show ?case by (auto split: list.splits)
next
  case (REDIR c q eq mode fd)
  have "execs (runcmd b (REDIR c q eq mode fd)) t p = execs (runcmd b c) (t[nat fd := Some (Opened (cstring b q) mode)]) p"
    using REDIR.prems by (auto simp: std_only_def fd_alloc_def)
  then show ?case using REDIR.IH [OF std_only_update [OF REDIR.prems(1)]] REDIR.prems(2) by auto
next
  case (PIPE l r)
  have "execs (runcmd b (PIPE l r)) t p =
      execs (runcmd b l) (t[1 := Some (PipeW p)]) (True # p) @ execs (runcmd b r) (t[0 := Some (PipeR p)]) (True # False # p)"
    using PIPE.prems(1) by (auto simp: std_only_def fork1_def fd_alloc_def free_entries)
  then show ?case using PIPE std_only_update [OF PIPE.prems(1)] by simp
next
  case (LIST l r)
  then show ?case by (simp add: fork1_def)
next
  case (BACK c)
  then show ?case by (simp add: fork1_def)
qed

lemma wiring_std: "std_only t \<Longrightarrow> redirs_std c \<Longrightarrow> (argv, t') \<in> set (wiring b c t p) \<Longrightarrow> std_only t'"
proof (induction c arbitrary: t p)
  case (REDIR c q eq mode fd)
  then have "std_only (t[nat fd := Some (Opened (cstring b q) mode)])" by (auto intro: std_only_update)
  with REDIR show ?case by auto
next
  case (PIPE l r)
  then have "std_only (t[1 := Some (PipeW p)])" "std_only (t[0 := Some (PipeR p)])" by (auto intro: std_only_update)
  with PIPE show ?case by auto
qed (auto split: if_splits)

text \<open>C30: the shell connects the programs of a command as the command says. Each redirection replaces its descriptor, a
  pipe joins the standard output of its left side to the standard input of its right side, and no program inherits a
  descriptor beyond the three standard ones, so a reader of a pipe sees its end when the writers have gone.\<close>

theorem runcmd_wires_pipelines:
  assumes "std_only t" "redirs_std c"
  shows "execs (runcmd b c) t p = wiring b c t p \<and> (\<forall>(argv, t') \<in> set (execs (runcmd b c) t p). std_only t')"
  using execs_runcmd [OF assms] wiring_std [OF assms] by auto

theorem runcmd_wires_pipelines_witness:
  "let b = [108, 115, 0, 119, 99, 0]; t = [Some (Inherited 0), Some (Inherited 1), Some (Inherited 2)] @ replicate 13 None in
   execs (runcmd b (PIPE (EXEC [(0, 2)]) (EXEC [(3, 5)]))) t [] =
     [([[108, 115]], t[1 := Some (PipeW [])]), ([[119, 99]], t[0 := Some (PipeR [])])]"
proof -
  let ?t = "[Some (Inherited 0), Some (Inherited 1), Some (Inherited 2)] @ replicate 13 None"
  have "std_only ?t" by (simp add: std_only_def)
  then show ?thesis using runcmd_wires_pipelines [of ?t "PIPE (EXEC [(0, 2)]) (EXEC [(3, 5)])"]
    by (simp add: Let_def cstring_def)
qed

section \<open>The parser is safe\<close>

text \<open>A word: characters that are neither white space nor symbols, up to one that is, or to the end.\<close>

definition word :: "uchar list \<Rightarrow> nat \<Rightarrow> nat \<Rightarrow> bool" where
  "word b q eq \<longleftrightarrow> q < eq \<and> eq \<le> length b \<and> (\<forall>i. q \<le> i \<and> i < eq \<longrightarrow> \<not> is_ws (at b i) \<and> \<not> is_sym (at b i)) \<and>
     (eq = length b \<or> is_ws (at b eq) \<or> is_sym (at b eq))"

lemma is_sym_iff: "is_sym c \<longleftrightarrow> c \<in> {60, 124, 62, 38, 59, 40, 41}"
  by (auto simp: is_sym_def symbols_def)

lemma is_ws_iff: "is_ws c \<longleftrightarrow> c \<in> {32, 9, 13, 10, 11}"
  by (auto simp: is_ws_def whitespace_def)

lemma skip_ws_bounds:
  "ps \<le> length b \<Longrightarrow> ps \<le> skip_ws b ps \<and> skip_ws b ps \<le> length b \<and> (skip_ws b ps < length b \<longrightarrow> \<not> is_ws (at b (skip_ws b ps)))"
proof (induction b ps rule: skip_ws.induct)
  case (1 b ps)
  show ?case
  proof (cases "ps < length b \<and> is_ws (at b ps)")
    case True
    then have "skip_ws b ps = skip_ws b (ps + 1)" by (subst skip_ws.simps) simp
    with 1(1) [OF True] True show ?thesis by simp
  next
    case False
    then have "skip_ws b ps = ps" by (subst skip_ws.simps) auto
    with False 1(2) show ?thesis by auto
  qed
qed

lemma skip_word_bounds:
  "ps \<le> length b \<Longrightarrow> ps \<le> skip_word b ps \<and> skip_word b ps \<le> length b \<and>
     (\<forall>i. ps \<le> i \<and> i < skip_word b ps \<longrightarrow> \<not> is_ws (at b i) \<and> \<not> is_sym (at b i)) \<and>
     (skip_word b ps = length b \<or> is_ws (at b (skip_word b ps)) \<or> is_sym (at b (skip_word b ps)))"
proof (induction b ps rule: skip_word.induct)
  case (1 b ps)
  show ?case
  proof (cases "ps < length b \<and> \<not> is_ws (at b ps) \<and> \<not> is_sym (at b ps)")
    case True
    then have "skip_word b ps = skip_word b (ps + 1)" by (subst skip_word.simps) simp
    with 1(1) [OF True] True show ?thesis by (auto simp: Suc_le_eq) (metis le_neq_implies_less Suc_leI)+
  next
    case False
    then have "skip_word b ps = ps" by (subst skip_word.simps) auto
    with False 1(2) show ?thesis by auto
  qed
qed

lemma skip_word_word:
  assumes "s < length b" "\<not> is_ws (at b s)" "\<not> is_sym (at b s)"
  shows "word b s (skip_word b s)"
proof -
  have "skip_word b s = skip_word b (s + 1)" using assms by (subst skip_word.simps) simp
  moreover have "s + 1 \<le> skip_word b (s + 1)" using skip_word_bounds [of "s + 1" b] assms(1) by simp
  ultimately show ?thesis using skip_word_bounds [of s b] assms(1) by (auto simp: word_def)
qed

lemma gettoken_spec:
  assumes "nul_free b" "ps \<le> length b" "gettoken b ps = (ret, q, eq, ps')"
  shows "ps \<le> q" "q \<le> eq" "eq \<le> ps'" "ps' \<le> length b" "q = skip_ws b ps"
    "ret = 0 \<longleftrightarrow> q = length b" "q < length b \<Longrightarrow> q < eq" "ret = 97 \<Longrightarrow> word b q eq"
proof -
  define s where "s = skip_ws b ps"
  have s: "ps \<le> s" "s \<le> length b" "s < length b \<longrightarrow> \<not> is_ws (at b s)" using skip_ws_bounds [OF assms(2)] by (simp_all add: s_def)
  have nz: "i < length b \<longleftrightarrow> at b i \<noteq> 0" for i using assms(1) by (auto simp: at_def nul_free_def dest: nth_mem)
  define e where "e = token_at b s"
  have g: "ret = fst e" "eq = snd e" "q = s" "ps' = skip_ws b (snd e)"
    using assms(3) by (auto simp: gettoken_def e_def s_def split_beta Let_def)
  have w: "word b s (skip_word b s)" if "s < length b" "\<not> is_sym (at b s)" using skip_word_word that s by blast
  have e: "snd e \<le> length b \<and> (fst e = 0 \<longleftrightarrow> s = length b) \<and> (s < length b \<longrightarrow> s < snd e) \<and> s \<le> snd e \<and>
    (fst e = 97 \<longrightarrow> word b s (snd e))"
  proof (cases "s = length b")
    case True
    then show ?thesis by (simp add: e_def token_at_def at_def)
  next
    case False
    then have "s < length b" using s(2) by simp
    then have lt: "s < length b" "at b s \<noteq> 0" using nz [of s] by simp_all
    have w': "s < skip_word b s" "skip_word b s \<le> length b" "word b s (skip_word b s)" if "\<not> is_sym (at b s)"
      using w [OF lt(1) that] by (simp_all add: word_def)
    have 1: "Suc s < length b" if "at b (Suc s) = 62" using nz [of "Suc s"] that by simp
    have "e = (TOKEN_2GTGT, s + 3) \<and> s + 2 < length b \<or> e = (TOKEN_2GT, s + 2) \<and> at b (Suc s) = 62 \<or>
      e = (unat (at b s), s + 1) \<and> at b s \<in> {124, 40, 41, 59, 38, 60} \<or>
      e = (43, s + 2) \<and> at b (Suc s) = 62 \<or> e = (62, s + 1) \<or> e = (97, skip_word b s) \<and> \<not> is_sym (at b s)"
    proof (cases "at b s = 50")
      case True
      then show ?thesis by (simp add: e_def token_at_def is_sym_iff)
    next
      case no: False
      show ?thesis
      proof (cases "at b s \<in> {124, 40, 41, 59, 38, 60}")
        case True
        then have "e = (unat (at b s), s + 1)" using lt(2) no unfolding e_def token_at_def Let_def by (simp only: if_True if_False)
        with True show ?thesis by blast
      next
        case False
        then have "e = (if at b s = 62 then if at b (s + 1) = 62 then (43, s + 2) else (62, s + 1) else (97, skip_word b s))"
          using lt(2) no unfolding e_def token_at_def Let_def by (simp only: if_True if_False)
        with False show ?thesis by (cases "at b s = 62") (auto simp: is_sym_iff)
      qed
    qed
    then show ?thesis
      by (elim disjE) (use lt w' 1 in auto)
  qed
  have "snd e \<le> skip_ws b (snd e)" "skip_ws b (snd e) \<le> length b" using skip_ws_bounds [of "snd e" b] e by simp_all
  then show "ps \<le> q" "q \<le> eq" "eq \<le> ps'" "ps' \<le> length b" "q = skip_ws b ps"
    "ret = 0 \<longleftrightarrow> q = length b" "q < length b \<Longrightarrow> q < eq" "ret = 97 \<Longrightarrow> word b q eq"
    using e s g by (simp_all add: s_def)
qed


lemma peek_spec:
  assumes "nul_free b" "ps \<le> length b" "peek b ps toks = (p, m)"
  shows "p = skip_ws b ps" "ps \<le> p" "p \<le> length b" "m \<Longrightarrow> p < length b"
  using assms skip_ws_bounds [OF assms(2)] by (auto simp: peek_def Let_def at_def split: if_splits)

lemma skip_ws_idem: "ps \<le> length b \<Longrightarrow> skip_ws b (skip_ws b ps) = skip_ws b ps"
  using skip_ws_bounds [of ps b] by (subst skip_ws.simps) auto

lemma token_after_peek:
  assumes "nul_free b" "ps \<le> length b" "peek b ps toks = (p, True)" "gettoken b p = (ret, q, eq, ps')"
  shows "ps < ps'" "ps' \<le> length b"
proof -
  note p = peek_spec [OF assms(1-3)]
  note g = gettoken_spec [OF assms(1) p(3) assms(4)]
  have "q = p" using g(5) p(1) skip_ws_idem [OF assms(2)] by simp
  then show "ps < ps'" "ps' \<le> length b" using g p by auto
qed

text \<open>
  The results of the parsers: a panic, or a position that is not before the first one, with words and
  redirections of the standard descriptors.
\<close>

definition redirs_ok :: "uchar list \<Rightarrow> redir list \<Rightarrow> bool" where
  "redirs_ok b rs \<longleftrightarrow> (\<forall>(q, eq, mode, fd) \<in> set rs. word b q eq \<and> fd \<in> {0, 1, 2})"

fun cmd_ok :: "uchar list \<Rightarrow> cmd \<Rightarrow> bool" where
  "cmd_ok b (EXEC args) = (length args < MAXARGS \<and> (\<forall>(q, eq) \<in> set args. word b q eq))"
| "cmd_ok b (REDIR c q eq mode fd) = (word b q eq \<and> fd \<in> {0, 1, 2} \<and> cmd_ok b c)"
| "cmd_ok b (LIST l r) = (cmd_ok b l \<and> cmd_ok b r)"
| "cmd_ok b (PIPE l r) = (cmd_ok b l \<and> cmd_ok b r)"
| "cmd_ok b (BACK c) = cmd_ok b c"

lemma redirs_ok_append: "redirs_ok b (rs @ rs') \<longleftrightarrow> redirs_ok b rs \<and> redirs_ok b rs'"
  unfolding redirs_ok_def set_append by blast

lemma cmd_ok_wrap: "redirs_ok b rs \<Longrightarrow> cmd_ok b c \<Longrightarrow> cmd_ok b (wrap rs c)"
  by (induction rs arbitrary: c) (auto simp: wrap_def redirs_ok_def)

definition parses :: "uchar list \<Rightarrow> nat \<Rightarrow> ('a \<Rightarrow> bool) \<Rightarrow> ('a \<times> nat) res \<Rightarrow> bool" where
  "parses b ps P r \<longleftrightarrow> (case r of Inl e \<Rightarrow> \<exists>m. e = Panic m | Inr (x, p) \<Rightarrow> ps \<le> p \<and> p \<le> length b \<and> P x)"

lemma parses_simps [simp]:
  "parses b ps P (Inl (Panic m))" "parses b ps P (Inr (x, p)) \<longleftrightarrow> ps \<le> p \<and> p \<le> length b \<and> P x"
  by (simp_all add: parses_def)

lemma parses_bind:
  assumes "parses b ps P r" "\<And>x p. ps \<le> p \<Longrightarrow> p \<le> length b \<Longrightarrow> P x \<Longrightarrow> parses b ps Q (f (x, p))"
  shows "parses b ps Q (rbind r f)"
proof (cases r)
  case (Inl e)
  then show ?thesis using assms(1) by (auto simp: parses_def rbind_simps)
next
  case (Inr y)
  then show ?thesis using assms by (cases y) (auto simp: rbind_simps)
qed

lemma parses_weaken: "parses b ps' P r \<Longrightarrow> ps \<le> ps' \<Longrightarrow> parses b ps P r"
  by (auto simp: parses_def split: sum.splits)

lemma redircmd_ok: "word b q eq \<Longrightarrow> redirs_ok b rs \<Longrightarrow> redirs_ok b (redircmd tok q eq # rs)"
  by (simp add: redirs_ok_def redircmd_def)

lemma parseredirs_safe:
  assumes "nul_free b" "ps \<le> length b" "length b - ps + 1 \<le> n"
  shows "parses b ps (redirs_ok b) (parseredirs n b ps)"
  using assms(2,3)
proof (induction n arbitrary: ps)
  case (Suc n)
  obtain p m where pk: "peek b ps [60, 62, 50] = (p, m)" by fastforce
  note p = peek_spec [OF assms(1) Suc.prems(1) pk]
  obtain tok x y ps1 where g1: "gettoken b p = (tok, x, y, ps1)" by (metis prod_cases4)
  obtain tok2 q eq ps2 where g2: "gettoken b ps1 = (tok2, q, eq, ps2)" by (metis prod_cases4)
  show ?case
  proof (cases "m \<and> tok \<in> {60, 62, 43, TOKEN_2GT, TOKEN_2GTGT} \<and> tok2 = 97")
    case True
    have "peek b ps [60, 62, 50] = (p, True)" using pk True by simp
    note a = token_after_peek [OF assms(1) Suc.prems(1) this g1]
    note g = gettoken_spec [OF assms(1) a(2) g2]
    have lt: "ps < ps2" using a g by linarith
    have "parses b ps2 (redirs_ok b) (parseredirs n b ps2)" by (rule Suc.IH [OF g(4)]) (use Suc.prems(2) lt g(4) in linarith)
    then have "parses b ps (redirs_ok b) (parseredirs n b ps2)" by (rule parses_weaken) (use lt in simp)
    then have "parses b ps (redirs_ok b) (rbind (parseredirs n b ps2) (\<lambda>(rs, ps). Inr (redircmd tok q eq # rs, ps)))"
      by (rule parses_bind) (use g(8) True in \<open>simp add: redircmd_ok\<close>)
    then show ?thesis using pk g1 g2 True by (simp del: TOKEN_2GT_def TOKEN_2GTGT_def)
  next
    case False
    then show ?thesis using p pk g1 g2 by (auto simp: redirs_ok_def simp del: TOKEN_2GT_def TOKEN_2GTGT_def)
  qed
qed simp

lemma parseargs_safe:
  assumes "nul_free b" "ps \<le> length b" "length b - ps + (if ps = length b then 1 else 2) \<le> n" "argc < MAXARGS"
  shows "case parseargs n b ps argc of Inl e \<Rightarrow> \<exists>m. e = Panic m
    | Inr (args, rs, p) \<Rightarrow> ps \<le> p \<and> p \<le> length b \<and> argc + length args < MAXARGS \<and> (\<forall>(q, eq) \<in> set args. word b q eq) \<and> redirs_ok b rs"
  using assms(2-4)
proof (induction n arbitrary: ps argc)
  case (Suc n)
  obtain p m where pk: "peek b ps [124, 41, 38, 59] = (p, m)" by fastforce
  note p = peek_spec [OF assms(1) Suc.prems(1) pk]
  obtain tok q eq ps1 where g1: "gettoken b p = (tok, q, eq, ps1)" by (metis prod_cases4)
  note g = gettoken_spec [OF assms(1) p(3) g1]
  show ?case
  proof (cases "\<not> m \<and> tok = 97 \<and> argc + 1 < MAXARGS")
    case False
    then show ?thesis using p pk g1 g Suc.prems(3) by (auto simp: redirs_ok_def)
  next
    case True
    have lt: "ps < ps1" "ps < length b" using g p True by auto
    have 1: "parses b ps1 (redirs_ok b) (parseredirs n b ps1)"
      by (rule parseredirs_safe [OF assms(1) g(4)]) (use Suc.prems(2) lt in auto)
    show ?thesis
    proof (cases "parseredirs n b ps1")
      case (Inl e)
      then show ?thesis using 1 pk g1 True by (auto simp: parses_def rbind_simps)
    next
      case (Inr y)
      then obtain rs ps2 where y: "y = (rs, ps2)" "ps1 \<le> ps2" "ps2 \<le> length b" "redirs_ok b rs" using 1 by (cases y) (auto simp: parses_def)
      have "case parseargs n b ps2 (argc + 1) of Inl e \<Rightarrow> \<exists>m. e = Panic m
        | Inr (args, rs, p) \<Rightarrow> ps2 \<le> p \<and> p \<le> length b \<and> (argc + 1) + length args < MAXARGS \<and> (\<forall>(q, eq) \<in> set args. word b q eq) \<and> redirs_ok b rs"
        by (rule Suc.IH) (use y lt Suc.prems(2) True in auto)
      then show ?thesis using Inr y pk g1 True lt g(8)
        by (auto simp: rbind_simps redirs_ok_append split: sum.splits)
    qed
  qed
qed (simp split: if_splits)


lemma parsebacks_safe:
  assumes "nul_free b" "ps \<le> length b" "length b - ps + 1 \<le> n" "cmd_ok b c"
  shows "parses b ps (cmd_ok b) (parsebacks n b c ps)"
  using assms(2-4)
proof (induction n arbitrary: ps c)
  case (Suc n)
  obtain p m where pk: "peek b ps [38] = (p, m)" by fastforce
  note p = peek_spec [OF assms(1) Suc.prems(1) pk]
  obtain tok x y ps1 where g1: "gettoken b p = (tok, x, y, ps1)" by (metis prod_cases4)
  show ?case
  proof (cases m)
    case True
    with pk have "peek b ps [38] = (p, True)" by simp
    note a = token_after_peek [OF assms(1) Suc.prems(1) this g1]
    have "parses b ps1 (cmd_ok b) (parsebacks n b (BACK c) ps1)" by (rule Suc.IH [OF a(2)]) (use Suc.prems a in auto)
    then show ?thesis using pk g1 True a by (auto intro: parses_weaken)
  next
    case False
    then show ?thesis using p pk Suc.prems by simp
  qed
qed simp

definition safe :: "uchar list \<Rightarrow> nat \<Rightarrow> (nat \<Rightarrow> uchar list \<Rightarrow> nat \<Rightarrow> (cmd \<times> nat) res) \<Rightarrow> nat \<Rightarrow> bool" where
  "safe b k f n \<longleftrightarrow> (\<forall>ps \<le> length b. 4 * (length b - ps) + k \<le> n \<longrightarrow> parses b ps (cmd_ok b) (f n b ps))"

text \<open>A parser that goes on with another one after a separator.\<close>

lemma parses_separator:
  assumes "nul_free b" "ps \<le> p" "p \<le> length b" "cmd_ok b c" "safe b k f n" "4 * (length b - ps) + k \<le> n + 4"
    and "\<And>c'. cmd_ok b c' \<Longrightarrow> cmd_ok b (g c c')"
  shows "parses b ps (cmd_ok b) (let (p, m) = peek b p toks in
    if m then let (_, _, _, p) = gettoken b p in rbind (f n b p) (\<lambda>(c', p). Inr (g c c', p)) else Inr (c, p))"
proof -
  obtain p' m where pk: "peek b p toks = (p', m)" by fastforce
  note p' = peek_spec [OF assms(1,3) pk]
  obtain tok x y ps1 where g1: "gettoken b p' = (tok, x, y, ps1)" by (metis prod_cases4)
  show ?thesis
  proof (cases m)
    case False
    then show ?thesis using pk p' assms(2-4) by simp
  next
    case True
    with pk have "peek b p toks = (p', True)" by simp
    note a = token_after_peek [OF assms(1,3) this g1]
    have "parses b ps1 (cmd_ok b) (f n b ps1)" using assms(2,5,6) a unfolding safe_def by auto
    then show ?thesis using pk g1 True a assms(2,7) by (auto intro!: parses_bind [OF parses_weaken])
  qed
qed

lemma parseline_step:
  assumes "nul_free b" "safe b 3 parsepipe n" "safe b 4 parseline n"
  shows "safe b 4 parseline (Suc n)"
  unfolding safe_def
proof (intro allI impI)
  fix ps assume ps: "ps \<le> length b" "4 * (length b - ps) + 4 \<le> Suc n"
  show "parses b ps (cmd_ok b) (parseline (Suc n) b ps)"
    unfolding parseline.simps
  proof (rule parses_bind)
    show "parses b ps (cmd_ok b) (parsepipe n b ps)" using assms(2) ps unfolding safe_def by simp
    fix c p assume c: "ps \<le> p" "p \<le> length b" "cmd_ok b c"
    have "parses b ps (cmd_ok b) (parsebacks n b c p)"
      by (rule parses_weaken [OF parsebacks_safe [OF assms(1) c(2)] c(1)]) (use c ps in auto)
    then show "parses b ps (cmd_ok b) (case (c, p) of (c, ps) \<Rightarrow> rbind (parsebacks n b c ps) (\<lambda>(c, ps).
       let (ps, semi) = peek b ps [59] in
       if semi then let (_, _, _, ps) = gettoken b ps in rbind (parseline n b ps) (\<lambda>(c', ps). Inr (LIST c c', ps)) else Inr (c, ps)))"
      unfolding prod.case
    proof (rule parses_bind)
      fix c p assume "ps \<le> p" "p \<le> length b" "cmd_ok b c"
      then show "parses b ps (cmd_ok b) (case (c, p) of (c, ps) \<Rightarrow> let (ps, semi) = peek b ps [59] in
       if semi then let (_, _, _, ps) = gettoken b ps in rbind (parseline n b ps) (\<lambda>(c', ps). Inr (LIST c c', ps)) else Inr (c, ps))"
        unfolding prod.case using ps by (intro parses_separator [OF assms(1) _ _ _ assms(3), where g = LIST]) auto
    qed
  qed
qed

lemma parsepipe_step:
  assumes "nul_free b" "safe b 2 parseexec n" "safe b 3 parsepipe n"
  shows "safe b 3 parsepipe (Suc n)"
  unfolding safe_def
proof (intro allI impI)
  fix ps assume ps: "ps \<le> length b" "4 * (length b - ps) + 3 \<le> Suc n"
  show "parses b ps (cmd_ok b) (parsepipe (Suc n) b ps)"
    unfolding parsepipe.simps
  proof (rule parses_bind)
    show "parses b ps (cmd_ok b) (parseexec n b ps)" using assms(2) ps unfolding safe_def by simp
    fix c p assume "ps \<le> p" "p \<le> length b" "cmd_ok b c"
    then show "parses b ps (cmd_ok b) (case (c, p) of (c, ps) \<Rightarrow> let (ps, bar) = peek b ps [124] in
       if bar then let (_, _, _, ps) = gettoken b ps in rbind (parsepipe n b ps) (\<lambda>(c', ps). Inr (PIPE c c', ps)) else Inr (c, ps))"
      unfolding prod.case using ps by (intro parses_separator [OF assms(1) _ _ _ assms(3), where g = PIPE]) auto
  qed
qed

lemma parseblock_step:
  assumes "nul_free b" "safe b 4 parseline n"
  shows "safe b 1 parseblock (Suc n)"
  unfolding safe_def
proof (intro allI impI)
  fix ps assume ps: "ps \<le> length b" "4 * (length b - ps) + 1 \<le> Suc n"
  obtain p m where pk: "peek b ps [40] = (p, m)" by fastforce
  note p = peek_spec [OF assms(1) ps(1) pk]
  obtain tok x y ps1 where g1: "gettoken b p = (tok, x, y, ps1)" by (metis prod_cases4)
  show "parses b ps (cmd_ok b) (parseblock (Suc n) b ps)"
  proof (cases m)
    case False
    then show ?thesis using pk by simp
  next
    case True
    with pk have "peek b ps [40] = (p, True)" by simp
    note a = token_after_peek [OF assms(1) ps(1) this g1]
    have 1: "parses b ps (cmd_ok b) (parseline n b ps1)"
      by (rule parses_weaken [of b ps1]) (use assms(2) ps a in \<open>auto simp: safe_def\<close>)
    have "parses b ps (cmd_ok b) (rbind (parseline n b ps1) (\<lambda>(c, ps).
          let (ps, close) = peek b ps [41] in
          if \<not> close then Inl (Panic ''syntax - missing )'')
          else let (_, _, _, ps) = gettoken b ps in rbind (parseredirs n b ps) (\<lambda>(rs, ps). Inr (wrap rs c, ps))))"
    proof (rule parses_bind [OF 1], unfold prod.case)
      fix c p' assume c: "ps \<le> p'" "p' \<le> length b" "cmd_ok b c"
      obtain p2 m2 where pk2: "peek b p' [41] = (p2, m2)" by fastforce
      obtain tok x y ps2 where g2: "gettoken b p2 = (tok, x, y, ps2)" by (metis prod_cases4)
      show "parses b ps (cmd_ok b) (let (ps, close) = peek b p' [41] in
          if \<not> close then Inl (Panic ''syntax - missing )'')
          else let (_, _, _, ps) = gettoken b ps in rbind (parseredirs n b ps) (\<lambda>(rs, ps). Inr (wrap rs c, ps)))"
      proof (cases m2)
        case False
        then show ?thesis using pk2 by simp
      next
        case True
        with pk2 have "peek b p' [41] = (p2, True)" by simp
        note a2 = token_after_peek [OF assms(1) c(2) this g2]
        have "parses b ps (redirs_ok b) (parseredirs n b ps2)"
          by (rule parses_weaken [OF parseredirs_safe [OF assms(1) a2(2)]]) (use a2 c ps a in auto)
        then show ?thesis using pk2 g2 True c by (auto intro!: parses_bind cmd_ok_wrap)
      qed
    qed
    then show ?thesis using pk g1 True by simp
  qed
qed

lemma parseexec_step:
  assumes "nul_free b" "safe b 1 parseblock n"
  shows "safe b 2 parseexec (Suc n)"
  unfolding safe_def
proof (intro allI impI)
  fix ps assume ps: "ps \<le> length b" "4 * (length b - ps) + 2 \<le> Suc n"
  obtain p m where pk: "peek b ps [40] = (p, m)" by fastforce
  note p = peek_spec [OF assms(1) ps(1) pk]
  show "parses b ps (cmd_ok b) (parseexec (Suc n) b ps)"
  proof (cases m)
    case True
    have "parses b p (cmd_ok b) (parseblock n b p)" using assms(2) p(2,3) ps unfolding safe_def by auto
    then show ?thesis using pk True p(2) by (auto intro: parses_weaken)
  next
    case False
    have 1: "parses b ps (redirs_ok b) (parseredirs n b p)"
      by (rule parses_weaken [OF parseredirs_safe [OF assms(1) p(3)]]) (use p ps in auto)
    have "parses b ps (cmd_ok b) (rbind (parseredirs n b p) (\<lambda>(rs, ps). rbind (parseargs n b ps 0) (\<lambda>(args, rs', ps).
        Inr (wrap (rs @ rs') (EXEC args), ps))))"
    proof (rule parses_bind [OF 1], unfold prod.case)
      fix rs p' assume r: "ps \<le> p'" "p' \<le> length b" "redirs_ok b rs"
      have "case parseargs n b p' 0 of Inl e \<Rightarrow> \<exists>m. e = Panic m
        | Inr (args, rs, p) \<Rightarrow> p' \<le> p \<and> p \<le> length b \<and> 0 + length args < MAXARGS \<and> (\<forall>(q, eq) \<in> set args. word b q eq) \<and> redirs_ok b rs"
        by (rule parseargs_safe) (use assms(1) r ps in auto)
      then show "parses b ps (cmd_ok b) (rbind (parseargs n b p' 0) (\<lambda>(args, rs', ps). Inr (wrap (rs @ rs') (EXEC args), ps)))"
        using r by (auto simp: rbind_simps redirs_ok_append split: sum.splits intro!: cmd_ok_wrap)
    qed
    then show ?thesis using pk False by simp
  qed
qed

lemma parsers_safe:
  assumes "nul_free b"
  shows "safe b 4 parseline n \<and> safe b 3 parsepipe n \<and> safe b 1 parseblock n \<and> safe b 2 parseexec n"
proof (induction n)
  case 0
  then show ?case by (simp add: safe_def)
next
  case (Suc n)
  then show ?case using parseline_step parsepipe_step parseblock_step parseexec_step assms by blast
qed


section \<open>The words of a command\<close>

fun words :: "cmd \<Rightarrow> (nat \<times> nat) set" where
  "words (EXEC args) = set args"
| "words (REDIR c q eq mode fd) = insert (q, eq) (words c)"
| "words (LIST l r) = words l \<union> words r"
| "words (PIPE l r) = words l \<union> words r"
| "words (BACK c) = words c"

fun few_args :: "cmd \<Rightarrow> bool" where
  "few_args (EXEC args) = (length args < MAXARGS)"
| "few_args (REDIR c q eq mode fd) = few_args c"
| "few_args (LIST l r) = (few_args l \<and> few_args r)"
| "few_args (PIPE l r) = (few_args l \<and> few_args r)"
| "few_args (BACK c) = few_args c"

lemma cmd_ok_words: "cmd_ok b c \<Longrightarrow> redirs_std c \<and> few_args c \<and> (\<forall>(q, eq) \<in> words c. word b q eq)"
  by (induction c) auto

lemma fold_terminate:
  "length (fold (\<lambda>(q, eq) b. b[eq := 0]) args b) = length b"
  "i < length b \<Longrightarrow> fold (\<lambda>(q, eq) b. b[eq := (0 :: uchar)]) args b ! i = (if i \<in> snd ` set args then 0 else b ! i)"
  by (induction args arbitrary: b) (simp_all add: nth_list_update split_beta)

lemma nulterminate_nth:
  "length (nulterminate c b) = length b \<and>
   (\<forall>i < length b. nulterminate c b ! i = (if i \<in> snd ` words c then 0 else b ! i))"
proof (induction c arbitrary: b)
  case (EXEC args)
  then show ?case by (simp add: fold_terminate)
next
  case (REDIR c q eq mode fd)
  have "(nulterminate c b)[eq := 0] ! i = (if i = eq then 0 else nulterminate c b ! i)" if "i < length b" for i
    using that REDIR [of b] by (simp add: nth_list_update)
  then show ?case using REDIR [of b] by simp
qed (simp_all add: image_Un)

lemma word_reads:
  assumes "nul_free b" "cmd_ok b c" "(q, eq) \<in> words c"
  shows "cstring (nulterminate c (b @ [0])) q = take (eq - q) (drop q b)"
proof -
  let ?n = "nulterminate c (b @ [0])"
  have ok: "\<forall>(q, eq) \<in> words c. word b q eq" using cmd_ok_words [OF assms(2)] by blast
  then have w: "word b q eq" using assms(3) by blast
  have len: "length ?n = Suc (length b)" and n: "i \<le> length b \<Longrightarrow> ?n ! i = (if i \<in> snd ` words c then 0 else (b @ [0]) ! i)" for i
    using nulterminate_nth [of c "b @ [0]"] by auto
  have inside: "?n ! i = b ! i \<and> b ! i \<noteq> 0" if "q \<le> i" "i < eq" for i
  proof -
    have i: "i < length b" "\<not> is_ws (at b i)" "\<not> is_sym (at b i)" using w that by (auto simp: word_def)
    have "i \<notin> snd ` words c"
    proof
      assume "i \<in> snd ` words c"
      then obtain q' where "(q', i) \<in> words c" by auto
      then have "word b q' i" using ok by blast
      then show False using i by (auto simp: word_def)
    qed
    then show ?thesis using n [of i] i assms(1) by (auto simp: nth_append nul_free_def dest: nth_mem)
  qed
  have "eq \<in> snd ` words c" using assms(3) by force
  then have z: "?n ! eq = 0" using n [of eq] w by (simp add: word_def)
  have qe: "q < eq" "eq \<le> length b" using w by (simp_all add: word_def)
  have "cstring ?n q = take (eq - q) (drop q ?n)"
    unfolding cstring_def by (rule takeWhile_eq_take_P_nth) (use inside z qe len in auto)
  also have "\<dots> = take (eq - q) (drop q b)"
    by (rule nth_equalityI) (use inside qe len in auto)
  finally show ?thesis .
qed

text \<open>C29: the shell's parser is safe on every line. It ends, with a command or with a panic. In a command it returns,
  every argument and file name is a non-empty word of the line without white space or symbols and is exactly the string that
  is found at its position once the words have been terminated, no command has more arguments than
  \<^verbatim>\<open>argv\<close> holds with its terminator, and only the three standard descriptors are redirected.\<close>

theorem parsecmd_safe:
  assumes "nul_free b"
  shows "case parsecmd (4 * length b + 4) b of
      Inl e \<Rightarrow> \<exists>msg. e = Panic msg
    | Inr (c, buf) \<Rightarrow> redirs_std c \<and> few_args c \<and>
        (\<forall>(q, eq) \<in> words c. q < eq \<and> eq \<le> length b \<and> cstring buf q = take (eq - q) (drop q b) \<and>
          (\<forall>x \<in> set (cstring buf q). \<not> is_ws x \<and> \<not> is_sym x))"
proof -
  have "parses b 0 (cmd_ok b) (parseline (4 * length b + 4) b 0)"
    using parsers_safe [OF assms, of "4 * length b + 4"] by (simp add: safe_def)
  moreover have "cstring (nulterminate c (b @ [0])) q = take (eq - q) (drop q b) \<and> q < eq \<and> eq \<le> length b \<and>
      (\<forall>x \<in> set (take (eq - q) (drop q b)). \<not> is_ws x \<and> \<not> is_sym x)" if "cmd_ok b c" "(q, eq) \<in> words c" for c q eq
  proof -
    have w: "word b q eq" using cmd_ok_words [OF that(1)] that(2) by blast
    have "\<forall>x \<in> set (take (eq - q) (drop q b)). \<not> is_ws x \<and> \<not> is_sym x"
      using w by (auto simp: word_def in_set_conv_nth at_def)
    with word_reads [OF assms that] w show ?thesis by (simp add: word_def)
  qed
  ultimately show ?thesis
    by (auto simp: parsecmd_def parses_def rbind_simps split: sum.splits prod.splits dest: cmd_ok_words)
qed


theorem parsecmd_safe_witness:
  "\<exists>c buf. parsecmd 16 [97, 59, 98] = Inr (c, buf) \<and> c = LIST (EXEC [(0, 1)]) (EXEC [(2, 3)]) \<and> cstring buf 0 = [97]"
proof -
  have p: "parsecmd 16 [97, 59, 98] = Inr (LIST (EXEC [(0, 1)]) (EXEC [(2, 3)]), [97, 0, 98, 0])" by code_simp
  show ?thesis using parsecmd_safe [of "[97, 59, 98]"] by (simp add: p)
qed

end
