(* ===== verification/Umalloc.thy ===== *)
theory Umalloc
  imports Prelude
begin

text \<open>
  The allocator of user programs, \<^verbatim>\<open>user/umalloc.c\<close>. Headers are 16 bytes, and a \<^verbatim>\<open>Header *\<close> moves in
  steps of one header, so an address is counted in units of 16 bytes and 0 is the null pointer. The
  fields \<^verbatim>\<open>s.ptr\<close> and \<^verbatim>\<open>s.size\<close> of the header at an address are two functions of it. A free block of
  size \<open>n\<close> at \<open>p\<close> is the units \<open>p, ..., p + n - 1\<close>. The system call \<^verbatim>\<open>sbrk\<close> is an argument, a function on the
  state \<open>'s\<close> of the rest of the machine.
\<close>

record uheap =
  s_ptr :: "nat \<Rightarrow> nat"
  s_size :: "nat \<Rightarrow> nat"
  freep :: nat

definition set_ptr :: "nat \<Rightarrow> nat \<Rightarrow> uheap \<Rightarrow> uheap" where
  "set_ptr p v h = h\<lparr>s_ptr := (s_ptr h)(p := v)\<rparr>"

definition set_size :: "nat \<Rightarrow> nat \<Rightarrow> uheap \<Rightarrow> uheap" where
  "set_size p v h = h\<lparr>s_size := (s_size h)(p := v)\<rparr>"

section \<open>free\<close>

text \<open>The loop that finds the free block after which \<open>bp\<close> belongs.\<close>

partial_function (option) free_search :: "uheap \<Rightarrow> nat \<Rightarrow> nat \<Rightarrow> nat option" where
  "free_search h bp p =
     (if bp > p \<and> bp < s_ptr h p then Some p
      else if p \<ge> s_ptr h p \<and> (bp > p \<or> bp < s_ptr h p) then Some p
      else free_search h bp (s_ptr h p))"

definition free_link :: "uheap \<Rightarrow> nat \<Rightarrow> nat \<Rightarrow> uheap" where
  "free_link h bp p =
     (let h = (if bp + s_size h bp = s_ptr h p
               then let h = set_size bp (s_size h bp + s_size h (s_ptr h p)) h
                    in set_ptr bp (s_ptr h (s_ptr h p)) h
               else set_ptr bp (s_ptr h p) h);
          h = (if p + s_size h p = bp
               then let h = set_size p (s_size h p + s_size h bp) h
                    in set_ptr p (s_ptr h bp) h
               else set_ptr p bp h)
      in h\<lparr>freep := p\<rparr>)"

definition free :: "nat \<Rightarrow> uheap \<Rightarrow> uheap option" where
  "free ap h =
     (let bp = ap - 1 in Option.bind (free_search h bp (freep h)) (\<lambda>p. Some (free_link h bp p)))"

section \<open>malloc\<close>

text \<open>The number of bytes is a 64-bit product that is converted to the \<^verbatim>\<open>int\<close> parameter of \<^verbatim>\<open>sbrk\<close>.\<close>

definition morecore :: "(int \<Rightarrow> 's \<Rightarrow> nat option \<times> 's) \<Rightarrow> nat \<Rightarrow> uheap \<Rightarrow> 's \<Rightarrow> (nat \<times> uheap \<times> 's) option" where
  "morecore sbrk nu h s =
     (let nu = (if nu < 4096 then 4096 else nu) in
      case sbrk (sint (word_of_nat (nu * 16) :: uint)) s of
        (None, s) \<Rightarrow> Some (0, h, s)
      | (Some p, s) \<Rightarrow>
          let hp = p; h = set_size hp nu h in
          Option.bind (free (hp + 1) h) (\<lambda>h. Some (freep h, h, s)))"

partial_function (option) malloc_loop ::
  "(int \<Rightarrow> 's \<Rightarrow> nat option \<times> 's) \<Rightarrow> nat \<Rightarrow> nat \<Rightarrow> nat \<Rightarrow> uheap \<Rightarrow> 's \<Rightarrow> (nat \<times> uheap \<times> 's) option" where
  "malloc_loop sbrk nunits prevp p h s =
     (if s_size h p \<ge> nunits then
        if s_size h p = nunits then Some (p + 1, (set_ptr prevp (s_ptr h p) h)\<lparr>freep := prevp\<rparr>, s)
        else
          Some (p + (s_size h p - nunits) + 1,
            (set_size (p + (s_size h p - nunits)) nunits (set_size p (s_size h p - nunits) h))\<lparr>freep := prevp\<rparr>, s)
      else if p = freep h then
        Option.bind (morecore sbrk nunits h s) (\<lambda>(p, h, s).
          if p = 0 then Some (0, h, s) else malloc_loop sbrk nunits p (s_ptr h p) h s)
      else malloc_loop sbrk nunits p (s_ptr h p) h s)"

definition units :: "nat \<Rightarrow> nat" where
  "units nbytes = (nbytes + 16 - 1) div 16 + 1"

definition malloc :: "(int \<Rightarrow> 's \<Rightarrow> nat option \<times> 's) \<Rightarrow> nat \<Rightarrow> nat \<Rightarrow> uheap \<Rightarrow> 's \<Rightarrow> (nat \<times> uheap \<times> 's) option" where
  "malloc sbrk base nbytes h s =
     (let h = (if freep h = 0 then set_size base 0 (set_ptr base base h\<lparr>freep := base\<rparr>) else h)
      in malloc_loop sbrk (units nbytes) (freep h) (s_ptr h (freep h)) h s)"

section \<open>The free list\<close>

text \<open>A chain of headers that ends at a pointer to \<open>e\<close>.\<close>

fun chain :: "uheap \<Rightarrow> nat list \<Rightarrow> nat \<Rightarrow> bool" where
  "chain h [] e = True"
| "chain h (x # xs) e = (s_ptr h x = hd (xs @ [e]) \<and> chain h xs e)"

lemma chain_append: "chain h (xs @ ys) e \<longleftrightarrow> chain h xs (hd (ys @ [e])) \<and> chain h ys e"
  by (induction xs) (auto simp: hd_append)

lemma chain_cong: "(\<And>x. x \<in> set xs \<Longrightarrow> s_ptr h' x = s_ptr h x) \<Longrightarrow> chain h' xs e = chain h xs e"
  by (induction xs) auto

text \<open>
  The free list: a ring of headers in the order of their addresses, which starts at \<^verbatim>\<open>base\<close>. No two
  free blocks touch, \<^verbatim>\<open>base\<close> has no units, the others have some, and \<^verbatim>\<open>freep\<close> is one of them.
\<close>

definition apart_blocks :: "uheap \<Rightarrow> nat list \<Rightarrow> bool" where
  "apart_blocks h xs \<longleftrightarrow> sorted_wrt (\<lambda>x y. x + s_size h x < y) xs"

definition heap_ok :: "nat \<Rightarrow> uheap \<Rightarrow> nat list \<Rightarrow> bool" where
  "heap_ok base h xs \<longleftrightarrow> xs \<noteq> [] \<and> hd xs = base \<and> 0 < base \<and> chain h xs base \<and> apart_blocks h xs \<and>
     s_size h base = 0 \<and> (\<forall>x \<in> set (tl xs). 0 < s_size h x) \<and> freep h \<in> set xs"

definition free_units :: "uheap \<Rightarrow> nat list \<Rightarrow> nat set" where
  "free_units h xs = (\<Union>x \<in> set xs. {x..<x + s_size h x})"

lemma apart_sorted: "apart_blocks h xs \<Longrightarrow> sorted_wrt (<) xs"
  unfolding apart_blocks_def by (erule sorted_wrt_mono_rel [rotated]) simp

lemma search_suffix:
  assumes "chain h (zs @ [p]) n" "sorted_wrt (<) (zs @ [p])" "p < bp"
    and here: "free_search h bp p = Some p"
  shows "free_search h bp (hd (zs @ [p])) = Some p"
  using assms(1,2)
proof (induction zs)
  case Nil
  then show ?case using here by simp
next
  case (Cons z zs)
  have n: "s_ptr h z = hd (zs @ [p])" using Cons.prems(1) by (simp add: hd_append)
  have le: "hd (zs @ [p]) \<le> p" using Cons.prems(2) by (cases zs) auto
  have lt: "z < hd (zs @ [p])" using Cons.prems(2) by (cases zs) auto
  have "free_search h bp z = free_search h bp (hd (zs @ [p]))"
    using n le lt assms(3) by (subst free_search.simps) simp
  then show ?case using Cons by simp
qed

lemma search_wraps:
  assumes "chain h zs base" "sorted_wrt (<) zs" "zs \<noteq> []" "\<forall>z \<in> set zs. bp < z" "base < bp"
  shows "free_search h bp (hd zs) = free_search h bp base"
  using assms(1-4)
proof (induction zs)
  case (Cons z zs)
  show ?case
  proof (cases zs)
    case Nil
    then have "s_ptr h z = base" using Cons.prems(1) by simp
    then show ?thesis using Cons.prems(4) assms(5) by (subst free_search.simps) simp
  next
    case (Cons y ys)
    then have "s_ptr h z = y" "z < y" "bp < z" using Cons.prems by auto
    then have "free_search h bp z = free_search h bp y" by (subst free_search.simps) simp
    then show ?thesis using Cons.IH Cons.prems Cons by simp
  qed
qed simp

text \<open>From any block of the ring, the search ends at the last one below \<open>bp\<close>.\<close>

lemma free_search_finds:
  assumes ring: "chain h (as @ p # bs) base" "hd (as @ p # bs) = base" "sorted_wrt (<) (as @ p # bs)"
    and "p < bp" "\<forall>b \<in> set bs. bp < b" "x \<in> set (as @ p # bs)"
  shows "free_search h bp x = Some p"
proof -
  have base: "base \<le> p" using ring(2,3) by (cases as) (auto simp: sorted_wrt_append)
  have n: "s_ptr h p = hd (bs @ [base])" using ring(1) by (simp add: chain_append)
  have here: "free_search h bp p = Some p"
  proof (cases bs)
    case Nil
    then show ?thesis using n base assms(4) by (subst free_search.simps) simp
  next
    case (Cons b bs')
    then show ?thesis using n assms(4,5) by (subst free_search.simps) simp
  qed
  have before: "free_search h bp (hd (zs @ [p])) = Some p" if "as = ys @ zs" for ys zs
  proof (rule search_suffix [OF _ _ assms(4) here])
    show "chain h (zs @ [p]) (hd (bs @ [base]))" using ring(1) that by (auto simp: chain_append hd_append)
    show "sorted_wrt (<) (zs @ [p])" using ring(3) that by (auto simp: sorted_wrt_append)
  qed
  consider "x \<in> set as" | "x = p" | "x \<in> set bs" using assms(6) by auto
  then show ?thesis
  proof cases
    case 1
    then obtain ys zs where "as = ys @ x # zs" by (meson split_list)
    then show ?thesis using before [of ys "x # zs"] by simp
  next
    case 2
    with here show ?thesis by simp
  next
    case 3
    then obtain ys zs where z: "bs = ys @ x # zs" by (meson split_list)
    have "free_search h bp x = free_search h bp base"
      using search_wraps [of h "x # zs" base bp] ring(1,3) assms(4,5) base z by (auto simp: chain_append sorted_wrt_append)
    moreover have "free_search h bp base = Some p" using before [of "[]" as] ring(2) by (cases as) auto
    ultimately show ?thesis by simp
  qed
qed

lemma heap_simps [simp]:
  "s_ptr (set_ptr p v h) = (s_ptr h)(p := v)" "s_size (set_ptr p v h) = s_size h" "freep (set_ptr p v h) = freep h"
  "s_size (set_size p v h) = (s_size h)(p := v)" "s_ptr (set_size p v h) = s_ptr h" "freep (set_size p v h) = freep h"
  by (simp_all add: set_ptr_def set_size_def)

lemma apart_blocks_simps [simp]:
  "apart_blocks h []" "apart_blocks h (x # xs) \<longleftrightarrow> (\<forall>y \<in> set xs. x + s_size h x < y) \<and> apart_blocks h xs"
  "apart_blocks h (xs @ ys) \<longleftrightarrow> apart_blocks h xs \<and> apart_blocks h ys \<and> (\<forall>x \<in> set xs. \<forall>y \<in> set ys. x + s_size h x < y)"
  by (auto simp: apart_blocks_def sorted_wrt_append)

lemma apart_blocks_cong: "(\<And>x. x \<in> set xs \<Longrightarrow> s_size h' x = s_size h x) \<Longrightarrow> apart_blocks h' xs = apart_blocks h xs"
  by (induction xs) auto

lemma free_units_simps [simp]:
  "free_units h [] = {}" "free_units h (x # xs) = {x..<x + s_size h x} \<union> free_units h xs"
  "free_units h (xs @ ys) = free_units h xs \<union> free_units h ys"
  by (auto simp: free_units_def)

lemma free_units_cong: "(\<And>x. x \<in> set xs \<Longrightarrow> s_size h' x = s_size h x) \<Longrightarrow> free_units h' xs = free_units h xs"
  by (auto simp: free_units_def)

text \<open>The first half of \<^verbatim>\<open>free_link\<close>: the block points to what follows it, and takes it in if they touch.\<close>

definition join_next :: "uheap \<Rightarrow> nat \<Rightarrow> nat \<Rightarrow> uheap" where
  "join_next h bp n =
     (if bp + s_size h bp = n then set_ptr bp (s_ptr h n) (set_size bp (s_size h bp + s_size h n) h) else set_ptr bp n h)"

definition join_prev :: "uheap \<Rightarrow> nat \<Rightarrow> nat \<Rightarrow> uheap" where
  "join_prev h bp p =
     (if p + s_size h p = bp then set_ptr p (s_ptr h bp) (set_size p (s_size h p + s_size h bp) h) else set_ptr p bp h)"

lemma free_link_joins: "p \<noteq> bp \<Longrightarrow> free_link h bp p = (join_prev (join_next h bp (s_ptr h p)) bp p)\<lparr>freep := p\<rparr>"
  by (simp add: free_link_def join_next_def join_prev_def Let_def)

lemma join_next_ok:
  assumes "chain h bs base" "apart_blocks h bs" "\<forall>b \<in> set bs. bp + s_size h bp \<le> b" "0 < s_size h bp" "base < bp"
  obtains bs' sz where "set bs' \<subseteq> set bs"
    "s_ptr (join_next h bp (hd (bs @ [base]))) = (s_ptr h)(bp := hd (bs' @ [base]))"
    "s_size (join_next h bp (hd (bs @ [base]))) = (s_size h)(bp := sz)"
    "chain h bs' base" "apart_blocks h bs'" "\<forall>b \<in> set bs'. bp + sz < b" "s_size h bp \<le> sz"
    "{bp..<bp + sz} \<union> free_units h bs' = {bp..<bp + s_size h bp} \<union> free_units h bs"
proof (cases "bs \<noteq> [] \<and> bp + s_size h bp = hd bs")
  case True
  then obtain b bs' where b: "bs = b # bs'" "bp + s_size h bp = b" by (cases bs) auto
  have "{bp..<bp + (s_size h bp + s_size h b)} = {bp..<bp + s_size h bp} \<union> {b..<b + s_size h b}" using b by auto
  then show thesis using b assms by (intro that [of bs' "s_size h bp + s_size h b"]) (auto simp: join_next_def)
next
  case False
  have lt: "\<forall>b \<in> set bs. bp + s_size h bp < b"
  proof (cases bs)
    case (Cons b bs')
    then have "bp + s_size h bp < b" using False assms(3) by auto
    then show ?thesis using Cons assms(2) by auto
  qed simp
  have ne: "bp + s_size h bp \<noteq> hd (bs @ [base])" using False assms(5) by (cases bs) auto
  show thesis
    by (rule that [of bs "s_size h bp"]) (use lt ne assms in \<open>auto simp: join_next_def\<close>)
qed

lemma free_link_ok:
  assumes ok: "heap_ok base h (as @ p # bs)"
    and bp: "p + s_size h p \<le> bp" "\<forall>b \<in> set bs. bp + s_size h bp \<le> b" "0 < s_size h bp" "base < bp"
  obtains xs' where "heap_ok base (free_link h bp p) xs'"
    "free_units (free_link h bp p) xs' = free_units h (as @ p # bs) \<union> {bp..<bp + s_size h bp}"
    "\<exists>x \<in> set xs'. s_size h bp \<le> s_size (free_link h bp p) x"
proof -
  let ?xs = "as @ p # bs"
  have hd: "hd ?xs = base" "0 < base" "s_size h base = 0" and ch: "chain h ?xs base" and ap: "apart_blocks h ?xs"
    and pos: "\<forall>x \<in> set (tl ?xs). 0 < s_size h x"
    using ok by (auto simp: heap_ok_def)
  have chs: "chain h as p" "s_ptr h p = hd (bs @ [base])" "chain h bs base" using ch by (auto simp: chain_append)
  have pbp: "p < bp"
  proof (cases "p = base")
    case False
    then have "p \<in> set (tl ?xs)" using hd(1) by (cases as) auto
    then show ?thesis using pos bp(1) by fastforce
  qed (use bp(4) in simp)
  have lts: "\<forall>a \<in> set as. a + s_size h a < p \<and> a < bp" "\<forall>b \<in> set bs. bp < b" using ap pbp bp(2,3) by fastforce+
  then have notin: "bp \<notin> set ?xs" using pbp by auto
  obtain bs' sz where j: "set bs' \<subseteq> set bs"
    "s_ptr (join_next h bp (hd (bs @ [base]))) = (s_ptr h)(bp := hd (bs' @ [base]))"
    "s_size (join_next h bp (hd (bs @ [base]))) = (s_size h)(bp := sz)"
    "chain h bs' base" "apart_blocks h bs'" "\<forall>b \<in> set bs'. bp + sz < b" "s_size h bp \<le> sz"
    "{bp..<bp + sz} \<union> free_units h bs' = {bp..<bp + s_size h bp} \<union> free_units h bs"
    by (rule join_next_ok [of h bs base bp]) (use chs ap bp in auto)
  define g where "g = free_link h bp p"
  have pn: "p \<notin> set as" "p \<notin> set bs'" "bp \<notin> set as" "bp \<notin> set bs'" "p \<noteq> bp" "set as \<inter> set bs' = {}"
    using lts j(1) notin pbp ap by (auto simp: apart_blocks_def sorted_wrt_append) fastforce+
  have same: "chain g' as e = chain h as e" "chain g' bs' e = chain h bs' e"
    if "\<And>x. x \<noteq> p \<Longrightarrow> x \<noteq> bp \<Longrightarrow> s_ptr g' x = s_ptr h x" for g' e
    using that pn by (metis chain_cong)+
  have same2: "apart_blocks g' as = apart_blocks h as" "apart_blocks g' bs' = apart_blocks h bs'"
    "free_units g' as = free_units h as" "free_units g' bs' = free_units h bs'"
    if "\<And>x. x \<noteq> p \<Longrightarrow> x \<noteq> bp \<Longrightarrow> s_size g' x = s_size h x" for g'
    using that pn by (metis apart_blocks_cong free_units_cong)+
  have apas: "apart_blocks h as" "\<forall>a \<in> set as. \<forall>b \<in> set bs'. a + s_size h a < b" "\<forall>b \<in> set bs'. p + s_size h p < b" using ap j(1) by auto
  have hd': "hd (as @ p # zs) = base" for zs using hd(1) by (cases as) auto
  have pos': "\<forall>x \<in> set (tl (as @ p # zs)). x \<notin> set zs \<longrightarrow> x \<noteq> p \<longrightarrow> 0 < s_size h x" "\<forall>x \<in> set bs'. 0 < s_size h x" for zs
    using pos j(1) by (cases as; auto)+
  show thesis
  proof (cases "p + s_size h p = bp")
    case True
    have g: "s_ptr g = (s_ptr h)(bp := hd (bs' @ [base]), p := hd (bs' @ [base]))" "freep g = p"
      "s_size g = (s_size h)(bp := sz, p := s_size h p + sz)"
      using j(2,3) True pn(5) chs(2) by (simp_all add: g_def free_link_joins join_prev_def)
    have nb: "p \<noteq> base" using True bp(4) hd(3) by auto
    have "chain g (as @ p # bs') base" using same [of g] chs j(4) g by (simp add: chain_append)
    moreover have "apart_blocks g (as @ p # bs')"
      using same2(1,2) [of g] apas lts j(5,6) g pn True by auto
    moreover have "0 < s_size g x" if "x \<in> set (tl (as @ p # bs'))" for x
      using that pos'(1) [of bs'] pos'(2) g j(7) bp(3) pn by auto
    ultimately have "heap_ok base g (as @ p # bs')"
      using hd hd' [of bs'] g nb bp(4) by (simp add: heap_ok_def)
    moreover have "free_units g (as @ p # bs') = free_units h ?xs \<union> {bp..<bp + s_size h bp}"
    proof -
      have "{p..<p + s_size g p} = {p..<p + s_size h p} \<union> {bp..<bp + sz}" using True g by auto
      then show ?thesis using same2(3,4) [of g] g j(8) by auto
    qed
    ultimately show thesis using that [of "as @ p # bs'"] g j(7) by (simp add: g_def)
  next
    case False
    have g: "s_ptr g = (s_ptr h)(bp := hd (bs' @ [base]), p := bp)" "freep g = p" "s_size g = (s_size h)(bp := sz)"
      using j(2,3) False pn(5) chs(2) by (simp_all add: g_def free_link_joins join_prev_def)
    have "chain g (as @ p # bp # bs') base" using same [of g] chs j(4) g pn by (simp add: chain_append)
    moreover have "apart_blocks g (as @ p # bp # bs')"
      using same2(1,2) [of g] apas lts j(5,6) g pn False bp(1) by fastforce
    moreover have "0 < s_size g x" if "x \<in> set (tl (as @ p # bp # bs'))" for x
      using that pos'(2) g j(7) bp(3) pn pos by (cases as; auto)
    moreover have "s_size g base = 0" "freep g \<in> set (as @ p # bp # bs')" "as @ p # bp # bs' \<noteq> []" using g bp(4) hd(3) by simp_all
    ultimately have "heap_ok base g (as @ p # bp # bs')"
      unfolding heap_ok_def using hd(2) hd' [of "bp # bs'"] by blast
    moreover have "free_units g (as @ p # bp # bs') = free_units h ?xs \<union> {bp..<bp + s_size h bp}"
      using same2(3,4) [of g] g pn(5) j(8) by auto
    ultimately show thesis using that [of "as @ p # bp # bs'"] g j(7) by (simp add: g_def)
  qed
qed

lemma free_ok:
  assumes ok: "heap_ok base h xs" and bp: "base < bp" "0 < s_size h bp" "{bp..<bp + s_size h bp} \<inter> free_units h xs = {}"
  shows "\<exists>h' xs'. free (bp + 1) h = Some h' \<and> heap_ok base h' xs' \<and>
    free_units h' xs' = free_units h xs \<union> {bp..<bp + s_size h bp} \<and> (\<exists>x \<in> set xs'. s_size h bp \<le> s_size h' x)"
proof -
  have srt: "sorted_wrt (<) xs" using ok apart_sorted by (auto simp: heap_ok_def)
  have hd: "hd xs = base" "xs \<noteq> []" and pos: "\<forall>x \<in> set (tl xs). 0 < s_size h x" using ok by (auto simp: heap_ok_def)
  have un: "{x..<x + s_size h x} \<subseteq> free_units h xs" if "x \<in> set xs" for x using that by (auto simp: free_units_def)
  have posx: "0 < s_size h x" if "x \<in> set xs" "x \<noteq> base" for x using that pos hd by (cases xs) auto
  let ?ls = "takeWhile (\<lambda>x. x < bp) xs" and ?bs = "dropWhile (\<lambda>x. x < bp) xs"
  have "?ls \<noteq> []" using hd bp(1) by (cases xs) auto
  then obtain as p where ls: "?ls = as @ [p]" by (metis rev_exhaust)
  then have xs: "xs = as @ p # ?bs" using takeWhile_dropWhile_id [of "\<lambda>x. x < bp" xs] by simp
  have p: "p \<in> set xs" "p < bp" using ls set_takeWhileD [of p "\<lambda>x. x < bp" xs] by auto
  have ge: "bp \<le> b" if "b \<in> set ?bs" for b
  proof -
    have "?bs \<noteq> []" using that by (metis empty_iff empty_set)
    then have h: "\<not> hd ?bs < bp" by (rule hd_dropWhile)
    have "sorted_wrt (<) ?bs" using srt xs by (metis sorted_wrt_append sorted_wrt.simps(2))
    then have "hd ?bs \<le> b" using that by (cases ?bs) auto
    with h show ?thesis by simp
  qed
  have bs: "bp + s_size h bp \<le> b \<and> bp < b" if "b \<in> set ?bs" for b
  proof -
    have bx: "b \<in> set xs" using that by (auto dest: set_dropWhileD)
    have "b \<noteq> base" using ge [OF that] bp(1) by auto
    then have "b \<in> free_units h xs" using un [OF bx] posx [OF bx] by auto
    then have "b \<notin> {bp..<bp + s_size h bp}" using bp(3) by auto
    then show ?thesis using ge [OF that] bp(2) by auto
  qed
  have pe: "p + s_size h p \<le> bp"
  proof (rule ccontr)
    assume "\<not> ?thesis"
    then have "bp \<in> {p..<p + s_size h p}" using p by auto
    then have "bp \<in> free_units h xs" using un [OF p(1)] by blast
    moreover have "bp \<in> {bp..<bp + s_size h bp}" using bp(2) by simp
    ultimately show False using bp(3) by blast
  qed
  have "free_search h bp (freep h) = Some p"
    by (rule free_search_finds [of h as p ?bs base]) (use ok srt bs p xs in \<open>auto simp: heap_ok_def\<close>)
  then have f: "free (bp + 1) h = Some (free_link h bp p)" by (simp add: free_def)
  obtain xs' where "heap_ok base (free_link h bp p) xs'"
    "free_units (free_link h bp p) xs' = free_units h (as @ p # ?bs) \<union> {bp..<bp + s_size h bp}"
    "\<exists>x \<in> set xs'. s_size h bp \<le> s_size (free_link h bp p) x"
    by (rule free_link_ok [of base h as p ?bs bp]) (use ok xs pe bs bp in auto)
  then show ?thesis using f xs by metis
qed

section \<open>Taking a block\<close>

lemma take_exact:
  assumes "heap_ok base h (as @ q # p # bs)"
  defines "h' \<equiv> (set_ptr q (s_ptr h p) h)\<lparr>freep := q\<rparr>"
  shows "heap_ok base h' (as @ q # bs)" "free_units h' (as @ q # bs) = free_units h (as @ q # p # bs) - {p..<p + s_size h p}"
proof -
  have ap: "apart_blocks h (as @ q # p # bs)" and ch: "chain h (as @ q # p # bs) base" using assms(1) by (simp_all add: heap_ok_def)
  have q: "q \<notin> set as" "q \<notin> set bs" using ap by (auto dest!: apart_sorted simp: sorted_wrt_append)
  have "chain h' as e = chain h as e" "chain h' bs e = chain h bs e" for e using q by (auto simp: h'_def intro!: chain_cong)
  then have "chain h' (as @ q # bs) base" using ch by (simp add: chain_append h'_def)
  moreover have "apart_blocks h' xs = apart_blocks h xs" "free_units h' xs = free_units h xs" for xs
    by (auto simp: h'_def intro!: apart_blocks_cong free_units_cong)
  moreover have "hd (as @ q # bs) = base" "\<forall>x \<in> set (tl (as @ q # bs)). 0 < s_size h x"
    using assms(1) by (cases as; auto simp: heap_ok_def)+
  ultimately show "heap_ok base h' (as @ q # bs)" using assms(1) ap unfolding heap_ok_def by (auto simp: h'_def)
  have "x + s_size h x \<le> p" if "x \<in> set (as @ [q])" for x using ap that by auto
  moreover have "p + s_size h p \<le> x" if "x \<in> set bs" for x using ap that by auto
  ultimately have "{p..<p + s_size h p} \<inter> free_units h (as @ q # bs) = {}" by (fastforce simp: free_units_def)
  then show "free_units h' (as @ q # bs) = free_units h (as @ q # p # bs) - {p..<p + s_size h p}"
    unfolding \<open>\<And>xs. free_units h' xs = free_units h xs\<close> by auto
qed

lemma take_tail:
  assumes "heap_ok base h xs" "p \<in> set xs" "q \<in> set xs" "0 < n" "n < s_size h p"
  defines "r \<equiv> p + (s_size h p - n)"
  defines "h' \<equiv> (set_size r n (set_size p (s_size h p - n) h))\<lparr>freep := q\<rparr>"
  shows "heap_ok base h' xs" "free_units h' xs = free_units h xs - {r..<r + n}" "{r..<r + n} \<subseteq> free_units h xs" "s_size h' r = n"
proof -
  have ap: "apart_blocks h xs" using assms(1) by (simp add: heap_ok_def)
  obtain as bs where xs: "xs = as @ p # bs" using assms(2) by (meson split_list)
  have r: "p < r" "r + n = p + s_size h p" using assms(4,5) by (auto simp: r_def)
  have o: "x + s_size h x < p" if "x \<in> set as" for x using ap that xs by auto
  have o': "p + s_size h p < x" if "x \<in> set bs" for x using ap that xs by auto
  have rn: "r \<notin> set xs" using o o' r xs assms(4) by fastforce
  have sz: "s_size h' x = (if x = p then s_size h p - n else s_size h x)" if "x \<in> set xs" for x
    using that rn r by (auto simp: h'_def)
  have "sorted_wrt (\<lambda>x y. x + s_size h' x < y) xs"
    using ap unfolding apart_blocks_def
    by (rule sorted_wrt_mono_rel [rotated]) (auto simp: sz split: if_splits)
  then have "apart_blocks h' xs" by (simp add: apart_blocks_def)
  moreover have "chain h' xs base" using assms(1) chain_cong [of xs h' h base] by (simp add: heap_ok_def h'_def)
  moreover have "s_size h' base = 0" "\<forall>x \<in> set (tl xs). 0 < s_size h' x"
    using assms(1,5) sz by (auto simp: heap_ok_def dest: list.set_sel(2)) 
  ultimately show "heap_ok base h' xs" using assms(1,3) by (simp add: heap_ok_def h'_def)
  show "{r..<r + n} \<subseteq> free_units h xs" using r xs by auto
  show "s_size h' r = n" by (simp add: h'_def)
  have d: "{r..<r + n} \<inter> {x..<x + s_size h x} = {}" if "x \<in> set xs" "x \<noteq> p" for x
    using that o o' r xs by fastforce
  have e: "{x..<x + s_size h' x} = {x..<x + s_size h x} - {r..<r + n}" if "x \<in> set xs" for x
    using d [OF that] sz [OF that] r by (cases "x = p") auto
  show "free_units h' xs = free_units h xs - {r..<r + n}" using e by (auto simp: free_units_def)
qed


section \<open>The search\<close>

lemma walk_step:
  assumes "chain h (z # zs @ [freep h]) e" "freep h \<noteq> z" "\<not> n \<le> s_size h z"
  shows "malloc_loop sbrk n q z h s = malloc_loop sbrk n z (hd (zs @ [freep h])) h s"
  using assms by (subst malloc_loop.simps) (simp add: hd_append)

lemma walk_found:
  assumes "chain h (zs @ [freep h]) e" "s_ptr h q = hd (zs @ [freep h])" "freep h \<notin> set zs" "\<exists>y \<in> set (zs @ [freep h]). n \<le> s_size h y"
  shows "\<exists>q'. malloc_loop sbrk n q (hd (zs @ [freep h])) h s = malloc_loop sbrk n q' (s_ptr h q') h s \<and> n \<le> s_size h (s_ptr h q') \<and>
      q' \<in> insert q (set (zs @ [freep h])) \<and> s_ptr h q' \<in> set (zs @ [freep h])"
  using assms
proof (induction zs arbitrary: q)
  case Nil
  then show ?case by (intro exI [of _ q]) simp
next
  case (Cons z zs)
  show ?case
  proof (cases "n \<le> s_size h z")
    case True
    then show ?thesis using Cons.prems(2) by (intro exI [of _ q]) simp
  next
    case False
    have z: "chain h (zs @ [freep h]) e" "s_ptr h z = hd (zs @ [freep h])" using Cons.prems(1) by (simp_all add: hd_append)
    have "malloc_loop sbrk n q z h s = malloc_loop sbrk n z (hd (zs @ [freep h])) h s"
      using walk_step [of h z zs e n sbrk q s] Cons.prems(1,3) False by simp
    then show ?thesis using Cons.IH [OF z] Cons.prems(3,4) False by auto
  qed
qed

lemma walk_none:
  assumes "chain h (zs @ [freep h]) e" "freep h \<notin> set zs" "\<forall>y \<in> set (zs @ [freep h]). \<not> n \<le> s_size h y"
  shows "malloc_loop sbrk n q (hd (zs @ [freep h])) h s =
      Option.bind (morecore sbrk n h s) (\<lambda>(p, h, s). if p = 0 then Some (0, h, s) else malloc_loop sbrk n p (s_ptr h p) h s)"
  using assms
proof (induction zs arbitrary: q)
  case Nil
  then show ?case by (subst malloc_loop.simps) simp
next
  case (Cons z zs)
  then show ?case using walk_step [of h z zs e n sbrk q s] by (auto simp: hd_append)
qed

lemma loop_found:
  assumes ok: "heap_ok base h xs" and "0 < n" "q \<in> set xs" "p \<in> set xs" "s_ptr h q = p" "n \<le> s_size h p"
  shows "\<exists>r h' xs'. malloc_loop sbrk n q p h s = Some (r + 1, h', s) \<and> heap_ok base h' xs' \<and> s_size h' r = n \<and>
    {r..<r + n} \<subseteq> free_units h xs \<and> free_units h' xs' = free_units h xs - {r..<r + n}"
proof (cases "s_size h p = n")
  case False
  then have lt: "n < s_size h p" using assms(6) by simp
  note t = take_tail [OF ok assms(4,3,2) lt]
  have "malloc_loop sbrk n q p h s = Some (p + (s_size h p - n) + 1,
    (set_size (p + (s_size h p - n)) n (set_size p (s_size h p - n) h))\<lparr>freep := q\<rparr>, s)"
    using lt by (subst malloc_loop.simps) simp
  then show ?thesis using t by blast
next
  case True
  have pb: "p \<noteq> hd xs" using ok True assms(2) by (auto simp: heap_ok_def)
  obtain as rest where xs: "xs = as @ q # rest" using assms(3) by (meson split_list)
  have "rest \<noteq> []"
  proof
    assume "rest = []"
    then have "s_ptr h q = base" using ok xs by (auto simp: heap_ok_def chain_append)
    then show False using assms(5) pb ok by (auto simp: heap_ok_def)
  qed
  then obtain bs where xs: "xs = as @ q # p # bs" using xs ok assms(5) by (cases rest) (auto simp: heap_ok_def chain_append)
  note t = take_exact [OF ok [unfolded xs]]
  have "malloc_loop sbrk n q p h s = Some (p + 1, (set_ptr q (s_ptr h p) h)\<lparr>freep := q\<rparr>, s)"
    using True by (subst malloc_loop.simps) simp
  moreover have "{p..<p + n} \<subseteq> free_units h xs" using xs True by auto
  ultimately show ?thesis using t xs True by (intro exI [of _ p]) auto
qed

lemma ring_from_freep:
  assumes "heap_ok base h xs"
  obtains zs e where "chain h (zs @ [freep h]) e" "s_ptr h (freep h) = hd (zs @ [freep h])" "freep h \<notin> set zs" "set (zs @ [freep h]) = set xs"
proof -
  obtain as bs where xs: "xs = as @ freep h # bs" using assms unfolding heap_ok_def by (meson split_list)
  have ch: "chain h xs base" "hd xs = base" and ap: "sorted_wrt (<) xs" using assms apart_sorted by (auto simp: heap_ok_def)
  have "chain h ((bs @ as) @ [freep h]) (hd (bs @ [base]))"
    using ch xs by (cases as) (auto simp: chain_append hd_append)
  moreover have "s_ptr h (freep h) = hd ((bs @ as) @ [freep h])"
    using ch xs by (cases as) (auto simp: chain_append hd_append)
  moreover have "freep h \<notin> set (bs @ as)" using ap xs by (auto simp: sorted_wrt_append)
  ultimately show thesis using that [of "bs @ as" "hd (bs @ [base])"] xs by auto
qed

lemma loop_ring_found:
  assumes "heap_ok base h xs" "0 < n" "\<exists>x \<in> set xs. n \<le> s_size h x"
  shows "\<exists>r h' xs'. malloc_loop sbrk n (freep h) (s_ptr h (freep h)) h s = Some (r + 1, h', s) \<and> heap_ok base h' xs' \<and> s_size h' r = n \<and>
    {r..<r + n} \<subseteq> free_units h xs \<and> free_units h' xs' = free_units h xs - {r..<r + n}"
proof -
  obtain zs e where z: "chain h (zs @ [freep h]) e" "s_ptr h (freep h) = hd (zs @ [freep h])" "freep h \<notin> set zs" "set (zs @ [freep h]) = set xs"
    by (rule ring_from_freep [OF assms(1)])
  have ring: "freep h \<in> set xs" using assms(1) by (simp add: heap_ok_def)
  have "\<exists>q. malloc_loop sbrk n (freep h) (s_ptr h (freep h)) h s = malloc_loop sbrk n q (s_ptr h q) h s \<and> n \<le> s_size h (s_ptr h q) \<and>
      q \<in> set xs \<and> s_ptr h q \<in> set xs"
    using walk_found [OF z(1-3), of n sbrk s] assms(3) ring unfolding z(2) [symmetric] z(4) by (auto simp: insert_absorb)
  then obtain q where w: "malloc_loop sbrk n (freep h) (s_ptr h (freep h)) h s = malloc_loop sbrk n q (s_ptr h q) h s"
    "n \<le> s_size h (s_ptr h q)" "q \<in> set xs" "s_ptr h q \<in> set xs" by blast
  show ?thesis unfolding w(1) by (rule loop_found [OF assms(1,2) w(3,4) refl w(2)])
qed

section \<open>Every request is served from fresh units or fails\<close>

text \<open>
  The free units of a heap: none before the first call of \<^verbatim>\<open>malloc\<close>, the units of the free list after it.
\<close>

definition heap_state :: "nat \<Rightarrow> uheap \<Rightarrow> nat set \<Rightarrow> bool" where
  "heap_state base h F \<longleftrightarrow> 0 < base \<and> (freep h = 0 \<and> F = {} \<or> (\<exists>xs. heap_ok base h xs \<and> F = free_units h xs))"

text \<open>
  What \<^verbatim>\<open>malloc\<close> relies on: a positive multiple of the size of a header moves the break, which \<open>brk\<close> reads off the
  state, up by as many units and returns the old break, or the call fails and the break stays.
\<close>

definition sbrk_grows :: "('s \<Rightarrow> nat) \<Rightarrow> (int \<Rightarrow> 's \<Rightarrow> nat option \<times> 's) \<Rightarrow> bool" where
  "sbrk_grows brk sbrk \<longleftrightarrow> (\<forall>n s. 0 < n \<longrightarrow>
     (case sbrk (int n * 16) s of
        (None, s') \<Rightarrow> brk s' = brk s
      | (Some p, s') \<Rightarrow> p = brk s \<and> brk s' = brk s + n))"

lemma morecore_ok:
  assumes ok: "heap_ok base h xs" and brk: "sbrk_grows brk sbrk" "base < brk s" "free_units h xs \<subseteq> {..<brk s}"
    and n: "0 < n" "max n 4096 * 16 < 2 ^ 31"
  shows "(\<exists>s'. morecore sbrk n h s = Some (0, h, s') \<and> brk s' = brk s) \<or>
    (\<exists>h' xs' s'. morecore sbrk n h s = Some (freep h', h', s') \<and> heap_ok base h' xs' \<and> brk s \<le> brk s' \<and>
       free_units h' xs' = free_units h xs \<union> {brk s..<brk s'} \<and> (\<exists>x \<in> set xs'. n \<le> s_size h' x))"
proof -
  let ?nu = "max n 4096"
  have w: "sint (word_of_nat (?nu * 16) :: uint) = int ?nu * 16"
    using n(2) unfolding signed_of_nat by (subst signed_take_bit_int_eq_self) auto
  have nu: "(if n < 4096 then 4096 else n) = ?nu" by simp
  obtain r s' where r: "sbrk (int ?nu * 16) s = (r, s')" by fastforce
  show ?thesis
  proof (cases r)
    case None
    then have "morecore sbrk n h s = Some (0, h, s')" unfolding morecore_def nu Let_def w r by simp
    moreover have "brk s' = brk s" using brk(1) r None n unfolding sbrk_grows_def by (auto dest!: spec [of _ ?nu] spec [of _ s])
    ultimately show ?thesis by blast
  next
    case (Some p)
    then have p: "p = brk s" "brk s' = brk s + ?nu"
      using brk(1) r n unfolding sbrk_grows_def by (auto dest!: spec [of _ ?nu] spec [of _ s])
    let ?h = "set_size p ?nu h"
    have fresh: "p \<notin> set xs"
    proof
      assume "p \<in> set xs"
      moreover have "p \<noteq> hd xs" using ok brk(2) p by (auto simp: heap_ok_def)
      ultimately have "p \<in> set xs" "0 < s_size h p" using ok by (cases xs; auto simp: heap_ok_def)+
      then have "p \<in> free_units h xs" unfolding free_units_def by force
      then show False using brk(3) p by auto
    qed
    have same: "s_size ?h x = s_size h x" if "x \<in> set xs" for x using that fresh by (auto simp: set_size_def)
    have ok': "heap_ok base ?h xs" using ok same fresh apart_blocks_cong [of xs ?h h] chain_cong [of xs ?h h base]
      by (auto simp: heap_ok_def set_size_def dest: list.set_sel(2))
    have fu: "free_units ?h xs = free_units h xs" using same by (rule free_units_cong)
    have "s_size ?h p = ?nu" by (simp add: set_size_def)
    then obtain h' xs' where f: "free (p + 1) ?h = Some h'" "heap_ok base h' xs'"
      "free_units h' xs' = free_units h xs \<union> {p..<p + ?nu}" "\<exists>x \<in> set xs'. ?nu \<le> s_size h' x"
      using free_ok [OF ok', of p] brk(2,3) p fu n by fastforce
    have "morecore sbrk n h s = Some (freep h', h', s')" unfolding morecore_def nu Let_def w r using Some f(1) by simp
    moreover have "\<exists>x \<in> set xs'. n \<le> s_size h' x" using f(4) by auto
    ultimately show ?thesis using f p by (intro disjI2 exI [of _ h'] exI [of _ xs'] exI [of _ s']) simp
  qed
qed

lemma malloc_ring:
  assumes ok: "heap_ok base h xs" and brk: "sbrk_grows brk sbrk" "base < brk s" "free_units h xs \<subseteq> {..<brk s}"
    and n: "0 < n" "max n 4096 * 16 < 2 ^ 31"
  shows "\<exists>r h' xs' s'. malloc_loop sbrk n (freep h) (s_ptr h (freep h)) h s = Some (r, h', s') \<and> heap_ok base h' xs' \<and> brk s \<le> brk s' \<and>
    (if r = 0 then free_units h' xs' = free_units h xs \<and> brk s' = brk s \<and> (\<forall>x \<in> set xs. s_size h x < n)
     else s_size h' (r - 1) = n \<and> {r - 1..<r - 1 + n} \<subseteq> free_units h xs \<union> {brk s..<brk s'} \<and>
       free_units h' xs' = (free_units h xs \<union> {brk s..<brk s'}) - {r - 1..<r - 1 + n})"
proof (cases "\<exists>x \<in> set xs. n \<le> s_size h x")
  case True
  then obtain r h' xs' where "malloc_loop sbrk n (freep h) (s_ptr h (freep h)) h s = Some (r + 1, h', s)" "heap_ok base h' xs'"
    "s_size h' r = n" "{r..<r + n} \<subseteq> free_units h xs" "free_units h' xs' = free_units h xs - {r..<r + n}"
    using loop_ring_found [OF ok n(1), of sbrk s] by blast
  then show ?thesis by (intro exI [of _ "r + 1"] exI [of _ h'] exI [of _ xs'] exI [of _ s]) simp
next
  case False
  obtain zs e where z: "chain h (zs @ [freep h]) e" "s_ptr h (freep h) = hd (zs @ [freep h])" "freep h \<notin> set zs" "set (zs @ [freep h]) = set xs"
    by (rule ring_from_freep [OF ok])
  have w: "malloc_loop sbrk n (freep h) (s_ptr h (freep h)) h s =
      Option.bind (morecore sbrk n h s) (\<lambda>(p, h, s). if p = 0 then Some (0, h, s) else malloc_loop sbrk n p (s_ptr h p) h s)"
    unfolding z(2) by (rule walk_none [OF z(1,3)]) (use False z(4) in simp)
  from morecore_ok [OF assms] show ?thesis
  proof (elim disjE exE conjE)
    fix s' assume "morecore sbrk n h s = Some (0, h, s')" "brk s' = brk s"
    then show ?thesis using ok False unfolding w by (intro exI [of _ 0] exI [of _ h] exI [of _ xs] exI [of _ s']) (auto simp: not_le)
  next
    fix h1 xs1 s' assume m: "morecore sbrk n h s = Some (freep h1, h1, s')" and ok1: "heap_ok base h1 xs1" and le: "brk s \<le> brk s'"
      and fu: "free_units h1 xs1 = free_units h xs \<union> {brk s..<brk s'}" and ex: "\<exists>x \<in> set xs1. n \<le> s_size h1 x"
    have "freep h1 \<noteq> 0" using ok1 apart_sorted [of h1 xs1] by (cases xs1) (auto simp: heap_ok_def)
    then have w: "malloc_loop sbrk n (freep h) (s_ptr h (freep h)) h s = malloc_loop sbrk n (freep h1) (s_ptr h1 (freep h1)) h1 s'"
      unfolding w m by simp
    obtain r h' xs' where "malloc_loop sbrk n (freep h1) (s_ptr h1 (freep h1)) h1 s' = Some (r + 1, h', s')" "heap_ok base h' xs'"
      "s_size h' r = n" "{r..<r + n} \<subseteq> free_units h1 xs1" "free_units h' xs' = free_units h1 xs1 - {r..<r + n}"
      using loop_ring_found [OF ok1 n(1) ex, of sbrk s'] by blast
    then show ?thesis using fu le unfolding w by (intro exI [of _ "r + 1"] exI [of _ h'] exI [of _ xs'] exI [of _ s']) simp
  qed
qed

lemma free_units_above: "heap_ok base h xs \<Longrightarrow> x \<in> free_units h xs \<Longrightarrow> base < x"
  by (cases xs) (auto simp: heap_ok_def apart_blocks_def free_units_def)

lemma free_in_use:
  assumes "heap_ok base h xs" "base < brk" "0 < n" "s_size h p = n" "{p..<p + n} \<subseteq> G" "free_units h xs = G - {p..<p + n}" "\<forall>x \<in> G. base < x"
  shows "\<exists>h'. free (p + 1) h = Some h' \<and> heap_state base h' G"
proof -
  have "p \<in> G" using assms(3,5) by auto
  then have "base < p" using assms(7) by blast
  then obtain h' xs' where "free (p + 1) h = Some h'" "heap_ok base h' xs'" "free_units h' xs' = free_units h xs \<union> {p..<p + n}"
    using free_ok [OF assms(1), of p] assms(3,4,6) by auto
  moreover have "free_units h xs \<union> {p..<p + n} = G" using assms(5,6) by auto
  ultimately show ?thesis using assms(1) unfolding heap_state_def by (metis heap_ok_def)
qed


text \<open>A break that moves up to a limit, and the first request of a program.\<close>

definition limit_sbrk :: "nat \<Rightarrow> int \<Rightarrow> nat \<Rightarrow> nat option \<times> nat" where
  "limit_sbrk m n b = (if b + nat (n div 16) \<le> m then (Some b, b + nat (n div 16)) else (None, b))"

lemma limit_sbrk_grows: "sbrk_grows id (limit_sbrk m)"
  by (simp add: sbrk_grows_def limit_sbrk_def)


text \<open>A request of four gigabytes less a header needs so many units that the \<^verbatim>\<open>int\<close> that reaches \<^verbatim>\<open>sbrk\<close> is 0.\<close>

lemma morecore_wraps:
  "morecore sbrk (units (2 ^ 32 - 16)) h s =
     (case sbrk 0 s of
        (None, s) \<Rightarrow> Some (0, h, s)
      | (Some p, s) \<Rightarrow> Option.bind (free (p + 1) (set_size p (2 ^ 28) h)) (\<lambda>h. Some (freep h, h, s)))"
proof -
  have u: "units (2 ^ 32 - 16) = 2 ^ 28" by (simp add: units_def)
  have "sint (word_of_nat (2 ^ 28 * 16) :: uint) = 0" by simp
  then show ?thesis unfolding u morecore_def Let_def by simp
qed

end
