(* ===== verification/Sleepwake.thy ===== *)
theory Sleepwake
  imports Proc Transition
begin

text \<open>
  Sleep and wakeup on several CPUs: \<^verbatim>\<open>acquiresleep()\<close> and \<^verbatim>\<open>releasesleep()\<close> of
  \<^verbatim>\<open>kernel/sleeplock.c\<close> with the \<^verbatim>\<open>sleep()\<close> and \<^verbatim>\<open>wakeup()\<close> of \<^verbatim>\<open>kernel/proc.c\<close> that they call, as the
  steps that the processes interleave. Every call of \<^verbatim>\<open>acquire()\<close> and every call of \<^verbatim>\<open>release()\<close> is a
  step, so that a \<^verbatim>\<open>wakeup()\<close> can come between any two lines of \<^verbatim>\<open>sleep()\<close> that the locks do not protect.
  The state is one sleep lock, the spin lock in it, the spin locks of the processes, the process table
  and where each process is in the code.
\<close>

text \<open>
  The places of a process: outside with or without the lock; \<^verbatim>\<open>acquiresleep\<close>, with the body of \<^verbatim>\<open>sleep\<close> in
  it; \<^verbatim>\<open>releasesleep\<close>, with the loop of \<^verbatim>\<open>wakeup\<close> in it at the entry \<open>k\<close> of the table, before and after it
  has the lock of that entry.
\<close>

datatype place =
    Outside | Acq_lk | Acq_test | Acq_rel
  | Sleep_acq | Sleep_rel | Sleep_set | Sleep_sched | Asleep | Sleep_resume
  | Holder | Rel_lk | Rel_set | Wake_scan nat | Wake_at nat | Rel_rel

record sw =
  ks :: kproc
  slk :: sleeplock
  lk :: "nat option"
  plock :: "nat \<Rightarrow> nat option"
  pc :: "nat \<Rightarrow> place"

definition goto :: "nat \<Rightarrow> place \<Rightarrow> sw \<Rightarrow> sw" where
  "goto i p s = s\<lparr>pc := (pc s)(i := p)\<rparr>"

definition lock_proc :: "nat \<Rightarrow> nat \<Rightarrow> sw \<Rightarrow> sw" where
  "lock_proc k i s = s\<lparr>plock := (plock s)(k := Some i)\<rparr>"

definition unlock_proc :: "nat \<Rightarrow> sw \<Rightarrow> sw" where
  "unlock_proc k s = s\<lparr>plock := (plock s)(k := None)\<rparr>"

definition on_proc :: "nat \<Rightarrow> (proc \<Rightarrow> proc) \<Rightarrow> sw \<Rightarrow> sw" where
  "on_proc k f s = s\<lparr>ks := upd_proc k f (ks s)\<rparr>"

text \<open>
  One step of process \<open>i\<close> on its way through the two operations. The lock of a process that sleeps is released by the
  scheduler after the switch, and taken by it before the switch back.
\<close>

inductive sw_step :: "chan \<Rightarrow> nat \<Rightarrow> sw \<Rightarrow> sw \<Rightarrow> bool" for ch i where
  acq_lk: "pc s i = Acq_lk \<Longrightarrow> lk s = None \<Longrightarrow> sw_step ch i s (goto i Acq_test (s\<lparr>lk := Some i\<rparr>))"
| acq_wait: "pc s i = Acq_test \<Longrightarrow> sl_locked (slk s) \<Longrightarrow> sw_step ch i s (goto i Sleep_acq s)"
| acq_take: "pc s i = Acq_test \<Longrightarrow> \<not> sl_locked (slk s) \<Longrightarrow>
    sw_step ch i s (goto i Acq_rel (s\<lparr>slk := (slk s)\<lparr>sl_locked := True, sl_pid := p_pid (procs (ks s) ! i)\<rparr>\<rparr>))"
| acq_rel: "pc s i = Acq_rel \<Longrightarrow> sw_step ch i s (goto i Holder (s\<lparr>lk := None\<rparr>))"
| sleep_acq: "pc s i = Sleep_acq \<Longrightarrow> plock s i = None \<Longrightarrow> sw_step ch i s (goto i Sleep_rel (lock_proc i i s))"
| sleep_rel: "pc s i = Sleep_rel \<Longrightarrow> sw_step ch i s (goto i Sleep_set (s\<lparr>lk := None\<rparr>))"
| sleep_set: "pc s i = Sleep_set \<Longrightarrow>
    sw_step ch i s (goto i Sleep_sched (on_proc i (\<lambda>p. p\<lparr>p_chan := Some ch, p_state := SLEEPING\<rparr>) s))"
| sleep_sched: "pc s i = Sleep_sched \<Longrightarrow> sw_step ch i s (goto i Asleep (unlock_proc i s))"
| scheduled: "pc s i = Asleep \<Longrightarrow> plock s i = None \<Longrightarrow> p_state (procs (ks s) ! i) = RUNNABLE \<Longrightarrow>
    sw_step ch i s (goto i Sleep_resume (lock_proc i i (on_proc i (\<lambda>p. p\<lparr>p_state := RUNNING\<rparr>) s)))"
| sleep_resume: "pc s i = Sleep_resume \<Longrightarrow>
    sw_step ch i s (goto i Acq_lk (unlock_proc i (on_proc i (\<lambda>p. p\<lparr>p_chan := None\<rparr>) s)))"
| rel_lk: "pc s i = Rel_lk \<Longrightarrow> lk s = None \<Longrightarrow> sw_step ch i s (goto i Rel_set (s\<lparr>lk := Some i\<rparr>))"
| rel_set: "pc s i = Rel_set \<Longrightarrow>
    sw_step ch i s (goto i (Wake_scan 0) (s\<lparr>slk := (slk s)\<lparr>sl_locked := False, sl_pid := 0\<rparr>\<rparr>))"
| wake_self: "pc s i = Wake_scan i \<Longrightarrow> i < NPROC \<Longrightarrow> sw_step ch i s (goto i (Wake_scan (i + 1)) s)"
| wake_acq: "pc s i = Wake_scan k \<Longrightarrow> k < NPROC \<Longrightarrow> k \<noteq> i \<Longrightarrow> plock s k = None \<Longrightarrow>
    sw_step ch i s (goto i (Wake_at k) (lock_proc k i s))"
| wake_at: "pc s i = Wake_at k \<Longrightarrow>
    sw_step ch i s (goto i (Wake_scan (k + 1)) (unlock_proc k (on_proc k (wake_proc ch (Some i) k) s)))"
| wake_end: "pc s i = Wake_scan NPROC \<Longrightarrow> sw_step ch i s (goto i Rel_rel s)"
| rel_rel: "pc s i = Rel_rel \<Longrightarrow> sw_step ch i s (goto i Outside (s\<lparr>lk := None\<rparr>))"

text \<open>
  What happens to the lock from outside: a process calls \<^verbatim>\<open>acquiresleep\<close>, the holder calls \<^verbatim>\<open>releasesleep\<close>, and
  \<^verbatim>\<open>kill()\<close> makes a sleeping process runnable.
\<close>

inductive sw_call :: "sw \<Rightarrow> sw \<Rightarrow> bool" where
  call_acquire: "pc s i = Outside \<Longrightarrow> i < NPROC \<Longrightarrow> sw_call s (goto i Acq_lk s)"
| call_release: "pc s i = Holder \<Longrightarrow> sw_call s (goto i Rel_lk s)"
| call_kill: "plock s k = None \<Longrightarrow> k < NPROC \<Longrightarrow>
    sw_call s (on_proc k (\<lambda>p. if p_state p = SLEEPING then p\<lparr>p_killed := True, p_state := RUNNABLE\<rparr> else p\<lparr>p_killed := True\<rparr>) s)"

definition sw_start :: "sw \<Rightarrow> bool" where
  "sw_start s \<longleftrightarrow> length (procs (ks s)) = NPROC \<and> \<not> sl_locked (slk s) \<and> lk s = None \<and> (\<forall>k. plock s k = None) \<and> (\<forall>i. pc s i = Outside)"

definition sw_inner :: "chan \<Rightarrow> sw \<Rightarrow> sw \<Rightarrow> bool" where
  "sw_inner ch s s' \<longleftrightarrow> (\<exists>i. sw_step ch i s s')"

definition sw_trans :: "chan \<Rightarrow> sw \<Rightarrow> sw \<Rightarrow> bool" where
  "sw_trans ch s s' \<longleftrightarrow> sw_inner ch s s' \<or> sw_call s s'"

definition sw_reach :: "chan \<Rightarrow> sw \<Rightarrow> bool" where
  "sw_reach ch s \<longleftrightarrow> (\<exists>s0. sw_start s0 \<and> (sw_trans ch)\<^sup>*\<^sup>* s0 s)"

lemma sw_reach_start: "sw_start s \<Longrightarrow> sw_reach ch s"
  by (auto simp: sw_reach_def)

lemma sw_reach_step: "sw_reach ch s \<Longrightarrow> sw_step ch i s s' \<Longrightarrow> sw_reach ch s'"
  unfolding sw_reach_def sw_trans_def sw_inner_def by (blast intro: rtranclp.rtrancl_into_rtrancl)

lemma sw_reach_call: "sw_reach ch s \<Longrightarrow> sw_call s s' \<Longrightarrow> sw_reach ch s'"
  unfolding sw_reach_def sw_trans_def by (blast intro: rtranclp.rtrancl_into_rtrancl)

section \<open>The invariant\<close>

fun has_lk :: "place \<Rightarrow> bool" where
  "has_lk Acq_test = True"
| "has_lk Acq_rel = True"
| "has_lk Sleep_acq = True"
| "has_lk Sleep_rel = True"
| "has_lk Rel_set = True"
| "has_lk (Wake_scan _) = True"
| "has_lk (Wake_at _) = True"
| "has_lk Rel_rel = True"
| "has_lk _ = False"

fun has_sleeplock :: "place \<Rightarrow> bool" where
  "has_sleeplock Acq_rel = True"
| "has_sleeplock Holder = True"
| "has_sleeplock Rel_lk = True"
| "has_sleeplock Rel_set = True"
| "has_sleeplock _ = False"

fun has_own :: "place \<Rightarrow> bool" where
  "has_own Sleep_rel = True"
| "has_own Sleep_set = True"
| "has_own Sleep_sched = True"
| "has_own Sleep_resume = True"
| "has_own _ = False"

definition has_plock :: "place \<Rightarrow> nat \<Rightarrow> nat \<Rightarrow> bool" where
  "has_plock p i k \<longleftrightarrow> k = i \<and> has_own p \<or> p = Wake_at k"

lemma has_plock_simps [simp]:
  "has_plock (Wake_at k) i k' \<longleftrightarrow> k' = k"
  "(\<And>k. p \<noteq> Wake_at k) \<Longrightarrow> has_plock p i k' \<longleftrightarrow> k' = i \<and> has_own p"
  by (auto simp: has_plock_def)

text \<open>Who has the spin locks.\<close>

definition lk_inv :: "sw \<Rightarrow> bool" where
  "lk_inv s \<longleftrightarrow> (\<forall>i. has_lk (pc s i) \<longleftrightarrow> lk s = Some i)"

definition plock_inv :: "sw \<Rightarrow> bool" where
  "plock_inv s \<longleftrightarrow> (\<forall>k i. plock s k = Some i \<longleftrightarrow> has_plock (pc s i) i k)"

definition bound_inv :: "sw \<Rightarrow> bool" where
  "bound_inv s \<longleftrightarrow> length (procs (ks s)) = NPROC \<and>
     (\<forall>i. (pc s i \<noteq> Outside \<longrightarrow> i < NPROC) \<and> (\<forall>k. pc s i = Wake_scan k \<longrightarrow> k \<le> NPROC) \<and> (\<forall>k. pc s i = Wake_at k \<longrightarrow> k < NPROC \<and> k \<noteq> i))"

definition owner_inv :: "sw \<Rightarrow> bool" where
  "owner_inv s \<longleftrightarrow> (\<forall>i j. has_sleeplock (pc s i) \<longrightarrow> has_sleeplock (pc s j) \<longrightarrow> i = j) \<and>
     (sl_locked (slk s) \<longleftrightarrow> (\<exists>i. has_sleeplock (pc s i)))"

lemmas sw_defs = goto_def lock_proc_def unlock_proc_def on_proc_def upd_proc_def

lemma bound_step: "sw_step ch i s s' \<Longrightarrow> bound_inv s \<Longrightarrow> bound_inv s'"
  by (erule sw_step.cases) (auto simp: bound_inv_def sw_defs Suc_le_eq simp del: NPROC_def)

text \<open>What a step does to each lock, and from which place to which.\<close>

lemma step_goto:
  assumes "sw_step ch i s s'"
  shows "pc s' = (pc s)(i := pc s' i)"
  using assms by (cases rule: sw_step.cases) (simp_all add: sw_defs)

lemma step_lk:
  assumes "sw_step ch i s s'"
  shows "lk s' = lk s \<and> has_lk (pc s' i) = has_lk (pc s i) \<or> lk s = None \<and> lk s' = Some i \<and> has_lk (pc s' i) \<or>
    has_lk (pc s i) \<and> lk s' = None \<and> \<not> has_lk (pc s' i)"
  using assms by (cases rule: sw_step.cases) (simp_all add: sw_defs)

lemma lk_step: 
  assumes "sw_step ch i s s'" "lk_inv s"
  shows "lk_inv s'"
proof -
  have "pc s' j = pc s j" if "j \<noteq> i" for j using step_goto [OF assms(1)] that by (metis fun_upd_other)
  then show ?thesis using step_lk [OF assms(1)] assms(2) unfolding lk_inv_def by (metis option.inject option.distinct(1))
qed

lemma step_plock:
  assumes "sw_step ch i s s'"
  shows "plock s' = plock s \<and> has_plock (pc s' i) i = has_plock (pc s i) i \<or>
    (\<exists>k. plock s k = None \<and> plock s' = (plock s)(k := Some i) \<and> has_plock (pc s' i) i = (\<lambda>k'. k' = k) \<and> has_plock (pc s i) i = (\<lambda>k'. False)) \<or>
    (\<exists>k. plock s' = (plock s)(k := None) \<and> has_plock (pc s i) i = (\<lambda>k'. k' = k) \<and> has_plock (pc s' i) i = (\<lambda>k'. False))"
  using assms by (cases rule: sw_step.cases) (auto simp: sw_defs fun_eq_iff)

lemma plock_step:
  assumes "sw_step ch i s s'" "plock_inv s"
  shows "plock_inv s'"
proof -
  have o: "pc s' j = pc s j" if "j \<noteq> i" for j using step_goto [OF assms(1)] that by (metis fun_upd_other)
  have inv: "plock s k = Some j \<longleftrightarrow> has_plock (pc s j) j k" for k j using assms(2) by (simp add: plock_inv_def)
  have "plock s' k = Some j \<longleftrightarrow> has_plock (pc s' j) j k" for k j
    using step_plock [OF assms(1)]
  proof (elim disjE exE conjE)
    assume "plock s' = plock s" "has_plock (pc s' i) i = has_plock (pc s i) i"
    then show ?thesis using o [of j] inv [of k j] by (cases "j = i") simp_all
  next
    fix l assume "plock s l = None" "plock s' = (plock s)(l := Some i)" "has_plock (pc s' i) i = (\<lambda>k'. k' = l)" "has_plock (pc s i) i = (\<lambda>k'. False)"
    then show ?thesis using o [of j] inv [of k j] inv [of l j] by (cases "j = i") auto
  next
    fix l assume "plock s' = (plock s)(l := None)" "has_plock (pc s i) i = (\<lambda>k'. k' = l)" "has_plock (pc s' i) i = (\<lambda>k'. False)"
    then show ?thesis using o [of j] inv [of k j] inv [of l i] by (cases "j = i") auto
  qed
  then show ?thesis by (simp add: plock_inv_def)
qed

lemma step_owner:
  assumes "sw_step ch i s s'"
  shows "sl_locked (slk s') = sl_locked (slk s) \<and> has_sleeplock (pc s' i) = has_sleeplock (pc s i) \<or>
    \<not> sl_locked (slk s) \<and> sl_locked (slk s') \<and> has_sleeplock (pc s' i) \<or>
    has_sleeplock (pc s i) \<and> \<not> sl_locked (slk s') \<and> \<not> has_sleeplock (pc s' i)"
  using assms by (cases rule: sw_step.cases) (simp_all add: sw_defs)

lemma owner_step:
  assumes "sw_step ch i s s'" "owner_inv s"
  shows "owner_inv s'"
proof -
  have "pc s' j = pc s j" if "j \<noteq> i" for j using step_goto [OF assms(1)] that by (metis fun_upd_other)
  then show ?thesis using step_owner [OF assms(1)] assms(2) unfolding owner_inv_def by metis
qed

text \<open>
  A process that has found the lock taken keeps it from being given up until it has its own lock. From then on, until it is
  runnable again, either the sleep lock is taken or a \<^verbatim>\<open>wakeup\<close> is on its way to it.
\<close>

definition on_its_way :: "nat \<Rightarrow> sw \<Rightarrow> bool" where
  "on_its_way i s \<longleftrightarrow> (\<exists>w k. k \<le> i \<and> (pc s w = Wake_scan k \<or> pc s w = Wake_at k))"

definition waits :: "nat \<Rightarrow> sw \<Rightarrow> bool" where
  "waits i s \<longleftrightarrow> pc s i = Sleep_set \<or> pc s i = Sleep_sched \<or> pc s i = Asleep \<and> p_state (procs (ks s) ! i) = SLEEPING"

definition wait_inv :: "sw \<Rightarrow> bool" where
  "wait_inv s \<longleftrightarrow> (\<forall>i. (pc s i = Sleep_acq \<or> pc s i = Sleep_rel \<longrightarrow> sl_locked (slk s)) \<and>
     (waits i s \<longrightarrow> sl_locked (slk s) \<or> on_its_way i s))"

definition chan_inv :: "chan \<Rightarrow> sw \<Rightarrow> bool" where
  "chan_inv ch s \<longleftrightarrow> (\<forall>i. (pc s i = Sleep_sched \<longrightarrow> p_state (procs (ks s) ! i) = SLEEPING) \<and>
     (pc s i = Sleep_sched \<or> pc s i = Asleep \<longrightarrow> p_chan (procs (ks s) ! i) = Some ch) \<and>
     (pc s i = Asleep \<longrightarrow> p_state (procs (ks s) ! i) = SLEEPING \<or> p_state (procs (ks s) ! i) = RUNNABLE))"

definition pid_inv :: "sw \<Rightarrow> bool" where
  "pid_inv s \<longleftrightarrow> (\<forall>i. has_sleeplock (pc s i) \<longrightarrow> sl_pid (slk s) = p_pid (procs (ks s) ! i))"

lemma pids_step: "sw_step ch i s s' \<Longrightarrow> bound_inv s \<Longrightarrow> j < NPROC \<Longrightarrow> p_pid (procs (ks s') ! j) = p_pid (procs (ks s) ! j)"
  by (cases rule: sw_step.cases) (auto simp: sw_defs bound_inv_def wake_proc_def nth_list_update)

lemma step_pid:
  assumes "sw_step ch i s s'"
  shows "slk s' = slk s \<and> has_sleeplock (pc s' i) = has_sleeplock (pc s i) \<or>
    \<not> sl_locked (slk s) \<and> sl_pid (slk s') = p_pid (procs (ks s) ! i) \<or> has_sleeplock (pc s i) \<and> \<not> has_sleeplock (pc s' i)"
  using assms by (cases rule: sw_step.cases) (simp_all add: sw_defs)

lemma pid_step:
  assumes st: "sw_step ch i s s'" and inv: "bound_inv s" "owner_inv s" "pid_inv s"
  shows "pid_inv s'"
  unfolding pid_inv_def
proof (intro allI impI)
  fix j assume j: "has_sleeplock (pc s' j)"
  have b: "bound_inv s'" "owner_inv s'" using st inv bound_step owner_step by blast+
  have lt: "j < NPROC" using b j by (cases "pc s' j") (auto simp: bound_inv_def simp del: NPROC_def)
  have o: "pc s' j = pc s j" if "j \<noteq> i" using step_goto [OF st] that by (metis fun_upd_other)
  have "sl_pid (slk s') = p_pid (procs (ks s) ! j)"
    using step_pid [OF st] o j inv unfolding pid_inv_def owner_inv_def by metis
  then show "sl_pid (slk s') = p_pid (procs (ks s') ! j)" using pids_step [OF st inv(1) lt] by simp
qed

lemma chan_step:
  assumes st: "sw_step ch i s s'" and inv: "bound_inv s" "plock_inv s" "chan_inv ch s"
  shows "chan_inv ch s'"
proof -
  have own: "plock s j = Some j" if "pc s j = Sleep_sched" for j using inv(2) that by (simp add: plock_inv_def)
  have at: "plock s k = Some w" if "pc s w = Wake_at k" for w k using inv(2) that by (simp add: plock_inv_def)
  have lt: "j < length (procs (ks s))" if "pc s j \<noteq> Outside" for j using inv(1) that by (auto simp: bound_inv_def)
  show ?thesis using st
  proof (cases rule: sw_step.cases)
    case (wake_at k)
    have "pc s k \<noteq> Sleep_sched" using own [of k] at [of i k] wake_at by auto
    moreover have "k < length (procs (ks s))" using inv(1) wake_at by (auto simp: bound_inv_def)
    ultimately show ?thesis using wake_at inv(3) lt by (auto simp: chan_inv_def sw_defs nth_list_update wake_proc_def)
  qed (use inv(3) lt in \<open>auto simp: chan_inv_def sw_defs nth_list_update\<close>)
qed

lemma way_keep:
  assumes "sw_step ch i s s'" "on_its_way j s" "\<And>k. pc s i \<noteq> Wake_scan k \<and> pc s i \<noteq> Wake_at k"
  shows "on_its_way j s'"
  using assms(2,3) step_goto [OF assms(1)] unfolding on_its_way_def by (metis fun_upd_other)

lemma way_moved:
  assumes "lk_inv s" "on_its_way j s" "has_lk (pc s i)"
    and "\<And>k. k \<le> j \<Longrightarrow> pc s i = Wake_scan k \<or> pc s i = Wake_at k \<Longrightarrow> \<exists>k' \<le> j. pc s' i = Wake_scan k' \<or> pc s' i = Wake_at k'"
  shows "on_its_way j s'"
proof -
  have "w = i" if "has_lk (pc s w)" for w using assms(1,3) that unfolding lk_inv_def by (metis option.inject)
  then show ?thesis using assms(2,4) unfolding on_its_way_def by (metis has_lk.simps(6,7))
qed

lemma wait_keep:
  assumes "wait_inv s" "sl_locked (slk s) \<Longrightarrow> sl_locked (slk s')" "\<And>j. pc s' j = Sleep_acq \<or> pc s' j = Sleep_rel \<Longrightarrow> sl_locked (slk s')"
    "\<And>j. waits j s' \<Longrightarrow> \<not> sl_locked (slk s') \<Longrightarrow> waits j s" "\<And>j. waits j s' \<Longrightarrow> on_its_way j s \<Longrightarrow> on_its_way j s'"
  shows "wait_inv s'"
  using assms unfolding wait_inv_def by blast

text \<open>The loop of \<^verbatim>\<open>wakeup\<close> passes an entry only when the process there no longer waits.\<close>

lemma wait_scan:
  assumes st: "sw_step ch i s s'" and inv: "bound_inv s" "lk_inv s" "wait_inv s" and scan: "pc s i = Wake_scan k"
  shows "wait_inv s'"
proof (rule wait_keep [OF inv(3)])
  have lt: "j < NPROC" if "pc s j \<noteq> Outside" for j using inv(1) that by (auto simp: bound_inv_def simp del: NPROC_def)
  have w1: "sl_locked (slk s)" if "pc s j = Sleep_acq \<or> pc s j = Sleep_rel" for j using inv(3) that by (auto simp: wait_inv_def)
  have same: "slk s' = slk s" "ks s' = ks s" using st scan by (cases rule: sw_step.cases; simp add: sw_defs)+
  have i: "pc s' i = Wake_scan (k + 1) \<and> k = i \<or> pc s' i = Wake_at k \<or> pc s' i = Rel_rel \<and> k = NPROC"
    using st scan by (cases rule: sw_step.cases) (auto simp: sw_defs)
  have o: "pc s' j = pc s j" if "j \<noteq> i" for j using step_goto [OF st] that by (metis fun_upd_other)
  show "sl_locked (slk s')" if "sl_locked (slk s)" using that same by simp
  show "sl_locked (slk s')" if "pc s' j = Sleep_acq \<or> pc s' j = Sleep_rel" for j using that w1 o i same by (cases "j = i") auto
  show w: "waits j s" if "waits j s'" for j using that o [of j] i same by (cases "j = i") (auto simp: waits_def)
  fix j assume wj: "waits j s'" and way: "on_its_way j s"
  have "j \<noteq> i" "pc s j \<noteq> Outside" using w [OF wj] scan by (auto simp: waits_def)
  then have j: "j \<noteq> i" "j < NPROC" using lt by auto
  show "on_its_way j s'"
  proof (rule way_moved [OF inv(2) way])
    show "\<exists>k' \<le> j. pc s' i = Wake_scan k' \<or> pc s' i = Wake_at k'" if "l \<le> j" "pc s i = Wake_scan l \<or> pc s i = Wake_at l" for l
    proof -
      have "k \<le> j" using that scan by auto
      then show ?thesis using i j by (auto simp: Suc_le_eq le_less simp del: NPROC_def)
    qed
  qed (use scan in simp)
qed

lemma wait_at:
  assumes st: "sw_step ch i s s'" and inv: "bound_inv s" "lk_inv s" "plock_inv s" "chan_inv ch s" "wait_inv s" and at: "pc s i = Wake_at k"
  shows "wait_inv s'"
proof (rule wait_keep [OF inv(5)])
  have s': "s' = goto i (Wake_scan (k + 1)) (unlock_proc k (on_proc k (wake_proc ch (Some i) k) s))"
    using st at by (cases rule: sw_step.cases) auto
  have w1: "sl_locked (slk s)" if "pc s j = Sleep_acq \<or> pc s j = Sleep_rel" for j using inv(5) that by (auto simp: wait_inv_def)
  have k: "k < length (procs (ks s))" "k \<noteq> i" using inv(1) at by (auto simp: bound_inv_def)
  have "plock s k = Some i" using inv(3) at by (simp add: plock_inv_def)
  then have pk: "pc s k \<noteq> Sleep_set" "pc s k \<noteq> Sleep_sched" using inv(3) k(2) unfolding plock_inv_def
    by (metis has_own.simps has_plock_def option.inject)+
  have nw: "\<not> waits k s'" using pk inv(4) k by (auto simp: s' waits_def sw_defs wake_proc_def chan_inv_def)
  show "sl_locked (slk s')" if "sl_locked (slk s)" using that by (simp add: s' sw_defs)
  show "sl_locked (slk s')" if "pc s' j = Sleep_acq \<or> pc s' j = Sleep_rel" for j using that w1 by (auto simp: s' sw_defs split: if_splits)
  show "waits j s" if "waits j s'" for j using that k by (auto simp: s' waits_def sw_defs wake_proc_def nth_list_update split: if_splits)
  fix j assume wj: "waits j s'" and way: "on_its_way j s"
  have "j \<noteq> k" using wj nw by auto
  show "on_its_way j s'"
  proof (rule way_moved [OF inv(2) way])
    show "\<exists>k' \<le> j. pc s' i = Wake_scan k' \<or> pc s' i = Wake_at k'" if "l \<le> j" "pc s i = Wake_scan l \<or> pc s i = Wake_at l" for l
      using that at \<open>j \<noteq> k\<close> by (auto simp: s' sw_defs intro!: exI [of _ "Suc k"])
  qed (use at in simp)
qed

lemma wait_step:
  assumes st: "sw_step ch i s s'" and inv: "bound_inv s" "lk_inv s" "plock_inv s" "chan_inv ch s" "wait_inv s"
  shows "wait_inv s'"
proof -
  have lt: "j < NPROC" if "pc s j \<noteq> Outside" for j using inv(1) that by (auto simp: bound_inv_def simp del: NPROC_def)
  have len: "length (procs (ks s)) = NPROC" using inv(1) by (simp add: bound_inv_def)
  have o: "pc s' j = pc s j" if "j \<noteq> i" for j using step_goto [OF st] that by (metis fun_upd_other)
  have w1: "sl_locked (slk s)" if "pc s j = Sleep_acq \<or> pc s j = Sleep_rel" for j using inv(5) that by (auto simp: wait_inv_def)
  note way = way_keep [OF st] and keep = wait_keep [OF inv(5)]
  show ?thesis using st
  proof (cases rule: sw_step.cases)
    case rel_set
    have "w = i" if "has_lk (pc s w)" for w using inv(2) that rel_set unfolding lk_inv_def by (metis has_lk.simps(5) option.inject)
    then have "pc s j \<noteq> Sleep_acq \<and> pc s j \<noteq> Sleep_rel" for j using rel_set by (metis has_lk.simps(3,4) place.distinct)
    moreover have "on_its_way j s'" for j using rel_set by (auto simp: on_its_way_def sw_defs)
    ultimately show ?thesis using rel_set o by (auto simp: wait_inv_def sw_defs)
  next
    case wake_self
    then show ?thesis using wait_scan [OF st inv(1,2,5)] by blast
  next
    case wake_acq
    then show ?thesis using wait_scan [OF st inv(1,2,5)] by blast
  next
    case wake_end
    then show ?thesis using wait_scan [OF st inv(1,2,5)] by blast
  next
    case wake_at
    then show ?thesis using wait_at [OF st inv] by blast
  next
    case sleep_rel
    show ?thesis by (rule keep) (use sleep_rel w1 [of i] way in \<open>auto simp: waits_def sw_defs split: if_splits\<close>)
  qed (rule keep; use w1 way len lt in \<open>auto simp: waits_def sw_defs nth_list_update split: if_splits\<close>)+
qed

section \<open>Every reachable state\<close>

definition sw_inv :: "chan \<Rightarrow> sw \<Rightarrow> bool" where
  "sw_inv ch s \<longleftrightarrow> bound_inv s \<and> lk_inv s \<and> plock_inv s \<and> owner_inv s \<and> pid_inv s \<and> chan_inv ch s \<and> wait_inv s"

lemma sw_inv_step: "sw_step ch i s s' \<Longrightarrow> sw_inv ch s \<Longrightarrow> sw_inv ch s'"
  by (simp add: sw_inv_def bound_step lk_step plock_step owner_step pid_step chan_step wait_step)

lemma sw_inv_enter:
  assumes inv: "sw_inv ch s" and i: "i < NPROC" and pq: "pc s i = Outside \<and> q = Acq_lk \<or> pc s i = Holder \<and> q = Rel_lk"
  shows "sw_inv ch (goto i q s)"
proof -
  let ?s = "goto i q s"
  have pc: "pc ?s j = (if j = i then q else pc s j)" and r: "ks ?s = ks s" "lk ?s = lk s" "plock ?s = plock s" "slk ?s = slk s" for j
    by (simp_all add: goto_def)
  have b: "has_lk (pc ?s j) = has_lk (pc s j)" "has_plock (pc ?s j) j = has_plock (pc s j) j" "has_sleeplock (pc ?s j) = has_sleeplock (pc s j)" for j
    using pq by (auto simp: pc fun_eq_iff)
  have w: "pc ?s j = x \<longleftrightarrow> pc s j = x" if "x \<notin> {Outside, Holder, Acq_lk, Rel_lk}" for j x using pq that by (auto simp: pc)
  have "waits j ?s = waits j s" "on_its_way j ?s = on_its_way j s" for j by (simp_all add: waits_def on_its_way_def w r)
  then have "wait_inv ?s" using inv by (simp add: sw_inv_def wait_inv_def w r)
  moreover have "bound_inv ?s" using inv i pq by (auto simp: sw_inv_def bound_inv_def r pc simp del: NPROC_def)
  ultimately show ?thesis using inv
    by (simp add: sw_inv_def pid_inv_def chan_inv_def lk_inv_def plock_inv_def owner_inv_def b w r)
qed

lemma sw_inv_call:
  assumes "sw_call s s'" "sw_inv ch s"
  shows "sw_inv ch s'"
  using assms(1)
proof (cases rule: sw_call.cases)
  case (call_kill k)
  then have pc: "pc s' = pc s" "lk s' = lk s" "plock s' = plock s" "slk s' = slk s" by (simp_all add: on_proc_def)
  have k: "pc s k \<noteq> Sleep_sched" using call_kill assms(2) unfolding sw_inv_def plock_inv_def by (metis has_own.simps(3) has_plock_def option.distinct(1))
  have len: "length (procs (ks s)) = NPROC" using assms(2) by (simp add: sw_inv_def bound_inv_def)
  have nth: "procs (ks s') ! j = (if j = k then (if p_state (procs (ks s) ! k) = SLEEPING then (procs (ks s) ! k)\<lparr>p_killed := True, p_state := RUNNABLE\<rparr>
      else (procs (ks s) ! k)\<lparr>p_killed := True\<rparr>) else procs (ks s) ! j)" for j
    using call_kill len by (simp add: sw_defs)
  have "waits j s" if "waits j s'" for j using that k by (auto simp: waits_def pc nth split: if_splits)
  then have "wait_inv s'" using assms(2) by (auto simp: sw_inv_def wait_inv_def on_its_way_def pc)
  moreover have "chan_inv ch s'" using assms(2) k by (auto simp: sw_inv_def chan_inv_def pc nth)
  moreover have "bound_inv s'" using assms(2) call_kill by (auto simp: sw_inv_def bound_inv_def sw_defs simp del: NPROC_def)
  ultimately show ?thesis using assms(2) by (auto simp: sw_inv_def lk_inv_def plock_inv_def owner_inv_def pid_inv_def pc nth)
next
  case (call_acquire i)
  then show ?thesis using sw_inv_enter [OF assms(2)] by blast
next
  case (call_release i)
  then have "i < NPROC" using assms(2) by (auto simp: sw_inv_def bound_inv_def simp del: NPROC_def)
  then show ?thesis using sw_inv_enter [OF assms(2)] call_release by blast
qed

lemma sw_inv_start: "sw_start s \<Longrightarrow> sw_inv ch s"
  by (simp add: sw_start_def sw_inv_def bound_inv_def lk_inv_def plock_inv_def owner_inv_def pid_inv_def chan_inv_def wait_inv_def waits_def)

section \<open>Progress\<close>

definition can_step :: "chan \<Rightarrow> sw \<Rightarrow> bool" where
  "can_step ch s \<longleftrightarrow> (\<exists>i s'. sw_step ch i s s')"

lemma can_stepI: "sw_step ch i s s' \<Longrightarrow> can_step ch s"
  by (auto simp: can_step_def)

lemmas can_step = sw_step.intros [THEN can_stepI]

lemma enabled_lk:
  assumes inv: "sw_inv ch s" and lk: "lk s = Some w"
  shows "can_step ch s"
proof -
  have l: "has_lk (pc s w)" using inv lk by (simp add: sw_inv_def lk_inv_def)
  have only: "x = w" if "has_lk (pc s x)" for x using inv lk that by (auto simp: sw_inv_def lk_inv_def)
  have pl: "can_step ch s" if "plock s k = Some x" "x \<noteq> w" for k x
  proof -
    have "has_plock (pc s x) x k" using inv that by (simp add: sw_inv_def plock_inv_def)
    then have "has_own (pc s x) \<or> pc s x = Wake_at k" by (auto simp: has_plock_def)
    then show ?thesis using only [of x] that by (cases "pc s x") (auto intro: can_step)
  qed
  show ?thesis
  proof (cases "pc s w")
    case Sleep_acq
    have "plock s w \<noteq> Some w" using inv Sleep_acq by (simp add: sw_inv_def plock_inv_def)
    then show ?thesis using pl Sleep_acq by (cases "plock s w") (auto intro: can_step)
  next
    case (Wake_scan k)
    have b: "k \<le> NPROC" "w < NPROC" using inv Wake_scan by (auto simp: sw_inv_def bound_inv_def simp del: NPROC_def)
    have "plock s k \<noteq> Some w" using inv Wake_scan by (simp add: sw_inv_def plock_inv_def)
    then consider "k = NPROC" | "k = w" | "k < NPROC" "k \<noteq> w" "plock s k = None" | x where "plock s k = Some x" "x \<noteq> w"
      using b by (cases "plock s k") (auto simp: le_less simp del: NPROC_def)
    then show ?thesis using Wake_scan b pl by cases (blast intro: can_step)+
  qed (use l in \<open>auto intro: can_step\<close>)
qed

lemma stuck_places:
  assumes inv: "sw_inv ch s" and stuck: "\<not> can_step ch s"
  shows "pc s i = Outside \<or> pc s i = Holder \<or> pc s i = Asleep \<and> p_state (procs (ks s) ! i) = SLEEPING"
proof -
  have lk: "lk s = None" using enabled_lk [OF inv] stuck by (cases "lk s") auto
  have nl: "\<not> has_lk (pc s x)" for x using inv lk by (simp add: sw_inv_def lk_inv_def)
  have places: "pc s x = Outside \<or> pc s x = Holder \<or> pc s x = Asleep" for x
    using stuck nl [of x] lk by (cases "pc s x") (auto intro: can_step)
  have "plock s k = None" for k
  proof (rule ccontr)
    assume "plock s k \<noteq> None"
    then obtain x where "has_plock (pc s x) x k" using inv by (auto simp: sw_inv_def plock_inv_def)
    then show False using places [of x] by auto
  qed
  then have "p_state (procs (ks s) ! i) \<noteq> RUNNABLE" if "pc s i = Asleep" using that stuck by (auto intro: can_step)
  then show ?thesis using places [of i] inv by (auto simp: sw_inv_def chan_inv_def)
qed

lemma stuck_behind_holder:
  assumes inv: "sw_inv ch s" and stuck: "\<not> can_step ch s" and "pc s i = Asleep"
  shows "\<exists>h. pc s h = Holder"
proof -
  have "\<not> on_its_way i s"
  proof
    assume "on_its_way i s"
    then obtain w k where "pc s w = Wake_scan k \<or> pc s w = Wake_at k" by (auto simp: on_its_way_def)
    then show False using stuck_places [OF inv stuck, of w] by auto
  qed
  moreover have "waits i s" using stuck_places [OF inv stuck, of i] assms(3) by (simp add: waits_def)
  ultimately have "sl_locked (slk s)" using inv by (auto simp: sw_inv_def wait_inv_def)
  then obtain h where "has_sleeplock (pc s h)" using inv by (auto simp: sw_inv_def owner_inv_def)
  then show ?thesis using stuck_places [OF inv stuck, of h] by auto
qed

text \<open>
  The steps a process can still take before it is outside, has the lock or sleeps, where the loop of \<^verbatim>\<open>wakeup\<close> also pays for the
  processes that it has still to wake.
\<close>

fun rank :: "place \<Rightarrow> bool \<Rightarrow> nat" where
  "rank Outside _ = 0"
| "rank Holder _ = 0"
| "rank Asleep runnable = (if runnable then 8 else 0)"
| "rank Sleep_sched _ = 1"
| "rank Sleep_set _ = 2"
| "rank Sleep_rel _ = 3"
| "rank Sleep_acq _ = 4"
| "rank Acq_rel _ = 1"
| "rank Acq_test _ = 5"
| "rank Acq_lk _ = 6"
| "rank Sleep_resume _ = 7"
| "rank Rel_rel _ = 1"
| "rank (Wake_scan k) _ = 2 + 10 * (NPROC - k)"
| "rank (Wake_at k) _ = 1 + 10 * (NPROC - k)"
| "rank Rel_set _ = 3 + 10 * NPROC"
| "rank Rel_lk _ = 4 + 10 * NPROC"

definition rank_of :: "sw \<Rightarrow> nat \<Rightarrow> nat" where
  "rank_of s i = rank (pc s i) (p_state (procs (ks s) ! i) = RUNNABLE)"

definition steps_left :: "sw \<Rightarrow> nat" where
  "steps_left s = (\<Sum>i<NPROC. rank_of s i)"

lemma rank_step:
  assumes st: "sw_step ch i s s'" and inv: "bound_inv s" and chan: "chan_inv ch s"
  shows "(\<forall>j. j \<noteq> i \<longrightarrow> rank_of s' j = rank_of s j) \<and> rank_of s' i < rank_of s i \<or>
    (\<exists>k < NPROC. k \<noteq> i \<and> (\<forall>j. j \<noteq> i \<longrightarrow> j \<noteq> k \<longrightarrow> rank_of s' j = rank_of s j) \<and> rank_of s' k \<le> rank_of s k + 8 \<and> rank_of s' i + 9 \<le> rank_of s i)"
proof -
  have len: "length (procs (ks s)) = NPROC" and lt: "i < NPROC" if "pc s i \<noteq> Outside" using inv that by (auto simp: bound_inv_def simp del: NPROC_def)
  show ?thesis using st
  proof (cases rule: sw_step.cases)
    case (wake_at k)
    have k: "k < NPROC" "k \<noteq> i" using inv wake_at by (auto simp: bound_inv_def simp del: NPROC_def)
    have "rank_of s' k \<le> rank_of s k + 8" using wake_at k by (cases "pc s k") (auto simp: rank_of_def sw_defs)
    moreover have "rank_of s' i + 9 \<le> rank_of s i" using wake_at k by (auto simp: rank_of_def sw_defs)
    moreover have "\<forall>j. j \<noteq> i \<longrightarrow> j \<noteq> k \<longrightarrow> rank_of s' j = rank_of s j" using wake_at by (auto simp: rank_of_def sw_defs)
    ultimately show ?thesis using k by blast
  next
    case sleep_sched
    then show ?thesis using chan by (auto simp: rank_of_def sw_defs chan_inv_def)
  qed (rule disjI1, use len lt in \<open>auto simp: rank_of_def sw_defs simp del: NPROC_def\<close>)+
qed

lemma sum_two:
  fixes f g :: "nat \<Rightarrow> nat"
  assumes "i < n" "k < n" "k \<noteq> i" "\<And>j. j \<noteq> i \<Longrightarrow> j \<noteq> k \<Longrightarrow> f j = g j" "f i + f k < g i + g k"
  shows "(\<Sum>j<n. f j) < (\<Sum>j<n. g j)"
proof -
  have n: "{..<n} = insert i (insert k ({..<n} - {i, k}))" using assms by auto
  have "sum f ({..<n} - {i, k}) = sum g ({..<n} - {i, k})" by (rule sum.cong) (use assms(4) in auto)
  then show ?thesis using assms(3,5) by (subst (1 2) n) simp
qed

lemma steps_left_step:
  assumes st: "sw_step ch i s s'" and inv: "bound_inv s" "chan_inv ch s"
  shows "steps_left s' < steps_left s"
proof -
  have "pc s i \<noteq> Outside" using st by (cases rule: sw_step.cases) auto
  then have i: "i < NPROC" using inv by (auto simp: bound_inv_def simp del: NPROC_def)
  from rank_step [OF assms] show ?thesis unfolding steps_left_def
  proof (elim disjE exE conjE)
    assume "\<forall>j. j \<noteq> i \<longrightarrow> rank_of s' j = rank_of s j" "rank_of s' i < rank_of s i"
    then show "(\<Sum>i<NPROC. rank_of s' i) < (\<Sum>i<NPROC. rank_of s i)"
      using i by (intro sum_strict_mono_ex1) (auto simp del: NPROC_def, metis less_imp_le order_refl)
  next
    fix k assume "k < NPROC" "k \<noteq> i" "\<forall>j. j \<noteq> i \<longrightarrow> j \<noteq> k \<longrightarrow> rank_of s' j = rank_of s j" "rank_of s' k \<le> rank_of s k + 8" "rank_of s' i + 9 \<le> rank_of s i"
    then show "(\<Sum>i<NPROC. rank_of s' i) < (\<Sum>i<NPROC. rank_of s i)" using i by (intro sum_two [of i _ k]) auto
  qed
qed

interpretation sleeplocks: ranked_system sw_start "sw_trans ch" "sw_inv ch" "sw_inner ch" steps_left for ch
proof
  show "sw_inv ch s'" if "sw_trans ch s s'" "sw_inv ch s" for s s'
    using that sw_inv_step sw_inv_call unfolding sw_trans_def sw_inner_def by blast
  show "steps_left s' < steps_left s" if "sw_inner ch s s'" "sw_inv ch s" for s s'
    using that steps_left_step unfolding sw_inner_def sw_inv_def by blast
qed (simp_all add: sw_inv_start sw_trans_def)

lemma sw_reach_inv: "sw_reach ch s \<Longrightarrow> sw_inv ch s"
  unfolding sw_reach_def using sleeplocks.reachable_inv by blast

lemma steps_left_le: "bound_inv s \<Longrightarrow> steps_left s \<le> NPROC * (4 + 10 * NPROC)"
proof -
  have "rank p b \<le> 4 + 10 * NPROC" for p b by (cases p) auto
  then have "(\<Sum>i<NPROC. rank_of s i) \<le> of_nat (card {..<NPROC}) * (4 + 10 * NPROC)" by (intro sum_bounded_above) (simp add: rank_of_def)
  then show ?thesis by (simp add: steps_left_def)
qed

text \<open>C33: A sleep lock has at most one holder, whose pid it records, and no wakeup is lost: when a process is on its way to sleep or
  asleep for a lock that is free, some \<^verbatim>\<open>releasesleep\<close> is in \<^verbatim>\<open>wakeup\<close> and has not yet passed its entry of the table. This
  holds in every interleaving, also when \<^verbatim>\<open>releasesleep\<close> runs between the test of the lock and the switch to the scheduler.
\<close>

theorem sleeplock_no_lost_wakeup:
  assumes "sw_reach ch s"
  shows "(\<forall>i j. has_sleeplock (pc s i) \<longrightarrow> has_sleeplock (pc s j) \<longrightarrow> i = j) \<and>
    (\<forall>i. has_sleeplock (pc s i) \<longrightarrow> sl_locked (slk s) \<and> sl_pid (slk s) = p_pid (procs (ks s) ! i)) \<and>
    (\<forall>i. waits i s \<and> \<not> sl_locked (slk s) \<longrightarrow> on_its_way i s)"
proof -
  have inv: "sw_inv ch s" by (rule sw_reach_inv [OF assms])
  then have own: "owner_inv s" and "pid_inv s" "wait_inv s" by (simp_all add: sw_inv_def)
  then show ?thesis unfolding owner_inv_def pid_inv_def wait_inv_def by (intro conjI) blast+
qed

text \<open>C34: The processes cannot block each other for ever. From every reachable state every run of steps inside the two operations
  is finite, of at most \<open>NPROC * (4 + 10 * NPROC)\<close> steps, and where it can go no further every process is outside, has the lock,
  or sleeps while another process has the lock. So a process that waits for a lock that its holder gives up gets on.
\<close>

theorem sleeplock_progress:
  assumes "sw_reach ch s" "(sw_inner ch ^^ n) s s'"
  shows "n \<le> NPROC * (4 + 10 * NPROC) \<and>
    (\<not> (\<exists>t. sw_inner ch s' t) \<longrightarrow>
      (\<forall>i. pc s' i = Outside \<or> pc s' i = Holder \<or>
         pc s' i = Asleep \<and> p_state (procs (ks s') ! i) = SLEEPING \<and> (\<exists>h. pc s' h = Holder)))"
proof -
  have inv: "sw_inv ch s" by (rule sw_reach_inv [OF assms(1)])
  have r: "sw_inv ch s'" "n + steps_left s' \<le> steps_left s" using sleeplocks.inner_run [OF assms(2) inv] by simp_all
  moreover have "steps_left s \<le> NPROC * (4 + 10 * NPROC)" using inv by (intro steps_left_le) (simp add: sw_inv_def)
  ultimately show ?thesis using stuck_places [OF r(1)] stuck_behind_holder [OF r(1)] unfolding can_step_def sw_inner_def
    by (simp del: NPROC_def) blast
qed

section \<open>A wakeup that comes before the sleep\<close>

text \<open>
  Process 0 takes the lock. Process 1 finds it taken, takes its own lock and gives up the lock's spin lock; before it has marked
  itself as sleeping, process 0 releases the sleep lock and starts to look for sleepers.
\<close>

definition demo_sw :: "sleeplock \<Rightarrow> nat option \<Rightarrow> (nat \<Rightarrow> nat option) \<Rightarrow> (nat \<Rightarrow> place) \<Rightarrow> sw" where
  "demo_sw l k pl ps = \<lparr>ks = \<lparr>mem = \<lambda>_. 0, freelist = 0, kend = 0, procs = replicate NPROC (blank_proc\<lparr>p_state := RUNNING, p_pid := 1\<rparr>), cpu_proc = None, nextpid = 2,
     initproc = None, kernel_pagetable = 0\<rparr>, slk = l, lk = k, plock = pl, pc = ps\<rparr>"

abbreviation demo_taken :: sleeplock where
  "demo_taken \<equiv> \<lparr>sl_locked = True, sl_pid = 1\<rparr>"

lemma demo_simps:
  "pc (demo_sw l k pl ps) = ps" "lk (demo_sw l k pl ps) = k" "plock (demo_sw l k pl ps) = pl" "slk (demo_sw l k pl ps) = l"
  "goto i p (demo_sw l k pl ps) = demo_sw l k pl (ps(i := p))" "(demo_sw l k pl ps)\<lparr>lk := k'\<rparr> = demo_sw l k' pl ps"
  "(demo_sw l k pl ps)\<lparr>slk := l'\<rparr> = demo_sw l' k pl ps" "lock_proc m i (demo_sw l k pl ps) = demo_sw l k (pl(m := Some i)) ps"
  "i < NPROC \<Longrightarrow> p_pid (procs (ks (demo_sw l k pl ps)) ! i) = 1" "length (procs (ks (demo_sw l k pl ps))) = NPROC"
  by (simp_all add: demo_sw_def blank_proc_def goto_def lock_proc_def)

lemma demo_reach:
  "sw_reach ch (demo_sw initsleeplock (Some 0) ((\<lambda>_. None)(1 := Some 1)) ((\<lambda>_. Outside)(0 := Wake_scan 0, 1 := Sleep_set)))"
proof -
  have s: "sw_reach ch s'" if "sw_reach ch s" "sw_step ch i s t" "t = s'" for s i t s' using that sw_reach_step by blast
  have c: "sw_reach ch s'" if "sw_reach ch s" "sw_call s t" "t = s'" for s t s' using that sw_reach_call by blast
  note d = demo_simps initsleeplock_def
  let ?o = "\<lambda>_. Outside" and ?n = "\<lambda>_. None"
  have "sw_reach ch (demo_sw initsleeplock None ?n ?o)" by (rule sw_reach_start) (simp add: d sw_start_def)
  then have "sw_reach ch (demo_sw initsleeplock None ?n (?o(0 := Acq_lk)))" by (rule c [OF _ call_acquire [of _ 0]]) (simp_all add: d)
  then have "sw_reach ch (demo_sw initsleeplock (Some 0) ?n (?o(0 := Acq_test)))" by (rule s [OF _ acq_lk [of _ 0]]) (simp_all add: d)
  then have "sw_reach ch (demo_sw demo_taken (Some 0) ?n (?o(0 := Acq_rel)))" by (rule s [OF _ acq_take [of _ 0]]) (simp_all add: d)
  then have "sw_reach ch (demo_sw demo_taken None ?n (?o(0 := Holder)))" by (rule s [OF _ acq_rel [of _ 0]]) (simp_all add: d)
  then have "sw_reach ch (demo_sw demo_taken None ?n (?o(0 := Holder, 1 := Acq_lk)))" by (rule c [OF _ call_acquire [of _ 1]]) (simp_all add: d)
  then have "sw_reach ch (demo_sw demo_taken (Some 1) ?n (?o(0 := Holder, 1 := Acq_test)))" by (rule s [OF _ acq_lk [of _ 1]]) (simp_all add: d)
  then have "sw_reach ch (demo_sw demo_taken (Some 1) ?n (?o(0 := Holder, 1 := Sleep_acq)))" by (rule s [OF _ acq_wait [of _ 1]]) (simp_all add: d)
  then have "sw_reach ch (demo_sw demo_taken (Some 1) (?n(1 := Some 1)) (?o(0 := Holder, 1 := Sleep_rel)))" by (rule s [OF _ sleep_acq [of _ 1]]) (simp_all add: d)
  then have "sw_reach ch (demo_sw demo_taken None (?n(1 := Some 1)) (?o(0 := Holder, 1 := Sleep_set)))" by (rule s [OF _ sleep_rel [of _ 1]]) (simp_all add: d)
  then have "sw_reach ch (demo_sw demo_taken None (?n(1 := Some 1)) (?o(0 := Rel_lk, 1 := Sleep_set)))"
    by (rule c [OF _ call_release [of _ 0]]) (simp_all add: d fun_upd_twist)
  then have "sw_reach ch (demo_sw demo_taken (Some 0) (?n(1 := Some 1)) (?o(0 := Rel_set, 1 := Sleep_set)))"
    by (rule s [OF _ rel_lk [of _ 0]]) (simp_all add: d fun_upd_twist)
  then show ?thesis by (rule s [OF _ rel_set [of _ 0]]) (simp_all add: d fun_upd_twist)
qed

theorem sleeplock_no_lost_wakeup_witness:
  "waits 1 (demo_sw initsleeplock (Some 0) ((\<lambda>_. None)(1 := Some 1)) ((\<lambda>_. Outside)(0 := Wake_scan 0, 1 := Sleep_set))) \<and>
   on_its_way 1 (demo_sw initsleeplock (Some 0) ((\<lambda>_. None)(1 := Some 1)) ((\<lambda>_. Outside)(0 := Wake_scan 0, 1 := Sleep_set)))"
proof -
  let ?s = "demo_sw initsleeplock (Some 0) ((\<lambda>_. None)(1 := Some 1)) ((\<lambda>_. Outside)(0 := Wake_scan 0, 1 := Sleep_set))"
  have "waits 1 ?s" by (simp add: waits_def demo_simps)
  moreover have "\<not> sl_locked (slk ?s)" by (simp add: demo_simps initsleeplock_def)
  ultimately show ?thesis using sleeplock_no_lost_wakeup [OF demo_reach [of Chan_log]] by blast
qed

theorem sleeplock_progress_witness:
  "\<exists>s'. (sw_inner Chan_log ^^ 1) (demo_sw initsleeplock (Some 0) ((\<lambda>_. None)(1 := Some 1)) ((\<lambda>_. Outside)(0 := Wake_scan 0, 1 := Sleep_set))) s' \<and>
     1 \<le> NPROC * (4 + 10 * NPROC) \<and> (\<not> (\<exists>t. sw_inner Chan_log s' t) \<longrightarrow>
       (\<forall>i. pc s' i = Outside \<or> pc s' i = Holder \<or> pc s' i = Asleep \<and> p_state (procs (ks s') ! i) = SLEEPING \<and> (\<exists>h. pc s' h = Holder)))"
proof -
  let ?s = "demo_sw initsleeplock (Some 0) ((\<lambda>_. None)(1 := Some 1)) ((\<lambda>_. Outside)(0 := Wake_scan 0, 1 := Sleep_set))"
  obtain s' where "sw_step Chan_log 1 ?s s'" using sleep_set [of ?s 1 Chan_log] by (auto simp: demo_simps)
  then have "(sw_inner Chan_log ^^ 1) ?s s'" unfolding relpowp_1 sw_inner_def by blast
  then show ?thesis using sleeplock_progress [OF demo_reach] by blast
qed

end
