(* ===== verification/Spec2Isabelle.thy ===== *)
theory Spec2Isabelle
  imports Trap Spinlock Vmtree Dirs Consio Machine Uprogs Shell Umalloc Sleepwake
begin

text \<open>
  A verification of the xv6-derived operating system under \<^verbatim>\<open>src/\<close>.
\<close>

end
